(* ===== verification/Prelude.thy ===== *)
theory Prelude
  imports Main "HOL-Library.Word"
begin

text \<open>
  Shared vocabulary of the development: the machine integers of the Rust sources, the three ways
  a Rust function can end, and the generic list, word and fold lemmas the components rely on.
\<close>

unbundle bit_operations_syntax

section \<open>Machine integers\<close>

type_synonym u8 = "8 word"
type_synonym u16 = "16 word"
type_synonym u32 = "32 word"
type_synonym u64 = "64 word"
type_synonym u128 = "128 word"

lemma unat_ucast_u8_u16 [simp]: "unat (ucast (x :: u8) :: u16) = unat x"
proof -
  have "unat x < 2 ^ 8" using unsigned_less [of x] by simp
  then have "unat x < 2 ^ 16" by simp
  then show ?thesis by (simp add: unsigned_ucast_eq take_bit_nat_eq_self)
qed

lemma ucast_u8_u16_u8 [simp]: "ucast (ucast (x :: u8) :: u16) = x"
  by (rule bit_word_eqI) (simp add: bit_ucast_iff)

section \<open>Outcomes\<close>

text \<open>
  A Rust function returning \<^verbatim>\<open>Result<T, E>\<close> ends with a value, with an error, or by panicking.
\<close>

datatype ('e, 'a) outcome = Ok 'a | Err 'e | Panic

fun bind_outcome :: "('e, 'a) outcome \<Rightarrow> ('a \<Rightarrow> ('e, 'b) outcome) \<Rightarrow> ('e, 'b) outcome" where
  "bind_outcome (Ok x) f = f x"
| "bind_outcome (Err e) f = Err e"
| "bind_outcome Panic f = Panic"

lemma bind_outcome_Ok_iff [simp]:
  "bind_outcome r f = Ok y \<longleftrightarrow> (\<exists>x. r = Ok x \<and> f x = Ok y)"
  by (cases r) auto

text \<open>Running a fallible step over a list, collecting the results; the first failure wins.\<close>

fun map_outcome :: "('a \<Rightarrow> ('e, 'b) outcome) \<Rightarrow> 'a list \<Rightarrow> ('e, 'b list) outcome" where
  "map_outcome f [] = Ok []"
| "map_outcome f (x # xs) = bind_outcome (f x) (\<lambda>y. bind_outcome (map_outcome f xs) (\<lambda>ys. Ok (y # ys)))"

lemma map_outcome_all_Ok:
  "(\<And>x. x \<in> set xs \<Longrightarrow> f x = Ok (g x)) \<Longrightarrow> map_outcome f xs = Ok (map g xs)"
  by (induction xs) auto

lemma map_outcome_map: "map_outcome f (map g xs) = map_outcome (f \<circ> g) xs"
  by (induction xs) auto

section \<open>Lists\<close>

lemma nth_upd_eq: "i < length xs \<Longrightarrow> xs[i := v] ! j = (if i = j then v else xs ! j)"
  by simp

text \<open>A counting loop that keeps an invariant indexed by the loop counter.\<close>

lemma fold_upt_invariant:
  assumes "P 0 s" and "\<And>i s. i < n \<Longrightarrow> P i s \<Longrightarrow> P (Suc i) (f i s)"
  shows "P n (fold f [0..<n] s)"
  using assms
proof (induction n)
  case 0
  then show ?case by simp
next
  case (Suc n)
  then have "P n (fold f [0..<n] s)" by simp
  with Suc.prems(2) [of n] show ?case by simp
qed

text \<open>A loop that writes each index of a range once.\<close>

lemma fold_update_nth:
  "length (fold (\<lambda>i d. d[i := g i]) [s..<n] xs) = length xs"
  "j < length xs \<Longrightarrow>
     fold (\<lambda>i d. d[i := g i]) [s..<n] xs ! j = (if s \<le> j \<and> j < n then g j else xs ! j)"
proof (induction n)
  case (Suc n)
  { case 1 then show ?case using Suc by (cases "s \<le> n") auto
  next
    case 2 then show ?case using Suc by (cases "s \<le> n"; cases "n = j") auto
  }
qed auto

lemma concat_pieces:
  assumes "\<forall>s \<in> set xs. length s = n"
  shows "length (concat xs) = length xs * n"
    and "j < length xs \<Longrightarrow> take n (drop (j * n) (concat xs)) = xs ! j"
proof -
  show "length (concat xs) = length xs * n"
    using assms by (induction xs) auto
  show "take n (drop (j * n) (concat xs)) = xs ! j" if "j < length xs"
    using assms that
  proof (induction xs arbitrary: j)
    case (Cons x xs)
    then show ?case by (cases j) auto
  qed simp
qed

end
