(* ===== verification/GF256.thy ===== *)
theory GF256
  imports Prelude
begin

text \<open>
  The field GF(2^8) of \<^verbatim>\<open>oceanfs-ec/src/gf/mod.rs\<close>: the log and exp tables as the two \<^verbatim>\<open>const fn\<close>
  loops build them, and the scalar operations on bytes.  The lemmas show what the tables hold
  (the powers of the generator 2), that the operations are the operations of a field (the type
  \<^verbatim>\<open>gf\<close> is an instance of class \<^verbatim>\<open>field\<close>), and that multiplication is multiplication of polynomials
  over GF(2) modulo x^8 + x^4 + x^3 + x^2 + 1.
\<close>

section \<open>The log and exp tables\<close>

text \<open>
  \<^verbatim>\<open>gf_double\<close> is the body both table loops share: shift left by one and reduce by the primitive
  polynomial when the result leaves the byte.
\<close>

definition PRIMITIVE_POLY :: u16 where
  "PRIMITIVE_POLY = 0x11D"

definition gf_double :: "u16 \<Rightarrow> u16" where
  "gf_double x = (let x' = push_bit 1 x in if 256 \<le> x' then x' XOR PRIMITIVE_POLY else x')"

definition build_log_table :: "u8 list" where
  "build_log_table =
     fst (fold (\<lambda>i (log, x). (log[unat x := of_nat i], gf_double x)) [0..<255]
       (replicate 256 0, 1))"

definition build_exp_table :: "u8 list" where
  "build_exp_table =
     (let exp = fst (fold (\<lambda>i (exp, x). (exp[i := ucast x], gf_double x)) [0..<511]
                  (replicate 512 0, 1))
      in exp[255 := exp ! 0])"

definition LOG_TABLE :: "u8 list" where "LOG_TABLE = build_log_table"
definition EXP_TABLE :: "u8 list" where "EXP_TABLE = build_exp_table"

definition gf_add :: "u8 \<Rightarrow> u8 \<Rightarrow> u8" where
  "gf_add a b = a XOR b"

definition gf_mul :: "u8 \<Rightarrow> u8 \<Rightarrow> u8" where
  "gf_mul a b =
     (if a = 0 \<or> b = 0 then 0
      else let sum = (ucast (LOG_TABLE ! unat a) :: u16) + ucast (LOG_TABLE ! unat b)
           in EXP_TABLE ! unat sum)"

text \<open>A panic of \<^verbatim>\<open>gf_div\<close> and \<^verbatim>\<open>gf_inv\<close> is the value \<^verbatim>\<open>None\<close>.\<close>

definition gf_div :: "u8 \<Rightarrow> u8 \<Rightarrow> u8 option" where
  "gf_div a b =
     (if a = 0 then Some 0
      else if b = 0 then None
      else let diff = int (unat (LOG_TABLE ! unat a)) - int (unat (LOG_TABLE ! unat b));
               idx = (if diff < 0 then diff + 255 else diff)
           in Some (EXP_TABLE ! nat idx))"

definition gf_inv :: "u8 \<Rightarrow> u8 option" where
  "gf_inv a = (if a = 0 then None else gf_div 1 a)"

section \<open>Doubling is linear\<close>

definition xt :: "u8 \<Rightarrow> u8" where
  "xt x = 2 * x XOR (if bit x 7 then 0x1D else 0)"

lemma bit_xt:
  "bit (xt x) n \<longleftrightarrow> n < 8 \<and> (0 < n \<and> bit x (n - 1)) \<noteq> (bit x 7 \<and> bit (0x1D :: u8) n)"
proof (cases "n < 8")
  case False
  then show ?thesis by (auto dest: bit_imp_le_length)
qed (simp add: xt_def bit_xor_iff bit_double_iff del: bit_numeral_word_iff)

lemma xt_xor: "xt (a XOR b) = xt a XOR xt b"
  by (rule bit_word_eqI) (simp add: bit_xt bit_xor_iff, blast)

lemma xt_0 [simp]: "xt 0 = 0"
  by (simp add: xt_def)

lemma xt_eq_0_iff [simp]: "xt x = 0 \<longleftrightarrow> x = 0"
proof
  assume h: "xt x = 0"
  have *: "\<not> bit (xt x) n" for n using h by simp
  from *[of 0] have 7: "\<not> bit x 7" by (simp add: bit_xt)
  have "\<not> bit x n" if "n < 7" for n
    using *[of "Suc n"] that 7 by (simp add: bit_xt)
  with 7 have "\<not> bit x n" if "n < 8" for n using that by (cases "n = 7") auto
  then show "x = 0"
    by (intro bit_word_eqI) simp
qed simp

lemma xor_eq_0_iff [simp]: "(a :: 'a::len word) XOR b = 0 \<longleftrightarrow> a = b"
  by (metis xor_self_eq xor.assoc xor.left_neutral xor.right_neutral)

lemma inj_xt: "inj xt"
  by (rule injI) (metis xor_eq_0_iff xt_xor xt_eq_0_iff)

lemma bit_11D: "bit (0x11D :: u16) n \<longleftrightarrow> bit (0x1D :: u8) n \<or> n = 8"
proof -
  have "(0x11D :: int) = 0x1D OR 2 ^ 8" by simp
  then have "bit (0x11D :: int) n \<longleftrightarrow> bit (0x1D :: int) n \<or> n = 8"
    by (simp only: bit_or_iff bit_exp_iff) simp
  moreover have "n < 8" if "bit (0x1D :: int) n"
  proof (rule ccontr)
    assume "\<not> n < 8"
    then have "(2 :: int) ^ 8 \<le> 2 ^ n" by (intro power_increasing) auto
    then have "(0x1D :: int) div 2 ^ n = 0" by simp
    with that show False by (simp add: bit_iff_odd)
  qed
  ultimately show ?thesis by auto
qed

lemma ucast_xt: "ucast (xt x) = 2 * (ucast x :: u16) XOR (if bit x 7 then 0x11D else 0)"
proof (rule bit_word_eqI)
  fix n assume "n < LENGTH(16)"
  have *: "n < 8 \<or> n = 8 \<and> bit x 7" if "0 < n" "bit x (n - 1)"
  proof -
    have "n - 1 < 8" using bit_imp_le_length [OF that(2)] by simp
    with that show ?thesis by (cases "n = 8") auto
  qed
  have "n < 8" if "bit (0x1D :: u8) n" using bit_imp_le_length [OF that] by simp
  with * \<open>n < LENGTH(16)\<close> show "bit (ucast (xt x) :: u16) n
      = bit (2 * (ucast x :: u16) XOR (if bit x 7 then 0x11D else 0)) n"
    by (auto simp: bit_11D bit_xt bit_ucast_iff bit_xor_iff bit_double_iff simp del: bit_numeral_word_iff)
qed

lemma bit7_iff: "bit (x :: u8) 7 \<longleftrightarrow> 128 \<le> unat x"
proof -
  have "unat x < 256" using unsigned_less [of x] by simp
  then have "unat x div 128 = (if 128 \<le> unat x then 1 else 0)"
    by (auto intro: div_nat_eqI)
  moreover have "bit x 7 \<longleftrightarrow> odd (unat x div 128)"
    using bit_unsigned_iff [of x 7, where 'a = nat] by (simp add: bit_iff_odd)
  ultimately show ?thesis by simp
qed

lemma gf_double_ucast: "gf_double (ucast x) = ucast (xt x)"
proof -
  have lt: "unat x < 256" using unsigned_less [of x] by simp
  have p: "push_bit 1 y = 2 * y" for y :: u16 by (simp add: push_bit_eq_mult)
  have "unat (2 * (ucast x :: u16)) = 2 * unat x"
    using lt by (simp add: unat_word_ariths unsigned_ucast_eq take_bit_nat_eq_self)
  then have "256 \<le> 2 * (ucast x :: u16) \<longleftrightarrow> bit x 7"
    by (simp add: word_le_nat_alt bit7_iff)
  then show ?thesis
    unfolding gf_double_def p Let_def PRIMITIVE_POLY_def ucast_xt by simp
qed

section \<open>Powers of the generator\<close>

definition gpow :: "nat \<Rightarrow> u8" where
  "gpow n = (xt ^^ n) 1"

lemma gpow_0 [simp]: "gpow 0 = 1" by (simp add: gpow_def)

lemma gpow_Suc: "gpow (Suc n) = xt (gpow n)" by (simp add: gpow_def)

lemma gpow_add: "gpow (m + n) = (xt ^^ m) (gpow n)"
  by (simp add: gpow_def funpow_add)

lemma funpow_xt_0 [simp]: "(xt ^^ n) 0 = 0"
  by (induction n) auto

lemma funpow_xt_xor: "(xt ^^ n) (a XOR b) = (xt ^^ n) a XOR (xt ^^ n) b"
  by (induction n) (auto simp: xt_xor)

lemma gpow_nonzero [simp]: "gpow n \<noteq> 0"
  by (induction n) (auto simp: gpow_Suc)

text \<open>One pass over the 255 powers, evaluated by the simplifier.\<close>

fun orbit :: "nat \<Rightarrow> u8 \<Rightarrow> u8 list" where
  "orbit 0 x = []"
| "orbit (Suc n) x = x # orbit n (xt x)"

lemma orbit_numeral: "orbit (numeral k) x = x # orbit (pred_numeral k) (xt x)"
  by (simp add: numeral_eq_Suc)

lemma length_orbit [simp]: "length (orbit n x) = n"
  by (induction n x rule: orbit.induct) auto

lemma nth_orbit: "i < n \<Longrightarrow> orbit n x ! i = (xt ^^ i) x"
proof (induction n x arbitrary: i rule: orbit.induct)
  case (2 n x)
  then show ?case by (cases i) (auto simp: funpow_swap1)
qed simp

lemma orbit_last: "orbit 256 1 ! 255 = 1"
  by (simp add: orbit_numeral xt_def)

lemma orbit_no_1: "1 \<notin> set (orbit 254 2)"
  by (simp add: orbit_numeral xt_def)

lemma gpow_255 [simp]: "gpow 255 = 1"
  using orbit_last nth_orbit [of 255 256 1] by (simp add: gpow_def)

lemma gpow_neq_1: "0 < n \<Longrightarrow> n < 255 \<Longrightarrow> gpow n \<noteq> 1"
proof -
  assume n: "0 < n" "n < 255"
  then have "gpow n = orbit 254 2 ! (n - 1)"
    by (cases n) (auto simp: nth_orbit gpow_def funpow_swap1 xt_def)
  with n have "gpow n \<in> set (orbit 254 2)" by simp
  then show ?thesis using orbit_no_1 by metis
qed

lemma gpow_periodic: "gpow (n + 255) = gpow n"
  by (metis gpow_add gpow_255 gpow_def)

lemma gpow_mod: "gpow (n mod 255) = gpow n"
proof (induction n rule: less_induct)
  case (less n)
  show ?case
  proof (cases "n < 255")
    case False
    then have "gpow ((n - 255) mod 255) = gpow (n - 255)" using less by simp
    with False gpow_periodic [of "n - 255"] show ?thesis by (simp add: le_mod_geq)
  qed simp
qed

lemma inj_on_gpow: "inj_on gpow {..<255}"
proof -
  have "False" if "i < j" "j < 255" "gpow i = gpow j" for i j
  proof -
    have "(xt ^^ i) (gpow (j - i)) = (xt ^^ i) 1"
      using that gpow_add [of i "j - i"] by (simp add: gpow_def)
    moreover have "inj (xt ^^ i)" using inj_xt by (rule inj_fn)
    ultimately have "gpow (j - i) = 1" by (simp add: inj_eq)
    moreover have "0 < j - i" "j - i < 255" using that by linarith+
    ultimately show False using gpow_neq_1 by blast
  qed
  then show ?thesis
    by (intro inj_onI) (metis lessThan_iff linorder_neq_iff)
qed

lemma gpow_surj:
  assumes "x \<noteq> 0"
  obtains i where "i < 255" "x = gpow i"
proof -
  have "card (gpow ` {..<255}) = card (- {0 :: u8})"
    using inj_on_gpow by (simp add: card_image Compl_eq_Diff_UNIV card_Diff_singleton card_word)
  moreover have "gpow ` {..<255} \<subseteq> - {0}" by auto
  ultimately have "gpow ` {..<255} = - {0}" by (intro card_subset_eq) auto
  with assms have "x \<in> gpow ` {..<255}" by simp
  with that show ?thesis by blast
qed

section \<open>What the tables hold\<close>

lemma EXP_TABLE_nth: "i < 511 \<Longrightarrow> EXP_TABLE ! i = gpow i"
proof -
  assume i: "i < 511"
  define P where "P n = (\<lambda>(e :: u8 list, x :: u16).
    length e = 512 \<and> x = ucast (gpow n) \<and> (\<forall>i < n. e ! i = gpow i))" for n
  obtain e x where ex:
      "fold (\<lambda>i (exp, x). (exp[i := ucast x], gf_double x)) [0..<511] (replicate 512 (0 :: u8), 1) = (e, x)"
    by fastforce
  have "P 511 (e, x)"
    unfolding ex [symmetric]
    by (rule fold_upt_invariant)
       (auto simp: P_def gf_double_ucast gpow_Suc nth_list_update less_Suc_eq)
  then have "length e = 512" "\<forall>i < 511. e ! i = gpow i" by (simp_all add: P_def)
  with i show ?thesis
    unfolding EXP_TABLE_def build_exp_table_def ex by (simp add: Let_def nth_list_update)
qed

lemma LOG_TABLE_gpow: "i < 255 \<Longrightarrow> LOG_TABLE ! unat (gpow i) = of_nat i"
proof -
  assume i: "i < 255"
  define P where "P n = (\<lambda>(l :: u8 list, x :: u16).
    length l = 256 \<and> x = ucast (gpow n) \<and> (\<forall>i < n. l ! unat (gpow i) = of_nat i))" for n
  obtain l x where lx:
      "fold (\<lambda>i (log, x). (log[unat x := of_nat i], gf_double x)) [0..<255] (replicate 256 (0 :: u8), 1) = (l, x)"
    by fastforce
  have ne: "unat (gpow k) \<noteq> unat (gpow n)" if "k < n" "n < 255" for k n
  proof
    assume "unat (gpow k) = unat (gpow n)"
    then have "gpow k = gpow n" by (simp add: word_unat_eq_iff)
    with inj_on_gpow that show False by (auto simp: inj_on_def)
  qed
  have lt: "unat x < 256" for x :: u8 using unsigned_less [of x] by simp
  have "P 255 (l, x)"
    unfolding lx [symmetric]
  proof (rule fold_upt_invariant, goal_cases)
    case (2 i s)
    obtain m y where "s = (m, y)" by (cases s)
    moreover have "\<forall>k < i. unat (gpow i) \<noteq> unat (gpow k)" using ne 2(1) by metis
    ultimately show ?case using 2 lt [of "gpow i"]
      by (auto simp: P_def gf_double_ucast gpow_Suc nth_list_update less_Suc_eq)
  qed (simp add: P_def)
  with i show ?thesis
    unfolding LOG_TABLE_def build_log_table_def lx by (simp add: P_def)
qed

lemma unat_LOG_gpow: "i < 255 \<Longrightarrow> unat (LOG_TABLE ! unat (gpow i)) = i"
  by (simp add: LOG_TABLE_gpow unat_of_nat)

lemma gf_mul_gpow: "i < 255 \<Longrightarrow> j < 255 \<Longrightarrow> gf_mul (gpow i) (gpow j) = gpow (i + j)"
  by (simp add: gf_mul_def Let_def unat_word_ariths unat_LOG_gpow EXP_TABLE_nth)

lemma gf_mul_0 [simp]: "gf_mul 0 b = 0" "gf_mul a 0 = 0"
  by (simp_all add: gf_mul_def)

lemma gf_mul_funpow: "i < 255 \<Longrightarrow> gf_mul (gpow i) b = (xt ^^ i) b"
proof (cases "b = 0")
  case False
  assume "i < 255"
  from False obtain j where "j < 255" "b = gpow j" by (rule gpow_surj)
  with \<open>i < 255\<close> show ?thesis by (simp add: gf_mul_gpow gpow_add)
qed simp

lemma gf_cases [case_names zero pow]:
  obtains "a = 0" | i where "i < 255" "a = gpow i"
  using gpow_surj by blast

lemma gf_mul_comm: "gf_mul a b = gf_mul b a"
  by (cases a rule: gf_cases; cases b rule: gf_cases)
     (simp_all add: gf_mul_gpow add.commute)

lemma gf_mul_xor_right: "gf_mul a (b XOR c) = gf_mul a b XOR gf_mul a c"
  by (cases a rule: gf_cases) (simp_all add: gf_mul_funpow funpow_xt_xor)

lemma gf_mul_xor_left: "gf_mul (b XOR c) a = gf_mul b a XOR gf_mul c a"
  by (metis gf_mul_comm gf_mul_xor_right)

lemma gf_mul_gpow_any: "gf_mul (gpow i) b = (xt ^^ i) b"
proof (cases b rule: gf_cases)
  case zero then show ?thesis by (induction i) simp_all
next
  case (pow j)
  have "gf_mul (gpow i) (gpow j) = gf_mul (gpow (i mod 255)) (gpow j)" by (simp add: gpow_mod)
  also have "\<dots> = gpow (i mod 255 + j)" using pow by (simp add: gf_mul_gpow)
  also have "\<dots> = gpow (i + j)" by (metis gpow_mod mod_add_left_eq)
  finally show ?thesis using pow by (simp add: gpow_add)
qed

lemma gf_mul_gpow_gpow: "gf_mul (gpow i) (gpow j) = gpow (i + j)"
  by (simp add: gf_mul_gpow_any gpow_add)

lemma gf_mul_assoc: "gf_mul (gf_mul a b) c = gf_mul a (gf_mul b c)"
  by (cases a rule: gf_cases; cases b rule: gf_cases; cases c rule: gf_cases)
     (simp_all add: gf_mul_gpow_gpow add.assoc)

lemma gf_mul_1 [simp]: "gf_mul 1 a = a" "gf_mul a 1 = a"
proof -
  show "gf_mul 1 a = a" using gf_mul_gpow_any [of 0 a] by (simp add: gpow_0)
  then show "gf_mul a 1 = a" by (simp add: gf_mul_comm)
qed

lemma gf_div_gpow:
  "i < 255 \<Longrightarrow> j < 255 \<Longrightarrow> gf_div (gpow i) (gpow j) = Some (gpow (i + (255 - j)))"
proof -
  assume ij: "i < 255" "j < 255"
  define d where "d = int i - int j"
  have 1: "gpow (nat (if d < 0 then d + 255 else d)) = gpow (i + (255 - j))"
  proof (cases "d < 0")
    case True
    with ij have "nat (d + 255) = i + (255 - j)" by (simp add: d_def)
    with True show ?thesis by simp
  next
    case False
    with ij have "nat d + 255 = i + (255 - j)" by (simp add: d_def)
    with False show ?thesis using gpow_periodic [of "nat d"] by simp
  qed
  have 2: "nat (if d < 0 then d + 255 else d) < 511" using ij by (auto simp: d_def)
  have "gf_div (gpow i) (gpow j) = Some (EXP_TABLE ! nat (if d < 0 then d + 255 else d))"
    by (simp only: gf_div_def Let_def unat_LOG_gpow ij d_def gpow_nonzero if_False)
  then show ?thesis by (simp only: EXP_TABLE_nth [OF 2] 1)
qed

lemma gf_div_mul: "b \<noteq> 0 \<Longrightarrow> \<exists>q. gf_div a b = Some q \<and> gf_mul q b = a"
proof (cases a rule: gf_cases)
  case (pow i)
  assume "b \<noteq> 0"
  with gpow_surj obtain j where j: "j < 255" "b = gpow j" by metis
  have "gpow (i + (255 - j) + j) = gpow (i + 255)" using j by simp
  also have "\<dots> = gpow i" by (rule gpow_periodic)
  finally show ?thesis using pow j by (simp add: gf_div_gpow gf_mul_gpow_gpow)
qed (simp add: gf_div_def)

section \<open>The field\<close>

datatype gf = GF (byte: u8)

instantiation gf :: field
begin

definition zero_gf :: gf where "zero_gf = GF 0"
definition one_gf :: gf where "one_gf = GF 1"
definition plus_gf :: "gf \<Rightarrow> gf \<Rightarrow> gf" where "plus_gf a b = GF (gf_add (byte a) (byte b))"
definition minus_gf :: "gf \<Rightarrow> gf \<Rightarrow> gf" where "minus_gf a b = GF (gf_add (byte a) (byte b))"
definition uminus_gf :: "gf \<Rightarrow> gf" where "uminus_gf a = a"
definition times_gf :: "gf \<Rightarrow> gf \<Rightarrow> gf" where "times_gf a b = GF (gf_mul (byte a) (byte b))"
definition inverse_gf :: "gf \<Rightarrow> gf" where
  "inverse_gf a = (case gf_inv (byte a) of None \<Rightarrow> GF 0 | Some b \<Rightarrow> GF b)"
definition divide_gf :: "gf \<Rightarrow> gf \<Rightarrow> gf" where "divide_gf a b = a * inverse b"

lemmas gf_arith_defs = zero_gf_def one_gf_def plus_gf_def minus_gf_def uminus_gf_def
  times_gf_def inverse_gf_def divide_gf_def gf_add_def

instance
proof
  fix a b c :: gf
  show "a * b * c = a * (b * c)" by (simp add: gf_arith_defs gf_mul_assoc)
  show "a * b = b * a" by (simp add: gf_arith_defs gf_mul_comm)
  show "1 * a = a" by (simp add: gf_arith_defs)
  show "a + b + c = a + (b + c)" by (simp add: gf_arith_defs xor.assoc)
  show "a + b = b + a" by (simp add: gf_arith_defs xor.commute)
  show "0 + a = a" by (simp add: gf_arith_defs)
  show "- a + a = 0" by (simp add: gf_arith_defs)
  show "a - b = a + - b" by (simp add: gf_arith_defs)
  show "(a + b) * c = a * c + b * c" by (simp add: gf_arith_defs gf_mul_xor_left)
  show "(0 :: gf) \<noteq> 1" by (simp add: gf_arith_defs)
  show "a \<noteq> 0 \<Longrightarrow> inverse a * a = 1"
    using gf_div_mul [of "byte a" 1] by (cases a) (auto simp: gf_arith_defs gf_inv_def)
  show "inverse (0 :: gf) = 0" by (simp add: gf_arith_defs gf_inv_def)
  show "a div b = a * inverse b" by (simp add: divide_gf_def)
qed

end

lemma GF_0 [simp]: "GF 0 = 0" and GF_1 [simp]: "GF 1 = 1"
  by (simp_all add: gf_arith_defs)

lemma GF_eq_0_iff [simp]: "GF a = 0 \<longleftrightarrow> a = 0"
  by (metis zero_gf_def gf.inject)

lemma byte_0 [simp]: "byte 0 = 0" and byte_1 [simp]: "byte 1 = 1"
  by (metis GF_0 gf.sel, metis GF_1 gf.sel)

lemma GF_add: "GF (gf_add a b) = GF a + GF b"
  by (simp add: gf_arith_defs)

lemma GF_mul: "GF (gf_mul a b) = GF a * GF b"
  by (simp add: gf_arith_defs)

lemma gf_neg [simp]: "- a = (a :: gf)"
  by (simp add: uminus_gf_def)

lemma gf_minus: "a - b = a + (b :: gf)"
  by (simp add: plus_gf_def minus_gf_def)

lemma gf_add_self [simp]: "a + a = (0 :: gf)"
  by (metis gf_minus diff_self)

lemma gf_add_eq_0_iff: "a + b = 0 \<longleftrightarrow> a = (b :: gf)"
  by (metis eq_iff_diff_eq_0 gf_minus)

lemma gf_div_eq: "b \<noteq> 0 \<Longrightarrow> gf_div a b = Some (byte (GF a / GF b))"
proof -
  assume b: "b \<noteq> 0"
  then obtain q where q: "gf_div a b = Some q" "gf_mul q b = a" using gf_div_mul by blast
  then have "GF q * GF b = GF a" by (simp add: GF_mul [symmetric])
  with b have "GF q = GF a / GF b" by (simp add: eq_divide_eq)
  with q show ?thesis by (metis gf.sel)
qed

lemma gf_inv_eq: "a \<noteq> 0 \<Longrightarrow> gf_inv a = Some (byte (inverse (GF a)))"
  by (simp add: gf_inv_def gf_div_eq inverse_eq_divide)

lemma gf_inv_eqI: "gf_mul a b = 1 \<Longrightarrow> gf_inv a = Some b"
proof -
  assume ab: "gf_mul a b = 1"
  then have "a \<noteq> 0" by auto
  moreover from ab have "GF a * GF b = 1" by (simp add: GF_mul [symmetric])
  ultimately show ?thesis using inverse_unique [of "GF a" "GF b"] by (simp add: gf_inv_eq)
qed

section \<open>Reference multiplication\<close>

text \<open>
  Shift-and-add multiplication in GF(2^8) with the low byte \<^verbatim>\<open>p\<close> of the reduction polynomial as an
  argument: with \<^verbatim>\<open>p = 0x1D\<close> it is the table multiplication (lemma \<^verbatim>\<open>gf_mul_clmul\<close>), with \<^verbatim>\<open>p = 0x1B\<close>
  it is the multiplication the GFNI instruction computes.
\<close>

fun clmul :: "u8 \<Rightarrow> nat \<Rightarrow> u8 \<Rightarrow> u8 \<Rightarrow> u8" where
  "clmul p 0 a b = 0"
| "clmul p (Suc n) a b =
     (if odd a then b else 0) XOR
     clmul p n (a div 2) (if bit b 7 then 2 * b XOR p else 2 * b)"

lemma clmul_numeral [simp]:
  "clmul p (numeral k) a b =
     (if odd a then b else 0) XOR
     clmul p (pred_numeral k) (a div 2) (if bit b 7 then 2 * b XOR p else 2 * b)"
  by (simp add: numeral_eq_Suc)

lemma gf_mul_2: "gf_mul 2 b = xt b"
proof -
  have "gpow 1 = 2" by (simp add: gpow_def xt_def)
  then show ?thesis using gf_mul_gpow_any [of 1 b] by simp
qed

lemma xt_half: "a = (if odd a then 1 else 0) XOR xt (a div 2)"
proof (rule bit_word_eqI)
  fix n assume n: "n < LENGTH(8)"
  have 7: "\<not> bit (a div 2) 7"
    using bit_imp_le_length [of a 8] by (auto simp: bit_Suc [symmetric])
  have lo: "bit (if odd a then 1 else 0 :: u8) n = (n = 0 \<and> odd a)" by (simp add: bit_1_iff)
  have "bit a n = (n = 0 \<and> odd a \<or> 0 < n \<and> bit (a div 2) (n - 1))"
    by (cases n) (simp_all add: bit_0 bit_Suc)
  with n 7 show "bit a n = bit ((if odd a then 1 else 0) XOR xt (a div 2)) n"
    unfolding bit_xor_iff lo bit_xt by auto
qed

lemma gf_mul_clmul_aux: "(\<And>m. n \<le> m \<Longrightarrow> \<not> bit a m) \<Longrightarrow> gf_mul a b = clmul 0x1D n a b"
proof (induction n arbitrary: a b)
  case 0
  then have "a = 0" by (intro bit_word_eqI) simp
  then show ?case by simp
next
  case (Suc n)
  have "gf_mul a b = gf_mul (if odd a then 1 else 0) b XOR gf_mul (xt (a div 2)) b"
    by (metis gf_mul_xor_left xt_half)
  also have "gf_mul (xt (a div 2)) b = gf_mul (a div 2) (xt b)"
    by (metis gf_mul_2 gf_mul_assoc gf_mul_comm)
  also have "\<dots> = clmul 0x1D n (a div 2) (xt b)"
    by (rule Suc.IH) (simp add: Suc.prems bit_Suc [symmetric])
  finally show ?case by (simp add: xt_def)
qed

lemma gf_mul_clmul: "gf_mul a b = clmul 0x1D 8 a b"
  by (rule gf_mul_clmul_aux) (auto dest: bit_imp_le_length)

section \<open>Polynomials over GF(2)\<close>

text \<open>
  A polynomial over GF(2) is the integer whose bits are its coefficients: addition is XOR,
  multiplication by x is doubling.  \<^verbatim>\<open>pmul n a b\<close> is the product of \<^verbatim>\<open>a\<close>, of degree below \<^verbatim>\<open>n\<close>, with
  \<^verbatim>\<open>b\<close>; \<^verbatim>\<open>poly_ideal\<close> holds the multiples of the primitive polynomial.
\<close>

inductive_set poly_ideal :: "int set" where
  generator: "0x11D \<in> poly_ideal"
| shift: "c \<in> poly_ideal \<Longrightarrow> 2 * c \<in> poly_ideal"
| add: "c \<in> poly_ideal \<Longrightarrow> d \<in> poly_ideal \<Longrightarrow> c XOR d \<in> poly_ideal"

fun pmul :: "nat \<Rightarrow> int \<Rightarrow> int \<Rightarrow> int" where
  "pmul 0 a b = 0"
| "pmul (Suc n) a b = (if odd a then b else 0) XOR pmul n (a div 2) (2 * b)"

lemma double_xor_int: "2 * (a XOR b) = 2 * a XOR 2 * (b :: int)"
  by (rule bit_eqI) (simp add: bit_double_iff bit_xor_iff, auto)

lemma poly_ideal_0: "0 \<in> poly_ideal"
  using poly_ideal.add [OF poly_ideal.generator poly_ideal.generator] by simp

lemma uint_ucast_u8_u16: "uint (ucast (b :: u8) :: u16) = uint b"
proof -
  have "uint b < 2 ^ 16" using uint_lt2p [of b] by simp
  then show ?thesis by (simp add: unsigned_ucast_eq take_bit_int_eq_self)
qed

lemma uint_xt: "uint (xt b) = 2 * uint b XOR (if bit b 7 then 0x11D else 0)"
proof -
  have "uint (2 * ucast b :: u16) = 2 * uint b"
    using uint_lt2p [of b] by (simp add: uint_word_ariths uint_ucast_u8_u16)
  then show ?thesis
    unfolding uint_ucast_u8_u16 [of "xt b", symmetric] ucast_xt by (simp add: uint_xor)
qed

lemma pmul_clmul:
  "c XOR uint b \<in> poly_ideal \<Longrightarrow> pmul n (uint a) c XOR uint (clmul 0x1D n a b) \<in> poly_ideal"
proof (induction n arbitrary: a b c)
  case (Suc n)
  have "2 * c XOR 2 * uint b \<in> poly_ideal"
    using poly_ideal.shift [OF Suc.prems] by (simp add: double_xor_int)
  then have "(2 * c XOR 2 * uint b) XOR (if bit b 7 then 0x11D else 0) \<in> poly_ideal"
    by (simp add: poly_ideal.add poly_ideal.generator)
  then have "2 * c XOR uint (xt b) \<in> poly_ideal" by (simp add: uint_xt xor.assoc)
  then have "pmul n (uint (a div 2)) (2 * c) XOR uint (clmul 0x1D n (a div 2) (xt b)) \<in> poly_ideal"
    by (rule Suc.IH)
  then have "((if odd a then c else 0) XOR (if odd a then uint b else 0)) XOR
      (pmul n (uint a div 2) (2 * c) XOR uint (clmul 0x1D n (a div 2) (xt b))) \<in> poly_ideal"
    using Suc.prems poly_ideal_0 by - (rule poly_ideal.add, auto simp: uint_div)
  moreover have "odd (uint a) = odd a" using bit_uint_iff [of a 0] by (simp add: bit_0)
  moreover have "(if bit b 7 then 2 * b XOR 0x1D else 2 * b) = xt b" by (simp add: xt_def)
  ultimately show ?case
    unfolding clmul.simps pmul.simps by (cases "odd a") (simp_all add: uint_xor ac_simps)
qed (simp add: poly_ideal_0)

text \<open>
  \<^verbatim>\<open>residue n c\<close> evaluates the low \<^verbatim>\<open>n\<close> coefficients of \<^verbatim>\<open>c\<close> at the generator; it vanishes on the ideal
  and is the identity on bytes, so no byte but 0 is a multiple of the primitive polynomial.
\<close>

fun residue :: "nat \<Rightarrow> int \<Rightarrow> u8" where
  "residue 0 c = 0"
| "residue (Suc n) c = (if odd c then 1 else 0) XOR xt (residue n (c div 2))"

lemma div_2_xor_int: "(c XOR d) div 2 = c div 2 XOR (d div 2 :: int)"
  by (rule bit_eqI) (simp add: bit_Suc [symmetric] bit_xor_iff)

lemma residue_0 [simp]: "residue n 0 = 0"
  by (induction n) auto

lemma residue_xor: "residue n (c XOR d) = residue n c XOR residue n d"
  by (induction n arbitrary: c d)
     (auto simp: div_2_xor_int xt_xor even_xor_iff ac_simps)

lemma residue_generator: "9 \<le> n \<Longrightarrow> residue n 0x11D = 0"
proof -
  assume "9 \<le> n"
  then obtain k where "n = Suc (Suc (Suc (Suc (Suc (Suc (Suc (Suc (Suc k))))))))"
    by (auto simp: le_iff_add)
  then show ?thesis by (simp add: xt_def)
qed

lemma poly_ideal_residue: "c \<in> poly_ideal \<Longrightarrow> \<exists>N. \<forall>n \<ge> N. residue n c = 0"
proof (induction rule: poly_ideal.induct)
  case generator
  then show ?case using residue_generator by blast
next
  case (shift c)
  then obtain N where N: "\<forall>n \<ge> N. residue n c = 0" by blast
  have "residue n (2 * c) = 0" if "Suc N \<le> n" for n using that N by (cases n) auto
  then show ?case by blast
next
  case (add c d)
  then obtain M N where "\<forall>n \<ge> M. residue n c = 0" "\<forall>n \<ge> N. residue n d = 0" by blast
  then have "\<forall>n \<ge> max M N. residue n (c XOR d) = 0" by (simp add: residue_xor)
  then show ?case by blast
qed

lemma odd_uint: "odd (uint (a :: 'a::len word)) = odd a"
  using bit_uint_iff [of a 0] by (simp add: bit_0)

lemma residue_uint: "(\<And>m. n \<le> m \<Longrightarrow> \<not> bit r m) \<Longrightarrow> residue n (uint r) = r"
proof (induction n arbitrary: r)
  case 0
  then have "r = 0" by (intro bit_word_eqI) simp
  then show ?case by simp
next
  case (Suc n)
  have "residue n (uint (r div 2)) = r div 2"
    by (rule Suc.IH) (simp add: Suc.prems bit_Suc [symmetric])
  then have "residue (Suc n) (uint r) = (if odd r then 1 else 0) XOR xt (r div 2)"
    by (simp add: odd_uint uint_div)
  then show ?case using xt_half [of r] by simp
qed

lemma uint_mem_poly_ideal: "uint (r :: u8) \<in> poly_ideal \<Longrightarrow> r = 0"
proof -
  assume "uint r \<in> poly_ideal"
  then obtain N where N: "\<forall>n \<ge> N. residue n (uint r) = 0" using poly_ideal_residue by blast
  have "residue (max N 8) (uint r) = r"
    by (rule residue_uint) (auto dest: bit_imp_le_length)
  with N show ?thesis by simp
qed

section \<open>Correctness of the scalar operations\<close>

text \<open>
  C25: for all bytes a and b, \<^verbatim>\<open>gf_mul a b\<close> (computed from the log and exp tables) is the one byte that
  is congruent to the product of the polynomials a and b modulo the primitive polynomial 0x11D.
\<close>

theorem gf_mul_polynomial:
  "pmul 8 (uint a) (uint b) XOR uint r \<in> poly_ideal \<longleftrightarrow> r = gf_mul a b"
proof -
  let ?p = "pmul 8 (uint a) (uint b)"
  have g: "?p XOR uint (gf_mul a b) \<in> poly_ideal"
    unfolding gf_mul_clmul by (rule pmul_clmul) (simp add: poly_ideal_0)
  have "r = gf_mul a b" if "?p XOR uint r \<in> poly_ideal"
  proof -
    have "(?p XOR uint r) XOR (?p XOR uint (gf_mul a b)) = uint (r XOR gf_mul a b)"
      by (simp add: uint_xor ac_simps)
    with poly_ideal.add [OF that g] have "r XOR gf_mul a b = 0"
      by (intro uint_mem_poly_ideal) simp
    then show ?thesis by simp
  qed
  with g show ?thesis by blast
qed

text \<open>
  \<^verbatim>\<open>gf_div a b\<close> returns q exactly when q times b is a, for every nonzero b; for b = 0 it returns only
  for a = 0, with quotient 0, and panics otherwise.
\<close>

theorem gf_div_correct:
  "gf_div a b = Some q \<longleftrightarrow> (if b = 0 then a = 0 \<and> q = 0 else gf_mul q b = a)"
proof (cases "b = 0")
  case False
  then obtain q' where q': "gf_div a b = Some q'" "gf_mul q' b = a" using gf_div_mul by blast
  have "q = q'" if "gf_mul q b = a"
  proof -
    have "GF q * GF b = GF q' * GF b" using that q' by (simp add: GF_mul [symmetric])
    with False show ?thesis by simp
  qed
  with False q' show ?thesis by auto
qed (auto simp: gf_div_def)

text \<open>
  \<^verbatim>\<open>gf_inv a\<close> returns q exactly when a times q is 1; it panics exactly for a = 0.
\<close>

theorem gf_inv_correct:
  "(gf_inv a = Some q \<longleftrightarrow> gf_mul a q = 1) \<and> (gf_inv a = None \<longleftrightarrow> a = 0)"
proof (cases "a = 0")
  case False
  obtain q' where q': "gf_inv a = Some q'" "gf_mul a q' = 1"
    using gf_div_mul [OF False, of 1] False by (auto simp: gf_inv_def gf_mul_comm)
  with gf_inv_eqI [of a q] False show ?thesis by auto
qed (simp add: gf_inv_def)

end
