(* ===== verification/GFSimd.thy ===== *)
theory GFSimd
  imports GF256
begin

text \<open>
  Batched multiplication by one coefficient, \<^verbatim>\<open>oceanfs-ec/src/gf/simd_x86.rs\<close>: the detection of the
  SIMD level, the split tables, one kernel per vector width, the batch loops with their remainders
  and the dispatcher \<^verbatim>\<open>gf_mul_simd\<close>.  A vector register and a buffer are lists of bytes in memory
  order; the \<^verbatim>\<open>std::arch\<close> intrinsics the kernels use are modelled byte by byte from their
  documentation.
\<close>

section \<open>Detection of the SIMD level\<close>

datatype GfSimdLevel = Portable | Sse41 | Avx2 | Avx512 | Gfni

text \<open>What \<^verbatim>\<open>is_x86_feature_detected!\<close> answers, and whether the target is x86-64 at all.\<close>

record cpu =
  x86_64 :: bool
  has_gfni :: bool
  has_avx512f :: bool
  has_avx512bw :: bool
  has_avx2 :: bool
  has_sse41 :: bool

fun level_to_u8 :: "GfSimdLevel \<Rightarrow> u8" where
  "level_to_u8 Portable = 0"
| "level_to_u8 Sse41 = 1"
| "level_to_u8 Avx2 = 2"
| "level_to_u8 Avx512 = 3"
| "level_to_u8 Gfni = 4"

definition from_u8 :: "u8 \<Rightarrow> GfSimdLevel" where
  "from_u8 v = (if v = 0 then Portable else if v = 1 then Sse41 else if v = 2 then Avx2
     else if v = 3 then Avx512 else if v = 4 then Gfni else Portable)"

definition detect_features :: "cpu \<Rightarrow> GfSimdLevel" where
  "detect_features c =
     (if \<not> x86_64 c then Portable
      else if has_gfni c \<and> (has_avx512f c \<or> has_avx2 c) then Gfni
      else if has_avx512f c \<and> has_avx512bw c then Avx512
      else if has_avx2 c then Avx2
      else if has_sse41 c then Sse41
      else Portable)"

text \<open>\<^verbatim>\<open>GF_SIMD_LEVEL\<close> is an atomic byte, initially \<^verbatim>\<open>u8::MAX\<close>: \<^verbatim>\<open>detect\<close> returns the level and the byte it leaves.\<close>

definition GF_SIMD_LEVEL_init :: u8 where "GF_SIMD_LEVEL_init = 255"

definition detect :: "cpu \<Rightarrow> u8 \<Rightarrow> GfSimdLevel \<times> u8" where
  "detect c cached =
     (if cached \<noteq> 255 then (from_u8 cached, cached)
      else let level = detect_features c in (level, level_to_u8 level))"

definition cached_level :: "u8 \<Rightarrow> GfSimdLevel option" where
  "cached_level v = (if v = 255 then None else Some (from_u8 v))"

section \<open>The intrinsics\<close>

definition set1_epi8 :: "nat \<Rightarrow> u8 \<Rightarrow> u8 list" where
  "set1_epi8 w c = replicate w c"

definition and_si :: "u8 list \<Rightarrow> u8 list \<Rightarrow> u8 list" where
  "and_si a b = map2 (AND) a b"

definition xor_si :: "u8 list \<Rightarrow> u8 list \<Rightarrow> u8 list" where
  "xor_si a b = map2 (XOR) a b"

text \<open>
  Shift of every 64-bit lane right by 4: the lanes are little endian, so the low nibble of the next
  byte of the lane enters a byte from above.
\<close>

definition srli_epi64_4 :: "u8 list \<Rightarrow> u8 list" where
  "srli_epi64_4 v =
     map (\<lambda>i. drop_bit 4 (v ! i) OR (if i mod 8 < 7 then push_bit 4 (v ! Suc i) else 0)) [0..<length v]"

text \<open>Byte shuffle inside each 128-bit lane; an index with the top bit set selects 0.\<close>

definition shuffle_epi8 :: "u8 list \<Rightarrow> u8 list \<Rightarrow> u8 list" where
  "shuffle_epi8 t v =
     map (\<lambda>i. if bit (v ! i) 7 then 0 else t ! (16 * (i div 16) + unat (v ! i AND 0x0F))) [0..<length v]"

definition broadcast_128 :: "nat \<Rightarrow> u8 list \<Rightarrow> u8 list" where
  "broadcast_128 n t = concat (replicate n t)"

text \<open>The GFNI multiplication reduces by x^8 + x^4 + x^3 + x + 1 (0x11B).\<close>

definition gf2p8mul_epi8 :: "u8 list \<Rightarrow> u8 list \<Rightarrow> u8 list" where
  "gf2p8mul_epi8 a b = map2 (clmul 0x1B 8) a b"

definition store_at :: "u8 list \<Rightarrow> nat \<Rightarrow> u8 list \<Rightarrow> u8 list" where
  "store_at dst off v = take off dst @ v @ drop (off + length v) dst"

section \<open>Kernels\<close>

record GfMulTableX86 =
  lo :: "u8 list"
  hi :: "u8 list"

definition GfMulTableX86_new :: "u8 \<Rightarrow> GfMulTableX86" where
  "GfMulTableX86_new coeff =
     \<lparr>lo = map (\<lambda>i. gf_mul coeff (of_nat i)) [0..<16],
      hi = map (\<lambda>i. gf_mul coeff (of_nat i * 16)) [0..<16]\<rparr>"

definition gf_mul_sse41_16 :: "GfMulTableX86 \<Rightarrow> u8 list \<Rightarrow> u8 list" where
  "gf_mul_sse41_16 table data =
     (let mask = set1_epi8 16 0x0F;
          lo_nibbles = and_si data mask;
          hi_tmp = srli_epi64_4 data;
          hi_nibbles = and_si hi_tmp mask;
          lo_result = shuffle_epi8 (lo table) lo_nibbles;
          hi_result = shuffle_epi8 (hi table) hi_nibbles
      in xor_si lo_result hi_result)"

definition gf_mul_avx2_32 :: "GfMulTableX86 \<Rightarrow> u8 list \<Rightarrow> u8 list" where
  "gf_mul_avx2_32 table data =
     (let mask = set1_epi8 32 0x0F;
          lo_nibbles = and_si data mask;
          hi_tmp = srli_epi64_4 data;
          hi_nibbles = and_si hi_tmp mask;
          lo_table = broadcast_128 2 (lo table);
          hi_table = broadcast_128 2 (hi table);
          lo_result = shuffle_epi8 lo_table lo_nibbles;
          hi_result = shuffle_epi8 hi_table hi_nibbles
      in xor_si lo_result hi_result)"

definition gf_mul_avx512_64 :: "GfMulTableX86 \<Rightarrow> u8 list \<Rightarrow> u8 list" where
  "gf_mul_avx512_64 table data =
     (let mask = set1_epi8 64 0x0F;
          lo_nibbles = and_si data mask;
          hi_tmp = srli_epi64_4 data;
          hi_nibbles = and_si hi_tmp mask;
          lo_table = broadcast_128 4 (lo table);
          hi_table = broadcast_128 4 (hi table);
          lo_result = shuffle_epi8 lo_table lo_nibbles;
          hi_result = shuffle_epi8 hi_table hi_nibbles
      in xor_si lo_result hi_result)"

definition gf_mul_gfni_avx512_64 :: "u8 \<Rightarrow> u8 list \<Rightarrow> u8 list" where
  "gf_mul_gfni_avx512_64 coeff data = gf2p8mul_epi8 data (set1_epi8 64 coeff)"

definition gf_mul_gfni_avx2_32 :: "u8 \<Rightarrow> u8 list \<Rightarrow> u8 list" where
  "gf_mul_gfni_avx2_32 coeff data = gf2p8mul_epi8 data (set1_epi8 32 coeff)"

section \<open>Batch loops\<close>

text \<open>
  \<^verbatim>\<open>chunk_loop\<close> is the loop the batch functions share: load \<^verbatim>\<open>w\<close> bytes at \<^verbatim>\<open>chunk * w\<close>, apply the kernel,
  store the result at the same offset.  \<^verbatim>\<open>scalar_loop\<close> is the byte loop from \<^verbatim>\<open>start\<close> to the end.
\<close>

definition chunk_loop :: "nat \<Rightarrow> (u8 list \<Rightarrow> u8 list) \<Rightarrow> nat \<Rightarrow> u8 list \<Rightarrow> u8 list \<Rightarrow> u8 list" where
  "chunk_loop w kern chunks data dst =
     fold (\<lambda>chunk dst. let offset = chunk * w
                       in store_at dst offset (kern (take w (drop offset data)))) [0..<chunks] dst"

definition scalar_loop :: "u8 \<Rightarrow> nat \<Rightarrow> u8 list \<Rightarrow> u8 list \<Rightarrow> u8 list" where
  "scalar_loop coeff start data dst =
     fold (\<lambda>i dst. dst[i := gf_mul coeff (data ! i)]) [start..<length data] dst"

text \<open>The remainder of the AVX2 loops: one SSE4.1 vector when 16 bytes are left, then scalar.\<close>

definition sse_remainder :: "u8 \<Rightarrow> GfMulTableX86 \<Rightarrow> nat \<Rightarrow> u8 list \<Rightarrow> u8 list \<Rightarrow> u8 list" where
  "sse_remainder coeff table remainder_start data dst =
     (let remainder = length data - remainder_start
      in if remainder \<ge> 16
         then let dst = store_at dst remainder_start
                    (gf_mul_sse41_16 table (take 16 (drop remainder_start data)))
              in scalar_loop coeff (remainder_start + 16) data dst
         else scalar_loop coeff remainder_start data dst)"

definition gf_mul_sse41_batch :: "u8 \<Rightarrow> u8 list \<Rightarrow> u8 list \<Rightarrow> u8 list" where
  "gf_mul_sse41_batch coeff data dst =
     (let chunks = length data div 16;
          table = GfMulTableX86_new coeff;
          dst = chunk_loop 16 (gf_mul_sse41_16 table) chunks data dst
      in scalar_loop coeff (chunks * 16) data dst)"

definition gf_mul_avx2_batch :: "u8 \<Rightarrow> u8 list \<Rightarrow> u8 list \<Rightarrow> u8 list" where
  "gf_mul_avx2_batch coeff data dst =
     (let chunks = length data div 32;
          table = GfMulTableX86_new coeff;
          dst = chunk_loop 32 (gf_mul_avx2_32 table) chunks data dst
      in sse_remainder coeff table (chunks * 32) data dst)"

definition gf_mul_avx512_batch :: "u8 \<Rightarrow> u8 list \<Rightarrow> u8 list \<Rightarrow> u8 list" where
  "gf_mul_avx512_batch coeff data dst =
     (let chunks = length data div 64;
          table = GfMulTableX86_new coeff;
          dst = chunk_loop 64 (gf_mul_avx512_64 table) chunks data dst;
          remainder_start = chunks * 64
      in if remainder_start < length data
         then take remainder_start dst @
              gf_mul_avx2_batch coeff (drop remainder_start data) (drop remainder_start dst)
         else dst)"

definition gf_mul_gfni_avx2_batch :: "u8 \<Rightarrow> u8 list \<Rightarrow> u8 list \<Rightarrow> u8 list" where
  "gf_mul_gfni_avx2_batch coeff data dst =
     (let chunks = length data div 32;
          dst = chunk_loop 32 (gf_mul_gfni_avx2_32 coeff) chunks data dst
      in sse_remainder coeff (GfMulTableX86_new coeff) (chunks * 32) data dst)"

definition gf_mul_gfni_avx512_batch :: "u8 \<Rightarrow> u8 list \<Rightarrow> u8 list \<Rightarrow> u8 list" where
  "gf_mul_gfni_avx512_batch coeff data dst =
     (let chunks = length data div 64;
          dst = chunk_loop 64 (gf_mul_gfni_avx512_64 coeff) chunks data dst;
          remainder_start = chunks * 64
      in if remainder_start < length data
         then take remainder_start dst @
              gf_mul_gfni_avx2_batch coeff (drop remainder_start data) (drop remainder_start dst)
         else dst)"

text \<open>
  The dispatcher, for buffers of equal length.  The level comes from \<^verbatim>\<open>detect\<close> with the cached byte as an argument.
  \<^verbatim>\<open>None\<close> is a panic: of the length assertion of \<^verbatim>\<open>gf_mul_simd\<close>, or in \<^verbatim>\<open>gf_mul_simd_unchecked\<close> of the assertion
  each batch function starts with, and of the index check of the portable loop.
\<close>

definition gf_mul_dispatch :: "cpu \<Rightarrow> u8 \<Rightarrow> u8 \<Rightarrow> u8 list \<Rightarrow> u8 list \<Rightarrow> u8 list" where
  "gf_mul_dispatch c cached coeff data dst =
     (case fst (detect c cached) of
        Gfni \<Rightarrow> if has_avx512f c \<and> has_avx512bw c
                then gf_mul_gfni_avx512_batch coeff data dst
                else gf_mul_gfni_avx2_batch coeff data dst
      | Avx512 \<Rightarrow> gf_mul_avx512_batch coeff data dst
      | Avx2 \<Rightarrow> gf_mul_avx2_batch coeff data dst
      | Sse41 \<Rightarrow> gf_mul_sse41_batch coeff data dst
      | Portable \<Rightarrow> scalar_loop coeff 0 data dst)"

definition gf_mul_simd :: "cpu \<Rightarrow> u8 \<Rightarrow> u8 \<Rightarrow> u8 list \<Rightarrow> u8 list \<Rightarrow> u8 list option" where
  "gf_mul_simd c cached coeff data dst =
     (if length data \<noteq> length dst then None else Some (gf_mul_dispatch c cached coeff data dst))"

definition gf_mul_simd_unchecked :: "cpu \<Rightarrow> u8 \<Rightarrow> u8 \<Rightarrow> u8 list \<Rightarrow> u8 list \<Rightarrow> u8 list option" where
  "gf_mul_simd_unchecked c cached coeff data dst =
     (if fst (detect c cached) = Portable
      then if length dst < length data then None else Some (scalar_loop coeff 0 data dst)
      else if length data \<noteq> length dst then None else Some (gf_mul_dispatch c cached coeff data dst))"

section \<open>Detection is stable\<close>

lemma from_level_to_u8 [simp]: "from_u8 (level_to_u8 l) = l"
  by (cases l) (simp_all add: from_u8_def)

lemma level_to_u8_neq [simp]: "level_to_u8 l \<noteq> 255"
  by (cases l) simp_all

text \<open>The bytes \<^verbatim>\<open>GF_SIMD_LEVEL\<close> can hold on a given CPU.\<close>

inductive_set level_cache :: "cpu \<Rightarrow> u8 set" for c where
  init: "GF_SIMD_LEVEL_init \<in> level_cache c"
| detect: "v \<in> level_cache c \<Longrightarrow> snd (detect c v) \<in> level_cache c"

lemma level_cache_cases: "v \<in> level_cache c \<Longrightarrow> v = 255 \<or> v = level_to_u8 (detect_features c)"
  by (induction rule: level_cache.induct) (auto simp: GF_SIMD_LEVEL_init_def detect_def Let_def)

lemma detect_level_cache: "v \<in> level_cache c \<Longrightarrow> fst (detect c v) = detect_features c"
  using level_cache_cases by (fastforce simp: detect_def Let_def)

section \<open>The split-table kernels multiply\<close>

lemma nibble_take_bit: "(b AND 0x0F :: u8) = take_bit 4 b"
proof -
  have "(0x0F :: u8) = mask 4" by (simp add: mask_eq_exp_minus_1)
  then show ?thesis by (simp only: take_bit_eq_mask)
qed

lemma nibble_and: "bit (b AND 0x0F :: u8) n \<longleftrightarrow> n < 4 \<and> bit b n"
  by (simp only: nibble_take_bit bit_take_bit_iff)

lemma nibble_less: "unat (b AND 0x0F :: u8) < 16"
  using take_bit_nat_less_exp [of 4 "unat b"]
  by (simp only: nibble_take_bit unsigned_take_bit_eq) simp

lemma hi_nibble: "(drop_bit 4 b OR (if c then push_bit 4 d else 0)) AND 0x0F = drop_bit 4 (b :: u8)"
  by (rule bit_word_eqI)
     (auto simp: nibble_and bit_or_iff bit_drop_bit_eq bit_push_bit_iff dest: bit_imp_le_length)

lemma split_nibbles: "(b AND 0x0F) XOR (drop_bit 4 b * 16) = (b :: u8)"
proof -
  have "drop_bit 4 b * 16 = push_bit 4 (drop_bit 4 b)" by (simp add: push_bit_eq_mult)
  then show ?thesis
    by (simp, intro bit_word_eqI)
       (auto simp: bit_xor_iff nibble_and bit_push_bit_iff bit_drop_bit_eq)
qed

lemma nth_broadcast: "length t = 16 \<Longrightarrow> i < n \<Longrightarrow> j < 16 \<Longrightarrow> broadcast_128 n t ! (16 * i + j) = t ! j"
  unfolding broadcast_128_def
proof (induction n arbitrary: i)
  case (Suc n)
  then show ?case by (cases i) (auto simp: nth_append)
qed simp

definition split_kernel :: "nat \<Rightarrow> GfMulTableX86 \<Rightarrow> u8 list \<Rightarrow> u8 list" where
  "split_kernel n table data =
     xor_si (shuffle_epi8 (broadcast_128 n (lo table)) (and_si data (set1_epi8 (16 * n) 0x0F)))
       (shuffle_epi8 (broadcast_128 n (hi table)) (and_si (srli_epi64_4 data) (set1_epi8 (16 * n) 0x0F)))"

lemma kernel_eq_split:
  "gf_mul_sse41_16 = split_kernel 1" "gf_mul_avx2_32 = split_kernel 2" "gf_mul_avx512_64 = split_kernel 4"
  by (auto simp: fun_eq_iff split_kernel_def gf_mul_sse41_16_def gf_mul_avx2_32_def
      gf_mul_avx512_64_def Let_def broadcast_128_def)

lemma bit7_nibble: "\<not> bit (b AND 0x0F :: u8) 7"
  by (simp add: nibble_and)

lemma split_kernel_correct:
  assumes len: "length data = 16 * n"
  shows "split_kernel n (GfMulTableX86_new c) data = map (gf_mul c) data"
proof (rule nth_equalityI)
  show "length (split_kernel n (GfMulTableX86_new c) data) = length (map (gf_mul c) data)"
    using len by (simp add: split_kernel_def xor_si_def shuffle_epi8_def and_si_def set1_epi8_def srli_epi64_4_def)
  fix i assume "i < length (split_kernel n (GfMulTableX86_new c) data)"
  with len have i: "i < 16 * n"
    by (simp add: split_kernel_def xor_si_def shuffle_epi8_def and_si_def set1_epi8_def srli_epi64_4_def)
  define b where "b = data ! i"
  have lane: "i div 16 < n" using i by (simp add: less_mult_imp_div_less mult.commute)
  have hi4: "drop_bit 4 b AND 0x0F = drop_bit 4 b" using hi_nibble [of b False] by simp
  then have u: "unat (drop_bit 4 b) < 16" using nibble_less [of "drop_bit 4 b"] by simp
  have "split_kernel n (GfMulTableX86_new c) data ! i
      = gf_mul c (b AND 0x0F) XOR gf_mul c (drop_bit 4 b * 16)"
    using i len lane nibble_less [of b] bit7_nibble [of b] bit7_nibble [of "drop_bit 4 b"] u
    by (simp add: split_kernel_def xor_si_def shuffle_epi8_def and_si_def set1_epi8_def
        srli_epi64_4_def hi_nibble b_def [symmetric] hi4 nth_broadcast GfMulTableX86_new_def)
  then show "split_kernel n (GfMulTableX86_new c) data ! i = map (gf_mul c) data ! i"
    using i len by (simp add: gf_mul_xor_right [symmetric] split_nibbles b_def)
qed

section \<open>The batch loops\<close>

lemma length_store_at: "off + length v \<le> length dst \<Longrightarrow> length (store_at dst off v) = length dst"
  by (simp add: store_at_def)

lemma chunk_loop_correct:
  assumes kern: "\<And>v. length v = w \<Longrightarrow> kern v = map f v"
    and n: "n * w \<le> length data" and dst: "length dst = length data"
  shows "chunk_loop w kern n data dst = map f (take (n * w) data) @ drop (n * w) dst"
  using n
proof (induction n)
  case (Suc n)
  then have le: "n * w + w \<le> length data" by simp
  with Suc have "chunk_loop w kern n data dst = map f (take (n * w) data) @ drop (n * w) dst" by simp
  moreover have "kern (take w (drop (n * w) data)) = map f (take w (drop (n * w) data))"
    using le by (intro kern) simp
  ultimately have "chunk_loop w kern (Suc n) data dst
      = (map f (take (n * w) data) @ map f (take w (drop (n * w) data))) @ drop (n * w + w) dst"
    using le dst by (simp add: chunk_loop_def Let_def store_at_def min_def add.commute)
  also have "map f (take (n * w) data) @ map f (take w (drop (n * w) data)) = map f (take (n * w + w) data)"
    by (simp add: take_add)
  finally show ?case by (simp add: add.commute)
qed (simp add: chunk_loop_def)

lemma scalar_loop_correct:
  assumes "start \<le> length data" "length dst = length data"
  shows "scalar_loop coeff start data dst = take start dst @ map (gf_mul coeff) (drop start data)"
proof (rule nth_equalityI)
  note * = fold_update_nth [where g = "\<lambda>i. gf_mul coeff (data ! i)" and xs = dst]
  show len: "length (scalar_loop coeff start data dst)
      = length (take start dst @ map (gf_mul coeff) (drop start data))"
    using assms by (simp add: scalar_loop_def *)
  fix i assume "i < length (scalar_loop coeff start data dst)"
  with assms show "scalar_loop coeff start data dst ! i
      = (take start dst @ map (gf_mul coeff) (drop start data)) ! i"
    by (simp add: scalar_loop_def * nth_append)
qed

lemma kernel_correct:
  "length v = 16 \<Longrightarrow> gf_mul_sse41_16 (GfMulTableX86_new c) v = map (gf_mul c) v"
  "length v = 32 \<Longrightarrow> gf_mul_avx2_32 (GfMulTableX86_new c) v = map (gf_mul c) v"
  "length v = 64 \<Longrightarrow> gf_mul_avx512_64 (GfMulTableX86_new c) v = map (gf_mul c) v"
  by (simp_all add: kernel_eq_split split_kernel_correct)

lemma gfni_kernel_correct:
  "length v = 32 \<Longrightarrow> gf_mul_gfni_avx2_32 c v = map (\<lambda>x. clmul 0x1B 8 x c) v"
  "length v = 64 \<Longrightarrow> gf_mul_gfni_avx512_64 c v = map (\<lambda>x. clmul 0x1B 8 x c) v"
  unfolding gf_mul_gfni_avx2_32_def gf_mul_gfni_avx512_64_def gf2p8mul_epi8_def set1_epi8_def
  by (rule nth_equalityI; simp del: clmul_numeral)+

lemma sse_remainder_correct:
  assumes "rs \<le> length data" "length dst = length data"
  shows "sse_remainder coeff (GfMulTableX86_new coeff) rs data dst
       = take rs dst @ map (gf_mul coeff) (drop rs data)"
proof (cases "length data - rs \<ge> 16")
  case True
  let ?d = "store_at dst rs (map (gf_mul coeff) (take 16 (drop rs data)))"
  have "sse_remainder coeff (GfMulTableX86_new coeff) rs data dst = scalar_loop coeff (rs + 16) data ?d"
    using True by (simp add: sse_remainder_def Let_def kernel_correct)
  also have "\<dots> = take (rs + 16) ?d @ map (gf_mul coeff) (drop (rs + 16) data)"
    using True assms by (intro scalar_loop_correct) (auto simp: length_store_at)
  also have "take (rs + 16) ?d = take rs dst @ map (gf_mul coeff) (take 16 (drop rs data))"
    using True assms by (simp add: store_at_def)
  finally show ?thesis
    using append_take_drop_id [of 16 "drop rs data"] by (simp add: add.commute flip: map_append)
qed (use assms in \<open>simp add: sse_remainder_def Let_def scalar_loop_correct\<close>)

lemma div_mult_le_length: "(length xs div w) * w \<le> length xs"
  by simp

lemma gf_mul_sse41_batch_correct:
  "length dst = length data \<Longrightarrow> gf_mul_sse41_batch coeff data dst = map (gf_mul coeff) data"
  by (simp add: gf_mul_sse41_batch_def Let_def scalar_loop_correct
      chunk_loop_correct [where f = "gf_mul coeff"] kernel_correct flip: map_append)

lemma gf_mul_avx2_batch_correct:
  "length dst = length data \<Longrightarrow> gf_mul_avx2_batch coeff data dst = map (gf_mul coeff) data"
  by (simp add: gf_mul_avx2_batch_def Let_def sse_remainder_correct
      chunk_loop_correct [where f = "gf_mul coeff"] kernel_correct flip: map_append)

lemma gf_mul_avx512_batch_correct:
  "length dst = length data \<Longrightarrow> gf_mul_avx512_batch coeff data dst = map (gf_mul coeff) data"
  by (simp add: gf_mul_avx512_batch_def Let_def gf_mul_avx2_batch_correct
      chunk_loop_correct [where f = "gf_mul coeff"] kernel_correct flip: map_append)

lemma gf_mul_gfni_avx2_batch_correct:
  assumes "length dst = length data"
  shows "gf_mul_gfni_avx2_batch coeff data dst =
     map (\<lambda>x. clmul 0x1B 8 x coeff) (take (length data div 32 * 32) data) @
     map (gf_mul coeff) (drop (length data div 32 * 32) data)"
  using assms
  by (simp add: gf_mul_gfni_avx2_batch_def Let_def sse_remainder_correct
      chunk_loop_correct [where f = "\<lambda>x. clmul 0x1B 8 x coeff"] gfni_kernel_correct
      del: clmul_numeral)

lemma gf_mul_gfni_avx512_batch_correct:
  assumes "length dst = length data"
  shows "gf_mul_gfni_avx512_batch coeff data dst =
     map (\<lambda>x. clmul 0x1B 8 x coeff) (take (length data div 32 * 32) data) @
     map (gf_mul coeff) (drop (length data div 32 * 32) data)"
proof -
  define r where "r = length data div 64 * 64"
  define q where "q = length data div 32 * 32"
  have r: "r \<le> q" "q \<le> length data" "(length data - r) div 32 * 32 = q - r"
  proof -
    have 1: "length data = 64 * (length data div 64) + length data mod 64" by simp
    have "(64 * a + b) div 32 = 2 * a + b div 32" for a b :: nat
      using div_mult_self2 [of 32 b "2 * a"] by simp
    then have 2: "length data div 32 = 2 * (length data div 64) + length data mod 64 div 32"
      by (metis 1)
    show "r \<le> q" unfolding r_def q_def 2 by simp
    show "q \<le> length data" unfolding q_def by simp
    have "length data - r = length data mod 64" unfolding r_def using 1 by linarith
    then show "(length data - r) div 32 * 32 = q - r" unfolding r_def q_def 2 by simp
  qed
  have dst': "chunk_loop 64 (gf_mul_gfni_avx512_64 coeff) (length data div 64) data dst
      = map (\<lambda>x. clmul 0x1B 8 x coeff) (take r data) @ drop r dst"
    unfolding r_def using assms
    by (intro chunk_loop_correct) (simp_all add: gfni_kernel_correct del: clmul_numeral)
  have split: "take r data @ take (q - r) (drop r data) = take q data"
    using r(1) by (metis le_add_diff_inverse take_add)
  show ?thesis
  proof (cases "r < length data")
    case True
    then show ?thesis
      using assms r split
      by (simp add: gf_mul_gfni_avx512_batch_def Let_def dst' gf_mul_gfni_avx2_batch_correct
          r_def [symmetric] q_def [symmetric] del: clmul_numeral flip: map_append append_assoc)
  next
    case False
    with r have "q = r" "r = length data" by simp_all
    then show ?thesis
      using assms by (simp add: gf_mul_gfni_avx512_batch_def Let_def dst'
          r_def [symmetric] q_def [symmetric] del: clmul_numeral)
  qed
qed

section \<open>The dispatcher\<close>

lemma gf_mul_dispatch_correct:
  assumes "cached \<in> level_cache c" and "detect_features c \<noteq> Gfni" and "length data = length dst"
  shows "gf_mul_dispatch c cached coeff data dst = map (gf_mul coeff) data"
  using assms(2,3)
  by (cases "detect_features c")
     (simp_all add: gf_mul_dispatch_def detect_level_cache [OF assms(1)]
       gf_mul_avx512_batch_correct gf_mul_avx2_batch_correct gf_mul_sse41_batch_correct
       scalar_loop_correct)

text \<open>
  The unchecked variant does what the checked one does on buffers of equal length; with a vector unit it still panics on a
  destination that is longer than the data, although its contract admits one.
\<close>

lemma gf_mul_simd_unchecked_eq:
  "length data = length dst \<Longrightarrow> gf_mul_simd_unchecked c cached coeff data dst = gf_mul_simd c cached coeff data dst"
  by (simp add: gf_mul_simd_unchecked_def gf_mul_simd_def gf_mul_dispatch_def)

lemma unchecked_longer_destination:
  assumes "cached \<in> level_cache c" "length data < length dst"
  shows "gf_mul_simd_unchecked c cached coeff data dst = None \<longleftrightarrow> detect_features c \<noteq> Portable"
  using assms by (simp add: gf_mul_simd_unchecked_def detect_level_cache)

text \<open>
  C26: on every CPU for which detection does not select GFNI, in every state the cached level can be
  in, \<^verbatim>\<open>gf_mul_simd\<close> stores the product of the coefficient with each byte, exactly as the scalar
  \<^verbatim>\<open>gf_mul\<close> would, for every length, and panics exactly on a length mismatch.
\<close>

theorem gf_mul_simd_correct:
  assumes "cached \<in> level_cache c" and "detect_features c \<noteq> Gfni"
  shows "gf_mul_simd c cached coeff data dst =
    (if length data = length dst then Some (map (gf_mul coeff) data) else None)"
  using gf_mul_dispatch_correct [OF assms] by (simp add: gf_mul_simd_def)

theorem gf_mul_simd_correct_witness:
  "gf_mul_simd \<lparr>x86_64 = True, has_gfni = False, has_avx512f = False, has_avx512bw = False,
      has_avx2 = True, has_sse41 = True\<rparr> GF_SIMD_LEVEL_init 2 (replicate 50 0x80) (replicate 50 7)
    = Some (replicate 50 0x1D)"
proof -
  have "gf_mul 2 0x80 = 0x1D" by (simp add: gf_mul_clmul)
  then show ?thesis
    by (subst gf_mul_simd_correct)
       (simp_all add: level_cache.init detect_features_def)
qed

lemma gf_mul_dispatch_gfni:
  assumes "cached \<in> level_cache c" and "detect_features c = Gfni" and "length data = length dst"
  shows "gf_mul_dispatch c cached coeff data dst =
    map (\<lambda>x. clmul 0x1B 8 x coeff) (take (length data div 32 * 32) data) @
    map (gf_mul coeff) (drop (length data div 32 * 32) data)"
  using assms(2,3)
  by (simp add: gf_mul_dispatch_def detect_level_cache [OF assms(1)]
      gf_mul_gfni_avx512_batch_correct gf_mul_gfni_avx2_batch_correct del: clmul_numeral)

text \<open>
  When detection selects GFNI, \<^verbatim>\<open>gf_mul_simd\<close> multiplies the leading multiple of 32 bytes modulo
  0x11B, the polynomial of the GFNI instruction, and only the remaining bytes modulo the primitive
  polynomial 0x11D of the tables.
\<close>

theorem gf_mul_simd_gfni:
  assumes "cached \<in> level_cache c" and "detect_features c = Gfni" and "length data = length dst"
  shows "gf_mul_simd c cached coeff data dst =
    Some (map (\<lambda>x. clmul 0x1B 8 x coeff) (take (length data div 32 * 32) data) @
          map (gf_mul coeff) (drop (length data div 32 * 32) data))"
  using assms(3) by (simp only: gf_mul_simd_def gf_mul_dispatch_gfni [OF assms] simp_thms if_False)

theorem gf_mul_simd_gfni_witness:
  "gf_mul_simd \<lparr>x86_64 = True, has_gfni = True, has_avx512f = False, has_avx512bw = False,
      has_avx2 = True, has_sse41 = True\<rparr> GF_SIMD_LEVEL_init 2 (replicate 33 0x80) (replicate 33 0)
    = Some (replicate 32 0x1B @ [0x1D])"
proof -
  have "gf_mul 2 0x80 = 0x1D" "clmul 0x1B 8 0x80 2 = 0x1B"
    by (simp_all add: gf_mul_clmul)
  then show ?thesis
    by (subst gf_mul_simd_gfni)
       (simp_all add: level_cache.init detect_features_def
         del: clmul_numeral)
qed

end
