(* ===== verification/GFMatrix.thy ===== *)
theory GFMatrix
  imports GF256
begin

text \<open>
  Gauss-Jordan inversion over GF(2^8), \<^verbatim>\<open>CauchyEncoder::invert_matrix\<close> of \<^verbatim>\<open>oceanfs-ec/src/cauchy.rs\<close>.
  A matrix is a list of rows.  The proofs follow the augmented matrix \<^verbatim>\<open>[L | R]\<close> through the row
  operations: every row of L stays the combination of the input rows that R records, the kernel of
  L stays inside the kernel of the input, and the columns already treated are unit columns.
\<close>

section \<open>The algorithm\<close>

definition augment :: "u8 list list \<Rightarrow> u8 list list" where
  "augment matrix =
     (let n = length matrix
      in map (\<lambda>i. map (\<lambda>j. if j < n then matrix ! i ! j else if j = n + i then 1 else 0) [0..<2 * n])
           [0..<n])"

function find_pivot :: "u8 list list \<Rightarrow> nat \<Rightarrow> nat \<Rightarrow> nat" where
  "find_pivot aug col pivot_row =
     (if pivot_row < length aug \<and> aug ! pivot_row ! col = 0
      then find_pivot aug col (Suc pivot_row) else pivot_row)"
  by auto
termination by (relation "measure (\<lambda>(aug, col, r). length aug - r)") auto

declare find_pivot.simps [simp del]

definition swap_rows :: "nat \<Rightarrow> nat \<Rightarrow> 'a list \<Rightarrow> 'a list" where
  "swap_rows i j xs = xs[i := xs ! j, j := xs ! i]"

definition normalize_row :: "nat \<Rightarrow> u8 \<Rightarrow> u8 list list \<Rightarrow> u8 list list" where
  "normalize_row col iv aug = aug[col := map (\<lambda>x. gf_mul x iv) (aug ! col)]"

definition eliminate_row :: "nat \<Rightarrow> nat \<Rightarrow> u8 list list \<Rightarrow> u8 list list" where
  "eliminate_row col row aug =
     (if row = col then aug
      else let factor = aug ! row ! col
           in if factor \<noteq> 0
              then aug[row := map2 (\<lambda>x y. gf_add x (gf_mul factor y)) (aug ! row) (aug ! col)]
              else aug)"

definition pivot_step :: "nat \<Rightarrow> u8 list list \<Rightarrow> (unit, u8 list list) outcome" where
  "pivot_step col aug =
     (let n = length aug; pivot_row = find_pivot aug col col
      in if pivot_row = n then Err ()
         else let aug = swap_rows col pivot_row aug
              in case gf_inv (aug ! col ! col) of
                   None \<Rightarrow> Panic
                 | Some iv \<Rightarrow> Ok (fold (eliminate_row col) [0..<n] (normalize_row col iv aug)))"

fun pivot_loop :: "nat list \<Rightarrow> u8 list list \<Rightarrow> (unit, u8 list list) outcome" where
  "pivot_loop [] aug = Ok aug"
| "pivot_loop (col # cols) aug = bind_outcome (pivot_step col aug) (pivot_loop cols)"

text \<open>\<^verbatim>\<open>None\<close> of the source is \<^verbatim>\<open>Err ()\<close>; a row shorter than the matrix is an index panic.\<close>

definition invert_matrix :: "u8 list list \<Rightarrow> (unit, u8 list list) outcome" where
  "invert_matrix matrix =
     (let n = length matrix
      in if \<exists>row \<in> set matrix. length row < n then Panic
         else bind_outcome (pivot_loop [0..<n] (augment matrix))
                (\<lambda>aug. Ok (map (\<lambda>i. map (\<lambda>j. aug ! i ! (n + j)) [0..<n]) [0..<n])))"

section \<open>Entries as field elements\<close>

definition ent :: "u8 list list \<Rightarrow> nat \<Rightarrow> nat \<Rightarrow> gf" where
  "ent m i j = GF (m ! i ! j)"

definition wf_aug :: "nat \<Rightarrow> u8 list list \<Rightarrow> bool" where
  "wf_aug n aug \<longleftrightarrow> length aug = n \<and> (\<forall>row \<in> set aug. length row = 2 * n)"

definition trivial_kernel :: "nat \<Rightarrow> (nat \<Rightarrow> nat \<Rightarrow> gf) \<Rightarrow> bool" where
  "trivial_kernel n A \<longleftrightarrow>
     (\<forall>x. (\<forall>r < n. (\<Sum>j<n. A r j * x j) = 0) \<longrightarrow> (\<forall>j < n. x j = 0))"

definition row_inv :: "nat \<Rightarrow> (nat \<Rightarrow> nat \<Rightarrow> gf) \<Rightarrow> (nat \<Rightarrow> nat \<Rightarrow> gf) \<Rightarrow> bool" where
  "row_inv n A M \<longleftrightarrow> (\<forall>r < n. \<forall>j < n. M r j = (\<Sum>t<n. M r (n + t) * A t j))"

definition ker_inv :: "nat \<Rightarrow> (nat \<Rightarrow> nat \<Rightarrow> gf) \<Rightarrow> (nat \<Rightarrow> nat \<Rightarrow> gf) \<Rightarrow> bool" where
  "ker_inv n A M \<longleftrightarrow> (\<forall>x. (\<forall>r < n. (\<Sum>j<n. M r j * x j) = 0) \<longrightarrow> (\<forall>r < n. (\<Sum>j<n. A r j * x j) = 0))"

definition unit_cols :: "nat \<Rightarrow> nat \<Rightarrow> (nat \<Rightarrow> nat \<Rightarrow> gf) \<Rightarrow> bool" where
  "unit_cols n col M \<longleftrightarrow> (\<forall>r < n. \<forall>c < col. M r c = (if r = c then 1 else 0))"

definition step_inv :: "nat \<Rightarrow> (nat \<Rightarrow> nat \<Rightarrow> gf) \<Rightarrow> nat \<Rightarrow> u8 list list \<Rightarrow> bool" where
  "step_inv n A col aug \<longleftrightarrow>
     wf_aug n aug \<and> row_inv n A (ent aug) \<and> ker_inv n A (ent aug) \<and> unit_cols n col (ent aug)"

text \<open>The three row operations on functions.\<close>

definition swapF :: "nat \<Rightarrow> nat \<Rightarrow> (nat \<Rightarrow> nat \<Rightarrow> gf) \<Rightarrow> nat \<Rightarrow> nat \<Rightarrow> gf" where
  "swapF i j M r = (if r = i then M j else if r = j then M i else M r)"

definition scaleF :: "nat \<Rightarrow> gf \<Rightarrow> (nat \<Rightarrow> nat \<Rightarrow> gf) \<Rightarrow> nat \<Rightarrow> nat \<Rightarrow> gf" where
  "scaleF i s M r c = (if r = i then M r c * s else M r c)"

definition elimF :: "nat \<Rightarrow> (nat \<Rightarrow> nat \<Rightarrow> gf) \<Rightarrow> nat \<Rightarrow> nat \<Rightarrow> gf" where
  "elimF i M r c = (if r = i then M r c else M r c + M r i * M i c)"

lemma row_inv_swap: "i < n \<Longrightarrow> j < n \<Longrightarrow> row_inv n A M \<Longrightarrow> row_inv n A (swapF i j M)"
  by (auto simp: row_inv_def swapF_def)

lemma row_inv_scale: "i < n \<Longrightarrow> row_inv n A M \<Longrightarrow> row_inv n A (scaleF i s M)"
  by (auto simp: row_inv_def scaleF_def sum_distrib_left sum_distrib_right algebra_simps)

lemma row_inv_elim: "i < n \<Longrightarrow> row_inv n A M \<Longrightarrow> row_inv n A (elimF i M)"
proof -
  have "a = (\<Sum>t<n. R t * A t j) \<Longrightarrow> b = (\<Sum>t<n. S t * A t j) \<Longrightarrow>
      a + f * b = (\<Sum>t<n. (R t + f * S t) * A t j)" for a b f R S j
    by (simp add: sum_distrib_left sum.distrib algebra_simps)
  moreover assume "i < n" "row_inv n A M"
  ultimately show ?thesis by (simp add: row_inv_def elimF_def)
qed

lemma ker_inv_mono:
  assumes "\<And>x. (\<forall>r < n. (\<Sum>j<n. M' r j * x j) = 0) \<Longrightarrow> (\<forall>r < n. (\<Sum>j<n. M r j * x j) = 0)"
    and "ker_inv n A M"
  shows "ker_inv n A M'"
  using assms by (auto simp: ker_inv_def)

lemma ker_inv_swap: "i < n \<Longrightarrow> j < n \<Longrightarrow> ker_inv n A M \<Longrightarrow> ker_inv n A (swapF i j M)"
proof (rule ker_inv_mono [where M = M], intro allI impI)
  fix x r assume ij: "i < n" "j < n" and h: "\<forall>r < n. (\<Sum>k<n. swapF i j M r k * x k) = 0" and "r < n"
  then show "(\<Sum>k<n. M r k * x k) = 0"
    using h [rule_format, of i] h [rule_format, of j] h [rule_format, of r]
    by (cases "r = i"; cases "r = j") (auto simp: swapF_def)
qed

lemma ker_inv_scale: "i < n \<Longrightarrow> s \<noteq> 0 \<Longrightarrow> ker_inv n A M \<Longrightarrow> ker_inv n A (scaleF i s M)"
proof (rule ker_inv_mono [where M = M], intro allI impI)
  fix x r assume s: "s \<noteq> 0" and h: "\<forall>r < n. (\<Sum>k<n. scaleF i s M r k * x k) = 0" and r: "r < n"
  show "(\<Sum>k<n. M r k * x k) = 0"
  proof (cases "r = i")
    case True
    have "s * (\<Sum>k<n. M r k * x k) = (\<Sum>k<n. scaleF i s M r k * x k)"
      using True by (simp add: scaleF_def sum_distrib_left ac_simps)
    with h r s show ?thesis by simp
  qed (use h r in \<open>auto simp: scaleF_def\<close>)
qed

lemma ker_inv_elim: "i < n \<Longrightarrow> ker_inv n A M \<Longrightarrow> ker_inv n A (elimF i M)"
proof (rule ker_inv_mono [where M = M], intro allI impI)
  fix x r assume i: "i < n" and h: "\<forall>r < n. (\<Sum>k<n. elimF i M r k * x k) = 0" and r: "r < n"
  have hi: "(\<Sum>k<n. M i k * x k) = 0" using h [rule_format, OF i] by (simp add: elimF_def)
  show "(\<Sum>k<n. M r k * x k) = 0"
  proof (cases "r = i")
    case False
    then have "(\<Sum>k<n. elimF i M r k * x k) = (\<Sum>k<n. M r k * x k) + M r i * (\<Sum>k<n. M i k * x k)"
      by (simp add: elimF_def sum_distrib_left sum.distrib algebra_simps)
    with h r hi show ?thesis by simp
  qed (use hi in simp)
qed

lemma unit_cols_step:
  assumes "unit_cols n col M" "col < n" "p < n" "col \<le> p" "s * M p col = 1"
  shows "unit_cols n (Suc col) (elimF col (scaleF col s (swapF col p M)))"
  using assms unfolding unit_cols_def
  by (auto simp: elimF_def scaleF_def swapF_def less_Suc_eq ac_simps)

section \<open>The list operations implement the row operations\<close>

lemma step_inv_cong:
  assumes "wf_aug n aug'" "row_inv n A M" "ker_inv n A M" "unit_cols n col M" "col \<le> n"
    and eq: "\<And>r c. r < n \<Longrightarrow> c < 2 * n \<Longrightarrow> ent aug' r c = M r c"
  shows "step_inv n A col aug'"
proof -
  have "(\<Sum>t<n. ent aug' r (n + t) * A t j) = (\<Sum>t<n. M r (n + t) * A t j)"
    "(\<Sum>j<n. ent aug' r j * x j) = (\<Sum>j<n. M r j * x j)" if "r < n" for r j x
    using that by (auto intro!: sum.cong simp: eq)
  with assms show ?thesis
    by (auto simp: step_inv_def row_inv_def ker_inv_def unit_cols_def)
qed

lemma ent_swap: "i < length aug \<Longrightarrow> j < length aug \<Longrightarrow> ent (swap_rows i j aug) = swapF i j (ent aug)"
  by (auto simp: fun_eq_iff ent_def swap_rows_def swapF_def nth_list_update)

lemma wf_swap: "i < n \<Longrightarrow> j < n \<Longrightarrow> wf_aug n aug \<Longrightarrow> wf_aug n (swap_rows i j aug)"
  by (auto simp: wf_aug_def swap_rows_def dest!: subsetD [OF set_update_subset_insert])

lemma wf_aug_nth: "wf_aug n aug \<Longrightarrow> r < n \<Longrightarrow> length (aug ! r) = 2 * n"
  by (simp add: wf_aug_def)

lemma wf_normalize: "i < n \<Longrightarrow> wf_aug n aug \<Longrightarrow> wf_aug n (normalize_row i iv aug)"
  by (auto simp: wf_aug_def normalize_row_def dest!: subsetD [OF set_update_subset_insert])

lemma ent_normalize:
  "wf_aug n aug \<Longrightarrow> i < n \<Longrightarrow> c < 2 * n \<Longrightarrow> ent (normalize_row i iv aug) r c = scaleF i (GF iv) (ent aug) r c"
  by (auto simp: ent_def normalize_row_def scaleF_def nth_list_update wf_aug_def GF_mul)

definition addrow :: "u8 \<Rightarrow> u8 list \<Rightarrow> u8 list \<Rightarrow> u8 list" where
  "addrow f u v = map2 (\<lambda>x y. gf_add x (gf_mul f y)) u v"

lemma addrow_0: "length u = length v \<Longrightarrow> addrow 0 u v = u"
  by (auto simp: addrow_def gf_add_def intro: nth_equalityI)

lemma fold_eliminate:
  assumes wf: "wf_aug n aug" and col: "col < n"
  shows "length (fold (eliminate_row col) [0..<n] aug) = n \<and>
    (\<forall>r < n. fold (eliminate_row col) [0..<n] aug ! r =
      (if r \<noteq> col then addrow (aug ! r ! col) (aug ! r) (aug ! col) else aug ! r))"
proof -
  define P where "P k s \<longleftrightarrow> length s = n \<and> (\<forall>r < n. s ! r =
      (if r < k \<and> r \<noteq> col then addrow (aug ! r ! col) (aug ! r) (aug ! col) else aug ! r))" for k s
  have "P n (fold (eliminate_row col) [0..<n] aug)"
  proof (rule fold_upt_invariant)
    fix k s assume k: "k < n" and P: "P k s"
    then have s: "s ! k = aug ! k" "s ! col = aug ! col" using col by (simp_all add: P_def)
    have "eliminate_row col k s ! k = (if k \<noteq> col then addrow (aug ! k ! col) (aug ! k) (aug ! col) else aug ! k)"
      using P k s wf_aug_nth [OF wf] col
      by (auto simp: eliminate_row_def Let_def addrow_0 P_def simp flip: addrow_def)
    moreover have "eliminate_row col k s ! r = s ! r" if "r \<noteq> k" for r
      using that by (simp add: eliminate_row_def Let_def)
    moreover have "length (eliminate_row col k s) = length s"
      by (simp add: eliminate_row_def Let_def)
    ultimately have "length (eliminate_row col k s) = n"
      "r < n \<Longrightarrow> eliminate_row col k s ! r = (if r < Suc k \<and> r \<noteq> col
         then addrow (aug ! r ! col) (aug ! r) (aug ! col) else aug ! r)" for r
      using P by (cases "r = k"; simp add: P_def less_Suc_eq)+
    then show "P (Suc k) (eliminate_row col k s)" by (simp add: P_def)
  qed (use wf in \<open>simp add: P_def wf_aug_def\<close>)
  then show ?thesis by (simp add: P_def)
qed

lemma eliminate_correct:
  assumes wf: "wf_aug n aug" and col: "col < n"
  defines "aug' \<equiv> fold (eliminate_row col) [0..<n] aug"
  shows "wf_aug n aug'" and "r < n \<Longrightarrow> c < 2 * n \<Longrightarrow> ent aug' r c = elimF col (ent aug) r c"
proof -
  note * = fold_eliminate [OF wf col, folded aug'_def]
  have "length (aug' ! r) = 2 * n" if "r < n" for r
    using * that wf_aug_nth [OF wf] col by (simp add: addrow_def)
  with * show "wf_aug n aug'" by (auto simp: wf_aug_def in_set_conv_nth)
  assume "r < n" "c < 2 * n"
  with * wf_aug_nth [OF wf] col show "ent aug' r c = elimF col (ent aug) r c"
    by (simp add: ent_def elimF_def addrow_def GF_add GF_mul)
qed

lemma find_pivot_spec:
  "r \<le> length aug \<Longrightarrow> (let p = find_pivot aug col r in
     r \<le> p \<and> p \<le> length aug \<and> (\<forall>i. r \<le> i \<and> i < p \<longrightarrow> aug ! i ! col = 0) \<and>
     (p < length aug \<longrightarrow> aug ! p ! col \<noteq> 0))"
proof (induction aug col r rule: find_pivot.induct)
  case (1 aug col r)
  show ?case
  proof (cases "r < length aug \<and> aug ! r ! col = 0")
    case True
    with 1 have "let p = find_pivot aug col (Suc r) in
     Suc r \<le> p \<and> p \<le> length aug \<and> (\<forall>i. Suc r \<le> i \<and> i < p \<longrightarrow> aug ! i ! col = 0) \<and>
     (p < length aug \<longrightarrow> aug ! p ! col \<noteq> 0)" by simp
    with True show ?thesis
      by (subst find_pivot.simps) (auto simp: Let_def le_eq_less_or_eq [of r] Suc_le_eq)
  next
    case False
    with 1(2) show ?thesis by (subst find_pivot.simps) (auto simp: Let_def)
  qed
qed

section \<open>One column\<close>

lemma pivot_step_Ok:
  assumes inv: "step_inv n A col aug" and col: "col < n" and p: "find_pivot aug col col \<noteq> n"
  shows "\<exists>aug'. pivot_step col aug = Ok aug' \<and> step_inv n A (Suc col) aug'"
proof -
  define p where "p = find_pivot aug col col"
  have wf: "wf_aug n aug" and n: "length aug = n" using inv by (simp_all add: step_inv_def wf_aug_def)
  have p1: "col \<le> p" "p < n" "aug ! p ! col \<noteq> 0"
    using find_pivot_spec [of col aug col] col n p by (auto simp: p_def Let_def)
  define a1 where "a1 = swap_rows col p aug"
  have a1: "a1 ! col ! col = aug ! p ! col" using col p1 n by (simp add: a1_def swap_rows_def nth_list_update)
  then obtain iv where iv: "gf_inv (a1 ! col ! col) = Some iv" "GF iv * GF (aug ! p ! col) = 1"
    using p1(3) gf_inv_eq [of "aug ! p ! col"] by simp
  then have iv0: "GF iv \<noteq> 0" by auto
  define a2 where "a2 = normalize_row col iv a1"
  define a3 where "a3 = fold (eliminate_row col) [0..<n] a2"
  define M2 where "M2 = scaleF col (GF iv) (swapF col p (ent aug))"
  have wf1: "wf_aug n a1" unfolding a1_def by (rule wf_swap) (use wf col p1 in auto)
  then have wf2: "wf_aug n a2" unfolding a2_def by (rule wf_normalize [OF col])
  have e1: "ent a1 = swapF col p (ent aug)" unfolding a1_def by (rule ent_swap) (use n col p1 in auto)
  have e2: "ent a2 r c = M2 r c" if "c < 2 * n" for r c
    using ent_normalize [OF wf1 col that] by (simp add: a2_def M2_def e1)
  have e3: "ent a3 r c = elimF col M2 r c" if "r < n" "c < 2 * n" for r c
    using eliminate_correct(2) [OF wf2 col that] e2 that col by (simp add: a3_def elimF_def)
  have "step_inv n A (Suc col) a3"
  proof (rule step_inv_cong [where M = "elimF col M2"])
    show "wf_aug n a3" unfolding a3_def by (rule eliminate_correct(1) [OF wf2 col])
    show "unit_cols n (Suc col) (elimF col M2)"
      unfolding M2_def using inv col p1 iv(2)
      by (intro unit_cols_step) (auto simp: step_inv_def ent_def)
  qed (use inv col p1 iv0 e3 in \<open>auto simp: M2_def step_inv_def
      intro!: row_inv_elim row_inv_scale row_inv_swap ker_inv_elim ker_inv_scale ker_inv_swap\<close>)
  moreover have "pivot_step col aug = Ok a3"
    using iv p1 n by (simp add: pivot_step_def Let_def p_def [symmetric] a1_def [symmetric] a2_def a3_def)
  ultimately show ?thesis by blast
qed

lemma no_pivot_kernel:
  assumes inv: "step_inv n A col aug" and col: "col < n" and p: "find_pivot aug col col = n"
  shows "\<not> trivial_kernel n A"
proof
  assume tk: "trivial_kernel n A"
  let ?M = "ent aug"
  have n: "length aug = n" and u: "unit_cols n col ?M" and k: "ker_inv n A ?M"
    using inv by (auto simp: step_inv_def wf_aug_def)
  have z: "?M r col = 0" if "col \<le> r" "r < n" for r
    using find_pivot_spec [of col aug col] col n p that by (simp add: Let_def ent_def)
  define x where "x j = (if j = col then 1 else if j < col then ?M j col else 0)" for j
  have "(\<Sum>j<n. ?M r j * x j) = 0" if r: "r < n" for r
  proof -
    have "(\<Sum>j<n. ?M r j * x j) = (\<Sum>j \<in> {r, col}. if j = col then ?M r col else if j < col then ?M j col else 0)"
      using r col u by (intro sum.mono_neutral_cong_right) (auto simp: x_def unit_cols_def)
    also have "\<dots> = 0" using r z by (cases "r = col"; cases "r < col") auto
    finally show ?thesis .
  qed
  with k have "\<forall>r < n. (\<Sum>j<n. A r j * x j) = 0" by (auto simp: ker_inv_def)
  with tk have "x col = 0" using col by (auto simp: trivial_kernel_def)
  then show False by (simp add: x_def)
qed

section \<open>The whole elimination\<close>

lemma pivot_loop_inv:
  assumes "step_inv n A col aug" and "col \<le> n"
  shows "(\<exists>aug'. pivot_loop [col..<n] aug = Ok aug' \<and> step_inv n A n aug') \<or>
    (pivot_loop [col..<n] aug = Err () \<and> \<not> trivial_kernel n A)"
  using assms
proof (induction "n - col" arbitrary: col aug)
  case 0
  then show ?case by simp
next
  case (Suc d)
  then have col: "col < n" and up: "[col..<n] = col # [Suc col..<n]" by (simp_all add: upt_conv_Cons)
  have n: "length aug = n" using Suc.prems by (simp add: step_inv_def wf_aug_def)
  show ?case
  proof (cases "find_pivot aug col col = n")
    case True
    then have "pivot_step col aug = Err ()" using n by (simp add: pivot_step_def)
    with no_pivot_kernel [OF Suc.prems(1) col True] show ?thesis by (simp add: up)
  next
    case False
    with pivot_step_Ok [OF Suc.prems(1) col] obtain aug' where
      "pivot_step col aug = Ok aug'" "step_inv n A (Suc col) aug'" by blast
    with Suc.hyps(1) [of "Suc col" aug'] Suc.hyps(2) col show ?thesis by (simp add: up)
  qed
qed

lemma sum_unit_mult: "i < (n :: nat) \<Longrightarrow> (\<Sum>t<n. (if t = i then 1 else 0) * f t) = (f i :: gf)"
proof -
  assume i: "i < n"
  have "(\<Sum>t<n. (if t = i then 1 else 0) * f t) = (\<Sum>t<n. if t = i then f t else 0)"
    by (intro sum.cong) auto
  with i show ?thesis by simp
qed

lemma augment_inv:
  assumes "\<forall>row \<in> set m. length m \<le> length row"
  shows "step_inv (length m) (ent m) 0 (augment m)"
proof -
  define n where "n = length m"
  have e: "ent (augment m) r j = ent m r j" "ent (augment m) r (n + j) = (if j = r then 1 else 0)"
    if "r < n" "j < n" for r j
    using that by (simp_all add: augment_def ent_def n_def [symmetric] Let_def)
  have "row_inv n (ent m) (ent (augment m))"
    by (simp add: row_inv_def e sum_unit_mult)
  moreover have "ker_inv n (ent m) (ent (augment m))" by (simp add: ker_inv_def e)
  moreover have "wf_aug n (augment m)" by (auto simp: wf_aug_def augment_def n_def [symmetric] Let_def)
  ultimately show ?thesis by (simp add: step_inv_def unit_cols_def n_def)
qed

definition left_inverse :: "nat \<Rightarrow> (nat \<Rightarrow> nat \<Rightarrow> gf) \<Rightarrow> (nat \<Rightarrow> nat \<Rightarrow> gf) \<Rightarrow> bool" where
  "left_inverse n B A \<longleftrightarrow> (\<forall>i < n. \<forall>j < n. (\<Sum>t<n. B i t * A t j) = (if i = j then 1 else 0))"

definition is_matrix :: "nat \<Rightarrow> nat \<Rightarrow> 'a list list \<Rightarrow> bool" where
  "is_matrix r c m \<longleftrightarrow> length m = r \<and> (\<forall>row \<in> set m. length row = c)"

lemma invert_matrix_total:
  assumes "\<forall>row \<in> set m. length m \<le> length row"
  shows "(\<exists>b. invert_matrix m = Ok b \<and> is_matrix (length m) (length m) b \<and>
            left_inverse (length m) (ent b) (ent m)) \<or>
    (invert_matrix m = Err () \<and> \<not> trivial_kernel (length m) (ent m))"
proof -
  define n where "n = length m"
  have g: "\<not> (\<exists>row \<in> set m. length row < n)" using assms by (auto simp: n_def)
  from pivot_loop_inv [OF augment_inv [OF assms]] consider
    (ok) aug where "pivot_loop [0..<n] (augment m) = Ok aug" "step_inv n (ent m) n aug"
    | (err) "pivot_loop [0..<n] (augment m) = Err ()" "\<not> trivial_kernel n (ent m)"
    unfolding n_def by auto
  then show ?thesis
  proof cases
    case ok
    define b where "b = map (\<lambda>i. map (\<lambda>j. aug ! i ! (n + j)) [0..<n]) [0..<n]"
    have "left_inverse n (ent b) (ent m)"
      using ok(2) by (auto simp: left_inverse_def step_inv_def row_inv_def unit_cols_def b_def ent_def)
    moreover have "is_matrix n n b" by (auto simp: is_matrix_def b_def)
    moreover have "invert_matrix m = Ok b"
      using g ok(1) by (simp add: invert_matrix_def Let_def b_def n_def)
    ultimately show ?thesis by (auto simp: n_def)
  next
    case err
    then show ?thesis using g by (simp add: invert_matrix_def Let_def n_def)
  qed
qed

lemma left_inverse_kernel: "left_inverse n B A \<Longrightarrow> trivial_kernel n A"
  unfolding trivial_kernel_def
proof (intro allI impI)
  fix x i assume li: "left_inverse n B A" and x: "\<forall>r < n. (\<Sum>j<n. A r j * x j) = 0" and i: "i < n"
  have "x i = (\<Sum>j<n. (\<Sum>t<n. B i t * A t j) * x j)"
    using li i sum_unit_mult [of i n x] by (simp add: left_inverse_def eq_commute [of i])
  also have "\<dots> = (\<Sum>t<n. B i t * (\<Sum>j<n. A t j * x j))"
    by (simp add: sum_distrib_left sum_distrib_right mult.assoc) (rule sum.swap)
  also have "\<dots> = 0" using x by simp
  finally show "x i = 0" .
qed

text \<open>
  C27: on a matrix whose rows are at least as long as the matrix is high, \<^verbatim>\<open>invert_matrix\<close> never panics;
  the matrix it returns is a square left inverse of the input, and it reports failure only for a
  matrix with a nonzero vector in its kernel, that is for a singular one.
\<close>

theorem invert_matrix_correct:
  assumes "\<forall>row \<in> set m. length m \<le> length row"
  shows "case invert_matrix m of
      Ok b \<Rightarrow> is_matrix (length m) (length m) b \<and> left_inverse (length m) (ent b) (ent m)
    | Err _ \<Rightarrow> \<not> trivial_kernel (length m) (ent m)
    | Panic \<Rightarrow> False"
  using invert_matrix_total [OF assms] by (elim disjE exE conjE) simp_all

theorem invert_matrix_correct_witness:
  "invert_matrix [[1, 1], [1, 1]] = Err () \<and> \<not> trivial_kernel 2 (ent [[1, 1], [1, 1]])"
proof -
  let ?m = "[[1, 1], [1, 1]] :: u8 list list"
  have "\<not> trivial_kernel 2 (ent ?m)"
    unfolding trivial_kernel_def
    by (rule notI, drule spec [of _ "\<lambda>_. 1"])
       (auto simp: ent_def lessThan_Suc less_Suc_eq numeral_2_eq_2)
  moreover have "\<not> left_inverse 2 B (ent ?m)" for B using calculation left_inverse_kernel by blast
  ultimately show ?thesis
    using invert_matrix_correct [of ?m] by (cases "invert_matrix ?m") (auto simp: numeral_2_eq_2)
qed

end
