(* ===== verification/Cauchy.thy ===== *)
theory Cauchy
  imports GFSimd GFMatrix
begin

text \<open>
  The Cauchy Reed-Solomon codec: \<^verbatim>\<open>oceanfs-ec/src/matrix.rs\<close> (precomputed matrices),
  \<^verbatim>\<open>oceanfs-ec/src/cauchy.rs\<close> (matrix construction, \<^verbatim>\<open>encode\<close>, \<^verbatim>\<open>decode\<close>) and the error type of
  \<^verbatim>\<open>oceanfs-ec/src/error.rs\<close> (message strings dropped).  A shard is a list of bytes.  The lemmas show
  that every selection of k rows of the generator matrix is invertible, hence that any k shards of a
  stripe give back its data.
\<close>

section \<open>Errors and configuration\<close>

datatype ec_error =
    NotEnoughShards (needed: nat) (available: nat)
  | InvalidConfig
  | ShardSizeMismatch (expected: nat) (actual: nat)
  | DecodingFailed

section \<open>Cauchy matrices\<close>

definition CAUCHY_MATRIX_4_2 :: "u8 list list" where
  "CAUCHY_MATRIX_4_2 = [[0x47, 0xba, 0x7a, 0x01], [0xba, 0x47, 0xa7, 0x8e]]"

definition CAUCHY_MATRIX_6_3 :: "u8 list list" where
  "CAUCHY_MATRIX_6_3 =
    [[0x7a, 0xa7, 0x47, 0xf4, 0x8e, 0x01],
     [0x9d, 0xdd, 0x98, 0x3d, 0xaa, 0x5d],
     [0xad, 0x98, 0xdd, 0xaa, 0x3d, 0x96]]"

definition CAUCHY_MATRIX_8_4 :: "u8 list list" where
  "CAUCHY_MATRIX_8_4 =
    [[0xad, 0x98, 0xdd, 0xaa, 0x3d, 0x96, 0x5d, 0x01],
     [0x98, 0xad, 0x9d, 0x5d, 0x96, 0x3d, 0xaa, 0x8e],
     [0xdd, 0x9d, 0xad, 0x96, 0x5d, 0xaa, 0x3d, 0xf4],
     [0xaa, 0x5d, 0x96, 0xad, 0x9d, 0xdd, 0x98, 0x47]]"

definition CAUCHY_MATRIX_10_6 :: "u8 list list" where
  "CAUCHY_MATRIX_10_6 =
    [[0xdd, 0x9d, 0xad, 0x96, 0x5d, 0xaa, 0x3d, 0xf4, 0x8e, 0x01],
     [0xaa, 0x5d, 0x96, 0xad, 0x9d, 0xdd, 0x98, 0x47, 0xa7, 0x7a],
     [0x3d, 0x96, 0x5d, 0x9d, 0xad, 0x98, 0xdd, 0xa7, 0x47, 0xba],
     [0x96, 0x3d, 0xaa, 0xdd, 0x98, 0xad, 0x9d, 0x7a, 0xba, 0x47],
     [0x5d, 0xaa, 0x3d, 0x98, 0xdd, 0x9d, 0xad, 0xba, 0x7a, 0xa7],
     [0x72, 0xc0, 0x58, 0xe0, 0x3e, 0x4c, 0x66, 0x90, 0xde, 0x55]]"

definition flatten :: "u8 list list \<Rightarrow> u8 list" where
  "flatten matrix = concat matrix"

definition get_const_cauchy_matrix :: "u8 \<Rightarrow> u8 \<Rightarrow> u8 list option" where
  "get_const_cauchy_matrix k m =
     (if (k, m) = (4, 2) then Some (flatten CAUCHY_MATRIX_4_2)
      else if (k, m) = (6, 3) then Some (flatten CAUCHY_MATRIX_6_3)
      else if (k, m) = (8, 4) then Some (flatten CAUCHY_MATRIX_8_4)
      else if (k, m) = (10, 6) then Some (flatten CAUCHY_MATRIX_10_6)
      else None)"

definition supported_pairs :: "(u8 \<times> u8) list" where
  "supported_pairs = [(4, 2), (6, 3), (8, 4), (10, 6)]"

text \<open>Casts \<^verbatim>\<open>(j + 1) as u8\<close> wrap; \<^verbatim>\<open>None\<close> is the panic of \<^verbatim>\<open>gf_inv\<close>.\<close>

definition cauchy_entry :: "nat \<Rightarrow> nat \<Rightarrow> nat \<Rightarrow> u8 option" where
  "cauchy_entry ki i j =
     (let x = of_nat (j + 1); y = of_nat (ki + i + 1) in gf_inv (gf_add x y))"

fun option_list :: "'a option list \<Rightarrow> 'a list option" where
  "option_list [] = Some []"
| "option_list (None # xs) = None"
| "option_list (Some x # xs) = map_option ((#) x) (option_list xs)"

definition compute_cauchy_matrix :: "u8 \<Rightarrow> u8 \<Rightarrow> u8 list list option" where
  "compute_cauchy_matrix k m =
     (let ki = unat k; mi = unat m
      in option_list (map (\<lambda>i. option_list (map (cauchy_entry ki i) [0..<ki])) [0..<mi]))"

definition cauchy_matrix :: "u8 \<Rightarrow> u8 \<Rightarrow> u8 list list option" where
  "cauchy_matrix k m =
     (case get_const_cauchy_matrix k m of
        Some flat \<Rightarrow>
          let ki = unat k; mi = unat m
          in Some (map (\<lambda>i. take ki (drop (i * ki) flat)) [0..<mi])
      | None \<Rightarrow> compute_cauchy_matrix k m)"

definition generator_matrix :: "u8 \<Rightarrow> u8 \<Rightarrow> u8 list list option" where
  "generator_matrix k m =
     (let ki = unat k in
      case cauchy_matrix k m of
        None \<Rightarrow> None
      | Some cauchy \<Rightarrow> Some (map (\<lambda>i. map (\<lambda>j. if i = j then 1 else 0) [0..<ki]) [0..<ki] @ cauchy))"

section \<open>Encoding\<close>

text \<open>
  What an encoding call depends on beside its arguments: the CPU, the cached SIMD level and the
  thread-local scratch buffer \<^verbatim>\<open>SIMD_BUF\<close> left by earlier calls.
\<close>

record ec_env =
  env_cpu :: cpu
  env_level :: u8
  env_buf :: "u8 list"

definition simd_buf :: "ec_env \<Rightarrow> nat \<Rightarrow> u8 list" where
  "simd_buf env shard_size =
     (let buf = env_buf env;
          buf = (if length buf < shard_size then buf @ replicate (shard_size - length buf) 0 else buf)
      in take shard_size buf)"

fun encode_row_x86 :: "ec_env \<Rightarrow> u8 list \<Rightarrow> u8 list list \<Rightarrow> u8 list \<times> u8 list \<Rightarrow> (u8 list \<times> u8 list) option" where
  "encode_row_x86 env (coeff # cs) (d # ds) (acc, buf) =
     (case gf_mul_simd (env_cpu env) (env_level env) coeff d buf of
        None \<Rightarrow> None
      | Some buf \<Rightarrow> encode_row_x86 env cs ds (map2 (XOR) acc buf, buf))"
| "encode_row_x86 env cs ds st = Some st"

fun encode_rows_x86 :: "ec_env \<Rightarrow> u8 list list \<Rightarrow> u8 list list \<Rightarrow> u8 list \<Rightarrow> u8 list \<Rightarrow> u8 list list option" where
  "encode_rows_x86 env [] ds zero buf = Some []"
| "encode_rows_x86 env (row # rows) ds zero buf =
     (case encode_row_x86 env row ds (zero, buf) of
        None \<Rightarrow> None
      | Some (p, buf) \<Rightarrow> map_option ((#) p) (encode_rows_x86 env rows ds zero buf))"

fun encode_row_scalar :: "u8 list \<Rightarrow> u8 list list \<Rightarrow> u8 list \<Rightarrow> u8 list" where
  "encode_row_scalar (coeff # cs) (d # ds) acc =
     encode_row_scalar cs ds (map2 (\<lambda>p x. gf_add p (gf_mul coeff x)) acc d)"
| "encode_row_scalar cs ds acc = acc"

definition encode_cauchy :: "ec_env \<Rightarrow> u8 \<Rightarrow> u8 \<Rightarrow> u8 list list \<Rightarrow> (ec_error, u8 list list) outcome" where
  "encode_cauchy env k m data_shards =
     (case cauchy_matrix k m of
        None \<Rightarrow> Panic
      | Some cm \<Rightarrow>
          let shard_size = length (data_shards ! 0);
              zero = replicate shard_size 0
          in if x86_64 (env_cpu env)
             then (case encode_rows_x86 env cm data_shards zero (simd_buf env shard_size) of
                     None \<Rightarrow> Panic | Some parity \<Rightarrow> Ok parity)
             else Ok (map (\<lambda>row. encode_row_scalar row data_shards zero) cm))"

record CauchyEncoder =
  enc_k :: u8
  enc_m :: u8

definition encode :: "ec_env \<Rightarrow> CauchyEncoder \<Rightarrow> u8 list list \<Rightarrow> u8 \<Rightarrow> (ec_error, u8 list list) outcome" where
  "encode env self data_shards parity_count =
     (if length data_shards \<noteq> unat (enc_k self) then Err InvalidConfig
      else if data_shards = [] then Ok []
      else let shard_size = length (data_shards ! 0)
           in case filter (\<lambda>s. length s \<noteq> shard_size) data_shards of
                s # _ \<Rightarrow> Err (ShardSizeMismatch shard_size (length s))
              | [] \<Rightarrow> encode_cauchy env (enc_k self) parity_count data_shards)"

section \<open>Decoding\<close>

definition recover_byte :: "u8 list list \<Rightarrow> u8 list list \<Rightarrow> nat \<Rightarrow> nat \<Rightarrow> nat \<Rightarrow> u8" where
  "recover_byte iv sub_data k i byte_idx =
     fold (\<lambda>j sum. gf_add sum (gf_mul (iv ! i ! j) (sub_data ! j ! byte_idx))) [0..<k] 0"

definition decode ::
  "u8 list option list \<Rightarrow> u8 \<Rightarrow> u8 \<Rightarrow> (ec_error, u8 list list) outcome" where
  "decode available_shards data_count parity_count =
     (let k = unat data_count; m = unat parity_count; total = k + m;
          present = filter (\<lambda>i. available_shards ! i \<noteq> None) [0..<total]
      in if length available_shards \<noteq> total then Err InvalidConfig
         else if length present < k then Err (NotEnoughShards k (length present))
         else if present = [] then Panic
         else let shard_size = length (the (available_shards ! (present ! 0)))
              in case generator_matrix data_count parity_count of
                   None \<Rightarrow> Panic
                 | Some gen \<Rightarrow>
                     let selected = take k present;
                         sub_matrix = map ((!) gen) selected;
                         sub_data = map (\<lambda>idx. the (available_shards ! idx)) selected
                     in (case invert_matrix sub_matrix of
                           Panic \<Rightarrow> Panic
                         | Err _ \<Rightarrow> Err DecodingFailed
                         | Ok iv \<Rightarrow>
                             if \<exists>d \<in> set sub_data. length d < shard_size then Panic
                             else Ok (map (\<lambda>i. map (recover_byte iv sub_data k i) [0..<shard_size]) [0..<k])))"

section \<open>The precomputed matrices\<close>

lemma gf_inv_small:
  "gf_inv 1 = Some 0x1"
  "gf_inv 2 = Some 0x8e"
  "gf_inv 3 = Some 0xf4"
  "gf_inv 4 = Some 0x47"
  "gf_inv 5 = Some 0xa7"
  "gf_inv 6 = Some 0x7a"
  "gf_inv 7 = Some 0xba"
  "gf_inv 8 = Some 0xad"
  "gf_inv 9 = Some 0x9d"
  "gf_inv 10 = Some 0xdd"
  "gf_inv 11 = Some 0x98"
  "gf_inv 12 = Some 0x3d"
  "gf_inv 13 = Some 0xaa"
  "gf_inv 14 = Some 0x5d"
  "gf_inv 15 = Some 0x96"
  "gf_inv 17 = Some 0x72"
  "gf_inv 18 = Some 0xc0"
  "gf_inv 19 = Some 0x58"
  "gf_inv 20 = Some 0xe0"
  "gf_inv 21 = Some 0x3e"
  "gf_inv 22 = Some 0x4c"
  "gf_inv 23 = Some 0x66"
  "gf_inv 24 = Some 0x90"
  "gf_inv 25 = Some 0xde"
  "gf_inv 26 = Some 0x55"
  by (rule gf_inv_eqI, simp add: gf_mul_clmul)+

lemma cauchy_entry_simp:
  "cauchy_entry ki i j = gf_inv (of_nat (j + 1) XOR of_nat (ki + i + 1))"
  by (simp add: cauchy_entry_def Let_def gf_add_def)

lemma const_matrix_4_2: "compute_cauchy_matrix 4 2 = Some CAUCHY_MATRIX_4_2"
  by (simp add: compute_cauchy_matrix_def cauchy_entry_simp upt_rec gf_inv_small
      CAUCHY_MATRIX_4_2_def)

lemma const_matrix_6_3: "compute_cauchy_matrix 6 3 = Some CAUCHY_MATRIX_6_3"
  by (simp add: compute_cauchy_matrix_def cauchy_entry_simp upt_rec gf_inv_small
      CAUCHY_MATRIX_6_3_def)

lemma const_matrix_8_4: "compute_cauchy_matrix 8 4 = Some CAUCHY_MATRIX_8_4"
  by (simp add: compute_cauchy_matrix_def cauchy_entry_simp upt_rec gf_inv_small
      CAUCHY_MATRIX_8_4_def)

lemma const_matrix_10_6: "compute_cauchy_matrix 10 6 = Some CAUCHY_MATRIX_10_6"
  by (simp add: compute_cauchy_matrix_def cauchy_entry_simp upt_rec gf_inv_small
      CAUCHY_MATRIX_10_6_def)

lemmas const_matrices = const_matrix_4_2 const_matrix_6_3 const_matrix_8_4 const_matrix_10_6
lemmas const_matrix_defs = CAUCHY_MATRIX_4_2_def CAUCHY_MATRIX_6_3_def CAUCHY_MATRIX_8_4_def
  CAUCHY_MATRIX_10_6_def

lemma cauchy_matrix_const:
  "cauchy_matrix 4 2 = Some CAUCHY_MATRIX_4_2" "cauchy_matrix 6 3 = Some CAUCHY_MATRIX_6_3"
  "cauchy_matrix 8 4 = Some CAUCHY_MATRIX_8_4" "cauchy_matrix 10 6 = Some CAUCHY_MATRIX_10_6"
  by (simp_all add: cauchy_matrix_def get_const_cauchy_matrix_def flatten_def const_matrix_defs upt_rec)

lemma cauchy_matrix_compute: "cauchy_matrix k m = compute_cauchy_matrix k m"
proof (cases "get_const_cauchy_matrix k m")
  case None
  then show ?thesis by (simp add: cauchy_matrix_def)
next
  case (Some flat)
  then have "(k, m) = (4, 2) \<or> (k, m) = (6, 3) \<or> (k, m) = (8, 4) \<or> (k, m) = (10, 6)"
    by (auto simp: get_const_cauchy_matrix_def split: if_splits)
  then show ?thesis by (auto simp: const_matrices cauchy_matrix_const)
qed

section \<open>Cauchy matrices are invertible\<close>

definition Xp :: "nat \<Rightarrow> gf" where "Xp j = GF (of_nat (j + 1))"
definition Yp :: "nat \<Rightarrow> nat \<Rightarrow> gf" where "Yp k i = GF (of_nat (k + i + 1))"

lemma of_nat_u8_eq_iff: "(of_nat a :: u8) = of_nat b \<longleftrightarrow> a mod 256 = b mod 256"
  by (simp add: word_of_nat_eq_iff take_bit_eq_mod)

lemma inj_on_Xp: "k \<le> 255 \<Longrightarrow> inj_on Xp {..<k}"
  by (auto simp: inj_on_def Xp_def of_nat_u8_eq_iff simp del: of_nat_Suc of_nat_add)

lemma inj_on_Yp: "k + m \<le> 256 \<Longrightarrow> inj_on (Yp k) {..<m}"
proof (rule inj_onI)
  fix i i' assume h: "k + m \<le> 256" "i \<in> {..<m}" "i' \<in> {..<m}" "Yp k i = Yp k i'"
  then have "(k + i + 1) mod 256 = (k + i' + 1) mod 256"
    by (simp add: Yp_def of_nat_u8_eq_iff del: of_nat_Suc of_nat_add)
  moreover have "k + i + 1 \<le> 256" "k + i' + 1 \<le> 256" using h by auto
  ultimately show "i = i'" by (cases "k + i + 1 = 256"; cases "k + i' + 1 = 256") auto
qed

lemma XY_nonzero: "k + m \<le> 256 \<Longrightarrow> j < k \<Longrightarrow> i < m \<Longrightarrow> Xp j + Yp k i \<noteq> 0"
proof
  assume h: "k + m \<le> 256" "j < k" "i < m" "Xp j + Yp k i = 0"
  then have "(j + 1) mod 256 = (k + i + 1) mod 256"
    by (simp add: Xp_def Yp_def gf_add_eq_0_iff of_nat_u8_eq_iff del: of_nat_Suc of_nat_add)
  moreover have "j + 1 < 256" "k + i + 1 \<le> 256" "j < k + i" using h by auto
  ultimately show False by (cases "k + i + 1 = 256") auto
qed

lemma gf_split_sum: "(a + b) + (a + c) = b + (c :: gf)"
proof -
  have "(a + b) + (a + c) = (a + a) + (b + c)" by (simp only: ac_simps)
  then show ?thesis by simp
qed

lemma gf_frac_change:
  "u \<noteq> 0 \<Longrightarrow> v \<noteq> 0 \<Longrightarrow> c / u = c / v + (v + u) * (c / v / u)" for u :: gf
proof -
  assume "u \<noteq> 0" "v \<noteq> 0"
  then have "(v + u) * (c / v / u) = c / v + c / u" by (simp add: field_simps)
  then show ?thesis using gf_split_sum [of "c / v" 0 "c / u"] by simp
qed

lemma gf_frac_shift: "u \<noteq> 0 \<Longrightarrow> d * (w + u) / u = w * (d / u) + d" for u :: gf
  by (simp add: field_simps)

lemma cauchy_kernel:
  assumes "finite M" and "finite P" "card M \<le> card P" "inj_on X M" "inj_on Y P"
    and "\<forall>j \<in> M. \<forall>i \<in> P. X j + Y i \<noteq> (0 :: gf)"
    and "\<forall>i \<in> P. (\<Sum>j\<in>M. c j / (X j + Y i)) = 0"
  shows "\<forall>j \<in> M. c j = 0"
  using assms
proof (induction M arbitrary: P c rule: finite_induct)
  case (insert a M)
  let ?M = "insert a M"
  obtain p where p: "p \<in> P" using insert by (metis card.empty card_insert_disjoint equals0I not_less_eq_eq le0)
  define d where "d j = c j / (X j + Y p)" for j
  have d0: "sum d ?M = 0" using insert p by (simp add: d_def)
  have nz: "X j + Y i \<noteq> 0" if "j \<in> ?M" "i \<in> P" for i j using insert.prems that by blast
  have d1: "(\<Sum>j\<in>?M. d j / (X j + Y i)) = 0" if i: "i \<in> P - {p}" for i
  proof -
    have ne: "Y p + Y i \<noteq> 0" using i p insert.prems(4) by (auto simp: gf_add_eq_0_iff inj_on_def)
    have "c j / (X j + Y i) = d j + (Y p + Y i) * (d j / (X j + Y i))" if "j \<in> ?M" for j
      using gf_frac_change [of "X j + Y i" "X j + Y p" "c j"] nz [OF that p] nz [OF that, of i] i
      by (simp add: gf_split_sum d_def)
    then have "0 = (\<Sum>j\<in>?M. d j + (Y p + Y i) * (d j / (X j + Y i)))"
      using insert.prems(6) i by (metis (no_types, lifting) DiffD1 sum.cong)
    also have "\<dots> = sum d ?M + (Y p + Y i) * (\<Sum>j\<in>?M. d j / (X j + Y i))"
      by (simp only: sum.distrib sum_distrib_left)
    finally show ?thesis using d0 ne by simp
  qed
  have "\<forall>j \<in> M. d j * (X a + X j) = 0"
  proof (rule insert.IH)
    show "\<forall>i \<in> P - {p}. (\<Sum>j\<in>M. d j * (X a + X j) / (X j + Y i)) = 0"
    proof
      fix i assume i: "i \<in> P - {p}"
      have "d j * (X a + X j) / (X j + Y i) = (X a + Y i) * (d j / (X j + Y i)) + d j" if "j \<in> ?M" for j
      proof -
        have "X a + X j = (X a + Y i) + (X j + Y i)"
          using gf_split_sum [of "Y i" "X a" "X j"] by (simp only: ac_simps)
        moreover have "d j * ((X a + Y i) + (X j + Y i)) / (X j + Y i)
            = (X a + Y i) * (d j / (X j + Y i)) + d j"
          using nz [OF that, of i] i by (intro gf_frac_shift) blast
        ultimately show ?thesis by metis
      qed
      then have "(\<Sum>j\<in>?M. d j * (X a + X j) / (X j + Y i))
          = (\<Sum>j\<in>?M. (X a + Y i) * (d j / (X j + Y i)) + d j)" by (rule sum.cong [OF refl])
      also have "\<dots> = (X a + Y i) * (\<Sum>j\<in>?M. d j / (X j + Y i)) + sum d ?M"
        by (simp only: sum.distrib sum_distrib_left)
      finally show "(\<Sum>j\<in>M. d j * (X a + X j) / (X j + Y i)) = 0"
        using d0 d1 [OF i] insert.hyps by simp
    qed
  qed (use insert p in \<open>auto simp: inj_on_def\<close>)
  then have dM: "d j = 0" if "j \<in> M" for j
    using that insert.hyps insert.prems(3) by (auto simp: gf_add_eq_0_iff inj_on_def)
  then have "d a = 0" using d0 insert.hyps by simp
  with dM show ?case using nz p by (auto simp: d_def)
qed simp

section \<open>The generator matrix\<close>

lemma option_list_Some:
  "(\<And>x. x \<in> set xs \<Longrightarrow> f x = Some (g x)) \<Longrightarrow> option_list (map f xs) = Some (map g xs)"
  by (induction xs) auto

lemma option_list_None: "None \<in> set xs \<Longrightarrow> option_list xs = None"
  by (induction xs rule: option_list.induct) auto

lemma cauchy_entry_eq: "cauchy_entry k i j = gf_inv (byte (Xp j + Yp k i))"
  by (simp add: cauchy_entry_def Let_def Xp_def Yp_def plus_gf_def)

lemma gf_inv_byte: "a \<noteq> 0 \<Longrightarrow> gf_inv (byte a) = Some (byte (inverse a))"
  using gf_inv_eq [of "byte a"] by (metis GF_eq_0_iff gf.collapse)

lemma compute_cauchy_Some:
  assumes "unat k + unat m \<le> 256"
  shows "compute_cauchy_matrix k m =
    Some (map (\<lambda>i. map (\<lambda>j. byte (inverse (Xp j + Yp (unat k) i))) [0..<unat k]) [0..<unat m])"
  unfolding compute_cauchy_matrix_def Let_def
  by (intro option_list_Some) (simp add: cauchy_entry_eq gf_inv_byte XY_nonzero [OF assms])

lemma compute_cauchy_None:
  assumes "0 < unat k" "256 < unat k + unat m"
  shows "compute_cauchy_matrix k m = None"
proof -
  define i where "i = 256 - unat k"
  have k: "unat k < 256" using unsigned_less [of k] by simp
  have i: "i < unat m" using assms k by (simp add: i_def)
  have "unat k + i + 1 = 257" using k by (simp add: i_def)
  moreover have "(of_nat 257 :: u8) = of_nat (0 + 1)" unfolding of_nat_u8_eq_iff by simp
  ultimately have "Yp (unat k) i = Xp 0" by (simp only: Xp_def Yp_def)
  then have "cauchy_entry (unat k) i 0 = None" by (simp add: cauchy_entry_eq gf_inv_def)
  then have "option_list (map (cauchy_entry (unat k) i) [0..<unat k]) = None"
    using assms(1) by (intro option_list_None) (auto simp: image_iff intro!: bexI [of _ 0])
  with i show ?thesis
    unfolding compute_cauchy_matrix_def Let_def
    by (intro option_list_None) (auto simp: image_iff intro!: bexI [of _ i])
qed

definition Gm :: "nat \<Rightarrow> nat \<Rightarrow> nat \<Rightarrow> gf" where
  "Gm k i j = (if i < k then (if j = i then 1 else 0) else inverse (Xp j + Yp k (i - k)))"

lemma generator_matrix_Some:
  assumes "unat k + unat m \<le> 256"
  obtains gen where "generator_matrix k m = Some gen" "is_matrix (unat k + unat m) (unat k) gen"
    "\<And>i j. i < unat k + unat m \<Longrightarrow> j < unat k \<Longrightarrow> ent gen i j = Gm (unat k) i j"
proof -
  define gen where "gen = map (\<lambda>i. map (\<lambda>j. if i = j then 1 else 0) [0..<unat k]) [0..<unat k] @
    map (\<lambda>i. map (\<lambda>j. byte (inverse (Xp j + Yp (unat k) i))) [0..<unat k]) [0..<unat m]"
  have "generator_matrix k m = Some gen"
    by (simp add: generator_matrix_def cauchy_matrix_compute compute_cauchy_Some [OF assms] gen_def Let_def)
  moreover have "is_matrix (unat k + unat m) (unat k) gen" by (auto simp: is_matrix_def gen_def)
  moreover have "ent gen i j = Gm (unat k) i j" if "i < unat k + unat m" "j < unat k" for i j
    using that by (auto simp: ent_def gen_def Gm_def nth_append)
  ultimately show ?thesis using that by blast
qed

lemma generator_mds:
  assumes km: "k + m \<le> 256" "k \<le> 255" and sel: "distinct sel" "length sel = k" "set sel \<subseteq> {..<k + m}"
  shows "trivial_kernel k (\<lambda>r. Gm k (sel ! r))"
  unfolding trivial_kernel_def
proof (intro allI impI)
  fix x j assume h: "\<forall>r < k. (\<Sum>j<k. Gm k (sel ! r) j * x j) = 0" and j: "j < k"
  have row: "(\<Sum>j<k. Gm k s j * x j) = 0" if "s \<in> set sel" for s
    using h that sel(2) by (auto simp: in_set_conv_nth)
  define D P where "D = set sel \<inter> {..<k}" and "P = {i. i < m \<and> k + i \<in> set sel}"
  have xD: "x s = 0" if "s \<in> D" for s
  proof -
    have "(\<Sum>j<k. Gm k s j * x j) = x s" using that by (simp add: D_def Gm_def sum_unit_mult)
    with row that show ?thesis by (simp add: D_def)
  qed
  have split: "set sel = D \<union> (+) k ` P"
  proof -
    have "s \<in> (+) k ` P" if "s \<in> set sel" "\<not> s < k" for s
      using that sel(3) by (intro image_eqI [of _ _ "s - k"]) (auto simp: P_def)
    then show ?thesis by (auto simp: D_def P_def)
  qed
  have finP: "finite P" by (simp add: P_def)
  have "k = card (set sel)" using sel by (simp add: distinct_card)
  also have "\<dots> = card D + card ((+) k ` P)"
    unfolding split by (rule card_Un_disjoint) (auto simp: D_def finP)
  also have "card ((+) k ` P) = card P" by (simp add: card_image)
  finally have card: "card ({..<k} - D) = card P"
    by (simp add: card_Diff_subset D_def)
  have ker: "(\<Sum>j\<in>{..<k} - D. x j / (Xp j + Yp k i)) = 0" if "i \<in> P" for i
  proof -
    have "(\<Sum>j\<in>{..<k} - D. x j / (Xp j + Yp k i)) = (\<Sum>j<k. Gm k (k + i) j * x j)"
      by (rule sum.mono_neutral_cong_left) (auto simp: xD Gm_def divide_inverse mult.commute)
    with row that show ?thesis by (simp add: P_def)
  qed
  have "\<forall>j \<in> {..<k} - D. x j = 0"
  proof (rule cauchy_kernel [where P = P and X = Xp and Y = "Yp k"])
    show "inj_on Xp ({..<k} - D)" by (rule inj_on_subset [OF inj_on_Xp [OF km(2)]]) auto
    show "inj_on (Yp k) P" by (rule inj_on_subset [OF inj_on_Yp [OF km(1)]]) (auto simp: P_def)
    show "\<forall>j\<in>{..<k} - D. \<forall>i\<in>P. Xp j + Yp k i \<noteq> 0"
      using XY_nonzero [OF km(1)] by (simp add: P_def)
  qed (simp_all add: finP card ker)
  with xD j show "x j = 0" by blast
qed

section \<open>Encoding computes the parity rows of the generator\<close>

definition env_ok :: "ec_env \<Rightarrow> bool" where
  "env_ok env \<longleftrightarrow> env_level env \<in> level_cache (env_cpu env) \<and> detect_features (env_cpu env) \<noteq> Gfni"

lemma gf_mul_simd_env:
  "env_ok env \<Longrightarrow> length d = length buf \<Longrightarrow>
     gf_mul_simd (env_cpu env) (env_level env) coeff d buf = Some (map (gf_mul coeff) d)"
  by (simp add: env_ok_def gf_mul_simd_def gf_mul_dispatch_correct)

lemma encode_row_x86_eq:
  assumes "env_ok env" "length cs = length ds" "\<forall>d \<in> set ds. length d = L" "length acc = L" "length buf = L"
  shows "\<exists>buf'. length buf' = L \<and> encode_row_x86 env cs ds (acc, buf) = Some (encode_row_scalar cs ds acc, buf')"
  using assms(2-)
proof (induction cs ds arbitrary: acc buf rule: list_induct2)
  case (Cons c cs d ds)
  have "map2 (XOR) acc (map (gf_mul c) d) = map2 (\<lambda>p x. gf_add p (gf_mul c x)) acc d"
    by (simp add: gf_add_def zip_map2 case_prod_beta)
  with Cons gf_mul_simd_env [OF assms(1)] show ?case by simp
qed simp

lemma encode_rows_x86_eq:
  assumes "env_ok env" "\<forall>row \<in> set rows. length row = length ds" "\<forall>d \<in> set ds. length d = L"
    "length zero = L" "length buf = L"
  shows "encode_rows_x86 env rows ds zero buf = Some (map (\<lambda>row. encode_row_scalar row ds zero) rows)"
  using assms(2,5)
proof (induction rows arbitrary: buf)
  case (Cons row rows)
  then obtain buf' where "length buf' = L"
    "encode_row_x86 env row ds (zero, buf) = Some (encode_row_scalar row ds zero, buf')"
    using encode_row_x86_eq [OF assms(1), of row ds L zero buf] assms(3,4) by auto
  with Cons show ?case by simp
qed simp

lemma encode_row_entry:
  assumes "length cs = length ds" "\<forall>d \<in> set ds. length d = L" "length acc = L"
  shows "length (encode_row_scalar cs ds acc) = L \<and> (b < L \<longrightarrow>
    GF (encode_row_scalar cs ds acc ! b) = GF (acc ! b) + (\<Sum>j<length ds. GF (cs ! j) * GF (ds ! j ! b)))"
  using assms
proof (induction cs ds arbitrary: acc rule: list_induct2)
  case (Cons c cs d ds)
  then show ?case
    by (simp add: sum.lessThan_Suc_shift GF_add GF_mul add.assoc del: sum.lessThan_Suc)
qed simp

lemma length_simd_buf: "length (simd_buf env n) = n"
  by (simp add: simd_buf_def Let_def)

definition shards_wf :: "nat \<Rightarrow> nat \<Rightarrow> u8 list list \<Rightarrow> bool" where
  "shards_wf n L shards \<longleftrightarrow> length shards = n \<and> (\<forall>s \<in> set shards. length s = L)"

text \<open>The shards of a stripe: shard i is row i of the generator times the data shards.\<close>

definition codeword :: "nat \<Rightarrow> nat \<Rightarrow> nat \<Rightarrow> u8 list list \<Rightarrow> u8 list list \<Rightarrow> bool" where
  "codeword k m L data shards \<longleftrightarrow> shards_wf (k + m) L shards \<and>
     (\<forall>i < k + m. \<forall>b < L. GF (shards ! i ! b) = (\<Sum>j<k. Gm k i j * GF (data ! j ! b)))"

lemma encode_codeword:
  assumes env: "env_ok env" and k: "0 < enc_k self" and km: "unat (enc_k self) + unat m \<le> 256"
    and wf: "shards_wf (unat (enc_k self)) L data"
  obtains parity where "encode env self data m = Ok parity"
    "codeword (unat (enc_k self)) (unat m) L data (data @ parity)"
proof -
  define kk where "kk = unat (enc_k self)"
  have k0: "0 < kk" using k by (simp add: kk_def word_less_nat_alt)
  have len: "length data = kk" "\<forall>d \<in> set data. length d = L" "data \<noteq> []"
    using wf k0 by (auto simp: shards_wf_def kk_def)
  have L0: "length (data ! 0) = L" using len k0 by simp
  define cm where "cm = map (\<lambda>i. map (\<lambda>j. byte (inverse (Xp j + Yp kk i))) [0..<kk]) [0..<unat m]"
  have cm: "cauchy_matrix (enc_k self) m = Some cm"
    using compute_cauchy_Some [OF km] by (simp add: cauchy_matrix_compute cm_def kk_def)
  define parity where "parity = map (\<lambda>row. encode_row_scalar row data (replicate L 0)) cm"
  have rows: "\<forall>row \<in> set cm. length row = length data" by (auto simp: cm_def len)
  have "encode_cauchy env (enc_k self) m data = Ok parity"
    using encode_rows_x86_eq [OF env rows len(2), of "replicate L 0" "simd_buf env L"]
    by (simp add: encode_cauchy_def cm Let_def L0 length_simd_buf parity_def)
  then have ok: "encode env self data m = Ok parity"
    using len L0 by (simp add: encode_def kk_def Let_def)
  have entry: "length (parity ! i) = L \<and> (b < L \<longrightarrow>
      GF (parity ! i ! b) = (\<Sum>j<kk. Gm kk (kk + i) j * GF (data ! j ! b)))" if "i < unat m" for i b
    using encode_row_entry [of "cm ! i" data L "replicate L 0" b] that rows len
    by (simp add: parity_def cm_def Gm_def)
  have "codeword kk (unat m) L data (data @ parity)"
    unfolding codeword_def
  proof (intro conjI allI impI)
    have "length parity = unat m" by (simp add: parity_def cm_def)
    then show "shards_wf (kk + unat m) L (data @ parity)"
      using len entry by (auto simp: shards_wf_def in_set_conv_nth)
    fix i b assume "i < kk + unat m" "b < L"
    then show "GF ((data @ parity) ! i ! b) = (\<Sum>j<kk. Gm kk i j * GF (data ! j ! b))"
      using entry [of "i - kk" b] len by (auto simp: nth_append Gm_def sum_unit_mult)
  qed
  with ok that show ?thesis by (simp add: kk_def)
qed

section \<open>Decoding recovers the data\<close>

lemma recover_byte_sum: "GF (recover_byte iv sd k i b) = (\<Sum>j<k. ent iv i j * GF (sd ! j ! b))"
  unfolding recover_byte_def by (induction k) (simp_all add: GF_add GF_mul ent_def)

lemma left_inverse_apply:
  assumes "left_inverse k B A" "i < k"
  shows "(\<Sum>j<k. B i j * (\<Sum>t<k. A j t * x t)) = x i"
proof -
  have "(\<Sum>j<k. B i j * (\<Sum>t<k. A j t * x t)) = (\<Sum>t<k. (\<Sum>j<k. B i j * A j t) * x t)"
    by (simp add: sum_distrib_left sum_distrib_right mult.assoc) (rule sum.swap)
  also have "\<dots> = (\<Sum>t<k. (if t = i then 1 else 0) * x t)"
    using assms by (intro sum.cong) (auto simp: left_inverse_def)
  also have "\<dots> = x i" using assms by (simp add: sum_unit_mult)
  finally show ?thesis .
qed

text \<open>Which shards survived: \<^verbatim>\<open>avail\<close> holds each shard of the stripe or \<^verbatim>\<open>None\<close>.\<close>

definition survivors :: "u8 list list \<Rightarrow> u8 list option list \<Rightarrow> bool" where
  "survivors shards avail \<longleftrightarrow> length avail = length shards \<and>
     (\<forall>i < length shards. avail ! i = None \<or> avail ! i = Some (shards ! i))"

lemma left_inverse_cong:
  "left_inverse n B A \<Longrightarrow> (\<And>i j. i < n \<Longrightarrow> j < n \<Longrightarrow> A i j = A' i j) \<Longrightarrow> left_inverse n B A'"
  by (auto simp: left_inverse_def intro!: sum.cong)

lemma trivial_kernel_cong:
  assumes "trivial_kernel n A" "\<And>i j. i < n \<Longrightarrow> j < n \<Longrightarrow> A i j = A' i j"
  shows "trivial_kernel n A'"
proof -
  have "(\<Sum>j<n. A r j * x j) = (\<Sum>j<n. A' r j * x j)" if "r < n" for r x
    using assms(2) that by (intro sum.cong) auto
  with assms(1) show ?thesis by (simp add: trivial_kernel_def)
qed

lemma length_filter_present: "length (filter (\<lambda>x. x \<noteq> None) xs) = length (filter (\<lambda>i. xs ! i \<noteq> None) [0..<length xs])"
  by (metis (mono_tags, lifting) length_filter_map map_nth comp_def filter_cong length_map)

lemma invert_selection:
  fixes k m :: u8
  assumes km: "unat k + unat m \<le> 256" and gen: "is_matrix (unat k + unat m) (unat k) gen"
    and ent_gen: "\<And>i j. i < unat k + unat m \<Longrightarrow> j < unat k \<Longrightarrow> ent gen i j = Gm (unat k) i j"
    and sel: "distinct sel" "length sel = unat k" "set sel \<subseteq> {..<unat k + unat m}"
  obtains iv where "invert_matrix (map ((!) gen) sel) = Ok iv"
    "left_inverse (unat k) (ent iv) (\<lambda>r. Gm (unat k) (sel ! r))"
proof -
  let ?k = "unat k" let ?s = "map ((!) gen) sel"
  have "?k < 256" using unsigned_less [of k] by simp
  then have k255: "?k \<le> 255" by simp
  have sel_lt: "sel ! r < ?k + unat m" if "r < ?k" for r using sel that by (metis lessThan_iff nth_mem subsetD)
  have e: "ent ?s r j = Gm ?k (sel ! r) j" if "r < ?k" "j < ?k" for r j
    using that sel ent_gen [OF sel_lt, of r j] by (simp add: ent_def)
  have "\<forall>row \<in> set ?s. length ?s \<le> length row"
    using sel gen by (auto simp: is_matrix_def)
  moreover have "trivial_kernel ?k (ent ?s)"
    by (rule trivial_kernel_cong [OF generator_mds [OF km k255 sel]]) (simp add: e)
  ultimately obtain iv where "invert_matrix ?s = Ok iv" "left_inverse ?k (ent iv) (ent ?s)"
    using invert_matrix_total [of ?s] sel by auto
  moreover from this(2) have "left_inverse ?k (ent iv) (\<lambda>r. Gm ?k (sel ! r))"
    by (rule left_inverse_cong) (rule e)
  ultimately show ?thesis using that by blast
qed

lemma decode_codeword:
  assumes k: "0 < k" and km: "unat k + unat m \<le> 256"
    and cw: "codeword (unat k) (unat m) L data shards" and data: "shards_wf (unat k) L data"
    and surv: "survivors shards avail" and enough: "unat k \<le> length (filter (\<lambda>s. s \<noteq> None) avail)"
  shows "decode avail k m = Ok data"
proof -
  let ?k = "unat k" let ?n = "unat k + unat m"
  have k0: "0 < ?k" using k by (simp add: word_less_nat_alt)
  have len: "length shards = ?n" "length avail = ?n" "\<And>i. i < ?n \<Longrightarrow> length (shards ! i) = L"
    using cw surv by (auto simp: codeword_def shards_wf_def survivors_def)
  define present where "present = filter (\<lambda>i. avail ! i \<noteq> None) [0..<?n]"
  define sel where "sel = take ?k present"
  have plen: "?k \<le> length present"
    using enough unfolding length_filter_present len(2) present_def .
  have sel: "distinct sel" "length sel = ?k" "set sel \<subseteq> {..<?n}"
    using plen by (auto simp: sel_def present_def dest: in_set_takeD intro!: distinct_take)
  have av: "the (avail ! i) = shards ! i" if "i \<in> set present" for i
    using that surv len by (auto simp: present_def survivors_def)
  define sd where "sd = map (\<lambda>idx. the (avail ! idx)) sel"
  have sd: "sd ! j = shards ! (sel ! j)" "sel ! j < ?n" if "j < ?k" for j
    using that sel av [of "sel ! j"] nth_mem [of j sel] by (auto simp: sd_def sel_def dest: in_set_takeD)
  have p0: "present \<noteq> []" using plen k0 by auto
  then have "present ! 0 \<in> set present" by simp
  with av len(3) have p1: "length (the (avail ! (present ! 0))) = L"
    by (auto simp: present_def)
  have sdl: "length d = L" if "d \<in> set sd" for d
    using that sel sd len(3) by (auto simp: in_set_conv_nth sd_def)
  obtain gen where gen: "generator_matrix k m = Some gen" "is_matrix ?n ?k gen"
    "\<And>i j. i < ?n \<Longrightarrow> j < ?k \<Longrightarrow> ent gen i j = Gm ?k i j" using generator_matrix_Some [OF km] by blast
  obtain iv where iv: "invert_matrix (map ((!) gen) sel) = Ok iv"
    "left_inverse ?k (ent iv) (\<lambda>r. Gm ?k (sel ! r))"
    using invert_selection [OF km gen(2,3) sel] by blast
  have byte: "recover_byte iv sd ?k i b = data ! i ! b" if "i < ?k" "b < L" for i b
  proof -
    have "GF (sd ! j ! b) = (\<Sum>t<?k. Gm ?k (sel ! j) t * GF (data ! t ! b))" if "j < ?k" for j
      using cw sd [OF that] \<open>b < L\<close> by (simp add: codeword_def)
    then have "GF (recover_byte iv sd ?k i b)
        = (\<Sum>j<?k. ent iv i j * (\<Sum>t<?k. Gm ?k (sel ! j) t * GF (data ! t ! b)))"
      by (simp add: recover_byte_sum)
    also have "\<dots> = GF (data ! i ! b)" using left_inverse_apply [OF iv(2) \<open>i < ?k\<close>] .
    finally show ?thesis by simp
  qed
  have "map (\<lambda>i. map (recover_byte iv sd ?k i) [0..<L]) [0..<?k] = data"
    using data byte by (auto simp: shards_wf_def intro!: nth_equalityI)
  then show ?thesis
    using len(2) plen p0 p1 gen(1) iv(1) sdl
    unfolding decode_def Let_def present_def [symmetric] sel_def [symmetric] sd_def [symmetric]
    by fastforce
qed

section \<open>Properties of the codec\<close>

text \<open>
  C1: for every configuration with at least one data shard and k + m at most 256, on every CPU
  that does not select GFNI: encoding k data shards of equal length succeeds, and decoding from any
  k or more surviving shards of the stripe, data or parity, returns the original data shards.
\<close>

theorem decode_encode:
  assumes "env_ok env" and "0 < enc_k self" and "unat (enc_k self) + unat m \<le> 256"
    and "shards_wf (unat (enc_k self)) L data"
  shows "\<exists>parity. encode env self data m = Ok parity \<and> shards_wf (unat m) L parity \<and>
    (\<forall>avail. survivors (data @ parity) avail \<and>
        unat (enc_k self) \<le> length (filter (\<lambda>s. s \<noteq> None) avail) \<longrightarrow>
      decode avail (enc_k self) m = Ok data)"
proof -
  obtain parity where p: "encode env self data m = Ok parity"
    "codeword (unat (enc_k self)) (unat m) L data (data @ parity)"
    using encode_codeword [OF assms] .
  then have "shards_wf (unat m) L parity"
    using assms(4) by (auto simp: codeword_def shards_wf_def)
  moreover have "decode avail (enc_k self) m = Ok data"
    if "survivors (data @ parity) avail" "unat (enc_k self) \<le> length (filter (\<lambda>s. s \<noteq> None) avail)"
    for avail using decode_codeword [OF assms(2,3) p(2) assms(4) that] .
  ultimately show ?thesis using p by blast
qed

definition portable_env :: ec_env where
  "portable_env = \<lparr>env_cpu = \<lparr>x86_64 = False, has_gfni = False, has_avx512f = False,
     has_avx512bw = False, has_avx2 = False, has_sse41 = False\<rparr>,
     env_level = GF_SIMD_LEVEL_init, env_buf = []\<rparr>"

lemma env_ok_portable: "env_ok portable_env"
  by (simp add: env_ok_def portable_env_def level_cache.init detect_features_def)

theorem decode_encode_witness:
  "\<exists>parity. encode portable_env \<lparr>enc_k = 2, enc_m = 1\<rparr> [[1, 2, 3], [4, 5, 6]] 1 = Ok parity \<and>
     decode [None, Some [4, 5, 6], Some (parity ! 0)] 2 1 = Ok [[1, 2, 3], [4, 5, 6]]"
proof -
  have "env_ok portable_env" by (rule env_ok_portable)
  moreover have "shards_wf (unat (2 :: u8)) 3 [[1, 2, 3], [4, 5, 6]]" by (simp add: shards_wf_def)
  ultimately obtain parity where
    p: "encode portable_env \<lparr>enc_k = 2, enc_m = 1\<rparr> [[1, 2, 3], [4, 5, 6]] 1 = Ok parity"
      "shards_wf 1 3 parity" "survivors ([[1, 2, 3], [4, 5, 6]] @ parity) avail \<Longrightarrow>
        2 \<le> length (filter (\<lambda>s. s \<noteq> None) avail) \<Longrightarrow>
        decode avail 2 1 = Ok [[1, 2, 3], [4, 5, 6]]" for avail
    using decode_encode [of portable_env "\<lparr>enc_k = 2, enc_m = 1\<rparr>" 1 3 "[[1, 2, 3], [4, 5, 6]]"]
    by auto
  from p(2) obtain q where "parity = [q]" by (auto simp: shards_wf_def length_Suc_conv)
  then have "survivors ([[1, 2, 3], [4, 5, 6]] @ parity) [None, Some [4, 5, 6], Some (parity ! 0)]"
    by (simp add: survivors_def less_Suc_eq)
  with p show ?thesis by auto
qed

text \<open>
  The compile-time matrices agree with the runtime construction, so the fast path of
  \<^verbatim>\<open>cauchy_matrix\<close> changes nothing, for every k and m; it is taken exactly for the supported pairs.
\<close>

theorem cauchy_matrix_fast_path:
  "cauchy_matrix k m = compute_cauchy_matrix k m \<and>
   (get_const_cauchy_matrix k m \<noteq> None \<longleftrightarrow> (k, m) \<in> set supported_pairs)"
  by (simp add: cauchy_matrix_compute) (auto simp: get_const_cauchy_matrix_def supported_pairs_def)

text \<open>
  The outcome of \<^verbatim>\<open>encode\<close> on every input: the two rejections, the empty configuration, and, for
  shards that pass the checks, a panic in the matrix construction when k + m exceeds 256 and
  parity shards otherwise.
\<close>

theorem encode_outcome:
  assumes "env_ok env"
  shows "case encode env self data m of
      Err e \<Rightarrow> (e = InvalidConfig \<and> length data \<noteq> unat (enc_k self)) \<or>
        (\<exists>s \<in> set data. length data = unat (enc_k self) \<and> length s \<noteq> length (hd data) \<and>
           e = ShardSizeMismatch (length (hd data)) (length s))
    | Panic \<Rightarrow> data \<noteq> [] \<and> shards_wf (unat (enc_k self)) (length (hd data)) data \<and>
        256 < unat (enc_k self) + unat m
    | Ok parity \<Rightarrow> (data = [] \<and> enc_k self = 0 \<and> parity = []) \<or>
        (shards_wf (unat (enc_k self)) (length (hd data)) data \<and>
         unat (enc_k self) + unat m \<le> 256 \<and>
         codeword (unat (enc_k self)) (unat m) (length (hd data)) data (data @ parity))"
proof -
  let ?k = "unat (enc_k self)"
  consider (len) "length data \<noteq> ?k" | (empty) "length data = ?k" "data = []"
    | (mis) s ss where "length data = ?k" "data \<noteq> []"
        "filter (\<lambda>s. length s \<noteq> length (data ! 0)) data = s # ss"
    | (wf) "length data = ?k" "data \<noteq> []" "filter (\<lambda>s. length s \<noteq> length (data ! 0)) data = []"
    by (meson neq_Nil_conv)
  then show ?thesis
  proof cases
    case len
    then show ?thesis by (simp add: encode_def)
  next
    case empty
    then show ?thesis by (simp add: encode_def unsigned_eq_0_iff)
  next
    case mis
    have hd0: "hd data = data ! 0" using mis(2) by (simp add: hd_conv_nth)
    from mis(3) have "s \<in> set data \<and> length s \<noteq> length (data ! 0)"
      by (metis (mono_tags, lifting) filter_eq_ConsD in_set_conv_decomp)
    with mis show ?thesis by (auto simp: encode_def Let_def hd0)
  next
    case wf
    have hd0: "hd data = data ! 0" using wf(2) by (simp add: hd_conv_nth)
    from wf have s: "shards_wf ?k (length (hd data)) data"
      by (auto simp: shards_wf_def filter_empty_conv hd0)
    from wf have k0: "0 < enc_k self"
      by (metis length_0_conv unsigned_0 word_neq_0_conv)
    show ?thesis
    proof (cases "?k + unat m \<le> 256")
      case True
      from encode_codeword [OF assms k0 True s] obtain parity where
        "encode env self data m = Ok parity" "codeword ?k (unat m) (length (hd data)) data (data @ parity)" .
      with s True show ?thesis by simp
    next
      case False
      then have "compute_cauchy_matrix (enc_k self) m = None"
        using k0 by (intro compute_cauchy_None) (auto simp: word_less_nat_alt)
      with wf s False show ?thesis
        by (simp add: encode_def encode_cauchy_def cauchy_matrix_compute)
    qed
  qed
qed

theorem encode_outcome_witness:
  "encode portable_env \<lparr>enc_k = 200, enc_m = 100\<rparr> (replicate 200 [7]) 100 = Panic"
  using encode_outcome [OF env_ok_portable, where self = "\<lparr>enc_k = 200, enc_m = 100\<rparr>"
      and data = "replicate 200 [7]" and m = 100]
  by (cases "encode portable_env \<lparr>enc_k = 200, enc_m = 100\<rparr> (replicate 200 [7]) 100")
     (auto simp: shards_wf_def)

lemma decode_step:
  assumes k: "0 < k" and km: "unat k + unat m \<le> 256" and len: "length avail = unat k + unat m"
    and enough: "unat k \<le> length (filter (\<lambda>s. s \<noteq> None) avail)"
  shows "\<exists>r. decode avail k m = Ok r \<or> decode avail k m = Panic"
proof -
  let ?k = "unat k" let ?n = "unat k + unat m"
  define present where "present = filter (\<lambda>i. avail ! i \<noteq> None) [0..<?n]"
  define sel where "sel = take ?k present"
  have k0: "0 < ?k" using k by (simp add: word_less_nat_alt)
  have plen: "?k \<le> length present"
    using enough unfolding length_filter_present len present_def .
  have sel: "distinct sel" "length sel = ?k" "set sel \<subseteq> {..<?n}"
    using plen by (auto simp: sel_def present_def dest: in_set_takeD intro!: distinct_take)
  obtain gen where gen: "generator_matrix k m = Some gen" "is_matrix ?n ?k gen"
    "\<And>i j. i < ?n \<Longrightarrow> j < ?k \<Longrightarrow> ent gen i j = Gm ?k i j" using generator_matrix_Some [OF km] by blast
  obtain iv where iv: "invert_matrix (map ((!) gen) sel) = Ok iv"
    using invert_selection [OF km gen(2,3) sel] by blast
  show ?thesis
    using len plen k0 gen(1) iv
    unfolding decode_def Let_def present_def [symmetric] sel_def [symmetric] by auto
qed

text \<open>
  For a configuration with k at least 1 and k + m at most 256, \<^verbatim>\<open>decode\<close> reports \<^verbatim>\<open>InvalidConfig\<close>
  exactly for a wrong number of slots and \<^verbatim>\<open>NotEnoughShards\<close>, with the right numbers, exactly when
  fewer than k shards are present; \<^verbatim>\<open>DecodingFailed\<close> never happens.
\<close>

theorem decode_errors:
  assumes "0 < k" and "unat k + unat m \<le> 256"
  shows "decode avail k m = Err e \<longleftrightarrow>
    (e = InvalidConfig \<and> length avail \<noteq> unat k + unat m) \<or>
    (length avail = unat k + unat m \<and> length (filter (\<lambda>s. s \<noteq> None) avail) < unat k \<and>
     e = NotEnoughShards (unat k) (length (filter (\<lambda>s. s \<noteq> None) avail)))"
proof -
  define n where "n = length (filter (\<lambda>s. s \<noteq> None) avail)"
  have "decode avail k m = Err e \<longleftrightarrow>
    (e = InvalidConfig \<and> length avail \<noteq> unat k + unat m) \<or>
    (length avail = unat k + unat m \<and> n < unat k \<and> e = NotEnoughShards (unat k) n)"
  proof (cases "length avail = unat k + unat m \<and> unat k \<le> n")
    case True
    with decode_step [OF assms, of avail] show ?thesis by (auto simp: n_def)
  next
    case False
    have "length (filter (\<lambda>i. avail ! i \<noteq> None) [0..<unat k + unat m]) = n"
      if "length avail = unat k + unat m"
      using that length_filter_present [of avail] by (simp add: n_def)
    with False show ?thesis by (auto simp: decode_def Let_def)
  qed
  then show ?thesis by (simp only: n_def)
qed

theorem decode_errors_witness:
  "decode [None, Some [1], None] 2 1 = Err (NotEnoughShards 2 1)"
  using decode_errors [of 2 1 "[None, Some [1], None]" "NotEnoughShards 2 1"] by simp

text \<open>
  C32: on a CPU for which detection selects GFNI the round trip fails: with one data and one parity
  shard of 32 bytes, the parity that \<^verbatim>\<open>encode\<close> computes decodes to other data.
\<close>

theorem gfni_round_trip_fails:
  "\<exists>env p. detect_features (env_cpu env) = Gfni \<and>
    encode env \<lparr>enc_k = 1, enc_m = 1\<rparr> [replicate 32 0x80] 1 = Ok [p] \<and>
    decode [None, Some p] 1 1 = Ok [replicate 32 0xab]"
proof -
  define env where "env = \<lparr>env_cpu = \<lparr>x86_64 = True, has_gfni = True, has_avx512f = False,
     has_avx512bw = False, has_avx2 = True, has_sse41 = True\<rparr>,
     env_level = GF_SIMD_LEVEL_init, env_buf = []\<rparr>"
  have gfni: "detect_features (env_cpu env) = Gfni" "x86_64 (env_cpu env)"
    by (simp_all add: env_def detect_features_def)
  have cm: "cauchy_matrix 1 1 = Some [[0xf4]]"
    by (simp add: cauchy_matrix_compute compute_cauchy_matrix_def cauchy_entry_simp gf_inv_small)
  have lvl: "env_level env \<in> level_cache (env_cpu env)"
    using level_cache.init by (simp add: env_def)
  have buf: "simd_buf env 32 = replicate 32 0" by (simp add: simd_buf_def env_def)
  have "clmul 0x1B 8 0x80 0xf4 = 0x92" by simp
  then have mul: "gf_mul_simd (env_cpu env) (env_level env) 0xf4 (replicate 32 0x80) (replicate 32 0)
      = Some (replicate 32 0x92)"
    by (simp add: gf_mul_simd_def gf_mul_dispatch_gfni [OF lvl gfni(1)] del: clmul_numeral)
  have enc: "encode env \<lparr>enc_k = 1, enc_m = 1\<rparr> [replicate 32 0x80] 1 = Ok [replicate 32 0x92]"
    by (simp add: encode_def encode_cauchy_def cm gfni buf mul)
  have "gf_mul 0xf4 3 = 1" "gf_mul 3 0x92 = 0xab" by (simp_all add: gf_mul_clmul)
  moreover from this(1) have "gf_inv 0xf4 = Some 3" by (rule gf_inv_eqI)
  moreover from calculation have
    "map (recover_byte [[3]] [replicate 32 0x92] 1 0) [0..<32] = replicate 32 0xab"
    by (intro nth_equalityI) (simp_all add: recover_byte_def gf_add_def)
  moreover have "[0..<2] = [0, 1 :: nat]" by (simp add: upt_rec)
  ultimately have dec: "decode [None, Some (replicate 32 0x92)] 1 1 = Ok [replicate 32 0xab]"
    by (simp add: decode_def generator_matrix_def cm invert_matrix_def augment_def pivot_step_def
        find_pivot.simps swap_rows_def normalize_row_def eliminate_row_def)
  from gfni(1) enc dec show ?thesis by blast
qed
end
