(* ===== verification/Stripe.thy ===== *)
theory Stripe
  imports Cauchy
begin

text \<open>
  Segments as stripes: \<^verbatim>\<open>oceanfs-core/src/types/codec.rs\<close> (configuration and plan),
  \<^verbatim>\<open>oceanfs-ec/src/stripe/layout.rs\<close>, \<^verbatim>\<open>stripe/batch.rs\<close>, \<^verbatim>\<open>stripe/parallel.rs\<close>, the shard views of
  \<^verbatim>\<open>oceanfs-ec/src/shard.rs\<close> and \<^verbatim>\<open>oceanfs-core/src/config/shard.rs\<close>.  The codec behind the \<^verbatim>\<open>Encoder\<close> and
  \<^verbatim>\<open>Decoder\<close> traits is the locale \<^verbatim>\<open>stripe_codec\<close>, which the Cauchy codec satisfies in every
  configuration that fits in a byte.  Sizes of type \<^verbatim>\<open>usize\<close> are natural numbers; the loops over stripes
  and shards write disjoint ranges, so the copy loop is run shard by shard.
\<close>

section \<open>Codec parameters and layout\<close>

datatype CodecType = CauchyRs | StandardRs | Lrc | Clay

record CodecConfig =
  codec_type :: CodecType
  cfg_data_shards :: u8
  cfg_parity_shards :: u8
  strip_size_bytes :: nat

definition CodecConfig_default :: CodecConfig where
  "CodecConfig_default = \<lparr>codec_type = CauchyRs, cfg_data_shards = 4, cfg_parity_shards = 2,
     strip_size_bytes = 65536\<rparr>"

definition CauchyEncoder_new :: "CodecConfig \<Rightarrow> CauchyEncoder" where
  "CauchyEncoder_new config = \<lparr>enc_k = cfg_data_shards config, enc_m = cfg_parity_shards config\<rparr>"

record EncodingPlan =
  stripe_count :: nat
  padded_size :: u64
  shard_size :: nat
  data_shards :: u8
  parity_shards :: u8

definition total_shards :: "EncodingPlan \<Rightarrow> u8" where
  "total_shards plan = data_shards plan + parity_shards plan"

definition derive_shard_count :: "nat option \<Rightarrow> nat \<Rightarrow> nat \<Rightarrow> nat" where
  "derive_shard_count parallelism config_shard_count config_shard_max =
     (if config_shard_count > 0 then config_shard_count
      else let num_cpus = (case parallelism of None \<Rightarrow> 4 | Some n \<Rightarrow> n)
           in max (min num_cpus config_shard_max) 1)"

text \<open>\<^verbatim>\<open>u64::div_ceil\<close>; the divisor is nonzero at every call.\<close>

definition div_ceil_u64 :: "u64 \<Rightarrow> u64 \<Rightarrow> u64" where
  "div_ceil_u64 a b = (let d = a div b; r = a mod b in if 0 < r then d + 1 else d)"

text \<open>\<^verbatim>\<open>usize\<close> is 64 bits wide.  The products wrap, and a product that wraps to 0 panics in the division.\<close>

definition compute_layout :: "u64 \<Rightarrow> u8 \<Rightarrow> u8 \<Rightarrow> u64 \<Rightarrow> (ec_error, EncodingPlan) outcome" where
  "compute_layout segment_size k m strip_size =
     (if k = 0 then Err InvalidConfig
      else if strip_size = 0 then Err InvalidConfig
      else if segment_size = 0 then Err InvalidConfig
      else let k64 = ucast k :: u64;
               stripe_data_size = k64 * strip_size
           in if stripe_data_size = 0 then Panic
              else let count = div_ceil_u64 segment_size stripe_data_size
                   in Ok \<lparr>stripe_count = unat count, padded_size = count * stripe_data_size,
                          shard_size = unat strip_size, data_shards = k, parity_shards = m\<rparr>)"

section \<open>Shard views\<close>

record ShardData =
  raw :: "u8 list"
  sd_k :: u8
  sd_m :: u8
  plan :: EncodingPlan

text \<open>The assertions are checked in debug builds; \<^verbatim>\<open>None\<close> is a failed assertion or slice.\<close>

definition ShardData_new :: "u8 list \<Rightarrow> u8 \<Rightarrow> u8 \<Rightarrow> EncodingPlan \<Rightarrow> ShardData option" where
  "ShardData_new r k m p =
     (if length r \<noteq> (unat k + unat m) * stripe_count p * shard_size p then None
      else Some \<lparr>raw = r, sd_k = k, sd_m = m, plan = p\<rparr>)"

definition from_data_shards :: "u8 list \<Rightarrow> u8 \<Rightarrow> EncodingPlan \<Rightarrow> ShardData option" where
  "from_data_shards r k p =
     (if length r \<noteq> unat k * stripe_count p * shard_size p then None
      else Some \<lparr>raw = r, sd_k = k, sd_m = 0, plan = p\<rparr>)"

definition slice :: "'a list \<Rightarrow> nat \<Rightarrow> nat \<Rightarrow> 'a list option" where
  "slice xs from len = (if from + len \<le> length xs then Some (take len (drop from xs)) else None)"

definition shard :: "ShardData \<Rightarrow> u8 \<Rightarrow> u8 list option" where
  "shard sd index =
     (let idx = unat index; total = unat (sd_k sd) + unat (sd_m sd)
      in if \<not> idx < total then None
         else let shard_len = stripe_count (plan sd) * shard_size (plan sd)
              in slice (raw sd) (idx * shard_len) shard_len)"

definition data_shard :: "ShardData \<Rightarrow> u8 \<Rightarrow> u8 list option" where
  "data_shard sd index = (if index < sd_k sd then shard sd index else None)"

definition parity_shard :: "ShardData \<Rightarrow> u8 \<Rightarrow> u8 list option" where
  "parity_shard sd index =
     (if index < sd_m sd \<and> unat (sd_k sd) + unat index < 256 then shard sd (sd_k sd + index) else None)"

definition stripe :: "ShardData \<Rightarrow> u8 \<Rightarrow> nat \<Rightarrow> u8 list option" where
  "stripe sd shard_index stripe_index =
     (if \<not> stripe_index < stripe_count (plan sd) then None
      else case shard sd shard_index of
             None \<Rightarrow> None
           | Some s \<Rightarrow> slice s (stripe_index * shard_size (plan sd)) (shard_size (plan sd)))"

section \<open>Encoding and decoding a segment\<close>

record StripeBatch =
  sb_data :: "u8 list list"
  sb_parity :: "u8 list list"

definition StripeBatch_new :: "nat \<Rightarrow> nat \<Rightarrow> StripeBatch" where
  "StripeBatch_new data_count parity_count =
     \<lparr>sb_data = replicate data_count [], sb_parity = replicate parity_count []\<rparr>"

text \<open>One iteration of the copy loop, for one shard and one stripe.\<close>

definition copy_stripe :: "u8 list \<Rightarrow> nat \<Rightarrow> nat \<Rightarrow> nat \<Rightarrow> nat \<Rightarrow> u8 list \<Rightarrow> u8 list" where
  "copy_stripe segment_data k sz shard_idx stripe_idx buf =
     (let src_offset = stripe_idx * (k * sz) + shard_idx * sz; dst_offset = stripe_idx * sz
      in if src_offset < length segment_data
         then let available = length segment_data - src_offset; copy_len = min available sz
              in store_at buf dst_offset (take copy_len (drop src_offset segment_data))
         else buf)"

definition build_shards :: "u8 list \<Rightarrow> nat \<Rightarrow> nat \<Rightarrow> nat \<Rightarrow> u8 list list" where
  "build_shards segment_data k sz stripes =
     map (\<lambda>shard_idx. fold (copy_stripe segment_data k sz shard_idx) [0..<stripes]
            (replicate (stripes * sz) 0)) [0..<k]"

text \<open>
  The parallel iterator runs every stripe before the results are looked at: a panic of any stripe
  panics, otherwise the first error in stripe order is returned.
\<close>

definition collect_outcomes :: "('e, 'a) outcome list \<Rightarrow> ('e, 'a list) outcome" where
  "collect_outcomes rs = (if Panic \<in> set rs then Panic else map_outcome (\<lambda>r. r) rs)"

definition write_parity :: "nat \<Rightarrow> nat \<Rightarrow> u8 list list \<Rightarrow> u8 list list \<Rightarrow> (ec_error, u8 list list) outcome" where
  "write_parity sz stripe_idx vs bufs =
     (let offset = stripe_idx * sz
      in if length bufs < length vs \<or> (\<exists>(v, b) \<in> set (zip vs bufs). length b < offset + length v) then Panic
         else Ok (map2 (\<lambda>v b. store_at b offset v) vs bufs @ drop (length vs) bufs))"

definition write_data :: "nat \<Rightarrow> nat \<Rightarrow> u8 list list \<Rightarrow> u8 list list \<Rightarrow> (ec_error, u8 list list) outcome" where
  "write_data sz stripe_idx vs bufs =
     (let offset = stripe_idx * sz
      in if length bufs < length vs then Panic
         else Ok (map2 (\<lambda>v b. let len = min (length v) sz
                              in if offset + len \<le> length b then store_at b offset (take len v) else b) vs bufs
                  @ drop (length vs) bufs))"

fun write_stripes :: "(nat \<Rightarrow> 'r \<Rightarrow> 'b \<Rightarrow> ('e, 'b) outcome) \<Rightarrow> nat \<Rightarrow> 'r list \<Rightarrow> 'b \<Rightarrow> ('e, 'b) outcome" where
  "write_stripes write i [] bufs = Ok bufs"
| "write_stripes write i (r # rs) bufs = bind_outcome (write i r bufs) (write_stripes write (Suc i) rs)"

definition block :: "nat \<Rightarrow> nat \<Rightarrow> u8 list \<Rightarrow> u8 list" where
  "block sz i buf = take sz (drop (i * sz) buf)"

definition parallel_encode ::
  "(nat \<Rightarrow> u8 list list \<Rightarrow> u8 \<Rightarrow> (ec_error, u8 list list) outcome) \<Rightarrow> u8 list \<Rightarrow> EncodingPlan \<Rightarrow>
     (ec_error, StripeBatch) outcome" where
  "parallel_encode enc segment_data p =
     (let k = unat (data_shards p); m = unat (parity_shards p);
          stripes = stripe_count p; sz = shard_size p;
          shards = build_shards segment_data k sz stripes
      in bind_outcome
           (collect_outcomes (map (\<lambda>i. enc i (map (block sz i) shards) (parity_shards p)) [0..<stripes]))
           (\<lambda>results. bind_outcome
              (write_stripes (write_parity sz) 0 results (replicate m (replicate (stripes * sz) 0)))
              (\<lambda>parity. Ok \<lparr>sb_data = shards, sb_parity = parity\<rparr>)))"

text \<open>The slots handed to the decoder; \<^verbatim>\<open>k + m\<close> is a byte addition, so the slot vector can be too short.\<close>

definition stripe_slots :: "StripeBatch \<Rightarrow> nat \<Rightarrow> nat list \<Rightarrow> nat \<Rightarrow> u8 list option list" where
  "stripe_slots av sz missing i =
     (let slot = (\<lambda>buf. if i * sz < length buf then Some (block sz i buf) else None)
      in map (\<lambda>s. if s \<in> set missing then None else slot (sb_data av ! s)) [0..<length (sb_data av)] @
         map slot (sb_parity av))"

definition fill_slots :: "nat \<Rightarrow> u8 list option list \<Rightarrow> (ec_error, u8 list option list) outcome" where
  "fill_slots total_len slots =
     (if \<exists>s \<in> set (drop total_len slots). s \<noteq> None then Panic
      else Ok (take total_len slots @ replicate (total_len - length slots) None))"

definition parallel_decode ::
  "(u8 list option list \<Rightarrow> u8 \<Rightarrow> u8 \<Rightarrow> (ec_error, u8 list list) outcome) \<Rightarrow> StripeBatch \<Rightarrow>
     EncodingPlan \<Rightarrow> nat list \<Rightarrow> (ec_error, u8 list list) outcome" where
  "parallel_decode dec av p missing =
     (let k = of_nat (length (sb_data av)) :: u8; m = of_nat (length (sb_parity av)) :: u8;
          stripes = stripe_count p; sz = shard_size p;
          av = \<lparr>sb_data = take (unat k) (sb_data av), sb_parity = take (unat m) (sb_parity av)\<rparr>
      in bind_outcome
           (collect_outcomes (map (\<lambda>i.
              bind_outcome (fill_slots (unat (k + m)) (stripe_slots av sz missing i))
                (\<lambda>shards. dec shards k m)) [0..<stripes]))
           (\<lambda>results. write_stripes (write_data sz) 0 results
              (replicate (unat k) (replicate (stripes * sz) 0))))"


section \<open>Copying a segment into shards\<close>

lemma block_store_at:
  assumes v: "length v \<le> w" and d: "i * w + w \<le> length d"
  shows "block w j (store_at d (i * w) v)
     = (if j = i then v @ drop (length v) (block w i d) else block w j d)"
proof -
  consider "j < i" | "j = i" | "i < j" by linarith
  then show ?thesis
  proof cases
    case 1
    then have "j * w + w \<le> i * w" using mult_le_mono1 [of "Suc j" i w] by simp
    then have "w \<le> i * w - j * w" "i * w \<le> length d" using d by linarith+
    with 1 show ?thesis by (simp add: block_def store_at_def drop_take)
  next
    case 2
    have "i * w \<le> length d" using d by linarith
    with 2 v show ?thesis by (simp add: block_def store_at_def drop_take add.commute)
  next
    case 3
    then have "i * w + w \<le> j * w" using mult_le_mono1 [of "Suc i" j w] by simp
    then have "i * w + length v \<le> j * w" "i * w \<le> length d" using v d by linarith+
    with 3 show ?thesis by (simp add: block_def store_at_def)
  qed
qed

lemma block_replicate: "i < n \<Longrightarrow> block w i (replicate (n * w) x) = replicate w x"
proof -
  assume "i < n"
  then have "Suc i * w \<le> n * w" by (intro mult_le_mono1) simp
  then show ?thesis by (simp add: block_def)
qed

lemma blocks_concat: "length d = n * w \<Longrightarrow> concat (map (\<lambda>i. block w i d) [0..<n]) = d"
proof (induction n arbitrary: d)
  case (Suc n)
  have "concat (map (\<lambda>i. block w i (take (n * w) d)) [0..<n]) = take (n * w) d"
    using Suc by simp
  moreover have "block w i (take (n * w) d) = block w i d" if "i < n" for i
  proof -
    have "Suc i * w \<le> n * w" using that by (intro mult_le_mono1) simp
    then show ?thesis by (simp add: block_def drop_take min_def)
  qed
  moreover have "block w n d = drop (n * w) d" using Suc by (simp add: block_def)
  ultimately have "concat (map (\<lambda>i. block w i d) [0..<n]) = take (n * w) d"
    by (metis (no_types, lifting) atLeastLessThan_iff map_eq_conv set_upt)
  with \<open>block w n d = drop (n * w) d\<close> show ?case by simp
qed simp

lemma blocks_eqI:
  assumes "length d = n * w" "length d' = n * w" "\<And>i. i < n \<Longrightarrow> block w i d = block w i d'"
  shows "d = d'"
  using blocks_concat [OF assms(1)] blocks_concat [OF assms(2)] assms(3)
  by (metis (no_types, lifting) atLeastLessThan_iff map_eq_conv set_upt)

definition padded :: "u8 list \<Rightarrow> nat \<Rightarrow> u8 list" where
  "padded seg n = take n (seg @ replicate n 0)"

lemma length_padded [simp]: "length (padded seg n) = n"
  by (simp add: padded_def)

lemma padded_slice:
  assumes "off + w \<le> n"
  shows "take w (drop off (padded seg n)) =
    (if off < length seg then take (min (length seg - off) w) (drop off seg) @
        replicate (w - min (length seg - off) w) 0 else replicate w 0)"
  using assms by (auto simp: padded_def drop_take min_def)

lemma copy_stripe_block:
  assumes d: "length d = n * w" and i: "i < n" and z: "block w i d = replicate w 0" and s: "s < k"
  shows "length (copy_stripe seg k w s i d) = n * w" and
    "block w j (copy_stripe seg k w s i d) =
      (if j = i then take w (drop ((i * k + s) * w) (padded seg (n * k * w))) else block w j d)"
proof -
  let ?off = "i * (k * w) + s * w"
  have iw: "i * w + w \<le> length d" using i d mult_le_mono1 [of "Suc i" n w] by simp
  have "(i * k + s + 1) \<le> (i + 1) * k" using s by simp
  also have "\<dots> \<le> n * k" using i by (intro mult_le_mono1) simp
  finally have "(i * k + s + 1) * w \<le> n * k * w" by (rule mult_le_mono1)
  then have off: "?off + w \<le> n * k * w" by (simp add: algebra_simps)
  have off': "(i * k + s) * w = ?off" by (simp add: algebra_simps)
  define v where "v = take (min (length seg - ?off) w) (drop ?off seg)"
  have v: "length v = min (length seg - ?off) w" by (simp add: v_def min_def)
  have cs: "copy_stripe seg k w s i d = (if ?off < length seg then store_at d (i * w) v else d)"
    by (simp add: copy_stripe_def Let_def v_def)
  show "length (copy_stripe seg k w s i d) = n * w"
    unfolding cs using d iw v by (simp add: length_store_at)
  show "block w j (copy_stripe seg k w s i d) =
      (if j = i then take w (drop ((i * k + s) * w) (padded seg (n * k * w))) else block w j d)"
    unfolding cs off' padded_slice [OF off] v_def [symmetric]
    using block_store_at [OF _ iw, of v j] by (cases "j = i") (simp_all add: v z)
qed

lemma build_shard_blocks:
  fixes seg w n
  assumes "s < k"
  defines "d \<equiv> fold (copy_stripe seg k w s) [0..<n] (replicate (n * w) 0)"
  shows "length d = n * w" and "i < n \<Longrightarrow> block w i d = take w (drop ((i * k + s) * w) (padded seg (n * k * w)))"
proof -
  define P where "P t e \<longleftrightarrow> length e = n * w \<and> (\<forall>i < n. block w i e =
    (if i < t then take w (drop ((i * k + s) * w) (padded seg (n * k * w))) else replicate w 0))" for t e
  have "P n d"
    unfolding d_def
  proof (rule fold_upt_invariant)
    fix t e assume t: "t < n" and P: "P t e"
    then have "length e = n * w" "block w t e = replicate w 0" by (simp_all add: P_def)
    note * = copy_stripe_block [OF this(1) t this(2) assms(1)]
    show "P (Suc t) (copy_stripe seg k w s t e)" using P t by (auto simp: P_def * less_Suc_eq)
  qed (simp add: P_def block_replicate)
  then show "length d = n * w" "i < n \<Longrightarrow> block w i d = take w (drop ((i * k + s) * w) (padded seg (n * k * w)))"
    by (simp_all add: P_def)
qed

lemma nested_concat:
  "concat (map (\<lambda>i. concat (map (\<lambda>s. take w (drop ((i * k + s) * w) p)) [0..<k])) [0..<n])
     = take (n * k * w) p"
proof -
  have *: "concat (map (\<lambda>s. take w (drop ((a + s) * w) p)) [0..<b]) = take (b * w) (drop (a * w) p)" for a b
  proof (induction b)
    case (Suc b)
    have "take (b * w) (drop (a * w) p) @ take w (drop ((a + b) * w) p) = take (b * w + w) (drop (a * w) p)"
      using take_add [of "b * w" w "drop (a * w) p"] by (simp add: add_mult_distrib add.commute)
    with Suc show ?case by (simp add: add.commute)
  qed simp
  have "concat (map (\<lambda>i. take (k * w) (drop ((i * k) * w) p)) [0..<n]) = take (n * k * w) p"
  proof (induction n)
    case (Suc n)
    then show ?case using take_add [of "n * (k * w)" "k * w" p]
      by (simp add: mult.assoc add.commute add_mult_distrib)
  qed simp
  then show ?thesis by (simp add: *)
qed

lemma build_shards_wf: "shards_wf k (n * w) (build_shards seg k w n)"
  by (auto simp: shards_wf_def build_shards_def build_shard_blocks)

lemma build_shards_interleave:
  "concat (map (\<lambda>i. concat (map (block w i) (build_shards seg k w n))) [0..<n]) = padded seg (n * k * w)"
proof -
  have "map (block w i) (build_shards seg k w n)
      = map (\<lambda>s. take w (drop ((i * k + s) * w) (padded seg (n * k * w)))) [0..<k]" if "i < n" for i
    using that by (simp add: build_shards_def build_shard_blocks)
  then have "concat (map (\<lambda>i. concat (map (block w i) (build_shards seg k w n))) [0..<n])
      = take (n * k * w) (padded seg (n * k * w))"
    by (subst nested_concat [symmetric]) (intro arg_cong [where f = concat] map_cong refl, simp)
  then show ?thesis by simp
qed

section \<open>Writing the results back\<close>

lemma shards_wf_nth: "shards_wf n L xs \<Longrightarrow> i < n \<Longrightarrow> length (xs ! i) = L"
  by (simp add: shards_wf_def)

lemma shards_wf_blocks: "shards_wf k (n * w) xs \<Longrightarrow> i < n \<Longrightarrow> shards_wf k w (map (block w i) xs)"
proof -
  assume "shards_wf k (n * w) xs" "i < n"
  moreover from \<open>i < n\<close> have "i * w + w \<le> n * w" using mult_le_mono1 [of "Suc i" n w] by simp
  ultimately show ?thesis by (auto simp: shards_wf_def block_def)
qed

definition store_all :: "nat \<Rightarrow> nat \<Rightarrow> u8 list list \<Rightarrow> u8 list list \<Rightarrow> u8 list list" where
  "store_all w i vs bufs = map2 (\<lambda>v b. store_at b (i * w) v) vs bufs"

lemma write_parity_store:
  assumes "shards_wf n w vs" "shards_wf n (N * w) bufs" "i < N"
  shows "write_parity w i vs bufs = Ok (store_all w i vs bufs)"
proof -
  have "i * w + w \<le> N * w" using mult_le_mono1 [of "Suc i" N w] assms(3) by simp
  then have "i * w + length v \<le> length b" if "(v, b) \<in> set (zip vs bufs)" for v b
    using assms that set_zip_leftD [OF that] set_zip_rightD [OF that] by (simp add: shards_wf_def)
  then have "\<not> (\<exists>(v, b) \<in> set (zip vs bufs). length b < i * w + length v)"
    by (fastforce simp: not_less [symmetric])
  with assms show ?thesis by (simp add: write_parity_def Let_def store_all_def shards_wf_def)
qed

lemma write_data_store:
  assumes "shards_wf n w vs" "shards_wf n (N * w) bufs" "i < N"
  shows "write_data w i vs bufs = Ok (store_all w i vs bufs)"
proof -
  have le: "i * w + w \<le> N * w" using mult_le_mono1 [of "Suc i" N w] assms(3) by simp
  have "map2 (\<lambda>v b. let len = min (length v) w
      in if i * w + len \<le> length b then store_at b (i * w) (take len v) else b) vs bufs
    = store_all w i vs bufs"
    unfolding store_all_def
  proof (rule map_cong [OF refl])
    fix x assume x: "x \<in> set (zip vs bufs)"
    obtain v b where vb: "x = (v, b)" by (cases x)
    with x have "length v = w" "length b = N * w"
      using assms by (auto simp: shards_wf_def dest: set_zip_leftD set_zip_rightD)
    with vb le show "(case x of (v, b) \<Rightarrow> let len = min (length v) w
      in if i * w + len \<le> length b then store_at b (i * w) (take len v) else b)
      = (case x of (v, b) \<Rightarrow> store_at b (i * w) v)" by simp
  qed
  with assms show ?thesis by (simp add: write_data_def shards_wf_def)
qed

lemma store_all_wf:
  assumes "shards_wf n w vs" "shards_wf n (N * w) bufs" "i < N"
  shows "shards_wf n (N * w) (store_all w i vs bufs)"
    and "s < n \<Longrightarrow> block w t (store_all w i vs bufs ! s) = (if t = i then vs ! s else block w t (bufs ! s))"
proof -
  have le: "i * w + w \<le> N * w" using mult_le_mono1 [of "Suc i" N w] assms(3) by simp
  have "length (store_all w i vs bufs ! s) = N * w" if "s < n" for s
    using that assms le by (simp add: store_all_def shards_wf_def length_store_at)
  with assms show "shards_wf n (N * w) (store_all w i vs bufs)"
    by (auto simp: shards_wf_def store_all_def in_set_conv_nth)
  assume s: "s < n"
  then have "length (vs ! s) = w" "i * w + w \<le> length (bufs ! s)"
    using assms le by (simp_all add: shards_wf_def)
  moreover from this have "length (block w i (bufs ! s)) = w" by (simp add: block_def)
  ultimately show "block w t (store_all w i vs bufs ! s) = (if t = i then vs ! s else block w t (bufs ! s))"
    using s assms(1,2) block_store_at [of "vs ! s" w i "bufs ! s" t]
    by (simp add: store_all_def shards_wf_def)
qed

lemma write_stripes_blocks:
  assumes step: "\<And>i vs bufs. shards_wf n w vs \<Longrightarrow> shards_wf n (N * w) bufs \<Longrightarrow> i < N \<Longrightarrow>
      wr i vs bufs = Ok (store_all w i vs bufs)"
    and "\<forall>vs \<in> set rs. shards_wf n w vs" "shards_wf n (N * w) bufs" "i + length rs \<le> N"
  shows "\<exists>bufs'. write_stripes wr i rs bufs = Ok bufs' \<and> shards_wf n (N * w) bufs' \<and>
    (\<forall>s < n. \<forall>t. block w t (bufs' ! s) =
       (if i \<le> t \<and> t < i + length rs then rs ! (t - i) ! s else block w t (bufs ! s)))"
  using assms(2-)
proof (induction rs arbitrary: i bufs)
  case (Cons r rs)
  then have r: "shards_wf n w r" "i < N" by auto
  note st = store_all_wf [OF r(1) Cons.prems(2) r(2)]
  have "Suc i + length rs \<le> N" using Cons.prems(3) by simp
  with Cons.IH [OF _ st(1), of "Suc i"] Cons.prems(1) obtain bufs' where
    b: "write_stripes wr (Suc i) rs (store_all w i r bufs) = Ok bufs'" "shards_wf n (N * w) bufs'"
      "\<forall>s < n. \<forall>t. block w t (bufs' ! s) = (if Suc i \<le> t \<and> t < Suc i + length rs
         then rs ! (t - Suc i) ! s else block w t (store_all w i r bufs ! s))" by auto
  have "block w t (bufs' ! s) = (if i \<le> t \<and> t < i + length (r # rs) then (r # rs) ! (t - i) ! s
      else block w t (bufs ! s))" if "s < n" for s t
    using that b(3) st(2) [OF that, of t] by (auto simp: nth_Cons' le_less Suc_le_eq)
  with b(1,2) step [OF r(1) Cons.prems(2) r(2)] show ?case by auto
qed auto

lemma collect_outcomes_Ok:
  "(\<And>i. i < n \<Longrightarrow> f i = Ok (g i)) \<Longrightarrow> collect_outcomes (map f [0..<n]) = Ok (map g [0..<n])"
  unfolding collect_outcomes_def
  by (auto simp: image_iff comp_def map_outcome_map intro!: map_outcome_all_Ok)

section \<open>The codec interface\<close>

text \<open>
  What \<^verbatim>\<open>ParallelEncoder\<close> and \<^verbatim>\<open>ParallelDecoder\<close> rely on of the codec behind the \<^verbatim>\<open>Encoder\<close> and \<^verbatim>\<open>Decoder\<close>
  traits.  The encoder takes the stripe index as a first argument, since each stripe may run on
  another thread with another scratch buffer.
\<close>

locale stripe_codec =
  fixes enc :: "nat \<Rightarrow> u8 list list \<Rightarrow> u8 \<Rightarrow> (ec_error, u8 list list) outcome"
    and dec :: "u8 list option list \<Rightarrow> u8 \<Rightarrow> u8 \<Rightarrow> (ec_error, u8 list list) outcome"
    and k :: u8 and m :: u8
  assumes encodes: "shards_wf (unat k) L data \<Longrightarrow>
      \<exists>parity. enc i data m = Ok parity \<and> shards_wf (unat m) L parity"
    and decodes: "shards_wf (unat k) L data \<Longrightarrow> enc i data m = Ok parity \<Longrightarrow>
      survivors (data @ parity) avail \<Longrightarrow> unat k \<le> length (filter (\<lambda>s. s \<noteq> None) avail) \<Longrightarrow>
      dec avail k m = Ok data"
    and total: "unat k + unat m < 256"
begin

lemma parallel_encode_ok:
  fixes seg :: "u8 list"
  assumes "data_shards p = k" "parity_shards p = m"
  defines "shards \<equiv> build_shards seg (unat k) (shard_size p) (stripe_count p)"
  shows "\<exists>parity. parallel_encode enc seg p = Ok \<lparr>sb_data = shards, sb_parity = parity\<rparr> \<and>
    shards_wf (unat m) (stripe_count p * shard_size p) parity \<and>
    (\<forall>i < stripe_count p. enc i (map (block (shard_size p) i) shards) m
       = Ok (map (block (shard_size p) i) parity))"
proof -
  let ?w = "shard_size p" let ?N = "stripe_count p"
  have wf: "shards_wf (unat k) (?N * ?w) shards" unfolding shards_def by (rule build_shards_wf)
  have "\<exists>par. enc i (map (block ?w i) shards) m = Ok par \<and> shards_wf (unat m) ?w par" if "i < ?N" for i
    using encodes [OF shards_wf_blocks [OF wf that]] .
  then obtain g where g: "\<And>i. i < ?N \<Longrightarrow> enc i (map (block ?w i) shards) m = Ok (g i)"
    "\<And>i. i < ?N \<Longrightarrow> shards_wf (unat m) ?w (g i)" by metis
  let ?z = "replicate (unat m) (replicate (?N * ?w) (0 :: u8))"
  have z: "shards_wf (unat m) (?N * ?w) ?z" by (simp add: shards_wf_def)
  have "\<exists>parity. write_stripes (write_parity ?w) 0 (map g [0..<?N]) ?z = Ok parity \<and>
      shards_wf (unat m) (?N * ?w) parity \<and> (\<forall>s < unat m. \<forall>t. block ?w t (parity ! s) =
       (if 0 \<le> t \<and> t < 0 + length (map g [0..<?N]) then map g [0..<?N] ! (t - 0) ! s else block ?w t (?z ! s)))"
    by (rule write_stripes_blocks [OF write_parity_store]) (use g z in auto)
  then obtain parity where par: "write_stripes (write_parity ?w) 0 (map g [0..<?N]) ?z = Ok parity"
    "shards_wf (unat m) (?N * ?w) parity" "\<And>s t. s < unat m \<Longrightarrow> t < ?N \<Longrightarrow> block ?w t (parity ! s) = g t ! s"
    by auto
  have "map (block ?w i) parity = g i" if "i < ?N" for i
    using that par(2,3) g(2) by (auto simp: shards_wf_def intro!: nth_equalityI)
  moreover have "parallel_encode enc seg p = Ok \<lparr>sb_data = shards, sb_parity = parity\<rparr>"
    using collect_outcomes_Ok [OF g(1)] par(1) assms(1,2)
    by (simp add: parallel_encode_def Let_def shards_def)
  ultimately show ?thesis using g(1) par(2) by auto
qed

lemma count_slots:
  assumes "w > 0" "i < N" "shards_wf kk (N * w) data" "shards_wf mm (N * w) parity"
    and "card (set missing \<inter> {..<kk}) \<le> mm"
  shows "survivors (map (block w i) data @ map (block w i) parity)
        (stripe_slots \<lparr>sb_data = data, sb_parity = parity\<rparr> w missing i)"
    and "kk \<le> length (filter (\<lambda>s. s \<noteq> None) (stripe_slots \<lparr>sb_data = data, sb_parity = parity\<rparr> w missing i))"
proof -
  have lt: "i * w < N * w" using assms(1,2) by simp
  have slots: "stripe_slots \<lparr>sb_data = data, sb_parity = parity\<rparr> w missing i =
      map (\<lambda>s. if s \<in> set missing then None else Some (block w i (data ! s))) [0..<kk] @
      map (\<lambda>b. Some (block w i b)) parity"
    using assms(3,4) lt by (simp add: stripe_slots_def Let_def shards_wf_def)
  show "survivors (map (block w i) data @ map (block w i) parity)
        (stripe_slots \<lparr>sb_data = data, sb_parity = parity\<rparr> w missing i)"
    using assms(3,4) by (auto simp: slots survivors_def shards_wf_def nth_append)
  have "length (filter (\<lambda>s. s \<notin> set missing) [0..<kk]) = card ({..<kk} - set missing)"
    by (subst distinct_card [symmetric]) (auto intro!: arg_cong [where f = card])
  also have "\<dots> = kk - card (set missing \<inter> {..<kk})"
    by (simp add: card_Diff_subset_Int Int_commute)
  finally show "kk \<le> length (filter (\<lambda>s. s \<noteq> None) (stripe_slots \<lparr>sb_data = data, sb_parity = parity\<rparr> w missing i))"
    using assms(4,5) by (simp add: slots filter_map comp_def shards_wf_def if_distrib cong: if_cong)
qed

lemma parallel_decode_ok:
  assumes "0 < shard_size p" and data: "shards_wf (unat k) (stripe_count p * shard_size p) data"
    and parity: "shards_wf (unat m) (stripe_count p * shard_size p) parity"
    and enc: "\<And>i. i < stripe_count p \<Longrightarrow> enc i (map (block (shard_size p) i) data) m
       = Ok (map (block (shard_size p) i) parity)"
    and miss: "card (set missing \<inter> {..<unat k}) \<le> unat m"
  shows "parallel_decode dec \<lparr>sb_data = data, sb_parity = parity\<rparr> p missing = Ok data"
proof -
  let ?w = "shard_size p" let ?N = "stripe_count p"
  let ?b = "\<lparr>sb_data = data, sb_parity = parity\<rparr>"
  have len: "length data = unat k" "length parity = unat m" using data parity by (auto simp: shards_wf_def)
  have tot: "unat (k + m) = unat k + unat m" using total by (simp add: unat_word_ariths)
  have fill: "fill_slots (unat (k + m)) (stripe_slots ?b ?w missing i) = Ok (stripe_slots ?b ?w missing i)" for i
    using len by (simp add: fill_slots_def tot stripe_slots_def Let_def)
  have dec: "dec (stripe_slots ?b ?w missing i) k m = Ok (map (block ?w i) data)" if i: "i < ?N" for i
    using count_slots [OF assms(1) i data parity miss]
    by (intro decodes [OF shards_wf_blocks [OF data i] enc [OF i]])
  let ?z = "replicate (unat k) (replicate (?N * ?w) (0 :: u8))"
  let ?rs = "map (\<lambda>i. map (block ?w i) data) [0..<?N]"
  have "\<exists>out. write_stripes (write_data ?w) 0 ?rs ?z = Ok out \<and> shards_wf (unat k) (?N * ?w) out \<and>
      (\<forall>s < unat k. \<forall>t. block ?w t (out ! s) =
        (if 0 \<le> t \<and> t < 0 + length ?rs then ?rs ! (t - 0) ! s else block ?w t (?z ! s)))"
    by (rule write_stripes_blocks [OF write_data_store])
       (auto simp: shards_wf_blocks [OF data], auto simp: shards_wf_def)
  then obtain out where out: "write_stripes (write_data ?w) 0 ?rs ?z = Ok out"
    "shards_wf (unat k) (?N * ?w) out" "\<And>s t. s < unat k \<Longrightarrow> t < ?N \<Longrightarrow> block ?w t (out ! s) = block ?w t (data ! s)"
    using len by auto
  have "out ! s = data ! s" if "s < unat k" for s
    by (rule blocks_eqI [where n = ?N and w = ?w])
       (simp_all add: shards_wf_nth [OF out(2)] shards_wf_nth [OF data] out(3) that)
  then have "out = data" using out(2) data by (auto simp: shards_wf_def intro: nth_equalityI)
  moreover have "collect_outcomes (map (\<lambda>i. bind_outcome (fill_slots (unat (k + m))
      (stripe_slots ?b ?w missing i)) (\<lambda>s. dec s k m)) [0..<?N]) = Ok ?rs"
    by (rule collect_outcomes_Ok) (simp add: fill dec)
  moreover have "take (unat k) data = data" "take (unat m) parity = parity" using len by simp_all
  ultimately show ?thesis
    using out(1) len by (simp add: parallel_decode_def Let_def)
qed

end

section \<open>The Cauchy codec meets the interface\<close>

locale cauchy_config =
  fixes envs :: "nat \<Rightarrow> ec_env" and self :: CauchyEncoder and m :: u8
  assumes envs: "env_ok (envs i)" and some_data: "0 < enc_k self"
    and fits: "unat (enc_k self) + unat m < 256"

sublocale cauchy_config \<subseteq> stripe_codec "\<lambda>i. encode (envs i) self" decode "enc_k self" m
proof
  have fits': "unat (enc_k self) + unat m \<le> 256" using fits by simp
  fix L data i
  assume wf: "shards_wf (unat (enc_k self)) L data"
  from encode_codeword [OF envs some_data fits' wf] obtain parity where
    p: "encode (envs i) self data m = Ok parity"
      "codeword (unat (enc_k self)) (unat m) L data (data @ parity)" by blast
  from p wf show "\<exists>parity. encode (envs i) self data m = Ok parity \<and> shards_wf (unat m) L parity"
    by (auto simp: codeword_def shards_wf_def)
  fix parity' avail
  assume "encode (envs i) self data m = Ok parity'" "survivors (data @ parity') avail"
    "unat (enc_k self) \<le> length (filter (\<lambda>s. s \<noteq> None) avail)"
  with p show "decode avail (enc_k self) m = Ok data"
    using decode_codeword [OF some_data fits' p(2) wf] by simp
qed (rule fits)

context cauchy_config
begin

lemma round_trip:
  assumes "data_shards p = enc_k self" and "parity_shards p = m" and "0 < shard_size p"
    and "card (set missing \<inter> {..<unat (enc_k self)}) \<le> unat m"
  shows "\<exists>batch. parallel_encode (\<lambda>i. encode (envs i) self) seg p = Ok batch \<and>
    concat (map (\<lambda>i. concat (map (block (shard_size p) i) (sb_data batch))) [0..<stripe_count p])
      = padded seg (stripe_count p * unat (enc_k self) * shard_size p) \<and>
    parallel_decode decode batch p missing = Ok (sb_data batch)"
proof -
  let ?shards = "build_shards seg (unat (enc_k self)) (shard_size p) (stripe_count p)"
  from parallel_encode_ok [OF assms(1,2), of seg] obtain parity where
    e: "parallel_encode (\<lambda>i. encode (envs i) self) seg p = Ok \<lparr>sb_data = ?shards, sb_parity = parity\<rparr>"
      "shards_wf (unat m) (stripe_count p * shard_size p) parity"
      "\<And>i. i < stripe_count p \<Longrightarrow> encode (envs i) self (map (block (shard_size p) i) ?shards) m
         = Ok (map (block (shard_size p) i) parity)" by blast
  from parallel_decode_ok [OF assms(3) build_shards_wf e(2,3) assms(4)]
  have "parallel_decode decode \<lparr>sb_data = ?shards, sb_parity = parity\<rparr> p missing = Ok ?shards" .
  with e(1) build_shards_interleave show ?thesis by simp
qed

end

interpretation default_codec: cauchy_config "\<lambda>_. portable_env" "CauchyEncoder_new CodecConfig_default" 2
  by unfold_locales (simp_all add: env_ok_portable CauchyEncoder_new_def CodecConfig_default_def)

section \<open>Properties\<close>



lemma unat_div_ceil: "b \<noteq> 0 \<Longrightarrow> unat (div_ceil_u64 a b) = (unat a + unat b - 1) div unat b"
proof -
  assume b: "b \<noteq> 0"
  define A B where "A = unat a" and "B = unat b"
  have B: "0 < B" using b by (simp add: B_def unat_gt_0)
  have A: "A < 2 ^ 64" using unsigned_less [of a] by (simp add: A_def)
  have dm: "A = B * (A div B) + A mod B" by simp
  show ?thesis
  proof (cases "A mod B = 0")
    case True
    then have "(A + B - 1) div B = A div B"
      using B dm by (intro div_nat_eqI) auto
    moreover have "a mod b = 0" using True by (simp add: A_def B_def unat_mod [symmetric] unsigned_eq_0_iff)
    ultimately show ?thesis by (simp add: div_ceil_u64_def unat_div A_def B_def)
  next
    case False
    have "A div B \<le> B * (A div B)" using B by simp
    then have lt: "A div B + 1 < 2 ^ 64" using dm False A by linarith
    define q r where "q = A div B" and "r = A mod B"
    have qr: "A = B * q + r" "r < B" "0 < r" using False B by (simp_all add: q_def r_def)
    have "(A + B - 1) div B = q + 1"
    proof (rule div_nat_eqI)
      show "B * (q + 1) \<le> A + B - 1" using qr by (simp add: add_mult_distrib2)
      show "A + B - 1 < B * Suc (q + 1)" using qr by (simp add: add_mult_distrib2)
    qed
    then have "(A + B - 1) div B = A div B + 1" by (simp add: q_def)
    moreover have "0 < a mod b" using False by (simp add: A_def B_def unat_mod [symmetric] word_less_nat_alt)
    ultimately show ?thesis
      using lt by (simp add: div_ceil_u64_def unat_word_ariths unat_div A_def B_def)
  qed
qed

text \<open>
  C31: as long as the sizes fit in 64 bits, the layout of a nonempty segment covers it with the least
  number of whole stripes: the padded size is stripes times k times the strip size, at least the
  segment size, and less than one stripe above it.
\<close>

theorem compute_layout_correct:
  assumes "segment_size \<noteq> 0" and "k \<noteq> 0" and "strip_size \<noteq> 0"
    and "unat segment_size + unat k * unat strip_size \<le> 2 ^ 64"
  shows "\<exists>p. compute_layout segment_size k m strip_size = Ok p \<and>
    data_shards p = k \<and> parity_shards p = m \<and> shard_size p = unat strip_size \<and>
    unat (padded_size p) = stripe_count p * (unat k * unat strip_size) \<and>
    unat segment_size \<le> unat (padded_size p) \<and>
    unat (padded_size p) < unat segment_size + unat k * unat strip_size"
proof -
  define A B where "A = unat segment_size" and "B = unat k * unat strip_size"
  have uk: "unat (ucast k :: u64) = unat k"
  proof -
    have "unat k < 2 ^ 64" using unsigned_less [of k] by (rule less_le_trans) simp
    then show ?thesis by (simp add: unsigned_ucast_eq take_bit_nat_eq_self)
  qed
  have A: "0 < A" "A + B \<le> 2 ^ 64" using assms(1,4) by (simp_all add: A_def B_def unat_gt_0)
  then have "B < 2 ^ 64" by linarith
  then have uB: "unat ((ucast k :: u64) * strip_size) = B"
    by (simp add: unat_word_ariths uk B_def)
  have B0: "0 < B" using assms(2,3) by (simp add: B_def unat_gt_0)
  then have nz: "(ucast k :: u64) * strip_size \<noteq> 0" using uB by (metis less_irrefl unsigned_0)
  define c where "c = (A + B - 1) div B"
  have c: "unat (div_ceil_u64 segment_size (ucast k * strip_size)) = c"
    using unat_div_ceil [OF nz, of segment_size] by (simp add: uB c_def A_def)
  have c1: "A \<le> c * B" "c * B < A + B"
  proof -
    have e: "c * B + (A + B - 1) mod B = A + B - 1" by (simp add: c_def)
    have "(A + B - 1) mod B < B" using B0 by simp
    with e show "A \<le> c * B" by linarith
    from e A B0 show "c * B < A + B" by linarith
  qed
  then have "c * B < 2 ^ 64" using A by linarith
  moreover have "unat x * unat y < 2 ^ 64 \<Longrightarrow> unat (x * y) = unat x * unat y" for x y :: u64
    by (simp add: unat_word_ariths)
  ultimately have "unat (div_ceil_u64 segment_size (ucast k * strip_size) * (ucast k * strip_size)) = c * B"
    by (metis c uB)
  with c1 c nz assms show ?thesis by (simp add: compute_layout_def Let_def A_def B_def)
qed

theorem compute_layout_correct_witness:
  "\<exists>p. compute_layout 1048577 4 2 65536 = Ok p \<and> stripe_count p = 5 \<and> unat (padded_size p) = 1310720"
proof -
  from compute_layout_correct [of 1048577 4 65536 2] obtain p where
    p: "compute_layout 1048577 4 2 65536 = Ok p" "unat (padded_size p) = stripe_count p * 262144"
      "1048577 \<le> unat (padded_size p)" "unat (padded_size p) < 1048577 + 262144" by auto
  then have "4 < stripe_count p" "stripe_count p < 6" by linarith+
  then have "stripe_count p = 5" by linarith
  with p show ?thesis by simp
qed

text \<open>
  A \<^verbatim>\<open>ShardData\<close> view over the concatenation of the k + m shards of a batch returns, for every shard
  index and stripe index in range, exactly that stripe of that shard.
\<close>

theorem shard_view_stripe:
  assumes "shards_wf (unat k + unat m) (stripe_count p * shard_size p) shards"
    and "unat idx < unat k + unat m" and "i < stripe_count p"
  shows "\<exists>sd. ShardData_new (concat shards) k m p = Some sd \<and>
    shard sd idx = Some (shards ! unat idx) \<and>
    stripe sd idx i = Some (block (shard_size p) i (shards ! unat idx))"
proof -
  let ?L = "stripe_count p * shard_size p"
  have wf: "length shards = unat k + unat m" "\<forall>s \<in> set shards. length s = ?L"
    using assms(1) by (auto simp: shards_wf_def)
  note pieces = concat_pieces [OF wf(2)]
  define sd where "sd = \<lparr>raw = concat shards, sd_k = k, sd_m = m, plan = p\<rparr>"
  have new: "ShardData_new (concat shards) k m p = Some sd"
    using pieces(1) wf by (simp add: ShardData_new_def sd_def mult.assoc)
  have "Suc (unat idx) * ?L \<le> (unat k + unat m) * ?L" using assms(2) by (intro mult_le_mono1) simp
  then have sh: "shard sd idx = Some (shards ! unat idx)"
    using pieces assms(2) wf by (simp add: shard_def sd_def slice_def Let_def add.commute)
  have "i * shard_size p + shard_size p \<le> ?L"
    using assms(3) mult_le_mono1 [of "Suc i" "stripe_count p" "shard_size p"] by simp
  then have "stripe sd idx i = Some (block (shard_size p) i (shards ! unat idx))"
    using sh wf assms(2,3) by (simp add: stripe_def slice_def block_def sd_def)
  with new sh show ?thesis by blast
qed

theorem shard_view_stripe_witness:
  "\<exists>sd. ShardData_new [1, 2, 3, 4, 5, 6, 7, 8, 9, 10, 11, 12] 2 1
      \<lparr>stripe_count = 2, padded_size = 8, shard_size = 2, data_shards = 2, parity_shards = 1\<rparr> = Some sd \<and>
    shard sd 1 = Some [5, 6, 7, 8] \<and> stripe sd 1 1 = Some [7, 8]"
  using shard_view_stripe [of 2 1
      "\<lparr>stripe_count = 2, padded_size = 8, shard_size = 2, data_shards = 2, parity_shards = 1\<rparr>"
      "[[1, 2, 3, 4], [5, 6, 7, 8], [9, 10, 11, 12]]" 1 1]
  by (simp add: shards_wf_def block_def)

end
