(* ===== verification/NodeTypes.thy ===== *)
theory NodeTypes
  imports Prelude "HOL-Library.List_Lexorder" "HOL-Library.Char_ord"
begin

text \<open>
  The shared node and cluster types of \<^verbatim>\<open>oceanfs-core/src/types/node.rs\<close> and \<^verbatim>\<open>types/id.rs\<close>.  A node id is a
  string, compared like \<^verbatim>\<open>str\<close>; a ring position is a list of bytes, compared lexicographically like
  \<^verbatim>\<open>[u8; 32]\<close>.
\<close>

type_synonym NodeId = string
type_synonym RingPosition = "u8 list"
type_synonym Incarnation = u64

definition Incarnation_default :: Incarnation where "Incarnation_default = 1"

definition Incarnation_next :: "Incarnation \<Rightarrow> Incarnation" where
  "Incarnation_next inc = inc + 1"

datatype OperationType = Read | Write | Delete | Head | ListOp

datatype NodeState = Alive | Suspect | Dead | Leaving | Left

record WriteQuorum =
  required :: u8
  ack_after_wal :: bool
  ec_async :: bool

definition WriteQuorum_default :: WriteQuorum where
  "WriteQuorum_default = \<lparr>required = 1, ack_after_wal = True, ec_async = True\<rparr>"

record VnodeRange =
  range_start :: RingPosition
  range_end :: RingPosition

definition zero_position :: RingPosition where "zero_position = replicate 32 0"

definition contains :: "VnodeRange \<Rightarrow> RingPosition \<Rightarrow> bool" where
  "contains r h =
     (if range_start r < range_end r then range_start r \<le> h \<and> h < range_end r
      else if range_start r = range_end r
           then range_start r = zero_position \<or> h \<ge> range_start r \<or> h < range_end r
      else h \<ge> range_start r \<or> h < range_end r)"

lemma contains_degenerate: "range_start r = range_end r \<Longrightarrow> contains r h"
  by (auto simp: contains_def)

lemma contains_cases:
  "contains r h = (if range_start r < range_end r then range_start r \<le> h \<and> h < range_end r
     else h \<ge> range_start r \<or> h < range_end r)"
  by (auto simp: contains_def)

end
