(* ===== verification/OrdMap.thy ===== *)
theory OrdMap
  imports Prelude
begin

text \<open>
  The standard library's \<^verbatim>\<open>BTreeMap\<close> as a list of key-value pairs with strictly increasing keys, which
  is the order its iterators deliver.  The locale \<^verbatim>\<open>map_contract\<close> states what the clients of a map rely
  on; loops of insertions and removals are treated once, inside it.
\<close>

section \<open>Operations\<close>

fun bt_insert :: "'k::linorder \<Rightarrow> 'v \<Rightarrow> ('k \<times> 'v) list \<Rightarrow> ('k \<times> 'v) list" where
  "bt_insert k v [] = [(k, v)]"
| "bt_insert k v ((k', v') # xs) =
     (if k < k' then (k, v) # (k', v') # xs
      else if k = k' then (k, v) # xs
      else (k', v') # bt_insert k v xs)"

fun bt_remove :: "'k::linorder \<Rightarrow> ('k \<times> 'v) list \<Rightarrow> ('k \<times> 'v) list" where
  "bt_remove k [] = []"
| "bt_remove k ((k', v') # xs) = (if k = k' then xs else (k', v') # bt_remove k xs)"

definition bt_wf :: "('k::linorder \<times> 'v) list \<Rightarrow> bool" where
  "bt_wf xs \<longleftrightarrow> sorted_wrt (<) (map fst xs)"

section \<open>The contract of a map\<close>

locale map_contract =
  fixes empty :: 'm and get :: "'m \<Rightarrow> 'k \<Rightarrow> 'v option" and ins :: "'k \<Rightarrow> 'v \<Rightarrow> 'm \<Rightarrow> 'm"
    and del :: "'k \<Rightarrow> 'm \<Rightarrow> 'm" and wf :: "'m \<Rightarrow> bool"
  assumes get_empty: "get empty k = None"
    and get_ins: "wf m \<Longrightarrow> get (ins k v m) k' = (if k' = k then Some v else get m k')"
    and get_del: "wf m \<Longrightarrow> get (del k m) k' = (if k' = k then None else get m k')"
    and wf_empty: "wf empty"
    and wf_ins: "wf m \<Longrightarrow> wf (ins k v m)"
    and wf_del: "wf m \<Longrightarrow> wf (del k m)"
begin

lemma wf_fold_ins: "wf m \<Longrightarrow> wf (fold (\<lambda>k. ins k v) ks m)"
  by (induction ks arbitrary: m) (auto simp: wf_ins)

lemma get_fold_ins:
  "wf m \<Longrightarrow> get (fold (\<lambda>k. ins k v) ks m) k' = (if k' \<in> set ks then Some v else get m k')"
  by (induction ks arbitrary: m) (auto simp: wf_ins get_ins)

lemma wf_fold_del: "wf m \<Longrightarrow> wf (fold del ks m)"
  by (induction ks arbitrary: m) (auto simp: wf_del)

lemma get_fold_del:
  "wf m \<Longrightarrow> get (fold del ks m) k' = (if k' \<in> set ks then None else get m k')"
  by (induction ks arbitrary: m) (auto simp: wf_del get_del)

end

section \<open>The sorted list meets the contract\<close>

lemma set_fst_bt_insert: "fst ` set (bt_insert k v xs) = insert k (fst ` set xs)"
  by (induction k v xs rule: bt_insert.induct) (simp_all add: insert_commute)

lemma set_bt_remove: "set (bt_remove k xs) \<subseteq> set xs"
  by (induction k xs rule: bt_remove.induct) auto

lemma bt_wf_Cons: "bt_wf ((k, v) # xs) \<longleftrightarrow> (\<forall>y \<in> fst ` set xs. k < y) \<and> bt_wf xs"
  by (simp add: bt_wf_def)

lemma bt_wf_Nil: "bt_wf []"
  by (simp add: bt_wf_def)

lemma bt_wf_insert: "bt_wf xs \<Longrightarrow> bt_wf (bt_insert k v xs)"
proof (induction k v xs rule: bt_insert.induct)
  case (2 k v k' v' xs)
  then show ?case
    using less_trans by (fastforce simp: bt_wf_Cons set_fst_bt_insert not_less)
qed (simp add: bt_wf_def)

lemma bt_wf_remove: "bt_wf xs \<Longrightarrow> bt_wf (bt_remove k xs)"
  by (induction k xs rule: bt_remove.induct) (use set_bt_remove in \<open>fastforce simp: bt_wf_Cons\<close>)+

lemma map_of_none_less: "\<forall>y \<in> fst ` set xs. k < y \<Longrightarrow> map_of xs (k :: 'k::linorder) = None"
  by (auto simp: map_of_eq_None_iff)

lemma map_of_bt_insert: "map_of (bt_insert k v xs) k' = (if k' = k then Some v else map_of xs k')"
  by (induction xs) auto

lemma map_of_bt_remove:
  "bt_wf xs \<Longrightarrow> map_of (bt_remove k xs) k' = (if k' = k then None else map_of xs k')"
proof (induction xs)
  case (Cons x xs)
  obtain a b where x: "x = (a, b)" by (cases x)
  from Cons have "bt_wf xs" "\<forall>y \<in> fst ` set xs. a < y" by (auto simp: bt_wf_def x)
  with Cons x map_of_none_less [of xs a] show ?case by auto
qed (simp add: bt_wf_def)

interpretation bt: map_contract "[]" map_of bt_insert bt_remove bt_wf
  by unfold_locales (simp_all add: map_of_bt_insert map_of_bt_remove bt_wf_insert bt_wf_remove bt_wf_Nil)

text \<open>A sorted list is determined by the map it represents.\<close>

lemma bt_wf_distinct: "bt_wf xs \<Longrightarrow> distinct (map fst xs)"
  by (simp add: bt_wf_def strict_sorted_iff)

lemma alist_of_map: "distinct (map fst xs) \<Longrightarrow> xs = map (\<lambda>k. (k, the (map_of xs k))) (map fst xs)"
  by (auto simp: comp_def intro!: map_idI [symmetric])

lemma bt_eqI:
  assumes "bt_wf xs" "bt_wf ys" "map_of xs = map_of ys"
  shows "xs = ys"
proof -
  have "fst ` set xs = fst ` set ys" using assms(3) by (metis dom_map_of_conv_image_fst)
  then have "map fst xs = map fst ys"
    using assms(1,2) by (intro strict_sorted_equal) (simp_all add: bt_wf_def)
  then show ?thesis
    using assms alist_of_map [OF bt_wf_distinct] by metis
qed

end
