(* ===== verification/Ring.thy ===== *)
theory Ring
  imports NodeTypes OrdMap
begin

text \<open>
  The consistent-hashing ring of \<^verbatim>\<open>oceanfs-routing\<close>: \<^verbatim>\<open>hash.rs\<close>, \<^verbatim>\<open>ring.rs\<close>, \<^verbatim>\<open>ring_cache.rs\<close> and
  \<^verbatim>\<open>shard_batch.rs\<close>.  The hash functions SHA-256 and BLAKE3 are arguments.
\<close>

section \<open>Hashing\<close>

definition str_bytes :: "string \<Rightarrow> u8 list" where
  "str_bytes s = map (\<lambda>c. of_nat (of_char c)) s"

definition le_bytes_u32 :: "u32 \<Rightarrow> u8 list" where
  "le_bytes_u32 x = [ucast x, ucast (drop_bit 8 x), ucast (drop_bit 16 x), ucast (drop_bit 24 x)]"

definition hash_key :: "(u8 list \<Rightarrow> u8 list) \<Rightarrow> u8 list \<Rightarrow> RingPosition" where
  "hash_key sha256 key = sha256 key"

definition hash_node :: "(u8 list \<Rightarrow> u8 list) \<Rightarrow> NodeId \<Rightarrow> u32 \<Rightarrow> RingPosition" where
  "hash_node sha256 node_id vnode_index =
     sha256 (str_bytes node_id @ str_bytes '':'' @ le_bytes_u32 vnode_index)"

section \<open>The ring\<close>

datatype routing_error = RingEmpty | NodeNotFound NodeId | RingInvalidConfig

record RingConfig =
  vnodes_per_node :: u32
  replication_factor :: u8

definition RingConfig_default :: RingConfig where
  "RingConfig_default = \<lparr>vnodes_per_node = 256, replication_factor = 3\<rparr>"

record Ring =
  positions :: "(RingPosition \<times> NodeId) list"
  config :: RingConfig
  node_ids :: "NodeId list"

definition Ring_new :: "RingConfig \<Rightarrow> Ring" where
  "Ring_new cfg = \<lparr>positions = [], config = cfg, node_ids = []\<rparr>"

text \<open>The fields \<^verbatim>\<open>Serialize\<close> writes, and rebuilding the map from the entries read.\<close>

definition serialize_ring :: "Ring \<Rightarrow> (RingPosition \<times> NodeId) list \<times> RingConfig \<times> NodeId list" where
  "serialize_ring r = (positions r, config r, node_ids r)"

definition deserialize_ring :: "(RingPosition \<times> NodeId) list \<times> RingConfig \<times> NodeId list \<Rightarrow> Ring" where
  "deserialize_ring d =
     (case d of (ps, cfg, ids) \<Rightarrow>
        \<lparr>positions = fold (\<lambda>(p, n). bt_insert p n) ps [], config = cfg, node_ids = ids\<rparr>)"

definition vnode_positions :: "(NodeId \<Rightarrow> u32 \<Rightarrow> RingPosition) \<Rightarrow> RingConfig \<Rightarrow> NodeId \<Rightarrow> RingPosition list" where
  "vnode_positions hash cfg node = map (\<lambda>i. hash node (of_nat i)) [0..<unat (vnodes_per_node cfg)]"

definition add_node :: "(NodeId \<Rightarrow> u32 \<Rightarrow> RingPosition) \<Rightarrow> NodeId \<Rightarrow> Ring \<Rightarrow> Ring \<times> VnodeRange list" where
  "add_node hash node r =
     (let ps = vnode_positions hash (config r) node
      in (r\<lparr>positions := fold (\<lambda>p. bt_insert p node) ps (positions r),
            node_ids := (if node \<in> set (node_ids r) then node_ids r else node_ids r @ [node])\<rparr>,
          map (\<lambda>p. \<lparr>range_start = p, range_end = p\<rparr>) ps))"

definition remove_node :: "NodeId \<Rightarrow> Ring \<Rightarrow> (routing_error, Ring \<times> VnodeRange list) outcome" where
  "remove_node node r =
     (let ps = map fst (filter (\<lambda>(p, n). n = node) (positions r))
      in if ps = [] then Err (NodeNotFound node)
         else Ok (r\<lparr>positions := fold bt_remove ps (positions r),
                    node_ids := filter (\<lambda>n. n \<noteq> node) (node_ids r)\<rparr>,
                  map (\<lambda>p. \<lparr>range_start = p, range_end = p\<rparr>) ps))"

definition partition_point :: "('a \<Rightarrow> bool) \<Rightarrow> 'a list \<Rightarrow> nat" where
  "partition_point P xs = length (takeWhile P xs)"

fun lookup_loop :: "nat \<Rightarrow> NodeId list \<Rightarrow> NodeId list \<Rightarrow> NodeId list" where
  "lookup_loop rf [] result = result"
| "lookup_loop rf (node # nodes) result =
     (if node \<in> set result then lookup_loop rf nodes result
      else let result = result @ [node]
           in if length result \<ge> rf then result else lookup_loop rf nodes result)"

definition lookup :: "Ring \<Rightarrow> RingPosition \<Rightarrow> NodeId list" where
  "lookup r key_hash =
     (if positions r = [] then []
      else let entries = positions r;
               start_idx = partition_point (\<lambda>(pos, _). pos < key_hash) entries;
               walk = map (\<lambda>i. snd (entries ! ((start_idx + i) mod length entries))) [0..<length entries]
           in lookup_loop (unat (replication_factor (config r))) walk [])"

definition node_count :: "Ring \<Rightarrow> nat" where "node_count r = length (node_ids r)"

definition successor_of :: "(NodeId \<Rightarrow> u32 \<Rightarrow> RingPosition) \<Rightarrow> NodeId \<Rightarrow> Ring \<Rightarrow> NodeId option" where
  "successor_of hash node r = List.find (\<lambda>n. n \<noteq> node) (lookup r (hash node 0))"

section \<open>Owned ranges\<close>

text \<open>
  The inner loop advances \<^verbatim>\<open>end\<close> around the circle from \<^verbatim>\<open>i + 1\<close> while the arc is selected and \<^verbatim>\<open>end\<close> is
  not back at \<^verbatim>\<open>i\<close>; \<^verbatim>\<open>d\<close> counts the steps, \<^verbatim>\<open>end = (i + d) mod m\<close>.
\<close>

function run_length :: "bool list \<Rightarrow> nat \<Rightarrow> nat \<Rightarrow> nat" where
  "run_length selected i d =
     (if d < length selected \<and> selected ! ((i + d) mod length selected)
      then run_length selected i (Suc d) else d)"
  by auto
termination by (relation "measure (\<lambda>(sel, i, d). length sel - d)") auto

declare run_length.simps [simp del]

function owned_loop :: "RingPosition list \<Rightarrow> bool list \<Rightarrow> nat \<Rightarrow> VnodeRange list" where
  "owned_loop ps selected i =
     (let m = length selected in
      if i < m then
        if \<not> selected ! i then owned_loop ps selected (Suc i)
        else let e = (i + run_length selected i 1) mod m;
                 r = \<lparr>range_start = ps ! i, range_end = ps ! e\<rparr>
             in if e \<le> i then [r] else r # owned_loop ps selected e
      else [])"
  by pat_completeness auto
termination
  by (relation "measure (\<lambda>(ps, sel, i). length sel - i)") (auto simp: Let_def)

declare owned_loop.simps [simp del]

definition ranges_owned_by :: "Ring \<Rightarrow> NodeId \<Rightarrow> VnodeRange list" where
  "ranges_owned_by r node =
     (if positions r = [] then []
      else let entries = positions r; m = length entries;
               selected = map (\<lambda>i. node \<in> set (lookup r (fst (entries ! ((i + 1) mod m))))) [0..<m]
           in if \<not> (\<exists>s \<in> set selected. s) then []
              else if (\<forall>s \<in> set selected. s)
                   then [\<lparr>range_start = zero_position, range_end = zero_position\<rparr>]
              else owned_loop (map fst entries) selected 0)"

definition range_contains :: "VnodeRange \<Rightarrow> RingPosition \<Rightarrow> bool" where
  "range_contains r h = contains r h"

section \<open>The ring cache\<close>

text \<open>\<^verbatim>\<open>RingCache\<close> holds the current ring; \<^verbatim>\<open>update\<close> replaces it atomically.\<close>

record RingCache = inner :: Ring

definition RingCache_new :: "Ring \<Rightarrow> RingCache" where "RingCache_new r = \<lparr>inner = r\<rparr>"
definition cache_lookup :: "RingCache \<Rightarrow> RingPosition \<Rightarrow> NodeId list" where
  "cache_lookup c key_hash = lookup (inner c) key_hash"
definition cache_update :: "Ring \<Rightarrow> RingCache \<Rightarrow> RingCache" where "cache_update r c = c\<lparr>inner := r\<rparr>"
definition cache_snapshot :: "RingCache \<Rightarrow> Ring" where "cache_snapshot c = inner c"

definition segment_replica_set ::
  "(u8 list \<Rightarrow> u8 list) \<Rightarrow> ('s \<Rightarrow> string) \<Rightarrow> RingCache \<Rightarrow> 's \<Rightarrow> NodeId list" where
  "segment_replica_set blake3 to_string ring segment_id =
     cache_lookup ring (blake3 (str_bytes (to_string segment_id)))"

section \<open>Grouping shard requests\<close>

record 's ShardRequest =
  req_segment :: 's
  shard_index :: u32
  req_offset :: u64
  req_length :: u64

fun push_group :: "NodeId \<Rightarrow> 'r \<Rightarrow> (NodeId \<times> 'r list) list \<Rightarrow> (NodeId \<times> 'r list) list" where
  "push_group node s [] = [(node, [s])]"
| "push_group node s ((n, ss) # gs) = (if n = node then (n, ss @ [s]) # gs else (n, ss) # push_group node s gs)"

definition group_by_node :: "('r \<Rightarrow> NodeId option) \<Rightarrow> 'r list \<Rightarrow> (NodeId \<times> 'r list) list" where
  "group_by_node resolve_owner shards =
     fold (\<lambda>s groups. case resolve_owner s of None \<Rightarrow> groups | Some n \<Rightarrow> push_group n s groups) shards []"


section \<open>First occurrences\<close>

fun firsts :: "'a set \<Rightarrow> 'a list \<Rightarrow> 'a list" where
  "firsts seen [] = []"
| "firsts seen (x # xs) = (if x \<in> seen then firsts seen xs else x # firsts (insert x seen) xs)"

lemma set_firsts: "set (firsts S xs) = set xs - S"
  by (induction xs arbitrary: S) auto

lemma distinct_firsts: "distinct (firsts S xs)"
  by (induction xs arbitrary: S) (auto simp: set_firsts)

lemma length_firsts: "length (firsts {} xs) = card (set xs)"
  by (metis distinct_card distinct_firsts set_firsts Diff_empty)

lemma firsts_skip: "n \<notin> set xs \<Longrightarrow> firsts (insert n S) xs = firsts S xs"
  by (induction xs arbitrary: S) (auto, metis insert_commute)

lemma firsts_filter: "firsts S (filter P xs) = filter P (firsts S xs)"
proof (induction xs arbitrary: S)
  case (Cons x xs)
  have "filter P (firsts (insert x S) xs) = filter P (firsts S xs)" if "\<not> P x"
  proof -
    have "x \<notin> set (filter P xs)" using that by simp
    with firsts_skip [OF this, of S] Cons show ?thesis by metis
  qed
  with Cons show ?case by simp
qed simp

lemma lookup_loop_firsts:
  "length res < max 1 rf \<Longrightarrow>
     lookup_loop rf xs res = res @ take (max 1 rf - length res) (firsts (set res) xs)"
proof (induction xs arbitrary: res)
  case (Cons x xs)
  show ?case
  proof (cases "x \<in> set res")
    case True
    with Cons show ?thesis by simp
  next
    case False
    have s: "set (res @ [x]) = insert x (set res)" by simp
    show ?thesis
    proof (cases "Suc (length res) \<ge> rf")
      case True
      with Cons.prems have "max 1 rf - length res = 1" by simp
      with True False show ?thesis by simp
    next
      case le: False
      then have "max 1 rf - length res = Suc (max 1 rf - length (res @ [x]))" by simp
      with Cons.IH [of "res @ [x]"] le False show ?thesis by simp
    qed
  qed
qed simp

section \<open>The walk around the circle\<close>

definition circle :: "RingPosition \<Rightarrow> (RingPosition \<times> NodeId) list \<Rightarrow> NodeId list" where
  "circle h ps = map snd (filter (\<lambda>(p, n). \<not> p < h) ps @ filter (\<lambda>(p, n). p < h) ps)"

lemma sorted_split:
  assumes "bt_wf ps"
  shows "takeWhile (\<lambda>(p, n). p < h) ps = filter (\<lambda>(p, n). p < h) ps \<and>
    dropWhile (\<lambda>(p, n). p < h) ps = filter (\<lambda>(p, n). \<not> p < h) ps"
  using assms
proof (induction ps)
  case (Cons x ps)
  obtain p n where x: "x = (p, n)" by (cases x)
  have "filter (\<lambda>(p, n). p < h) ps = []" "filter (\<lambda>(p, n). \<not> p < h) ps = ps" if "\<not> p < h"
    using Cons.prems that by (auto simp: x bt_wf_Cons filter_empty_conv filter_id_conv)
  moreover have "bt_wf ps" using Cons.prems by (simp add: x bt_wf_Cons)
  ultimately show ?case using Cons.IH by (simp add: x)
qed simp

lemma walk_rotate: "map (\<lambda>i. xs ! ((s + i) mod length xs)) [0..<length xs] = rotate s xs"
  by (rule nth_equalityI) (simp_all add: nth_rotate)

lemma rotate_partition:
  assumes "bt_wf ps"
  shows "map snd (rotate (partition_point (\<lambda>(p, n). p < h) ps) ps) = circle h ps"
proof -
  let ?s = "partition_point (\<lambda>(p, n). p < h) ps"
  have "drop ?s ps @ take ?s ps = dropWhile (\<lambda>(p, n). p < h) ps @ takeWhile (\<lambda>(p, n). p < h) ps"
    by (simp add: partition_point_def takeWhile_eq_take [symmetric] dropWhile_eq_drop [symmetric])
  moreover have "?s \<le> length ps" by (simp add: partition_point_def length_takeWhile_le)
  then have "rotate ?s ps = drop ?s ps @ take ?s ps"
    by (cases "?s = length ps") (simp_all add: rotate_drop_take)
  ultimately show ?thesis by (simp add: sorted_split [OF assms] circle_def)
qed

lemma lookup_circle:
  assumes "bt_wf (positions r)"
  shows "lookup r h =
    take (max 1 (unat (replication_factor (config r)))) (firsts {} (circle h (positions r)))"
proof (cases "positions r = []")
  case True
  then show ?thesis by (simp add: lookup_def circle_def)
next
  case False
  let ?ps = "positions r"
  have "map (\<lambda>i. snd (?ps ! ((s + i) mod length ?ps))) [0..<length ?ps] = map snd (rotate s ?ps)" for s
    by (simp add: walk_rotate [symmetric])
  then show ?thesis
    using False lookup_loop_firsts [of "[]" "unat (replication_factor (config r))"]
    by (simp add: lookup_def Let_def rotate_partition [OF assms])
qed

lemma set_circle: "set (circle h ps) = snd ` set ps"
  by (auto simp: circle_def)

lemma circle_filter: "circle h (filter (\<lambda>(p, n). P n) ps) = filter P (circle h ps)"
  by (simp add: circle_def filter_map comp_def case_prod_beta conj_commute)

section \<open>The invariant of a ring\<close>

definition ring_wf :: "Ring \<Rightarrow> bool" where
  "ring_wf r \<longleftrightarrow> bt_wf (positions r) \<and> distinct (node_ids r) \<and> snd ` set (positions r) \<subseteq> set (node_ids r)"

definition ring_nodes :: "Ring \<Rightarrow> NodeId set" where "ring_nodes r = snd ` set (positions r)"

lemma ring_wf_new: "ring_wf (Ring_new cfg)"
  by (simp add: ring_wf_def Ring_new_def bt_wf_Nil)

lemma map_of_positions: "bt_wf ps \<Longrightarrow> (p, n) \<in> set ps \<longleftrightarrow> map_of ps p = Some n"
  by (simp add: bt_wf_distinct)

lemma positions_remove:
  assumes "bt_wf ps"
  shows "fold bt_remove (map fst (filter (\<lambda>(p, n). n = node) ps)) ps = filter (\<lambda>(p, n). n \<noteq> node) ps"
    (is "?l = ?r")
proof (rule bt_eqI)
  show "bt_wf ?l" by (rule bt.wf_fold_del [OF assms])
  show "bt_wf ?r" using assms by (simp add: bt_wf_def sorted_wrt_map sorted_wrt_filter)
  have d: "distinct (map fst ps)" by (rule bt_wf_distinct [OF assms])
  then have dr: "distinct (map fst ?r)" by (simp add: distinct_map_filter)
  have "map_of ?l p = map_of ?r p" for p
  proof (cases "map_of ps p")
    case None
    then have "map_of ?r p = None" by (auto simp: map_of_eq_None_iff)
    with None show ?thesis by (simp add: bt.get_fold_del [OF assms])
  next
    case (Some n)
    then have mem: "(p, n) \<in> set ps" by (rule map_of_SomeD)
    have key: "p \<in> set (map fst (filter (\<lambda>(p, n). n = node) ps)) \<longleftrightarrow> n = node"
      using mem d by (force simp: eq_key_imp_eq_value)
    show ?thesis
    proof (cases "n = node")
      case True
      then have "map_of ?r p = None" using mem d by (force simp: map_of_eq_None_iff eq_key_imp_eq_value)
      with key True show ?thesis unfolding bt.get_fold_del [OF assms] by simp
    next
      case False
      then have "map_of ?r p = Some n" using mem dr by (intro map_of_is_SomeI) auto
      with key False Some show ?thesis unfolding bt.get_fold_del [OF assms] by simp
    qed
  qed
  then show "map_of ?l = map_of ?r" by blast
qed

lemma remove_node_Ok:
  assumes "remove_node node r = Ok (r', rs)" "bt_wf (positions r)"
  shows "positions r' = filter (\<lambda>(p, n). n \<noteq> node) (positions r)" and "config r' = config r"
    and "node_ids r' = filter (\<lambda>n. n \<noteq> node) (node_ids r)"
  using assms by (auto simp: remove_node_def Let_def positions_remove split: if_splits)

lemma ring_wf_remove:
  assumes "ring_wf r" "remove_node node r = Ok (r', rs)"
  shows "ring_wf r'"
proof -
  have "bt_wf (positions r)" using assms by (simp add: ring_wf_def)
  note * = remove_node_Ok [OF assms(2) this]
  have "bt_wf (filter (\<lambda>(p, n). n \<noteq> node) (positions r))"
    using assms(1) by (simp add: ring_wf_def bt_wf_def sorted_wrt_map sorted_wrt_filter)
  with assms(1) show ?thesis by (auto simp: ring_wf_def *)
qed

lemma add_node_positions:
  "positions (fst (add_node hash node r)) =
     fold (\<lambda>p. bt_insert p node) (vnode_positions hash (config r) node) (positions r)"
  "config (fst (add_node hash node r)) = config r"
  by (simp_all add: add_node_def Let_def)

lemma ring_wf_add:
  assumes "ring_wf r"
  shows "ring_wf (fst (add_node hash node r))"
proof -
  let ?ps = "fold (\<lambda>p. bt_insert p node) (vnode_positions hash (config r) node) (positions r)"
  have wf: "bt_wf (positions r)" using assms by (simp add: ring_wf_def)
  have "snd ` set ?ps \<subseteq> insert node (snd ` set (positions r))"
  proof
    fix n assume "n \<in> snd ` set ?ps"
    then obtain p where "map_of ?ps p = Some n"
      using map_of_positions [OF bt.wf_fold_ins [OF wf]] by force
    then have "n = node \<or> map_of (positions r) p = Some n"
      unfolding bt.get_fold_ins [OF wf] by (auto split: if_splits)
    then show "n \<in> insert node (snd ` set (positions r))" by (force dest: map_of_SomeD)
  qed
  then have "snd ` set ?ps \<subseteq> insert node (set (node_ids r))"
    using assms unfolding ring_wf_def by blast
  with assms bt.wf_fold_ins [OF wf] show ?thesis
    by (cases "node \<in> set (node_ids r)")
       (simp_all add: ring_wf_def add_node_def Let_def insert_absorb)
qed

text \<open>No virtual position of the new node is taken by another node.\<close>

definition no_collision :: "(NodeId \<Rightarrow> u32 \<Rightarrow> RingPosition) \<Rightarrow> NodeId \<Rightarrow> Ring \<Rightarrow> bool" where
  "no_collision hash node r \<longleftrightarrow>
     (\<forall>p \<in> set (vnode_positions hash (config r) node). \<forall>n. (p, n) \<in> set (positions r) \<longrightarrow> n = node)"

lemma add_node_others:
  assumes wf: "bt_wf (positions r)" and nc: "no_collision hash node r"
  shows "filter (\<lambda>(p, n). n \<noteq> node) (positions (fst (add_node hash node r)))
       = filter (\<lambda>(p, n). n \<noteq> node) (positions r)" (is "?l = ?r")
proof (rule bt_eqI)
  let ?ps = "positions (fst (add_node hash node r))"
  have wf': "bt_wf ?ps" unfolding add_node_positions by (rule bt.wf_fold_ins [OF wf])
  show l: "bt_wf ?l" and r: "bt_wf ?r"
    using wf wf' by (simp_all add: bt_wf_def sorted_wrt_map sorted_wrt_filter)
  have "(p, n) \<in> set ?l \<longleftrightarrow> (p, n) \<in> set ?r" for p n
    using nc map_of_positions [OF wf'] map_of_positions [OF wf]
    unfolding add_node_positions bt.get_fold_ins [OF wf] by (auto simp: no_collision_def split: if_splits)
  then have "set ?l = set ?r" by auto
  then show "map_of ?l = map_of ?r"
    using l r by (simp add: bt_wf_distinct map_of_inject_set)
qed

section \<open>Minimal disruption\<close>

lemma filter_take_prefix: "\<exists>zs. take k (filter P xs) = filter P (take k xs) @ zs"
proof -
  have "filter P xs = filter P (take k xs) @ filter P (drop k xs)"
    by (metis append_take_drop_id filter_append)
  moreover have "length (filter P (take k xs)) \<le> k"
    by (metis length_filter_le length_take min.cobounded2 order_trans)
  ultimately show ?thesis by (auto simp: take_append)
qed

lemma lookup_without:
  assumes "bt_wf (positions r)" "bt_wf (positions r')" "config r' = config r"
    and "positions r' = filter (\<lambda>(p, n). n \<noteq> node) (positions r)"
  shows "(\<exists>zs. lookup r' h = filter (\<lambda>n. n \<noteq> node) (lookup r h) @ zs) \<and>
    (node \<notin> set (lookup r h) \<longrightarrow> lookup r' h = lookup r h)"
proof -
  let ?k = "max 1 (unat (replication_factor (config r)))" and ?F = "firsts {} (circle h (positions r))"
  have r': "lookup r' h = take ?k (filter (\<lambda>n. n \<noteq> node) ?F)" and r: "lookup r h = take ?k ?F"
    using assms circle_filter [of h "\<lambda>n. n \<noteq> node"] by (simp_all add: lookup_circle firsts_filter)
  obtain zs where zs: "lookup r' h = filter (\<lambda>n. n \<noteq> node) (lookup r h) @ zs"
    unfolding r r' using filter_take_prefix by blast
  have "lookup r' h = lookup r h" if nm: "node \<notin> set (lookup r h)"
  proof -
    have f: "filter (\<lambda>n. n \<noteq> node) (lookup r h) = lookup r h" using nm by (auto simp: filter_id_conv)
    show ?thesis
    proof (cases "?k \<le> length ?F")
      case True
      then have "length (lookup r h) = ?k" by (simp add: r)
      moreover have "length (lookup r' h) \<le> ?k" by (simp add: r')
      ultimately have "zs = []" using zs f by simp
      with zs f show ?thesis by simp
    next
      case False
      then have le: "length ?F \<le> ?k" by (meson nat_le_linear)
      then have F: "lookup r h = ?F" unfolding r by (rule take_all)
      with f le show ?thesis unfolding r' by simp
    qed
  qed
  with zs show ?thesis by blast
qed

section \<open>Owned ranges are the keys the node serves\<close>

lemma partition_point_nth:
  assumes "sorted_wrt (<) ps" "h \<notin> set ps" "i < length ps"
  shows "ps ! i < (h :: 'a::linorder) \<longleftrightarrow> i < partition_point (\<lambda>p. p < h) ps"
proof
  let ?s = "partition_point (\<lambda>p. p < h) ps"
  show "ps ! i < h" if "i < ?s"
    using that nth_mem [of i "takeWhile (\<lambda>p. p < h) ps"] takeWhile_nth [of i "\<lambda>p. p < h" ps]
    by (auto simp: partition_point_def dest: set_takeWhileD)
  show "i < ?s" if lt: "ps ! i < h"
  proof (rule ccontr)
    assume "\<not> i < ?s"
    then have le: "?s \<le> i" by simp
    then have "\<not> ps ! ?s < h" using assms(3) nth_length_takeWhile [of "\<lambda>p. p < h" ps]
      by (simp add: partition_point_def)
    moreover have "ps ! ?s \<le> ps ! i"
      using le assms(1,3) sorted_wrt_nth_less [OF assms(1), of ?s i] by (cases "?s = i") auto
    ultimately show False using lt by simp
  qed
qed

definition arc_of :: "RingPosition list \<Rightarrow> RingPosition \<Rightarrow> nat" where
  "arc_of ps h = (partition_point (\<lambda>p. p < h) ps + length ps - 1) mod length ps"

lemma arc_run:
  assumes "i < m" "1 \<le> d" "d < m" "arc < (m :: nat)"
  shows "(\<exists>j < d. arc = (i + j) mod m) \<longleftrightarrow>
    (if i + d < m then i \<le> arc \<and> arc < i + d else i \<le> arc \<or> arc < i + d - m)"
proof -
  have mod: "(i + j) mod m = (if i + j < m then i + j else i + j - m)" if "j < d" for j
    using that assms by (auto simp: mod_if)
  show ?thesis
  proof
    assume "\<exists>j < d. arc = (i + j) mod m"
    then show "if i + d < m then i \<le> arc \<and> arc < i + d else i \<le> arc \<or> arc < i + d - m"
      using mod assms by (auto split: if_splits)
  next
    assume h: "if i + d < m then i \<le> arc \<and> arc < i + d else i \<le> arc \<or> arc < i + d - m"
    show "\<exists>j < d. arc = (i + j) mod m"
    proof (cases "i \<le> arc")
      case True
      with h assms have "arc - i < d" by (auto split: if_splits)
      with True assms mod [of "arc - i"] show ?thesis by (intro exI [of _ "arc - i"]) auto
    next
      case False
      with h assms have "arc + m - i < d" by (auto split: if_splits)
      with False assms mod [of "arc + m - i"] show ?thesis by (intro exI [of _ "arc + m - i"]) auto
    qed
  qed
qed

lemma contains_run:
  assumes ps: "sorted_wrt (<) ps" "h \<notin> set ps" and i: "i < length ps" and d: "1 \<le> d" "d < length ps"
  shows "contains \<lparr>range_start = ps ! i, range_end = ps ! ((i + d) mod length ps)\<rparr> h
     \<longleftrightarrow> (\<exists>j < d. arc_of ps h = (i + j) mod length ps)"
proof -
  let ?m = "length ps" let ?s = "partition_point (\<lambda>p. p < h) ps" let ?e = "(i + d) mod ?m"
  have m: "0 < ?m" using i by linarith
  have e: "?e = (if i + d < ?m then i + d else i + d - ?m)" "?e < ?m"
    using i d by (auto simp: mod_if)
  have s: "?s \<le> ?m" by (simp add: partition_point_def length_takeWhile_le)
  then have arc: "arc_of ps h = (if ?s = 0 then ?m - 1 else ?s - 1)" "arc_of ps h < ?m"
    using m by (auto simp: arc_of_def mod_if)
  have ne: "ps ! j \<noteq> h" if "j < ?m" for j using ps(2) nth_mem [OF that] by metis
  have lo: "ps ! i \<le> h \<longleftrightarrow> i < ?s" using partition_point_nth [OF ps i] ne [OF i] by (metis le_less)
  have hi: "h < ps ! ?e \<longleftrightarrow> \<not> ?e < ?s"
    using partition_point_nth [OF ps e(2)] ne [OF e(2)] by (metis linorder_neq_iff less_asym)
  have ord: "ps ! i < ps ! ?e \<longleftrightarrow> i + d < ?m"
  proof (cases "i + d < ?m")
    case True
    then have "i < ?e" using e d by simp
    with True show ?thesis using sorted_wrt_nth_less [OF ps(1) _ e(2)] by blast
  next
    case False
    then have "?e < i" using e d i by simp
    with False show ?thesis using sorted_wrt_nth_less [OF ps(1) _ i] less_asym by blast
  qed
  show ?thesis
    unfolding arc_run [OF i d arc(2)]
    using ord lo hi e arc s i d by (auto simp: contains_cases split: if_splits)
qed

lemma run_length_spec:
  "d \<le> length sel \<Longrightarrow> d \<le> run_length sel i d \<and> run_length sel i d \<le> length sel \<and>
     (\<forall>j. d \<le> j \<and> j < run_length sel i d \<longrightarrow> sel ! ((i + j) mod length sel)) \<and>
     (run_length sel i d < length sel \<longrightarrow> \<not> sel ! ((i + run_length sel i d) mod length sel))"
proof (induction sel i d rule: run_length.induct)
  case (1 sel i d)
  show ?case
  proof (cases "d < length sel \<and> sel ! ((i + d) mod length sel)")
    case True
    with 1 have ih: "Suc d \<le> run_length sel i (Suc d) \<and> run_length sel i (Suc d) \<le> length sel \<and>
     (\<forall>j. Suc d \<le> j \<and> j < run_length sel i (Suc d) \<longrightarrow> sel ! ((i + j) mod length sel)) \<and>
     (run_length sel i (Suc d) < length sel \<longrightarrow> \<not> sel ! ((i + run_length sel i (Suc d)) mod length sel))"
      by simp
    have "run_length sel i d = run_length sel i (Suc d)" using True by (subst run_length.simps) simp
    with ih True show ?thesis by (metis Suc_leD Suc_leI le_neq_implies_less)
  next
    case False
    then have "run_length sel i d = d" by (subst run_length.simps) auto
    with False 1(2) show ?thesis by auto
  qed
qed

lemma run_all:
  assumes "i < length sel" "sel ! i" "j < run_length sel i 1"
  shows "sel ! ((i + j) mod length sel)"
  using assms run_length_spec [of 1 sel i] by (cases "j = 0") auto

lemma run_length_less:
  assumes "i < length sel" "sel ! i" "x < length sel" "\<not> sel ! x"
  shows "1 \<le> run_length sel i 1" "run_length sel i 1 < length sel"
proof -
  show "1 \<le> run_length sel i 1" using run_length_spec [of 1 sel i] assms(1) by simp
  show "run_length sel i 1 < length sel"
  proof (rule ccontr)
    assume "\<not> run_length sel i 1 < length sel"
    then have all: "sel ! ((i + j) mod length sel)" if "j < length sel" for j
      using that run_all [OF assms(1,2), of j] by simp
    define j where "j = (x + length sel - i) mod length sel"
    have "(i + j) mod length sel = (i + (x + length sel - i)) mod length sel"
      unfolding j_def by (rule mod_add_right_eq)
    also have "\<dots> = x" using assms(1,3) by simp
    finally have "sel ! x" using all [of j] mod_less_divisor [of "length sel"] assms(1)
      by (metis j_def gr_implies_not0 neq0_conv)
    with assms(4) show False ..
  qed
qed

lemma owned_loop_correct:
  assumes ps: "sorted_wrt (<) ps" "h \<notin> set ps" "length sel = length ps"
    and x: "x < length sel" "\<not> sel ! x"
  shows "((\<exists>r \<in> set (owned_loop ps sel i). contains r h) \<longrightarrow> sel ! arc_of ps h) \<and>
    (sel ! arc_of ps h \<and> i \<le> arc_of ps h \<longrightarrow> (\<exists>r \<in> set (owned_loop ps sel i). contains r h))"
  using assms
proof (induction ps sel i rule: owned_loop.induct)
  case (1 ps sel i)
  let ?m = "length sel" let ?d = "run_length sel i 1" let ?e = "(i + ?d) mod ?m"
  let ?r = "\<lparr>range_start = ps ! i, range_end = ps ! ?e\<rparr>"
  have arc: "arc_of ps h < ?m" using 1 by (simp add: arc_of_def) (metis length_greater_0_conv mod_less_divisor not_less_zero length_0_conv)
  consider (stop) "\<not> i < ?m" | (skip) "i < ?m" "\<not> sel ! i" | (run) "i < ?m" "sel ! i" by blast
  then show ?case
  proof cases
    case stop
    with arc show ?thesis by (subst (1 2) owned_loop.simps) simp
  next
    case skip
    then have "owned_loop ps sel i = owned_loop ps sel (Suc i)" by (subst owned_loop.simps) simp
    moreover have "arc_of ps h \<noteq> i \<or> \<not> sel ! arc_of ps h" using skip by auto
    ultimately show ?thesis using 1(1) [OF refl skip] 1(3-) by (metis Suc_leI le_neq_implies_less)
  next
    case run
    note d = run_length_less [OF run 1(6,7)]
    have run_arcs: "contains ?r h \<longleftrightarrow> (\<exists>j < ?d. arc_of ps h = (i + j) mod ?m)"
      using contains_run [OF 1(3,4), of i ?d] run d 1(5) by simp
    then have sound: "contains ?r h \<longrightarrow> sel ! arc_of ps h" using run_all [OF run] by auto
    have cover: "contains ?r h \<longleftrightarrow> (if i + ?d < ?m then i \<le> arc_of ps h \<and> arc_of ps h < i + ?d
        else i \<le> arc_of ps h \<or> arc_of ps h < i + ?d - ?m)"
      unfolding run_arcs using arc_run [OF run(1) d arc] .
    show ?thesis
    proof (cases "?e \<le> i")
      case True
      then have "\<not> i + ?d < ?m" using d by auto
      with True sound cover run show ?thesis by (subst (1 2) owned_loop.simps) (simp add: Let_def)
    next
      case False
      then have e: "i + ?d < ?m" "?e = i + ?d" using d run by (auto simp: mod_if split: if_splits)
      have ih: "((\<exists>r \<in> set (owned_loop ps sel ?e). contains r h) \<longrightarrow> sel ! arc_of ps h) \<and>
        (sel ! arc_of ps h \<and> ?e \<le> arc_of ps h \<longrightarrow> (\<exists>r \<in> set (owned_loop ps sel ?e). contains r h))"
        using 1(2) [OF refl run(1) _ refl refl False] run 1(3-) by simp
      have "owned_loop ps sel i = ?r # owned_loop ps sel ?e"
        using run False by (subst owned_loop.simps) (simp add: Let_def)
      with ih sound cover e show ?thesis by auto
    qed
  qed
qed

lemma lookup_arc:
  assumes wf: "bt_wf (positions r)" and ne: "positions r \<noteq> []"
  defines "ps \<equiv> map fst (positions r)"
  shows "lookup r (ps ! ((arc_of ps h + 1) mod length ps)) = lookup r h"
proof -
  let ?m = "length ps" and ?s = "partition_point (\<lambda>p. p < h) ps"
  have m: "0 < ?m" using ne by (simp add: ps_def)
  have pp: "partition_point (\<lambda>(pos, _). pos < k) (positions r) = partition_point (\<lambda>p. p < k) ps" for k
  proof -
    have "(\<lambda>(pos, _ :: NodeId). pos < k) = (\<lambda>x. fst x < k)" by auto
    then show ?thesis by (simp add: partition_point_def ps_def takeWhile_map comp_def)
  qed
  have j: "(arc_of ps h + 1) mod ?m = ?s mod ?m"
    using m by (simp add: arc_of_def mod_simps)
  have jm: "?s mod ?m < ?m" using m by simp
  have sorted: "sorted_wrt (<) ps" using wf by (simp add: bt_wf_def ps_def)
  have "takeWhile (\<lambda>p. p < ps ! (?s mod ?m)) ps = take (?s mod ?m) ps"
    by (rule takeWhile_eq_take_P_nth) (use sorted_wrt_nth_less [OF sorted] jm in auto)
  then have start: "partition_point (\<lambda>p. p < ps ! (?s mod ?m)) ps = ?s mod ?m"
    using jm by (simp add: partition_point_def min_def)
  show ?thesis
    unfolding j lookup_def Let_def pp start
    using ne by (simp add: ps_def mod_add_left_eq)
qed

lemma ranges_owned_correct:
  assumes wf: "bt_wf (positions r)" and h: "h \<notin> fst ` set (positions r)"
  shows "(\<exists>rg \<in> set (ranges_owned_by r n). contains rg h) \<longleftrightarrow> n \<in> set (lookup r h)"
proof (cases "positions r = []")
  case True
  then show ?thesis by (simp add: ranges_owned_by_def lookup_def)
next
  case False
  define ps where "ps = map fst (positions r)"
  let ?m = "length ps"
  define sel where "sel = map (\<lambda>i. n \<in> set (lookup r (ps ! ((i + 1) mod ?m)))) [0..<?m]"
  have m: "0 < ?m" using False by (simp add: ps_def)
  then have arc: "arc_of ps h < ?m" by (simp add: arc_of_def)
  have sel_arc: "sel ! arc_of ps h \<longleftrightarrow> n \<in> set (lookup r h)"
    using arc lookup_arc [OF wf False, of h] by (simp add: sel_def ps_def)
  have sorted: "sorted_wrt (<) ps" using wf by (simp add: bt_wf_def ps_def)
  have hps: "h \<notin> set ps" using h by (simp add: ps_def)
  have def: "ranges_owned_by r n = (if \<not> (\<exists>s \<in> set sel. s) then [] else if (\<forall>s \<in> set sel. s)
      then [\<lparr>range_start = zero_position, range_end = zero_position\<rparr>] else owned_loop ps sel 0)"
    using False m by (simp add: ranges_owned_by_def Let_def sel_def ps_def)
  have mem: "sel ! arc_of ps h \<in> set sel" using arc by (simp add: sel_def)
  consider (none) "\<not> (\<exists>s \<in> set sel. s)" | (all) "\<exists>s \<in> set sel. s" "\<forall>s \<in> set sel. s"
    | (some) x where "\<exists>s \<in> set sel. s" "\<not> (\<forall>s \<in> set sel. s)" "x < length sel" "\<not> sel ! x"
    by (metis in_set_conv_nth)
  then show ?thesis
  proof cases
    case none
    with mem sel_arc show ?thesis by (auto simp: def)
  next
    case all
    with mem sel_arc show ?thesis by (auto simp: def contains_degenerate)
  next
    case some
    have "length sel = length ps" by (simp add: sel_def)
    note correct = owned_loop_correct [OF sorted hps this some(3,4), of 0]
    have "ranges_owned_by r n = owned_loop ps sel 0" unfolding def using some(1,2) by auto
    with correct sel_arc show ?thesis by auto
  qed
qed

section \<open>Grouping\<close>

lemma push_group_keys:
  "map fst (push_group n s gs) = (if n \<in> fst ` set gs then map fst gs else map fst gs @ [n])"
  by (induction n s gs rule: push_group.induct) auto

lemma firsts_snoc: "firsts S (xs @ [x]) = firsts S xs @ (if x \<in> S \<union> set xs then [] else [x])"
  by (induction xs arbitrary: S) auto

lemma push_group_get:
  "map_of (push_group n s gs) k =
     (if k = n then Some ((case map_of gs n of None \<Rightarrow> [] | Some ss \<Rightarrow> ss) @ [s]) else map_of gs k)"
  by (induction gs) auto

definition owner_list :: "('r \<Rightarrow> NodeId option) \<Rightarrow> 'r list \<Rightarrow> NodeId list" where
  "owner_list f xs = map (\<lambda>s. the (f s)) (filter (\<lambda>s. f s \<noteq> None) xs)"

lemma group_by_node_snoc:
  "group_by_node f (xs @ [s]) =
     (case f s of None \<Rightarrow> group_by_node f xs | Some n \<Rightarrow> push_group n s (group_by_node f xs))"
  by (cases "f s") (simp_all add: group_by_node_def)

section \<open>Properties\<close>

text \<open>
  C28: the replica set of a key has no duplicates, holds only nodes of the ring, and has as many nodes
  as the replication factor asks for (at least one) or the ring has, whichever is less; its members
  are the first distinct nodes met clockwise from the key.
\<close>

theorem lookup_replica_set:
  assumes "ring_wf r"
  shows "distinct (lookup r h) \<and> set (lookup r h) \<subseteq> set (node_ids r) \<and>
    length (lookup r h) = min (max 1 (unat (replication_factor (config r)))) (card (ring_nodes r)) \<and>
    (\<exists>rest. firsts {} (circle h (positions r)) = lookup r h @ rest)"
proof -
  have wf: "bt_wf (positions r)" "ring_nodes r \<subseteq> set (node_ids r)"
    using assms by (simp_all add: ring_wf_def ring_nodes_def)
  let ?k = "max 1 (unat (replication_factor (config r)))"
  have l: "lookup r h = take ?k (firsts {} (circle h (positions r)))" by (rule lookup_circle [OF wf(1)])
  moreover have "set (firsts {} (circle h (positions r))) = ring_nodes r"
    by (simp add: set_firsts set_circle ring_nodes_def)
  moreover have "length (firsts {} (circle h (positions r))) = card (ring_nodes r)"
    by (simp add: length_firsts set_circle ring_nodes_def)
  ultimately show ?thesis
    using wf(2) append_take_drop_id [of ?k "firsts {} (circle h (positions r))"]
    by (metis (no_types, lifting) distinct_firsts distinct_take length_take min.commute order_trans set_take_subset)
qed

definition example_ring :: Ring where
  "example_ring = \<lparr>positions = [([10], ''a''), ([20], ''b''), ([30], ''a''), ([40], ''c'')],
     config = \<lparr>vnodes_per_node = 1, replication_factor = 2\<rparr>, node_ids = [''a'', ''b'', ''c'']\<rparr>"

lemma example_ring_wf: "ring_wf example_ring"
  by (simp add: ring_wf_def example_ring_def bt_wf_def)

theorem lookup_replica_set_witness:
  "lookup example_ring [25] = [''a'', ''c''] \<and> distinct (lookup example_ring [25]) \<and>
   length (lookup example_ring [25]) = min 2 (card (ring_nodes example_ring))"
proof -
  have "lookup example_ring [25] = [''a'', ''c'']"
    by (simp add: example_ring_def lookup_def partition_point_def upt_rec)
  moreover have "max 1 (unat (replication_factor (config example_ring))) = 2"
    by (simp add: example_ring_def)
  ultimately show ?thesis
    using lookup_replica_set [OF example_ring_wf, of "[25]"] by metis
qed

text \<open>
  Removing a node disturbs no replica set more than it must: the remaining nodes of the old set
  stay, in order, at the front of the new one, and a set that did not contain the node is unchanged.
\<close>

theorem remove_node_disruption:
  assumes "ring_wf r" and "remove_node node r = Ok (r', ranges)"
  shows "ring_wf r' \<and> node \<notin> set (node_ids r') \<and> node \<notin> ring_nodes r' \<and>
    (\<exists>rest. lookup r' h = filter (\<lambda>n. n \<noteq> node) (lookup r h) @ rest) \<and>
    (node \<notin> set (lookup r h) \<longrightarrow> lookup r' h = lookup r h)"
proof -
  have wf: "bt_wf (positions r)" using assms(1) by (simp add: ring_wf_def)
  note r' = remove_node_Ok [OF assms(2) wf] and wf' = ring_wf_remove [OF assms]
  have "bt_wf (positions r')" using wf' by (simp add: ring_wf_def)
  from lookup_without [OF wf this r'(2,1), of h] wf' r' show ?thesis
    by (auto simp: ring_nodes_def)
qed

theorem remove_node_disruption_witness:
  "\<exists>r' ranges. remove_node ''a'' example_ring = Ok (r', ranges) \<and> ring_wf r' \<and>
     lookup example_ring [25] = [''a'', ''c''] \<and> lookup r' [25] = [''c'', ''b'']"
proof -
  obtain r' ranges where r: "remove_node ''a'' example_ring = Ok (r', ranges)"
    by (simp add: remove_node_def example_ring_def)
  moreover have "lookup example_ring [25] = [''a'', ''c'']"
    by (simp add: example_ring_def lookup_def partition_point_def upt_rec)
  moreover from r have "lookup r' [25] = [''c'', ''b'']"
    by (auto simp: remove_node_def example_ring_def lookup_def partition_point_def upt_rec)
  ultimately show ?thesis
    using remove_node_disruption [OF example_ring_wf r, of "[25]"] by blast
qed

text \<open>
  Adding a node whose virtual positions collide with no other node keeps the invariant, and every
  replica set keeps its other members in order: they are a prefix of the old set, and the set is
  unchanged when the new node does not enter it.
\<close>

theorem add_node_disruption:
  assumes "ring_wf r" and "no_collision hash node r" and "node \<notin> ring_nodes r"
  shows "ring_wf (fst (add_node hash node r)) \<and>
    (\<exists>rest. lookup r h = filter (\<lambda>n. n \<noteq> node) (lookup (fst (add_node hash node r)) h) @ rest) \<and>
    (node \<notin> set (lookup (fst (add_node hash node r)) h) \<longrightarrow>
      lookup (fst (add_node hash node r)) h = lookup r h)"
proof -
  have wf: "bt_wf (positions r)" using assms(1) by (simp add: ring_wf_def)
  have wf': "ring_wf (fst (add_node hash node r))" by (rule ring_wf_add [OF assms(1)])
  then have bt': "bt_wf (positions (fst (add_node hash node r)))" by (simp add: ring_wf_def)
  have "filter (\<lambda>(p, n). n \<noteq> node) (positions r) = positions r"
    using assms(3) by (force simp: filter_id_conv ring_nodes_def)
  with add_node_others [OF wf assms(2)]
  have "positions r = filter (\<lambda>(p, n). n \<noteq> node) (positions (fst (add_node hash node r)))" by simp
  from lookup_without [OF bt' wf add_node_positions(2) [symmetric] this, of h] wf' show ?thesis
    by auto
qed

theorem add_node_disruption_witness:
  "ring_wf (fst (add_node (\<lambda>n i. [35]) ''d'' example_ring)) \<and>
   lookup (fst (add_node (\<lambda>n i. [35]) ''d'' example_ring)) [32] = [''d'', ''c''] \<and>
   (\<exists>rest. lookup example_ring [32] = [''c''] @ rest)"
proof -
  have l: "lookup (fst (add_node (\<lambda>n i. [35]) ''d'' example_ring)) [32] = [''d'', ''c'']"
    by (simp add: add_node_def vnode_positions_def example_ring_def lookup_def partition_point_def upt_rec)
  have "no_collision (\<lambda>n i. [35]) ''d'' example_ring" "''d'' \<notin> ring_nodes example_ring"
    by (simp_all add: no_collision_def ring_nodes_def example_ring_def vnode_positions_def)
  from add_node_disruption [OF example_ring_wf this, of "[32]"] l show ?thesis by simp
qed

text \<open>
  C29: for every key position that is not itself a virtual-node position, the ranges a node owns contain
  the position exactly when the node is in the replica set of the position.
\<close>

theorem owned_ranges_exact:
  assumes "ring_wf r" and "h \<notin> fst ` set (positions r)"
  shows "(\<exists>rg \<in> set (ranges_owned_by r n). range_contains rg h) \<longleftrightarrow> n \<in> set (lookup r h)"
  using ranges_owned_correct [of r h n] assms by (simp add: ring_wf_def range_contains_def)

theorem owned_ranges_exact_witness:
  "(\<exists>rg \<in> set (ranges_owned_by example_ring ''b''). range_contains rg [15]) \<and>
   \<not> (\<exists>rg \<in> set (ranges_owned_by example_ring ''b''). range_contains rg [25])"
proof -
  have "[15] \<notin> fst ` set (positions example_ring)" "[25] \<notin> fst ` set (positions example_ring)"
    by (simp_all add: example_ring_def)
  note this [THEN owned_ranges_exact [OF example_ring_wf], of "''b''"]
  moreover have "lookup example_ring [15] = [''b'', ''a'']" "lookup example_ring [25] = [''a'', ''c'']"
    by (simp_all add: example_ring_def lookup_def partition_point_def upt_rec)
  ultimately show ?thesis by simp
qed

text \<open>
  The ranges \<^verbatim>\<open>add_node\<close> and \<^verbatim>\<open>remove_node\<close> report as affected are all degenerate, with equal ends, and
  by \<^verbatim>\<open>VnodeRange::contains\<close> each of them covers the whole circle.
\<close>

theorem reported_ranges_cover_everything:
  "list_all (\<lambda>rg. contains rg h) (snd (add_node hash node r)) \<and>
   (case remove_node node r of Ok (r', ranges) \<Rightarrow> list_all (\<lambda>rg. contains rg h) ranges | _ \<Rightarrow> True)"
  by (auto simp: add_node_def remove_node_def Let_def list_all_iff contains_degenerate)

text \<open>
  Grouping shard requests keeps every request with a resolved owner, in order, in the group of its
  owner and nowhere else, and lists the owners once each, in the order they are first seen.
\<close>

theorem group_by_node_correct:
  "map fst (group_by_node f xs) = firsts {} (owner_list f xs) \<and>
   (\<forall>k. map_of (group_by_node f xs) k =
     (if filter (\<lambda>s. f s = Some k) xs = [] then None else Some (filter (\<lambda>s. f s = Some k) xs)))"
proof (induction xs rule: rev_induct)
  case Nil
  then show ?case by (simp add: group_by_node_def owner_list_def)
next
  case (snoc s xs)
  have keys: "fst ` set (group_by_node f xs) = set (owner_list f xs)"
    using snoc set_firsts [of "{}" "owner_list f xs"] by (metis Diff_empty list.set_map)
  show ?case
    using snoc keys
    by (cases "f s") (auto simp: group_by_node_snoc owner_list_def push_group_keys push_group_get firsts_snoc)
qed

end
