(* ===== verification/HashMaps.thy ===== *)
theory HashMaps
  imports OrdMap "HOL-Library.AList"
begin

text \<open>
  The standard library's \<^verbatim>\<open>HashMap\<close> as an association list with distinct keys.  The list order stands for the
  map's iteration order, which the standard library leaves open: insertion keeps the position of a present key and
  appends a new one.  The theory also states the contract of a merge that absorbs repeated facts.
\<close>

section \<open>Operations\<close>

definition hm_get :: "('k \<times> 'v) list \<Rightarrow> 'k \<Rightarrow> 'v option" where "hm_get m k = map_of m k"
definition hm_insert :: "'k \<Rightarrow> 'v \<Rightarrow> ('k \<times> 'v) list \<Rightarrow> ('k \<times> 'v) list" where "hm_insert k v m = AList.update k v m"
definition hm_remove :: "'k \<Rightarrow> ('k \<times> 'v) list \<Rightarrow> ('k \<times> 'v) list" where "hm_remove k m = AList.delete k m"
definition hm_wf :: "('k \<times> 'v) list \<Rightarrow> bool" where "hm_wf m \<longleftrightarrow> distinct (map fst m)"

lemma hm_get_Nil [simp]: "hm_get [] k = None"
  by (simp add: hm_get_def)

lemma hm_get_insert [simp]: "hm_get (hm_insert k v m) k' = (if k' = k then Some v else hm_get m k')"
  by (simp add: hm_get_def hm_insert_def update_conv')

lemma hm_get_remove [simp]: "hm_get (hm_remove k m) k' = (if k' = k then None else hm_get m k')"
  by (simp add: hm_get_def hm_remove_def delete_conv')

lemma hm_wf_Nil [simp]: "hm_wf []"
  by (simp add: hm_wf_def)

lemma hm_wf_insert [simp]: "hm_wf m \<Longrightarrow> hm_wf (hm_insert k v m)"
  by (simp add: hm_wf_def hm_insert_def distinct_update)

lemma hm_wf_remove [simp]: "hm_wf m \<Longrightarrow> hm_wf (hm_remove k m)"
  by (simp add: hm_wf_def hm_remove_def distinct_delete)

interpretation hm: map_contract "[]" hm_get hm_insert hm_remove hm_wf
  by unfold_locales simp_all

lemma hm_get_mem: "hm_wf m \<Longrightarrow> (k, v) \<in> set m \<longleftrightarrow> hm_get m k = Some v"
  by (simp add: hm_wf_def hm_get_def)

lemma hm_values: "hm_wf m \<Longrightarrow> v \<in> snd ` set m \<longleftrightarrow> (\<exists>k. hm_get m k = Some v)"
  by (force simp: hm_get_mem [symmetric])

lemma hm_insert_same: "hm_get m k = Some v \<Longrightarrow> hm_insert k v m = m"
  by (induction m) (auto simp: hm_get_def hm_insert_def split: if_splits)

section \<open>Merging facts that may be delivered again\<close>

text \<open>
  A state merges facts one at a time.  \<^verbatim>\<open>beaten\<close> says that the state already holds something at least as good as a
  fact, and \<^verbatim>\<open>fact_ok\<close> restricts the facts considered.  The laws give that facts can be delivered any number of
  times, in any later order, without changing the state again.
\<close>

locale absorbing_merge =
  fixes step :: "'e \<Rightarrow> 's \<Rightarrow> 's" and beaten :: "'s \<Rightarrow> 'e \<Rightarrow> bool" and wf :: "'s \<Rightarrow> bool"
    and fact_ok :: "'e \<Rightarrow> bool"
  assumes beaten_noop: "wf s \<Longrightarrow> beaten s e \<Longrightarrow> step e s = s"
    and step_beaten: "wf s \<Longrightarrow> fact_ok e \<Longrightarrow> beaten (step e s) e"
    and beaten_step: "wf s \<Longrightarrow> beaten s e \<Longrightarrow> beaten (step e' s) e"
    and wf_step: "wf s \<Longrightarrow> wf (step e s)"
begin

lemma wf_fold: "wf s \<Longrightarrow> wf (fold step es s)"
  by (induction es arbitrary: s) (auto simp: wf_step)

lemma beaten_fold: "wf s \<Longrightarrow> beaten s e \<Longrightarrow> beaten (fold step es s) e"
  by (induction es arbitrary: s) (auto simp: wf_step beaten_step)

lemma fold_beaten: "wf s \<Longrightarrow> \<forall>e \<in> set es. fact_ok e \<Longrightarrow> e \<in> set es \<Longrightarrow> beaten (fold step es s) e"
proof (induction es arbitrary: s)
  case (Cons x xs)
  show ?case
  proof (cases "e = x")
    case True
    then show ?thesis using Cons.prems by (simp add: beaten_fold wf_step step_beaten)
  next
    case False
    then show ?thesis using Cons by (simp add: wf_step)
  qed
qed simp

lemma fold_noop: "wf s \<Longrightarrow> \<forall>e \<in> set ds. beaten s e \<Longrightarrow> fold step ds s = s"
  by (induction ds) (auto simp: beaten_noop)

lemma fold_absorbs:
  assumes "wf s" "\<forall>e \<in> set es. fact_ok e" "set ds \<subseteq> set es"
  shows "fold step ds (fold step es s) = fold step es s"
  by (rule fold_noop [OF wf_fold]) (use assms fold_beaten in blast)+

end

end
