(* ===== verification/MemberTypes.thy ===== *)
theory MemberTypes
  imports Ring HashMaps
begin

text \<open>
  The data of \<^verbatim>\<open>oceanfs-membership\<close>: the storage-pool manifests (\<^verbatim>\<open>manifest.rs\<close>), the entries of the membership table
  and of the gossip state (\<^verbatim>\<open>membership/state.rs\<close>), the events and the authority classes (\<^verbatim>\<open>membership/mod.rs\<close>), the
  commands of the background tasks, and the wire form of an entry.  The textual form of a socket address is an argument
  of the conversions.
\<close>

section \<open>Addresses and manifests\<close>

datatype SocketAddr = V4 u8 u8 u8 u8 u16 | V6 u128 u16 u32 u32

definition default_addr :: SocketAddr where "default_addr = V4 127 0 0 1 9001"
definition dead_placeholder :: SocketAddr where "dead_placeholder = V4 127 0 0 1 1"

record PoolManifest =
  pm_id :: u32
  pm_role :: string
  pm_status :: string
  pm_write_degraded :: bool
  pm_capacity_free_bytes :: u64
  pm_weight :: u32

record NodeManifest =
  nm_incarnation :: u64
  nm_pools :: "PoolManifest list"
  nm_node_unavailable :: bool

definition from_pools :: "u64 \<Rightarrow> PoolManifest list \<Rightarrow> NodeManifest" where
  "from_pools inc ps = \<lparr>nm_incarnation = inc, nm_pools = ps, nm_node_unavailable = False\<rparr>"

definition with_node_unavailable :: "bool \<Rightarrow> NodeManifest \<Rightarrow> NodeManifest" where
  "with_node_unavailable b m = m\<lparr>nm_node_unavailable := b\<rparr>"

section \<open>Entries\<close>

record NodeEntry =
  ne_node_id :: NodeId
  ne_incarnation :: Incarnation
  ne_state :: NodeState
  ne_address :: SocketAddr
  ne_grpc_address :: SocketAddr
  ne_version :: u64
  ne_origin :: NodeId
  ne_manifest :: "NodeManifest option"

record StoredEntry =
  se_state :: NodeState
  se_incarnation :: Incarnation
  se_address :: SocketAddr
  se_membership_address :: SocketAddr
  se_version :: u64
  se_origin :: NodeId
  se_manifest :: "NodeManifest option"

record MembershipState =
  nodes :: "(NodeId \<times> StoredEntry) list"
  incarnations :: "(NodeId \<times> Incarnation) list"

definition MembershipState_new :: MembershipState where
  "MembershipState_new = \<lparr>nodes = [], incarnations = []\<rparr>"

record MembershipEvent =
  ev_node_id :: NodeId
  ev_old_state :: NodeState
  ev_new_state :: NodeState
  ev_incarnation :: Incarnation
  ev_address :: "SocketAddr option"
  ev_version :: u64
  ev_origin :: NodeId
  ev_membership_address :: "SocketAddr option"
  ev_manifest :: "NodeManifest option"

section \<open>Authority classes\<close>

definition authority_class :: "NodeId \<Rightarrow> NodeId \<Rightarrow> NodeState \<Rightarrow> NodeId \<Rightarrow> u8" where
  "authority_class target origin state self_id =
     (if target = self_id then (if origin = self_id then 4 else 0)
      else case state of
        Leaving \<Rightarrow> (if origin = target then 4 else if origin = self_id then 3 else 2)
      | Left \<Rightarrow> (if origin = target then 4 else if origin = self_id then 3 else 2)
      | Suspect \<Rightarrow> (if origin = self_id then 3 else if origin = target then 1 else 2)
      | Dead \<Rightarrow> (if origin = self_id then 3 else if origin = target then 1 else 2)
      | Alive \<Rightarrow> (if origin = self_id then 3 else if origin = target then 1 else 2))"

section \<open>Commands of the background tasks\<close>

type_synonym version_vector = "(NodeId \<times> (NodeId \<times> u64) list) list"

datatype GossipCommand =
    Push NodeId "NodeEntry list"
  | ReceiveDelta NodeId "NodeEntry list"
  | Ack NodeId "NodeEntry list" version_vector
  | GossipSetPool
  | AddNode NodeEntry
  | GossipShutdown

datatype DetectorCommand =
    PingResponse NodeId bool
  | UpdateAliveNodes "(NodeId \<times> NodeState \<times> SocketAddr \<times> Incarnation) list"
  | RemoveNode NodeId
  | DetectorSetPool
  | DetectorShutdown

section \<open>The wire form of an entry\<close>

record MembershipEntry =
  pe_node_id :: "NodeId option"
  pe_state :: int
  pe_incarnation :: u64
  pe_address :: string
  pe_version :: u64
  pe_origin :: NodeId
  pe_grpc_address :: string
  pe_manifest :: "NodeManifest option"

fun state_to_proto :: "NodeState \<Rightarrow> int" where
  "state_to_proto Alive = 0"
| "state_to_proto Suspect = 1"
| "state_to_proto Dead = 2"
| "state_to_proto Leaving = 3"
| "state_to_proto Left = 4"

definition state_from_proto :: "int \<Rightarrow> NodeState option" where
  "state_from_proto c =
     (if c = 0 then Some Alive else if c = 1 then Some Suspect else if c = 2 then Some Dead
      else if c = 3 then Some Leaving else if c = 4 then Some Left else None)"

definition entry_to_proto :: "(SocketAddr \<Rightarrow> string) \<Rightarrow> NodeEntry \<Rightarrow> MembershipEntry" where
  "entry_to_proto show_addr e =
     \<lparr>pe_node_id = Some (ne_node_id e), pe_state = state_to_proto (ne_state e),
      pe_incarnation = ne_incarnation e, pe_address = show_addr (ne_address e),
      pe_version = ne_version e, pe_origin = ne_origin e,
      pe_grpc_address = show_addr (ne_grpc_address e), pe_manifest = ne_manifest e\<rparr>"

definition parse_or_default :: "(string \<Rightarrow> SocketAddr option) \<Rightarrow> string \<Rightarrow> SocketAddr" where
  "parse_or_default parse s = (case parse s of None \<Rightarrow> default_addr | Some a \<Rightarrow> a)"

definition entry_from_proto :: "(string \<Rightarrow> SocketAddr option) \<Rightarrow> MembershipEntry \<Rightarrow> NodeEntry" where
  "entry_from_proto parse p =
     \<lparr>ne_node_id = (case pe_node_id p of None \<Rightarrow> ''unknown'' | Some n \<Rightarrow> n),
      ne_incarnation = pe_incarnation p,
      ne_state = (case state_from_proto (pe_state p) of None \<Rightarrow> Alive | Some s \<Rightarrow> s),
      ne_address = parse_or_default parse (pe_address p),
      ne_grpc_address = parse_or_default parse (pe_grpc_address p),
      ne_version = pe_version p, ne_origin = pe_origin p, ne_manifest = pe_manifest p\<rparr>"

lemma state_proto_round_trip [simp]: "state_from_proto (state_to_proto s) = Some s"
  by (cases s) (simp_all add: state_from_proto_def)

lemma entry_proto_round_trip:
  assumes "parse (show_addr (ne_address e)) = Some (ne_address e)"
    and "parse (show_addr (ne_grpc_address e)) = Some (ne_grpc_address e)"
  shows "entry_from_proto parse (entry_to_proto show_addr e) = e"
  using assms by (cases e) (simp add: entry_from_proto_def entry_to_proto_def parse_or_default_def)

section \<open>Ordering of attributed facts\<close>

text \<open>
  The rank of a fact about a node, as a given node sees it: the incarnation first, then the authority class.
\<close>

definition rank :: "NodeId \<Rightarrow> NodeId \<Rightarrow> Incarnation \<Rightarrow> NodeId \<Rightarrow> NodeState \<Rightarrow> nat \<times> nat" where
  "rank self_id target inc origin state = (unat inc, unat (authority_class target origin state self_id))"

lemma authority_class_self: "authority_class self_id origin state self_id = (if origin = self_id then 4 else 0)"
  by (simp add: authority_class_def)

lemma authority_class_detector:
  "target \<noteq> self_id \<Longrightarrow> authority_class target self_id state self_id = 3"
  by (cases state) (simp_all add: authority_class_def)

lemma authority_class_le: "authority_class target origin state self_id \<le> 4"
  by (cases state) (simp_all add: authority_class_def)

end
