(* ===== verification/Members.thy ===== *)
theory Members
  imports MemberTypes
begin

text \<open>
  The membership coordinator of \<^verbatim>\<open>oceanfs-membership/src/membership\<close>: construction, join, leave, manifests and the
  attributed upsert (\<^verbatim>\<open>manager.rs\<close>), and the read accessors (\<^verbatim>\<open>accessors.rs\<close>).  The broadcast of events is a list the
  operations append to; a channel to a background task is present once the tasks are started and holds the commands
  offered to it.  Remote calls, address parsing and the leave handler are arguments.
\<close>

section \<open>State\<close>

datatype membership_error = AlreadyStarted | NotStarted | JoinFailed string | LeaveFailed string

record GossipConfig =
  interval_ms :: u64
  suspicion_timeout_ms :: u64
  failure_timeout_ms :: u64
  indirect_ping_count :: u8
  fanout_k :: u8
  seed_nodes :: "string list"

definition GossipConfig_default :: GossipConfig where
  "GossipConfig_default = \<lparr>interval_ms = 1000, suspicion_timeout_ms = 5000, failure_timeout_ms = 15000,
     indirect_ping_count = 3, fanout_k = 3, seed_nodes = []\<rparr>"

record Membership =
  node_id :: NodeId
  address :: SocketAddr
  grpc_address :: SocketAddr
  gossip_config :: GossipConfig
  state :: MembershipState
  ring :: RingCache
  events :: "MembershipEvent list"
  detector_tx :: "DetectorCommand list option"
  gossip_tx :: "GossipCommand list option"
  pool :: bool
  started :: bool
  self_version :: u64
  self_manifest :: "NodeManifest option"
  ring_version :: u64

definition Membership_new :: "NodeId \<Rightarrow> SocketAddr \<Rightarrow> SocketAddr \<Rightarrow> GossipConfig \<Rightarrow> RingCache \<Rightarrow> Membership" where
  "Membership_new nid addr grpc cfg rc =
     \<lparr>node_id = nid, address = addr, grpc_address = grpc, gossip_config = cfg, state = MembershipState_new,
      ring = rc, events = [], detector_tx = None, gossip_tx = None, pool = False, started = False,
      self_version = 0, self_manifest = None, ring_version = 0\<rparr>"

text \<open>\<^verbatim>\<open>start\<close> may run once; it creates the channels of the two background tasks.\<close>

definition start :: "Membership \<Rightarrow> (membership_error, unit) outcome \<times> Membership" where
  "start m =
     (if started m then (Err AlreadyStarted, m)
      else (Ok (), m\<lparr>started := True, detector_tx := Some [], gossip_tx := Some []\<rparr>))"

definition set_pool :: "Membership \<Rightarrow> Membership" where
  "set_pool m =
     m\<lparr>gossip_tx := map_option (\<lambda>q. q @ [GossipSetPool]) (gossip_tx m),
       detector_tx := map_option (\<lambda>q. q @ [DetectorSetPool]) (detector_tx m), pool := True\<rparr>"

section \<open>The attributed upsert\<close>

text \<open>The gates before a fact is applied: \<^verbatim>\<open>False\<close> is an early return.\<close>

definition upsert_gates ::
  "NodeId \<Rightarrow> MembershipState \<Rightarrow> NodeId \<Rightarrow> NodeState \<Rightarrow> Incarnation \<Rightarrow> u64 \<Rightarrow> NodeId \<Rightarrow> bool" where
  "upsert_gates self_id tbl nid st inc ver org =
     (let old = map_option se_state (hm_get (nodes tbl) nid);
          recorded = hm_get (incarnations tbl) nid;
          is_new = (old = None);
          readmission_gated = (is_new \<or> old = Some Dead \<or> old = Some Left)
      in if readmission_gated \<and> (case recorded of None \<Rightarrow> False | Some prev \<Rightarrow> inc \<le> prev) then False
         else if (case recorded of None \<Rightarrow> False | Some prev \<Rightarrow> inc < prev) then False
         else if nid = self_id \<and> org \<noteq> self_id then False
         else case hm_get (nodes tbl) nid of
             None \<Rightarrow> True
           | Some local \<Rightarrow>
               if inc = se_incarnation local then
                 let incoming_class = authority_class nid org st self_id;
                     local_class = authority_class nid (se_origin local) (se_state local) self_id
                 in if incoming_class < local_class then False
                    else if incoming_class = local_class then
                      if org = se_origin local then \<not> ver \<le> se_version local else False
                    else True
               else True)"

text \<open>The transition itself; \<^verbatim>\<open>None\<close> when a node would be admitted without a known address.\<close>

definition upsert_apply ::
  "MembershipState \<Rightarrow> NodeId \<Rightarrow> NodeState \<Rightarrow> Incarnation \<Rightarrow> SocketAddr option \<Rightarrow> u64 \<Rightarrow> NodeId \<Rightarrow>
   SocketAddr option \<Rightarrow> NodeManifest option \<Rightarrow> (MembershipState \<times> SocketAddr option) option" where
  "upsert_apply tbl nid st inc addr ver org maddr manifest =
     (let stored = hm_get (nodes tbl) nid;
          stored_address = map_option se_address stored;
          stored_maddr = map_option se_membership_address stored;
          recorded = hm_get (incarnations tbl) nid;
          eff_inc = (case recorded of None \<Rightarrow> inc | Some prev \<Rightarrow> max prev inc);
          known = (case addr of Some a \<Rightarrow> Some a | None \<Rightarrow> stored_address);
          insert_at = (\<lambda>a. tbl\<lparr>nodes := hm_insert nid
               \<lparr>se_state = st, se_incarnation = eff_inc, se_address = a,
                se_membership_address =
                  (case maddr of Some x \<Rightarrow> x | None \<Rightarrow> (case stored_maddr of Some x \<Rightarrow> x | None \<Rightarrow> a)),
                se_version = ver, se_origin = org, se_manifest = manifest\<rparr> (nodes tbl),
               incarnations := hm_insert nid eff_inc (incarnations tbl)\<rparr>)
      in if st = Left then
           Some (tbl\<lparr>nodes := hm_remove nid (nodes tbl),
                       incarnations := hm_insert nid eff_inc (incarnations tbl)\<rparr>, known)
         else if st = Dead then
           (let a = (case known of Some a \<Rightarrow> a | None \<Rightarrow> dead_placeholder) in Some (insert_at a, Some a))
         else (case known of None \<Rightarrow> None | Some a \<Rightarrow> Some (insert_at a, Some a)))"

text \<open>The ring follows the table: a new node is added, a node that left is removed.\<close>

definition upsert_ring :: "(NodeId \<Rightarrow> u32 \<Rightarrow> RingPosition) \<Rightarrow> bool \<Rightarrow> NodeId \<Rightarrow> NodeState \<Rightarrow> RingCache \<Rightarrow> RingCache" where
  "upsert_ring hash is_new nid st rc =
     (let snapshot = cache_snapshot rc;
          updated = (if is_new then fst (add_node hash nid snapshot)
                     else if st = Left then
                       (case remove_node nid snapshot of Ok (r, _) \<Rightarrow> r | _ \<Rightarrow> snapshot)
                     else snapshot)
      in cache_update updated rc)"

text \<open>The broadcast, the ring and the two background tasks learn of a new node or a changed state.\<close>

definition upsert_notify ::
  "(NodeId \<Rightarrow> u32 \<Rightarrow> RingPosition) \<Rightarrow> StoredEntry option \<Rightarrow> NodeId \<Rightarrow> NodeState \<Rightarrow> Incarnation \<Rightarrow> SocketAddr option \<Rightarrow> u64 \<Rightarrow>
   NodeId \<Rightarrow> SocketAddr option \<Rightarrow> NodeManifest option \<Rightarrow> Membership \<Rightarrow> Membership" where
  "upsert_notify hash stored nid st eff_inc eff_addr ver org maddr eff_manifest m =
     (let is_new = (stored = None);
          old_state = (case stored of None \<Rightarrow> Alive | Some e \<Rightarrow> se_state e)
      in m\<lparr>events := events m @ [\<lparr>ev_node_id = nid,
             ev_old_state = (if is_new then Alive else old_state), ev_new_state = st,
             ev_incarnation = eff_inc, ev_address = eff_addr, ev_version = ver, ev_origin = org,
             ev_membership_address = maddr, ev_manifest = eff_manifest\<rparr>],
           ring := upsert_ring hash is_new nid st (ring m),
           ring_version := ring_version m + 1,
           detector_tx := (if st = Dead \<or> st = Left
              then map_option (\<lambda>q. q @ [RemoveNode nid]) (detector_tx m) else detector_tx m),
           gossip_tx := map_option (\<lambda>q. q @ [AddNode
              \<lparr>ne_node_id = nid, ne_incarnation = eff_inc, ne_state = st,
               ne_address = (case maddr of Some x \<Rightarrow> x
                  | None \<Rightarrow> (case stored of Some e \<Rightarrow> se_membership_address e | None \<Rightarrow> default_addr)),
               ne_grpc_address = (case eff_addr of Some x \<Rightarrow> x | None \<Rightarrow> default_addr),
               ne_version = ver, ne_origin = org, ne_manifest = eff_manifest\<rparr>]) (gossip_tx m)\<rparr>)"

definition upsert_node_attributed_inner ::
  "(NodeId \<Rightarrow> u32 \<Rightarrow> RingPosition) \<Rightarrow> NodeId \<Rightarrow> NodeState \<Rightarrow> Incarnation \<Rightarrow> SocketAddr option \<Rightarrow> u64 \<Rightarrow> NodeId \<Rightarrow>
   SocketAddr option \<Rightarrow> NodeManifest option \<Rightarrow> Membership \<Rightarrow> Membership" where
  "upsert_node_attributed_inner hash nid st inc addr ver org maddr manifest m =
     (let tbl = state m;
          stored = hm_get (nodes tbl) nid;
          eff_manifest = (case manifest of Some x \<Rightarrow> Some x
             | None \<Rightarrow> (case stored of None \<Rightarrow> None | Some e \<Rightarrow> se_manifest e));
          eff_inc = (case hm_get (incarnations tbl) nid of None \<Rightarrow> inc | Some prev \<Rightarrow> max prev inc)
      in if \<not> upsert_gates (node_id m) tbl nid st inc ver org then m
         else case upsert_apply tbl nid st inc addr ver org maddr eff_manifest of
             None \<Rightarrow> m
           | Some (tbl', eff_addr) \<Rightarrow>
               if stored = None \<or> map_option se_state stored \<noteq> Some st
               then upsert_notify hash stored nid st eff_inc eff_addr ver org maddr eff_manifest (m\<lparr>state := tbl'\<rparr>)
               else m\<lparr>state := tbl'\<rparr>)"

definition upsert_node_attributed ::
  "(NodeId \<Rightarrow> u32 \<Rightarrow> RingPosition) \<Rightarrow> NodeId \<Rightarrow> NodeState \<Rightarrow> Incarnation \<Rightarrow> SocketAddr option \<Rightarrow> u64 \<Rightarrow> NodeId \<Rightarrow>
   SocketAddr option \<Rightarrow> Membership \<Rightarrow> Membership" where
  "upsert_node_attributed hash nid st inc addr ver org maddr m =
     upsert_node_attributed_inner hash nid st inc addr ver org maddr None m"

definition upsert_node ::
  "(NodeId \<Rightarrow> u32 \<Rightarrow> RingPosition) \<Rightarrow> NodeId \<Rightarrow> NodeState \<Rightarrow> Incarnation \<Rightarrow> SocketAddr option \<Rightarrow> Membership \<Rightarrow> Membership" where
  "upsert_node hash nid st inc addr m = upsert_node_attributed hash nid st inc addr 0 (node_id m) None m"

text \<open>The event handler task applies every broadcast event to the table.\<close>

definition handle_event :: "(NodeId \<Rightarrow> u32 \<Rightarrow> RingPosition) \<Rightarrow> MembershipEvent \<Rightarrow> Membership \<Rightarrow> Membership" where
  "handle_event hash ev m =
     upsert_node_attributed_inner hash (ev_node_id ev) (ev_new_state ev) (ev_incarnation ev) (ev_address ev)
       (ev_version ev) (ev_origin ev) (ev_membership_address ev) (ev_manifest ev) m"


section \<open>Joining\<close>

text \<open>
  The remote side of a join: how addresses are read and written, the error of dialing a seed if there is one, and the
  entries a seed streams when pulled.
\<close>

record join_net =
  parse_addr :: "string \<Rightarrow> SocketAddr option"
  show_addr :: "SocketAddr \<Rightarrow> string"
  dial :: "SocketAddr \<Rightarrow> string option"
  pull_rpc :: "SocketAddr \<Rightarrow> MembershipEntry list option"
  dial_push :: "SocketAddr \<Rightarrow> string option"

definition apply_pulled ::
  "(NodeId \<Rightarrow> u32 \<Rightarrow> RingPosition) \<Rightarrow> (string \<Rightarrow> SocketAddr option) \<Rightarrow> MembershipEntry \<Rightarrow> Membership \<Rightarrow> Membership" where
  "apply_pulled hash parse p m =
     (case state_from_proto (pe_state p) of
        None \<Rightarrow> m
      | Some st \<Rightarrow>
          (case pe_node_id p of
             None \<Rightarrow> m
           | Some nid \<Rightarrow> upsert_node_attributed_inner hash nid st (pe_incarnation p)
               (Some (parse_or_default parse (pe_grpc_address p))) (pe_version p) (pe_origin p)
               (Some (parse_or_default parse (pe_address p))) (pe_manifest p) m))"

fun pull_membership_from_seeds ::
  "(NodeId \<Rightarrow> u32 \<Rightarrow> RingPosition) \<Rightarrow> join_net \<Rightarrow> string list \<Rightarrow> Membership \<Rightarrow> SocketAddr option \<times> Membership" where
  "pull_membership_from_seeds hash net [] m = (None, m)"
| "pull_membership_from_seeds hash net (seed # seeds) m =
     (case parse_addr net seed of
        None \<Rightarrow> pull_membership_from_seeds hash net seeds m
      | Some a \<Rightarrow>
          (case dial net a of
             Some _ \<Rightarrow> pull_membership_from_seeds hash net seeds m
           | None \<Rightarrow>
               (case pull_rpc net a of
                  None \<Rightarrow> pull_membership_from_seeds hash net seeds m
                | Some entries \<Rightarrow> (Some a, fold (apply_pulled hash (parse_addr net)) entries m))))"

definition announce_self :: "(NodeId \<Rightarrow> u32 \<Rightarrow> RingPosition) \<Rightarrow> Incarnation \<Rightarrow> NodeManifest option \<Rightarrow> Membership \<Rightarrow> Membership" where
  "announce_self hash inc manifest m =
     (let v = self_version m + 1; m = m\<lparr>self_version := v\<rparr>
      in upsert_node_attributed_inner hash (node_id m) Alive inc (Some (grpc_address m)) v (node_id m)
           (Some (address m)) manifest m)"

text \<open>The result, the membership afterwards and the entry pushed to the seed, if any.\<close>

definition join ::
  "(NodeId \<Rightarrow> u32 \<Rightarrow> RingPosition) \<Rightarrow> join_net \<Rightarrow> Incarnation \<Rightarrow> string list \<Rightarrow> Membership \<Rightarrow>
   (membership_error, unit) outcome \<times> Membership \<times> (SocketAddr \<times> MembershipEntry) option" where
  "join hash net inc fallback m =
     (let seeds = seed_nodes (gossip_config m); manifest = self_manifest m
      in if seeds = [] \<and> fallback = [] then (Ok (), announce_self hash inc manifest m, None)
         else if \<not> pool m then (Err (JoinFailed ''no connection pool set''), m, None)
         else
           let (joined, m) = (if seeds = [] then (None, m) else pull_membership_from_seeds hash net seeds m);
               (joined, m) = (if joined = None \<and> fallback \<noteq> []
                              then pull_membership_from_seeds hash net fallback m else (joined, m))
           in case joined of
                None \<Rightarrow>
                  if seeds \<noteq> [] then (Err (JoinFailed ''could not contact any seed node (configured or fallback)''), m, None)
                  else (Ok (), announce_self hash inc manifest m, None)
              | Some seed \<Rightarrow>
                  (let v = self_version m + 1; m = m\<lparr>self_version := v\<rparr>
                   in case dial_push net seed of
                        Some e \<Rightarrow> (Err (JoinFailed (''failed to connect to seed for push: '' @ e)), m, None)
                      | None \<Rightarrow>
                          (Ok (), announce_self hash inc manifest m,
                           Some (seed, entry_to_proto (show_addr net)
                             \<lparr>ne_node_id = node_id m, ne_incarnation = inc, ne_state = Alive,
                              ne_address = address m, ne_grpc_address = grpc_address m, ne_version = v,
                              ne_origin = node_id m, ne_manifest = manifest\<rparr>))))"

section \<open>Leaving\<close>

record leave_handler =
  handoff_wal_to :: "NodeId \<Rightarrow> string option"
  transfer_segment_shards_to :: "NodeId \<Rightarrow> string option"

definition self_incarnation :: "Membership \<Rightarrow> Incarnation" where
  "self_incarnation m =
     (case hm_get (incarnations (state m)) (node_id m) of
        Some i \<Rightarrow> i
      | None \<Rightarrow> (case hm_get (nodes (state m)) (node_id m) of Some e \<Rightarrow> se_incarnation e | None \<Rightarrow> 1))"

definition leave_event :: "Membership \<Rightarrow> u64 \<Rightarrow> NodeState \<Rightarrow> NodeState \<Rightarrow> MembershipEvent" where
  "leave_event m v old new =
     \<lparr>ev_node_id = node_id m, ev_old_state = old, ev_new_state = new, ev_incarnation = self_incarnation m,
      ev_address = Some (address m), ev_version = v, ev_origin = node_id m,
      ev_membership_address = Some (address m), ev_manifest = None\<rparr>"

definition run_handoff :: "leave_handler option \<Rightarrow> NodeId \<Rightarrow> NodeId \<Rightarrow> membership_error option" where
  "run_handoff handler nid successor =
     (case handler of
        None \<Rightarrow> None
      | Some h \<Rightarrow>
          if successor \<noteq> nid then
            (case handoff_wal_to h successor of
               Some e \<Rightarrow> Some (LeaveFailed (''WAL handoff failed: '' @ e))
             | None \<Rightarrow>
                 (case transfer_segment_shards_to h successor of
                    Some e \<Rightarrow> Some (LeaveFailed (''segment shard transfer failed: '' @ e))
                  | None \<Rightarrow> None))
          else None)"

definition leave ::
  "(NodeId \<Rightarrow> u32 \<Rightarrow> RingPosition) \<Rightarrow> leave_handler option \<Rightarrow> Membership \<Rightarrow> (membership_error, unit) outcome \<times> Membership" where
  "leave hash handler m =
     (if \<not> started m then (Err NotStarted, m)
      else
        let successor = (case successor_of hash (node_id m) (cache_snapshot (ring m)) of
               Some s \<Rightarrow> s | None \<Rightarrow> node_id m);
            v = self_version m + 1;
            leaving = leave_event m v Alive Leaving;
            left = leave_event m v Leaving Left;
            m = m\<lparr>self_version := v, events := events m @ [leaving]\<rparr>
        in case run_handoff handler (node_id m) successor of
             Some e \<Rightarrow> (Err e, m)
           | None \<Rightarrow>
               let snapshot = cache_snapshot (ring m);
                   updated = (case remove_node (node_id m) snapshot of Ok (r, _) \<Rightarrow> r | _ \<Rightarrow> snapshot)
               in (Ok (), m\<lparr>events := events m @ [left], ring := cache_update updated (ring m),
                           ring_version := ring_version m + 1\<rparr>))"

section \<open>Manifests\<close>

definition set_self_manifest :: "(NodeId \<Rightarrow> u32 \<Rightarrow> RingPosition) \<Rightarrow> NodeManifest \<Rightarrow> Membership \<Rightarrow> Membership" where
  "set_self_manifest hash manifest m =
     (let v = self_version m + 1;
          entry = hm_get (nodes (state m)) (node_id m);
          inc = self_incarnation m;
          grpc = (case entry of Some e \<Rightarrow> se_address e | None \<Rightarrow> grpc_address m);
          maddr = (case entry of Some e \<Rightarrow> se_membership_address e | None \<Rightarrow> address m);
          m = m\<lparr>self_version := v, self_manifest := Some manifest\<rparr>;
          m = upsert_node_attributed_inner hash (node_id m) Alive inc (Some grpc) v (node_id m) (Some maddr)
                (Some manifest) m
      in m\<lparr>gossip_tx := map_option (\<lambda>q. q @ [AddNode
             \<lparr>ne_node_id = node_id m, ne_incarnation = inc, ne_state = Alive, ne_address = maddr,
              ne_grpc_address = grpc, ne_version = v, ne_origin = node_id m,
              ne_manifest = Some manifest\<rparr>]) (gossip_tx m)\<rparr>)"

definition set_peer_manifest :: "NodeId \<Rightarrow> NodeManifest \<Rightarrow> Membership \<Rightarrow> Membership" where
  "set_peer_manifest nid manifest m =
     (let tbl = state m;
          entry = (case hm_get (nodes tbl) nid of
             Some e \<Rightarrow> e\<lparr>se_manifest := Some manifest\<rparr>
           | None \<Rightarrow> \<lparr>se_state = Alive, se_incarnation = 1, se_address = grpc_address m,
               se_membership_address = address m, se_version = 1, se_origin = node_id m,
               se_manifest = Some manifest\<rparr>)
      in m\<lparr>state := tbl\<lparr>nodes := hm_insert nid entry (nodes tbl)\<rparr>\<rparr>)"

section \<open>Accessors\<close>

definition nodes_full ::
  "Membership \<Rightarrow> (NodeId \<times> NodeState \<times> Incarnation \<times> SocketAddr \<times> SocketAddr \<times> u64 \<times> NodeId \<times> NodeManifest option) list" where
  "nodes_full m = map (\<lambda>(n, e). (n, se_state e, se_incarnation e, se_address e, se_membership_address e,
     se_version e, se_origin e, se_manifest e)) (nodes (state m))"

definition manifest_of :: "Membership \<Rightarrow> NodeId \<Rightarrow> NodeManifest option" where
  "manifest_of m n = (case hm_get (nodes (state m)) n of None \<Rightarrow> None | Some e \<Rightarrow> se_manifest e)"
definition node_states :: "Membership \<Rightarrow> (NodeId \<times> NodeState) list" where
  "node_states m = map (\<lambda>(n, e). (n, se_state e)) (nodes (state m))"
definition state_of :: "Membership \<Rightarrow> NodeId \<Rightarrow> NodeState option" where
  "state_of m n = map_option se_state (hm_get (nodes (state m)) n)"
definition incarnation_of :: "Membership \<Rightarrow> NodeId \<Rightarrow> Incarnation option" where
  "incarnation_of m n = map_option se_incarnation (hm_get (nodes (state m)) n)"
definition address_of :: "Membership \<Rightarrow> NodeId \<Rightarrow> SocketAddr option" where
  "address_of m n = map_option se_address (hm_get (nodes (state m)) n)"
definition membership_address_of :: "Membership \<Rightarrow> NodeId \<Rightarrow> SocketAddr option" where
  "membership_address_of m n = map_option se_membership_address (hm_get (nodes (state m)) n)"

text \<open>What the sync task feeds to the failure detector every interval.\<close>

definition sync_alive_nodes :: "Membership \<Rightarrow> Membership" where
  "sync_alive_nodes m =
     m\<lparr>detector_tx := map_option (\<lambda>q. q @ [UpdateAliveNodes (map (\<lambda>(n, e).
         (n, se_state e, se_membership_address e, se_incarnation e)) (nodes (state m)))]) (detector_tx m)\<rparr>"

section \<open>The invariant of the table\<close>

definition table_inv :: "NodeId \<Rightarrow> MembershipState \<Rightarrow> bool" where
  "table_inv self_id tbl \<longleftrightarrow> hm_wf (nodes tbl) \<and>
     (\<forall>n e. hm_get (nodes tbl) n = Some e \<longrightarrow>
        hm_get (incarnations tbl) n = Some (se_incarnation e) \<and> se_state e \<noteq> Left \<and>
        (n = self_id \<longrightarrow> se_origin e = self_id))"

definition member_inv :: "Membership \<Rightarrow> bool" where
  "member_inv m \<longleftrightarrow> table_inv (node_id m) (state m)"

lemma table_invD:
  assumes "table_inv s tbl" "hm_get (nodes tbl) n = Some e"
  shows "hm_get (incarnations tbl) n = Some (se_incarnation e)" "se_state e \<noteq> Left" "n = s \<Longrightarrow> se_origin e = s"
  using assms by (auto simp: table_inv_def)

text \<open>
  When a fact outranks the table: nothing recorded, or a higher incarnation, or the same incarnation as a live entry
  with a higher authority class or a newer version of the same class and origin; and only the node itself describes
  itself.
\<close>

definition outranks :: "NodeId \<Rightarrow> MembershipState \<Rightarrow> NodeId \<Rightarrow> NodeState \<Rightarrow> Incarnation \<Rightarrow> u64 \<Rightarrow> NodeId \<Rightarrow> bool" where
  "outranks self_id tbl nid st inc ver org \<longleftrightarrow>
     (nid = self_id \<longrightarrow> org = self_id) \<and>
     (case hm_get (incarnations tbl) nid of
        None \<Rightarrow> True
      | Some p \<Rightarrow> p < inc \<or> p = inc \<and>
          (case hm_get (nodes tbl) nid of
             None \<Rightarrow> False
           | Some l \<Rightarrow> se_state l \<noteq> Dead \<and>
               (let ic = authority_class nid org st self_id;
                    lc = authority_class nid (se_origin l) (se_state l) self_id
                in lc < ic \<or> lc = ic \<and> org = se_origin l \<and> se_version l < ver)))"

lemma gates_outranks:
  assumes "table_inv s tbl"
  shows "upsert_gates s tbl n st i v org = outranks s tbl n st i v org"
proof (cases "hm_get (nodes tbl) n")
  case None
  then show ?thesis
    by (cases "hm_get (incarnations tbl) n") (auto simp: upsert_gates_def outranks_def Let_def)
next
  case (Some e)
  then have r: "hm_get (incarnations tbl) n = Some (se_incarnation e)" "se_state e \<noteq> Left"
    using assms by (auto dest: table_invD)
  show ?thesis
    using r Some
    by (cases "se_state e = Dead") (auto simp: upsert_gates_def outranks_def Let_def not_le)
qed

lemma outranks_fresh: "outranks s tbl n st i v org \<Longrightarrow> hm_get (incarnations tbl) n = Some p \<Longrightarrow> max p i = i"
  by (auto simp: outranks_def max_def)

section \<open>The effect of an upsert on the table\<close>

definition entry_address :: "MembershipState \<Rightarrow> NodeId \<Rightarrow> SocketAddr option \<Rightarrow> SocketAddr option" where
  "entry_address tbl n a = (case a of Some x \<Rightarrow> Some x | None \<Rightarrow> map_option se_address (hm_get (nodes tbl) n))"

lemma upsert_apply_None:
  "upsert_apply tbl n st i a v org ma mf = None \<longleftrightarrow> st \<noteq> Left \<and> st \<noteq> Dead \<and> entry_address tbl n a = None"
  by (auto simp: upsert_apply_def entry_address_def Let_def split: option.splits)

lemma upsert_apply_get:
  assumes "upsert_apply tbl n st i a v org ma mf = Some (tbl', ea)" "outranks s tbl n st i v org"
  shows "hm_get (incarnations tbl') k = (if k = n then Some i else hm_get (incarnations tbl) k)"
    and "k \<noteq> n \<Longrightarrow> hm_get (nodes tbl') k = hm_get (nodes tbl) k"
    and "st = Left \<Longrightarrow> hm_get (nodes tbl') n = None"
    and "st \<noteq> Left \<Longrightarrow> \<exists>e. hm_get (nodes tbl') n = Some e \<and> se_state e = st \<and> se_incarnation e = i \<and>
           se_version e = v \<and> se_origin e = org \<and> se_manifest e = mf"
    and "hm_wf (nodes tbl) \<Longrightarrow> hm_wf (nodes tbl')"
  using assms outranks_fresh [OF assms(2)]
  by (auto simp: upsert_apply_def Let_def split: option.splits if_splits)

lemma upsert_apply_inv:
  assumes "upsert_apply tbl n st i a v org ma mf = Some (tbl', ea)" "outranks s tbl n st i v org" "table_inv s tbl"
  shows "table_inv s tbl'"
proof -
  note * = upsert_apply_get [OF assms(1,2)]
  have "hm_get (incarnations tbl') k = Some (se_incarnation e) \<and> se_state e \<noteq> Left \<and> (k = s \<longrightarrow> se_origin e = s)"
    if "hm_get (nodes tbl') k = Some e" for k e
  proof (cases "k = n")
    case True
    then have "st \<noteq> Left" using that *(3) by auto
    with True that * (1,4) assms(2) show ?thesis by (auto simp: outranks_def)
  next
    case False
    with that *(1,2) assms(3) show ?thesis by (auto dest: table_invD)
  qed
  moreover have "hm_wf (nodes tbl')" using *(5) assms(3) by (simp add: table_inv_def)
  ultimately show ?thesis by (simp add: table_inv_def)
qed

text \<open>A fact that has been applied, or that is beaten, never outranks the table again.\<close>

lemma applied_beaten:
  assumes "upsert_apply tbl n st i a v org ma mf = Some (tbl', ea)" "outranks s tbl n st i v org"
  shows "\<not> outranks s tbl' n st i v org"
proof (cases "st = Left")
  case True
  with upsert_apply_get(1) [OF assms, of n] upsert_apply_get(3) [OF assms] show ?thesis by (simp add: outranks_def)
next
  case False
  with upsert_apply_get(1) [OF assms, of n] upsert_apply_get(4) [OF assms] show ?thesis
    by (auto simp: outranks_def Let_def)
qed

lemma beaten_stays:
  assumes "upsert_apply tbl n' st' i' a' v' org' ma' mf' = Some (tbl', ea)" "outranks s tbl n' st' i' v' org'"
    and "table_inv s tbl" "\<not> outranks s tbl n st i v org"
  shows "\<not> outranks s tbl' n st i v org"
proof (cases "n = n'")
  case False
  then have "hm_get (incarnations tbl') n = hm_get (incarnations tbl) n" "hm_get (nodes tbl') n = hm_get (nodes tbl) n"
    using upsert_apply_get(1,2) [OF assms(1,2), of n] by simp_all
  then have "outranks s tbl' n st i v org = outranks s tbl n st i v org" by (simp only: outranks_def)
  with assms(4) show ?thesis by simp
next
  case True
  note get = upsert_apply_get [OF assms(1,2)]
  show ?thesis
  proof (cases "hm_get (incarnations tbl) n")
    case None
    with assms(4) show ?thesis by (auto simp: outranks_def)
  next
    case (Some p)
    show ?thesis
    proof (cases "st' = Left")
      case left: True
      then have "hm_get (nodes tbl') n = None" "hm_get (incarnations tbl') n = Some i'" using get(1,3) True by auto
      with assms(2,4) Some True show ?thesis by (auto simp: outranks_def)
    next
      case False
      then obtain e where e: "hm_get (nodes tbl') n = Some e" "se_state e = st'" "se_version e = v'" "se_origin e = org'"
        using get(4) True by auto
      have "hm_get (incarnations tbl') n = Some i'" using get(1) True by auto
      with e assms(2,4) Some True show ?thesis
        by (auto simp: outranks_def Let_def split: option.splits)
    qed
  qed
qed

section \<open>Every operation is a sequence of accepted facts\<close>

inductive table_step :: "NodeId \<Rightarrow> MembershipState \<Rightarrow> MembershipState \<Rightarrow> bool" for s where
  apply_fact: "outranks s tbl n st i v org \<Longrightarrow> upsert_apply tbl n st i a v org ma mf = Some (tbl', ea) \<Longrightarrow>
    table_step s tbl tbl'"
| new_manifest: "hm_get (nodes tbl) n = Some e \<Longrightarrow> table_step s tbl (tbl\<lparr>nodes := hm_insert n (e\<lparr>se_manifest := mf\<rparr>) (nodes tbl)\<rparr>)"

inductive_cases table_stepE: "table_step s tbl tbl'"

lemma table_step_inv: "table_step s tbl tbl' \<Longrightarrow> table_inv s tbl \<Longrightarrow> table_inv s tbl'"
  by (erule table_stepE) (blast intro: upsert_apply_inv, auto simp: table_inv_def)

lemma table_steps_inv: "(table_step s)\<^sup>*\<^sup>* tbl tbl' \<Longrightarrow> table_inv s tbl \<Longrightarrow> table_inv s tbl'"
  by (induction rule: rtranclp_induct) (auto intro: table_step_inv)

definition member_moves :: "Membership \<Rightarrow> Membership \<Rightarrow> bool" where
  "member_moves m m' \<longleftrightarrow> node_id m' = node_id m \<and>
     (member_inv m \<longrightarrow> (table_step (node_id m))\<^sup>*\<^sup>* (state m) (state m'))"

lemma member_moves_refl: "node_id m' = node_id m \<Longrightarrow> state m' = state m \<Longrightarrow> member_moves m m'"
  by (simp add: member_moves_def)

lemma member_moves_inv: "member_moves m m' \<Longrightarrow> member_inv m \<Longrightarrow> member_inv m'"
  by (auto simp: member_moves_def member_inv_def intro: table_steps_inv)

lemma member_moves_trans: "member_moves m m' \<Longrightarrow> member_moves m' m'' \<Longrightarrow> member_moves m m''"
  using member_moves_inv [of m m'] by (auto simp: member_moves_def)

lemma upsert_notify_fields [simp]:
  "node_id (upsert_notify hash stored n st i ea v org ma mf m) = node_id m"
  "address (upsert_notify hash stored n st i ea v org ma mf m) = address m"
  "grpc_address (upsert_notify hash stored n st i ea v org ma mf m) = grpc_address m"
  "self_version (upsert_notify hash stored n st i ea v org ma mf m) = self_version m"
  "state (upsert_notify hash stored n st i ea v org ma mf m) = state m"
  by (simp_all add: upsert_notify_def Let_def)

lemma upsert_fields:
  "node_id (upsert_node_attributed_inner hash n st i a v org ma mf m) = node_id m"
  "address (upsert_node_attributed_inner hash n st i a v org ma mf m) = address m"
  "grpc_address (upsert_node_attributed_inner hash n st i a v org ma mf m) = grpc_address m"
  "self_version (upsert_node_attributed_inner hash n st i a v org ma mf m) = self_version m"
  by (auto simp: upsert_node_attributed_inner_def Let_def split: option.splits)

lemma upsert_rejected:
  "\<not> upsert_gates (node_id m) (state m) n st i v org \<Longrightarrow> upsert_node_attributed_inner hash n st i a v org ma mf m = m"
  by (simp add: upsert_node_attributed_inner_def)

lemma upsert_unknown_address:
  assumes "st \<noteq> Left" "st \<noteq> Dead" "entry_address (state m) n a = None"
  shows "upsert_node_attributed_inner hash n st i a v org ma mf m = m"
proof -
  have "upsert_apply (state m) n st i a v org ma mf' = None" for mf'
    using assms by (simp add: upsert_apply_None)
  then show ?thesis by (simp add: upsert_node_attributed_inner_def Let_def)
qed

lemma upsert_accepted:
  assumes "upsert_gates (node_id m) (state m) n st i v org"
    and "st = Left \<or> st = Dead \<or> entry_address (state m) n a \<noteq> None"
  obtains ea mf' where
    "upsert_apply (state m) n st i a v org ma mf' =
       Some (state (upsert_node_attributed_inner hash n st i a v org ma mf m), ea)"
    "mf' = (case mf of Some x \<Rightarrow> Some x | None \<Rightarrow> (case hm_get (nodes (state m)) n of None \<Rightarrow> None | Some e \<Rightarrow> se_manifest e))"
proof -
  let ?mf = "(case mf of Some x \<Rightarrow> Some x | None \<Rightarrow> (case hm_get (nodes (state m)) n of None \<Rightarrow> None | Some e \<Rightarrow> se_manifest e))"
  obtain t ea where t: "upsert_apply (state m) n st i a v org ma ?mf = Some (t, ea)"
    using assms(2) upsert_apply_None [of "state m" n st i a v org ma ?mf]
    by (cases "upsert_apply (state m) n st i a v org ma ?mf") auto
  have "state (upsert_node_attributed_inner hash n st i a v org ma mf m) = t"
    using assms(1) t by (simp add: upsert_node_attributed_inner_def Let_def)
  with t that show thesis by blast
qed

lemma upsert_moves: "member_moves m (upsert_node_attributed_inner hash n st i a v org ma mf m)"
proof (cases "upsert_gates (node_id m) (state m) n st i v org \<and>
    (st = Left \<or> st = Dead \<or> entry_address (state m) n a \<noteq> None)")
  case True
  then obtain ea mf' where ap: "upsert_apply (state m) n st i a v org ma mf' =
      Some (state (upsert_node_attributed_inner hash n st i a v org ma mf m), ea)"
    using upsert_accepted by metis
  have "table_step (node_id m) (state m) (state (upsert_node_attributed_inner hash n st i a v org ma mf m))"
    if "member_inv m"
    using True that ap by (intro apply_fact) (auto simp: gates_outranks member_inv_def)
  then show ?thesis by (auto simp: member_moves_def upsert_fields)
next
  case False
  then have "upsert_node_attributed_inner hash n st i a v org ma mf m = m"
    using upsert_rejected upsert_unknown_address by metis
  then show ?thesis by (simp add: member_moves_refl)
qed

lemma fold_moves: "(\<And>x m. member_moves m (f x m)) \<Longrightarrow> member_moves m (fold f xs m)"
  by (induction xs arbitrary: m) (auto intro: member_moves_trans member_moves_refl)

lemma handle_event_moves: "member_moves m (handle_event hash ev m)"
  by (simp add: handle_event_def upsert_moves)

lemma apply_pulled_moves: "member_moves m (apply_pulled hash parse p m)"
  by (auto simp: apply_pulled_def upsert_moves member_moves_refl split: option.splits)

lemma pull_moves: "member_moves m (snd (pull_membership_from_seeds hash net seeds m))"
  by (induction hash net seeds m rule: pull_membership_from_seeds.induct)
     (auto simp: member_moves_refl intro: fold_moves apply_pulled_moves split: option.splits)

lemma announce_moves: "member_moves m (announce_self hash inc mf m)"
  unfolding announce_self_def Let_def
  by (rule member_moves_trans [OF member_moves_refl upsert_moves]) simp_all

lemma version_moves: "member_moves m m' \<Longrightarrow> member_moves m (m'\<lparr>self_version := v\<rparr>)"
  by (erule member_moves_trans) (simp add: member_moves_refl)

lemma pull_moves_to:
  "pull_membership_from_seeds hash net seeds m = (j, m') \<Longrightarrow> member_moves m m'"
  using pull_moves [of m hash net seeds] by simp

lemma join_moves: "member_moves m (fst (snd (join hash net inc fallback m)))"
proof -
  let ?seeds = "seed_nodes (gossip_config m)"
  obtain j1 m1 where 1: "(if ?seeds = [] then (None, m) else pull_membership_from_seeds hash net ?seeds m) = (j1, m1)"
    by (metis surj_pair)
  obtain j2 m2 where 2: "(if j1 = None \<and> fallback \<noteq> [] then pull_membership_from_seeds hash net fallback m1
      else (j1, m1)) = (j2, m2)" by (metis surj_pair)
  have m1: "member_moves m m1"
    using 1 by (cases "?seeds = []") (auto simp: member_moves_refl dest: pull_moves_to)
  have "member_moves m1 m2"
    using 2 by (cases "j1 = None \<and> fallback \<noteq> []") (auto simp: member_moves_refl dest: pull_moves_to)
  with m1 have m2: "member_moves m m2" by (rule member_moves_trans)
  have a: "member_moves m (announce_self hash inc mf m2)"
    "member_moves m (announce_self hash inc mf (m2\<lparr>self_version := v\<rparr>))" for mf v
    using m2 version_moves announce_moves member_moves_trans by blast+
  have r: "member_moves m m" by (simp add: member_moves_refl)
  show ?thesis
    unfolding join_def Let_def 1 prod.case 2
    using a version_moves [OF m2] m2 announce_moves [of m] r
    by (cases "?seeds = [] \<and> fallback = []"; cases "pool m"; cases j2;
        cases "dial_push net (the j2)"; cases "?seeds = []") simp_all
qed

lemma leave_moves: "member_moves m (snd (leave hash handler m))"
  by (auto simp: leave_def Let_def member_moves_refl split: option.splits outcome.splits)

lemma set_self_manifest_moves: "member_moves m (set_self_manifest hash mf m)"
  unfolding set_self_manifest_def Let_def
  by (rule member_moves_trans [OF member_moves_trans [OF member_moves_refl upsert_moves] member_moves_refl]) simp_all

section \<open>Facts can be delivered again\<close>

definition event_beaten :: "Membership \<Rightarrow> MembershipEvent \<Rightarrow> bool" where
  "event_beaten m ev \<longleftrightarrow> \<not> upsert_gates (node_id m) (state m) (ev_node_id ev) (ev_new_state ev) (ev_incarnation ev)
     (ev_version ev) (ev_origin ev)"

lemma upsert_step_cases:
  assumes "member_inv m"
  obtains (same) "upsert_node_attributed_inner hash n st i a v org ma mf m = m" "\<not> outranks (node_id m) (state m) n st i v org \<or> a = None"
  | (applied) mf' ea where "outranks (node_id m) (state m) n st i v org"
      "upsert_apply (state m) n st i a v org ma mf' = Some (state (upsert_node_attributed_inner hash n st i a v org ma mf m), ea)"
      "member_inv (upsert_node_attributed_inner hash n st i a v org ma mf m)" "node_id (upsert_node_attributed_inner hash n st i a v org ma mf m) = node_id m"
proof (cases "outranks (node_id m) (state m) n st i v org \<and> (st = Left \<or> st = Dead \<or> entry_address (state m) n a \<noteq> None)")
  case True
  then have g: "upsert_gates (node_id m) (state m) n st i v org"
    using assms by (simp add: gates_outranks member_inv_def)
  with True obtain ea mf' where ap: "upsert_apply (state m) n st i a v org ma mf' = Some (state (upsert_node_attributed_inner hash n st i a v org ma mf m), ea)"
    using upsert_accepted by metis
  moreover have "member_inv (upsert_node_attributed_inner hash n st i a v org ma mf m)" using assms upsert_moves member_moves_inv by blast
  ultimately show thesis using True applied upsert_fields(1) by blast
next
  case False
  then have "upsert_node_attributed_inner hash n st i a v org ma mf m = m"
    using assms upsert_rejected upsert_unknown_address by (metis gates_outranks member_inv_def)
  moreover have "\<not> outranks (node_id m) (state m) n st i v org \<or> a = None"
    using False by (cases a) (auto simp: entry_address_def)
  ultimately show thesis by (rule same)
qed

lemma event_beaten_iff:
  "member_inv m \<Longrightarrow> event_beaten m ev \<longleftrightarrow> \<not> outranks (node_id m) (state m) (ev_node_id ev) (ev_new_state ev)
      (ev_incarnation ev) (ev_version ev) (ev_origin ev)"
  by (simp add: event_beaten_def gates_outranks member_inv_def)

lemma handle_event_cases:
  assumes "member_inv m"
  obtains (same) "handle_event hash ev m = m" "event_beaten m ev \<or> ev_address ev = None"
  | (applied) mf' ea where
      "outranks (node_id m) (state m) (ev_node_id ev) (ev_new_state ev) (ev_incarnation ev) (ev_version ev) (ev_origin ev)"
      "upsert_apply (state m) (ev_node_id ev) (ev_new_state ev) (ev_incarnation ev) (ev_address ev) (ev_version ev)
         (ev_origin ev) (ev_membership_address ev) mf' = Some (state (handle_event hash ev m), ea)"
      "member_inv (handle_event hash ev m)" "node_id (handle_event hash ev m) = node_id m"
  unfolding handle_event_def event_beaten_iff [OF assms]
  by (rule upsert_step_cases [OF assms]) blast+

interpretation mem: absorbing_merge "handle_event hash" event_beaten member_inv "\<lambda>ev. ev_address ev \<noteq> None" for hash
proof
  fix m e e' assume inv: "member_inv m"
  show "event_beaten m e \<Longrightarrow> handle_event hash e m = m"
    by (simp add: event_beaten_def handle_event_def upsert_rejected)
  show inv': "member_inv (handle_event hash e m)"
    using handle_event_moves inv member_moves_inv by blast
  show "event_beaten (handle_event hash e m) e" if "ev_address e \<noteq> None"
    by (cases rule: handle_event_cases [OF inv, of hash e])
       (use that inv in \<open>auto simp: event_beaten_iff dest: applied_beaten\<close>)
  show "event_beaten (handle_event hash e' m) e" if "event_beaten m e"
    by (cases rule: handle_event_cases [OF inv, of hash e'])
       (use that inv in \<open>auto simp: event_beaten_iff member_inv_def dest: beaten_stays\<close>)
qed

section \<open>Runs of the coordinator\<close>

text \<open>
  \<^verbatim>\<open>set_peer_manifest\<close> is for tests and observation, and its comments ask that the peer be known; it is a step under that condition only.
\<close>

inductive member_step :: "(NodeId \<Rightarrow> u32 \<Rightarrow> RingPosition) \<Rightarrow> Membership \<Rightarrow> Membership \<Rightarrow> bool" for hash where
  step_start: "member_step hash m (snd (start m))"
| step_set_pool: "member_step hash m (set_pool m)"
| step_event: "member_step hash m (handle_event hash ev m)"
| step_upsert: "member_step hash m (upsert_node hash n st i a m)"
| step_join: "member_step hash m (fst (snd (join hash net inc fallback m)))"
| step_leave: "member_step hash m (snd (leave hash handler m))"
| step_manifest: "member_step hash m (set_self_manifest hash mf m)"
| step_peer_manifest: "hm_get (nodes (state m)) n \<noteq> None \<Longrightarrow> member_step hash m (set_peer_manifest n pmf m)"
| step_sync: "member_step hash m (sync_alive_nodes m)"

lemma peer_manifest_moves: "hm_get (nodes (state m)) n \<noteq> None \<Longrightarrow> member_moves m (set_peer_manifest n mf m)"
  by (auto simp: member_moves_def set_peer_manifest_def Let_def intro!: r_into_rtranclp[of "table_step (node_id m)"] table_step.new_manifest)

lemma member_step_moves: "member_step hash m m' \<Longrightarrow> member_moves m m'"
  by (induction rule: member_step.induct)
     (simp_all add: handle_event_moves join_moves leave_moves set_self_manifest_moves peer_manifest_moves upsert_node_def
       upsert_node_attributed_def upsert_moves, simp_all add: member_moves_refl start_def set_pool_def sync_alive_nodes_def)

lemma member_run_moves: "(member_step hash)\<^sup>*\<^sup>* m m' \<Longrightarrow> member_moves m m'"
  by (induction rule: rtranclp_induct) (auto intro: member_moves_refl member_moves_trans member_step_moves)

lemma member_run_table:
  "(member_step hash)\<^sup>*\<^sup>* m m' \<Longrightarrow> member_inv m \<Longrightarrow> (table_step (node_id m))\<^sup>*\<^sup>* (state m) (state m')"
  using member_run_moves member_moves_def by blast

text \<open>What a fact held at some point says about the table at any later point.\<close>

definition improves :: "NodeId \<Rightarrow> NodeId \<Rightarrow> StoredEntry \<Rightarrow> StoredEntry \<Rightarrow> bool" where
  "improves s n e e' \<longleftrightarrow>
     se_incarnation e < se_incarnation e' \<or>
     se_incarnation e = se_incarnation e' \<and>
     (let c = authority_class n (se_origin e) (se_state e) s;
          c' = authority_class n (se_origin e') (se_state e') s
      in c < c' \<or> c = c' \<and> se_origin e = se_origin e' \<and> se_version e \<le> se_version e')"

lemma improves_refl: "improves s n e e"
  by (simp add: improves_def)

lemma improves_trans: "improves s n e e' \<Longrightarrow> improves s n e' e'' \<Longrightarrow> improves s n e e''"
  by (auto simp: improves_def Let_def)

lemma table_step_improves:
  assumes "table_step s tbl tbl'" "table_inv s tbl" "hm_get (nodes tbl) n = Some e" "hm_get (nodes tbl') n = Some e'"
  shows "improves s n e e'"
  using assms(1)
proof cases
  case (apply_fact k st i v org a ma mf ea)
  note get = upsert_apply_get [OF apply_fact(2,1)]
  show ?thesis
  proof (cases "k = n")
    case True
    with get(3,4) assms(4) have e': "se_state e' = st" "se_incarnation e' = i" "se_version e' = v" "se_origin e' = org"
      by (cases "st = Left"; force)+
    with apply_fact(1) assms(3) table_invD(1) [OF assms(2,3)] True show ?thesis
      by (auto simp: outranks_def improves_def Let_def)
  next
    case False
    with get(2) assms(3,4) show ?thesis by (simp add: improves_refl)
  qed
next
  case (new_manifest k e1 mf)
  with assms(3,4) show ?thesis by (auto simp: improves_def split: if_splits)
qed

lemma table_step_recorded:
  assumes "table_step s tbl tbl'" "hm_get (incarnations tbl) n = Some p"
  shows "\<exists>q \<ge> p. hm_get (incarnations tbl') n = Some q \<and>
    (q = p \<longrightarrow> hm_get (nodes tbl) n = None \<or> map_option se_state (hm_get (nodes tbl) n) = Some Dead \<longrightarrow>
       map_option se_state (hm_get (nodes tbl') n) = map_option se_state (hm_get (nodes tbl) n))"
  using assms(1)
proof cases
  case (apply_fact k st i v org a ma mf ea)
  note get = upsert_apply_get [OF apply_fact(2,1)]
  show ?thesis
  proof (cases "k = n")
    case True
    with get(1) apply_fact(1) assms(2) show ?thesis by (auto simp: outranks_def split: option.splits)
  next
    case False
    with get(1,2) assms(2) show ?thesis by auto
  qed
next
  case (new_manifest k e mf)
  with assms(2) show ?thesis by auto
qed

end
