(* ===== verification/MemberRuns.thy ===== *)
theory MemberRuns
  imports Members
begin

text \<open>
  What the membership coordinator guarantees over its runs: the invariant of its table, that what it believes only
  improves, that stale messages do not revive a node, that redelivered events are absorbed, what \<^verbatim>\<open>join\<close> and \<^verbatim>\<open>leave\<close>
  achieve, and how the ring follows the table.
\<close>

section \<open>Joining and leaving\<close>

lemma upsert_recorded:
  assumes "member_inv m"
  shows "hm_get (incarnations (state (upsert_node_attributed_inner hash n st i a v org ma mf m))) k =
      hm_get (incarnations (state m)) k \<or>
    k = n \<and> hm_get (incarnations (state (upsert_node_attributed_inner hash n st i a v org ma mf m))) k = Some i"
proof (cases rule: upsert_step_cases [OF assms, of hash n st i a v org ma mf])
  case 1
  then show ?thesis by simp
next
  case (2 mf' ea)
  from upsert_apply_get(1) [OF this(2,1), of k] show ?thesis by auto
qed

definition recorded_below :: "NodeId \<Rightarrow> Incarnation \<Rightarrow> Membership \<Rightarrow> bool" where
  "recorded_below n i m \<longleftrightarrow> (case hm_get (incarnations (state m)) n of None \<Rightarrow> True | Some p \<Rightarrow> p < i)"

lemma apply_pulled_below:
  assumes "member_inv m" "recorded_below k i m" "pe_node_id p = Some k \<Longrightarrow> pe_incarnation p < i"
  shows "recorded_below k i (apply_pulled hash parse p m)"
  using assms(2,3) upsert_recorded [OF assms(1), where k = k]
  by (simp add: apply_pulled_def recorded_below_def split: option.splits) (metis option.inject option.distinct(1))+

lemma fold_pulled_below:
  "member_inv m \<Longrightarrow> recorded_below k i m \<Longrightarrow> (\<And>p. p \<in> set ps \<Longrightarrow> pe_node_id p = Some k \<Longrightarrow> pe_incarnation p < i) \<Longrightarrow>
   recorded_below k i (fold (apply_pulled hash parse) ps m)"
proof (induction ps arbitrary: m)
  case (Cons p ps)
  let ?m = "apply_pulled hash parse p m"
  have "recorded_below k i ?m"
    by (rule apply_pulled_below [OF Cons.prems(1,2)]) (rule Cons.prems(3), simp)
  moreover have "member_inv ?m"
    by (rule member_moves_inv [OF apply_pulled_moves Cons.prems(1)])
  ultimately have "recorded_below k i (fold (apply_pulled hash parse) ps ?m)"
    using Cons.prems(3) by (intro Cons.IH) auto
  then show ?case by simp
qed simp

lemma pull_below:
  assumes "member_inv m" "recorded_below k i m" "pull_membership_from_seeds hash net seeds m = (j, m')"
    and "\<And>a ps p. pull_rpc net a = Some ps \<Longrightarrow> p \<in> set ps \<Longrightarrow> pe_node_id p = Some k \<Longrightarrow> pe_incarnation p < i"
  shows "recorded_below k i m'"
  using assms
  by (induction hash net seeds m rule: pull_membership_from_seeds.induct)
     (auto intro: fold_pulled_below split: option.splits)

lemma announce_accepted:
  assumes "member_inv m" "recorded_below (node_id m) i m"
  shows "state_of (announce_self hash i mf m) (node_id m) = Some Alive"
    and "incarnation_of (announce_self hash i mf m) (node_id m) = Some i"
proof -
  let ?m = "m\<lparr>self_version := self_version m + 1\<rparr>"
  have inv: "member_inv ?m" using assms(1) by (simp add: member_inv_def)
  have o: "outranks (node_id m) (state m) (node_id m) Alive i v (node_id m)" for v
    using assms(2) by (auto simp: outranks_def recorded_below_def split: option.splits)
  have "hm_get (nodes (state (announce_self hash i mf m))) (node_id m) \<noteq> None \<and>
    state_of (announce_self hash i mf m) (node_id m) = Some Alive \<and>
    incarnation_of (announce_self hash i mf m) (node_id m) = Some i"
    unfolding announce_self_def Let_def
    by (rule upsert_step_cases [OF inv, where hash = hash and n = "node_id m" and st = Alive and i = i
          and a = "Some (grpc_address m)" and v = "self_version m + 1" and org = "node_id m"
          and ma = "Some (address m)" and mf = mf])
       (use o in \<open>auto simp: state_of_def incarnation_of_def dest!: upsert_apply_get(4)\<close>)
  then show "state_of (announce_self hash i mf m) (node_id m) = Some Alive"
    "incarnation_of (announce_self hash i mf m) (node_id m) = Some i" by auto
qed

lemma pull_node_id: "node_id (snd (pull_membership_from_seeds hash net seeds m)) = node_id m"
  using pull_moves [of m hash net seeds] by (simp add: member_moves_def)

text \<open>No seed reports the node at the given incarnation or above it.\<close>

definition reports_below :: "join_net \<Rightarrow> NodeId \<Rightarrow> Incarnation \<Rightarrow> bool" where
  "reports_below net n i \<longleftrightarrow> (\<forall>a ps. pull_rpc net a = Some ps \<longrightarrow>
     (\<forall>p \<in> set ps. pe_node_id p = Some n \<longrightarrow> pe_incarnation p < i))"

lemma join_below:
  assumes "member_inv m" "recorded_below (node_id m) i m" "reports_below net (node_id m) i"
    and "pull_membership_from_seeds hash net seeds m = (j, m')"
  shows "member_inv m'" "recorded_below (node_id m') i m'" "node_id m' = node_id m"
proof -
  have mv: "member_moves m m'" using assms(4) by (rule pull_moves_to)
  then show "member_inv m'" using assms(1) by (rule member_moves_inv)
  show id: "node_id m' = node_id m" using mv by (simp add: member_moves_def)
  have "recorded_below (node_id m) i m'"
    by (rule pull_below [OF assms(1,2,4)]) (use assms(3) in \<open>auto simp: reports_below_def\<close>)
  with id show "recorded_below (node_id m') i m'" by simp
qed

lemma join_below_if:
  assumes "(if b then pull_membership_from_seeds hash net seeds m else (j0, m)) = (j, m')"
    and "member_inv m" "recorded_below (node_id m) i m" "reports_below net (node_id m) i"
  shows "member_inv m' \<and> recorded_below (node_id m') i m' \<and> node_id m' = node_id m"
  using assms(1) join_below [OF assms(2-4)] assms(2,3) by (cases b) simp_all

lemma announce_after:
  assumes "member_inv m" "recorded_below (node_id m) i m"
  shows "state_of (announce_self hash i mf (m\<lparr>self_version := v\<rparr>)) (node_id m) = Some Alive"
    "incarnation_of (announce_self hash i mf (m\<lparr>self_version := v\<rparr>)) (node_id m) = Some i"
  using announce_accepted [of "m\<lparr>self_version := v\<rparr>" i hash mf] assms
  by (simp_all add: member_inv_def recorded_below_def)

lemma table_steps_recorded:
  assumes "(table_step s)\<^sup>*\<^sup>* tbl tbl'" "hm_get (incarnations tbl) n = Some p"
  shows "\<exists>q \<ge> p. hm_get (incarnations tbl') n = Some q \<and>
    (q = p \<longrightarrow> hm_get (nodes tbl) n = None \<or> map_option se_state (hm_get (nodes tbl) n) = Some Dead \<longrightarrow>
       map_option se_state (hm_get (nodes tbl') n) = map_option se_state (hm_get (nodes tbl) n))"
  using assms
proof (induction rule: rtranclp_induct)
  case (step y z)
  then obtain q where q: "q \<ge> p" "hm_get (incarnations y) n = Some q"
    "q = p \<longrightarrow> hm_get (nodes tbl) n = None \<or> map_option se_state (hm_get (nodes tbl) n) = Some Dead \<longrightarrow>
       map_option se_state (hm_get (nodes y) n) = map_option se_state (hm_get (nodes tbl) n)" by auto
  obtain r where r: "r \<ge> q" "hm_get (incarnations z) n = Some r"
    "r = q \<longrightarrow> hm_get (nodes y) n = None \<or> map_option se_state (hm_get (nodes y) n) = Some Dead \<longrightarrow>
       map_option se_state (hm_get (nodes z) n) = map_option se_state (hm_get (nodes y) n)"
    using table_step_recorded [OF step.hyps(2) q(2)] by blast
  have "q = p" if "r = p" using q(1) r(1) that by simp
  moreover have "r \<ge> p" using q(1) r(1) by simp
  ultimately show ?case using q(3) r(2,3) by auto
qed auto

lemma table_steps_improve:
  assumes "(table_step s)\<^sup>*\<^sup>* tbl tbl'" "table_inv s tbl" "hm_get (nodes tbl) n = Some e" "hm_get (nodes tbl') n = Some e'"
  shows "improves s n e e'"
  using assms
proof (induction arbitrary: e' rule: rtranclp_induct)
  case base
  then show ?case by (simp add: improves_refl)
next
  case (step y z)
  have inv: "table_inv s y" using step.hyps(1) step.prems(1) by (rule table_steps_inv)
  show ?case
  proof (cases "hm_get (nodes y) n")
    case (Some e1)
    show ?thesis
      using step.IH [OF step.prems(1,2) Some] table_step_improves [OF step.hyps(2) inv Some step.prems(3)]
      by (rule improves_trans)
  next
    case None
    obtain q where q: "q \<ge> se_incarnation e" "hm_get (incarnations y) n = Some q"
      using table_steps_recorded [OF step.hyps(1) table_invD(1) [OF step.prems(1,2)]] by auto
    obtain r where r: "r \<ge> q" "hm_get (incarnations z) n = Some r" "r \<noteq> q"
      using table_step_recorded [OF step.hyps(2) q(2)] None step.prems(3) by auto
    have "table_inv s z" using step.hyps(2) inv by (rule table_step_inv)
    with r(2) step.prems(3) have "se_incarnation e' = r" by (auto dest: table_invD)
    moreover have "se_incarnation e < r" using q(1) r(1,3) by (metis order.strict_iff_order order_le_less_trans)
    ultimately show ?thesis by (simp add: improves_def)
  qed
qed

section \<open>The ring follows the table\<close>

definition table_in_ring :: "Membership \<Rightarrow> bool" where
  "table_in_ring m \<longleftrightarrow> (\<forall>n. hm_get (nodes (state m)) n \<noteq> None \<longrightarrow> n \<in> set (node_ids (inner (ring m))))"

lemma node_ids_upsert_ring:
  "set (node_ids (inner (upsert_ring hash is_new n st rc))) \<supseteq>
     (if is_new then insert n (set (node_ids (inner rc)))
      else if st = Left then set (node_ids (inner rc)) - {n} else set (node_ids (inner rc)))"
  by (auto simp: upsert_ring_def Let_def cache_update_def cache_snapshot_def add_node_def remove_node_def)

lemma ring_upsert_notify:
  "ring (upsert_notify hash stored n st i ea v org ma mf m) = upsert_ring hash (stored = None) n st (ring m)"
  by (simp add: upsert_notify_def Let_def)

lemma upsert_table_in_ring:
  assumes "member_inv m" "table_in_ring m"
  shows "table_in_ring (upsert_node_attributed_inner hash n st i a v org ma mf m)" (is "table_in_ring ?m'")
proof (cases rule: upsert_step_cases [OF assms(1), of hash n st i a v org ma mf])
  case 1
  with assms(2) show ?thesis by simp
next
  case (2 mf' ea)
  let ?st = "hm_get (nodes (state m)) n"
  have g: "upsert_gates (node_id m) (state m) n st i v org"
    using 2(1) assms(1) by (simp add: gates_outranks member_inv_def)
  let ?mf = "(case mf of Some x \<Rightarrow> Some x | None \<Rightarrow> (case ?st of None \<Rightarrow> None | Some e \<Rightarrow> se_manifest e))"
  have "upsert_apply (state m) n st i a v org ma ?mf \<noteq> None"
    using 2(2) upsert_apply_None [of "state m" n st i a v org ma] by (metis option.distinct(1))
  then obtain t x where "upsert_apply (state m) n st i a v org ma ?mf = Some (t, x)" by auto
  then have r: "ring ?m' = (if ?st = None \<or> map_option se_state ?st \<noteq> Some st
      then upsert_ring hash (?st = None) n st (ring m) else ring m)"
    using g by (auto simp: upsert_node_attributed_inner_def Let_def ring_upsert_notify)
  note get = upsert_apply_get(2,3) [OF 2(2,1)]
  have "k \<in> set (node_ids (inner (ring ?m')))" if k: "hm_get (nodes (state ?m')) k \<noteq> None" for k
  proof (cases "k = n")
    case True
    with k get(2) have "st \<noteq> Left" by auto
    with True r assms(2) node_ids_upsert_ring [where hash = hash and is_new = "?st = None" and n = n and st = st and rc = "ring m"]
    show ?thesis by (cases ?st) (auto simp: table_in_ring_def)
  next
    case False
    with k get(1) assms(2) have "k \<in> set (node_ids (inner (ring m)))" by (auto simp: table_in_ring_def)
    with False r node_ids_upsert_ring [where hash = hash and is_new = "?st = None" and n = n and st = st and rc = "ring m"] show ?thesis
      by (auto split: if_splits)
  qed
  then show ?thesis by (simp add: table_in_ring_def)
qed

lemma fold_table_in_ring:
  "member_inv m \<Longrightarrow> table_in_ring m \<Longrightarrow> table_in_ring (fold (handle_event hash) es m)"
proof (induction es arbitrary: m)
  case (Cons ev es)
  have "member_inv (handle_event hash ev m)" using Cons.prems(1) by (rule mem.wf_step)
  moreover have "table_in_ring (handle_event hash ev m)"
    unfolding handle_event_def using Cons.prems by (rule upsert_table_in_ring)
  ultimately show ?case using Cons.IH by simp
qed simp

section \<open>Announcements of a node about itself\<close>

lemma self_upsert_accepted:
  assumes "member_inv m" "hm_get (nodes (state m)) (node_id m) = Some e" "se_state e \<noteq> Dead" "se_version e < v"
    and "st \<noteq> Left" "i = se_incarnation e"
  shows "\<exists>e'. hm_get (nodes (state (upsert_node_attributed_inner hash (node_id m) st i (Some a) v (node_id m) ma mf m)))
      (node_id m) = Some e' \<and> se_state e' = st \<and> se_version e' = v \<and> se_origin e' = node_id m \<and> se_incarnation e' = i"
proof -
  have o: "outranks (node_id m) (state m) (node_id m) st i v (node_id m)"
    using assms table_invD [of "node_id m" "state m" "node_id m" e]
    by (auto simp: outranks_def authority_class_self member_inv_def)
  show ?thesis
  proof (cases rule: upsert_step_cases [OF assms(1), of hash "node_id m" st i "Some a" v "node_id m" ma mf])
    case 1
    with o show ?thesis by simp
  next
    case (2 mf' ea)
    from upsert_apply_get(4) [OF 2(2) o assms(5)] show ?thesis by auto
  qed
qed

lemma self_incarnation_entry:
  "member_inv m \<Longrightarrow> hm_get (nodes (state m)) (node_id m) = Some e \<Longrightarrow> self_incarnation m = se_incarnation e"
  by (auto simp: self_incarnation_def member_inv_def dest: table_invD)

lemma leave_event_fields [simp]:
  "ev_node_id (leave_event m v old new) = node_id m" "ev_new_state (leave_event m v old new) = new"
  "ev_incarnation (leave_event m v old new) = self_incarnation m" "ev_version (leave_event m v old new) = v"
  "ev_origin (leave_event m v old new) = node_id m" "ev_address (leave_event m v old new) = Some (address m)"
  "ev_membership_address (leave_event m v old new) = Some (address m)" "ev_manifest (leave_event m v old new) = None"
  by (simp_all add: leave_event_def)

lemma leave_effect:
  assumes "fst (leave hash handler m) = Ok ()" "events m = []"
  shows "state (snd (leave hash handler m)) = state m" "node_id (snd (leave hash handler m)) = node_id m"
    "events (snd (leave hash handler m)) =
       [leave_event m (self_version m + 1) Alive Leaving, leave_event m (self_version m + 1) Leaving Left]"
  using assms by (auto simp: leave_def Let_def split: if_splits option.splits)

text \<open>A manifest update announces the node as alive, also when it is leaving.\<close>

lemma manifest_revives_leaver:
  assumes "member_inv m" "hm_get (nodes (state m)) (node_id m) = Some e" "se_state e = Leaving"
    and "se_version e < self_version m + 1"
  shows "state_of (set_self_manifest hash mf m) (node_id m) = Some Alive"
proof -
  let ?m = "m\<lparr>self_version := self_version m + 1, self_manifest := Some mf\<rparr>"
  have inv: "member_inv ?m" using assms(1) by (simp add: member_inv_def)
  have e: "hm_get (nodes (state ?m)) (node_id ?m) = Some e" using assms(2) by simp
  have i: "self_incarnation m = se_incarnation e" by (rule self_incarnation_entry [OF assms(1,2)])
  from self_upsert_accepted [OF inv e, of "self_version m + 1" Alive "se_incarnation e" hash "se_address e"
      "Some (se_membership_address e)" "Some mf"] assms(2-4) i
  show ?thesis by (auto simp: set_self_manifest_def Let_def state_of_def)
qed

section \<open>Properties\<close>

definition demo_hash :: "NodeId \<Rightarrow> u32 \<Rightarrow> RingPosition" where "demo_hash n i = str_bytes n"

definition demo_member :: Membership where
  "demo_member = Membership_new ''a'' (V4 10 0 0 1 9000) (V4 10 0 0 1 9001) GossipConfig_default
     (RingCache_new (Ring_new \<lparr>vnodes_per_node = 1, replication_factor = 3\<rparr>))"

definition demo_event :: "NodeId \<Rightarrow> NodeState \<Rightarrow> Incarnation \<Rightarrow> u64 \<Rightarrow> NodeId \<Rightarrow> MembershipEvent" where
  "demo_event n st i v org = \<lparr>ev_node_id = n, ev_old_state = Alive, ev_new_state = st, ev_incarnation = i,
     ev_address = Some (V4 10 0 0 2 9001), ev_version = v, ev_origin = org,
     ev_membership_address = Some (V4 10 0 0 2 9000), ev_manifest = None\<rparr>"

lemmas demo_simps = demo_hash_def demo_member_def demo_event_def Membership_new_def MembershipState_new_def
  GossipConfig_default_def RingCache_new_def Ring_new_def handle_event_def upsert_node_attributed_inner_def upsert_gates_def
  upsert_apply_def upsert_notify_def upsert_ring_def cache_update_def cache_snapshot_def add_node_def
  vnode_positions_def str_bytes_def authority_class_def hm_get_def hm_insert_def hm_remove_def Let_def

lemma demo_inv: "member_inv demo_member"
  by (simp add: member_inv_def table_inv_def demo_simps hm_wf_def)

text \<open>
  Why a peer has to be known before a manifest is attached to it: for a node that was removed, \<^verbatim>\<open>set_peer_manifest\<close> makes a live entry at
  incarnation 1, whatever incarnation is recorded for the node.
\<close>

lemma peer_manifest_revives_removed:
  "hm_get (nodes (state m)) n = None \<Longrightarrow> hm_get (incarnations (state m)) n = Some p \<Longrightarrow>
   state_of (set_peer_manifest n mf m) n = Some Alive \<and> incarnation_of (set_peer_manifest n mf m) n = Some 1 \<and>
   hm_get (incarnations (state (set_peer_manifest n mf m))) n = Some p"
  by (simp add: set_peer_manifest_def state_of_def incarnation_of_def Let_def)

text \<open>
  C18: in every state the coordinator can reach by its operations (with \<^verbatim>\<open>set_peer_manifest\<close> used on nodes of the table only, as its
  comments ask), the recorded incarnation of a known node is the one of its entry, no entry is \<^verbatim>\<open>Left\<close>, and the node's entry about itself was made by itself: no other node can declare it
  suspect or dead in its own table.
\<close>

theorem membership_invariant:
  assumes "(member_step hash)\<^sup>*\<^sup>* (Membership_new nid addr grpc cfg rc) m"
  shows "node_id m = nid \<and>
    (\<forall>n e. hm_get (nodes (state m)) n = Some e \<longrightarrow>
       hm_get (incarnations (state m)) n = Some (se_incarnation e) \<and> se_state e \<noteq> Left \<and>
       (n = nid \<longrightarrow> se_origin e = nid))"
proof -
  let ?m0 = "Membership_new nid addr grpc cfg rc"
  have "member_inv ?m0" by (simp add: member_inv_def table_inv_def Membership_new_def MembershipState_new_def)
  then have "member_inv m" by (rule member_moves_inv [OF member_run_moves [OF assms]])
  moreover have "node_id m = nid"
    using member_run_moves [OF assms] by (simp add: member_moves_def Membership_new_def)
  ultimately show ?thesis by (auto simp: member_inv_def dest: table_invD)
qed

theorem membership_invariant_witness:
  "hm_get (incarnations (state (handle_event demo_hash (demo_event ''b'' Suspect 3 1 ''a'') demo_member))) ''b'' = Some 3"
proof -
  let ?m = "handle_event demo_hash (demo_event ''b'' Suspect 3 1 ''a'') demo_member"
  have "(member_step demo_hash)\<^sup>*\<^sup>* demo_member ?m"
    by (intro r_into_rtranclp step_event)
  note * = membership_invariant [OF this [unfolded demo_member_def], folded demo_member_def]
  have "\<exists>e. hm_get (nodes (state ?m)) ''b'' = Some e \<and> se_incarnation e = 3"
    by (simp add: demo_simps)
  with * show ?thesis by fastforce
qed

text \<open>
  C15: whatever the coordinator does (with \<^verbatim>\<open>set_peer_manifest\<close> used on nodes of the table only), what it believes about a node never
  gets worse: a later entry about the same node has a higher incarnation, or the same incarnation and a higher authority class, or
  the same incarnation, class and origin and a version that is at least as high.
\<close>

theorem facts_only_improve:
  assumes "member_inv m" "(member_step hash)\<^sup>*\<^sup>* m m'"
    and "hm_get (nodes (state m)) n = Some e" "hm_get (nodes (state m')) n = Some e'"
  shows "improves (node_id m) n e e'"
  using table_steps_improve [OF member_run_table [OF assms(2,1)] _ assms(3,4)] assms(1)
  by (simp add: member_inv_def)

theorem facts_only_improve_witness:
  "\<exists>e e'. hm_get (nodes (state (handle_event demo_hash (demo_event ''b'' Alive 3 1 ''b'') demo_member))) ''b'' = Some e \<and>
     hm_get (nodes (state (handle_event demo_hash (demo_event ''b'' Suspect 3 1 ''c'')
       (handle_event demo_hash (demo_event ''b'' Alive 3 1 ''b'') demo_member)))) ''b'' = Some e' \<and>
     improves ''a'' ''b'' e e' \<and> \<not> improves ''a'' ''b'' e' e"
proof -
  let ?m = "handle_event demo_hash (demo_event ''b'' Alive 3 1 ''b'') demo_member"
  let ?m' = "handle_event demo_hash (demo_event ''b'' Suspect 3 1 ''c'') ?m"
  have m: "member_inv ?m" using demo_inv mem.wf_step by blast
  have s: "(member_step demo_hash)\<^sup>*\<^sup>* ?m ?m'" by (intro r_into_rtranclp step_event)
  obtain e e' where e: "hm_get (nodes (state ?m)) ''b'' = Some e" "hm_get (nodes (state ?m')) ''b'' = Some e'"
    "se_state e = Alive" "se_origin e = ''b''" "se_incarnation e = 3"
    "se_state e' = Suspect" "se_origin e' = ''c''" "se_incarnation e' = 3"
    by (simp add: demo_simps)
  have "node_id ?m = ''a''" by (simp add: demo_simps)
  with facts_only_improve [OF m s e(1,2)] e show ?thesis
    by (auto simp: improves_def authority_class_def)
qed

text \<open>
  C16: a node that is recorded dead, or was removed, at some incarnation is never believed to be anything else again
  through messages of that incarnation or an older one: once it is back, its incarnation is strictly higher.  This holds as long as
  \<^verbatim>\<open>set_peer_manifest\<close> is used on nodes of the table only.
\<close>

theorem no_stale_revival:
  assumes "member_inv m" "(member_step hash)\<^sup>*\<^sup>* m m'"
    and "hm_get (incarnations (state m)) n = Some p" "state_of m n = None \<or> state_of m n = Some Dead"
    and "state_of m' n = Some st" "st \<noteq> Dead"
  shows "\<exists>q > p. incarnation_of m' n = Some q"
proof -
  have inv: "member_inv m'" using member_run_moves [OF assms(2)] assms(1) by (rule member_moves_inv)
  obtain q where q: "q \<ge> p" "hm_get (incarnations (state m')) n = Some q"
    "q = p \<longrightarrow> state_of m' n = state_of m n"
    using table_steps_recorded [OF member_run_table [OF assms(2,1)] assms(3)] assms(4)
    by (auto simp: state_of_def)
  then have "q \<noteq> p" using assms(4-6) by (auto simp: state_of_def)
  moreover obtain e where "hm_get (nodes (state m')) n = Some e" using assms(5) by (auto simp: state_of_def)
  with inv q(2) have "incarnation_of m' n = Some q" by (auto simp: incarnation_of_def member_inv_def dest: table_invD)
  ultimately show ?thesis using q(1) by (auto simp: order.strict_iff_order)
qed

theorem no_stale_revival_witness:
  "\<exists>q > 3. incarnation_of (handle_event demo_hash (demo_event ''b'' Alive 4 1 ''b'')
     (handle_event demo_hash (demo_event ''b'' Dead 3 1 ''a'') demo_member)) ''b'' = Some q"
proof (rule no_stale_revival [where st = Alive])
  show "member_inv (handle_event demo_hash (demo_event ''b'' Dead 3 1 ''a'') demo_member)"
    using demo_inv mem.wf_step by blast
  show "(member_step demo_hash)\<^sup>*\<^sup>* (handle_event demo_hash (demo_event ''b'' Dead 3 1 ''a'') demo_member)
    (handle_event demo_hash (demo_event ''b'' Alive 4 1 ''b'')
       (handle_event demo_hash (demo_event ''b'' Dead 3 1 ''a'') demo_member))"
    by (intro r_into_rtranclp step_event)
qed (simp_all add: state_of_def demo_simps)

text \<open>
  C17: events that carry an address may be delivered again, any number of times and in any order: once a sequence of such events has
  been handled, handling any of them again changes nothing at all, neither the table nor the ring nor what is sent to the other
  tasks.  Events of the failure detector carry no address and are not covered: a suspicion about an unknown node is ignored, and
  accepted when it is repeated once the node is known.
\<close>

theorem redelivered_events_absorbed:
  assumes "member_inv m" "\<forall>e \<in> set es. ev_address e \<noteq> None" "set ds \<subseteq> set es"
  shows "fold (handle_event hash) ds (fold (handle_event hash) es m) = fold (handle_event hash) es m"
  using assms by (rule mem.fold_absorbs)

theorem redelivered_events_absorbed_witness:
  "fold (handle_event demo_hash) [demo_event ''b'' Alive 3 1 ''b'', demo_event ''b'' Alive 3 1 ''b'']
     (fold (handle_event demo_hash) [demo_event ''b'' Alive 3 1 ''b'', demo_event ''b'' Suspect 3 1 ''a''] demo_member) =
   fold (handle_event demo_hash) [demo_event ''b'' Alive 3 1 ''b'', demo_event ''b'' Suspect 3 1 ''a''] demo_member"
  by (rule redelivered_events_absorbed [OF demo_inv]) (simp_all add: demo_event_def)

text \<open>
  A successful \<^verbatim>\<open>join\<close> announces the node: if the incarnation it joins with is above the one recorded for it and above
  every incarnation a seed reports for it, then afterwards the node's own table holds it as alive at that incarnation.
\<close>

theorem join_announces:
  assumes "member_inv m" "recorded_below (node_id m) inc m"
    and "reports_below net (node_id m) inc" "join hash net inc fallback m = (Ok (), m', sent)"
  shows "state_of m' (node_id m) = Some Alive \<and> incarnation_of m' (node_id m) = Some inc"
proof -
  let ?seeds = "seed_nodes (gossip_config m)"
  obtain j1 m1 where 1: "(if ?seeds = [] then (None, m) else pull_membership_from_seeds hash net ?seeds m) = (j1, m1)"
    by (metis surj_pair)
  obtain j2 m2 where 2: "(if j1 = None \<and> fallback \<noteq> [] then pull_membership_from_seeds hash net fallback m1
      else (j1, m1)) = (j2, m2)" by (metis surj_pair)
  have "(if ?seeds \<noteq> [] then pull_membership_from_seeds hash net ?seeds m else (None, m)) = (j1, m1)" using 1 by (auto split: if_splits)
  from join_below_if [OF this assms(1-3)]
  have m1: "member_inv m1" "recorded_below (node_id m1) inc m1" "node_id m1 = node_id m" by blast+
  have "reports_below net (node_id m1) inc" using m1(3) assms(3) by simp
  from join_below_if [OF 2 m1(1,2) this] m1(3)
  have m2: "member_inv m2" "recorded_below (node_id m2) inc m2" "node_id m2 = node_id m" by (blast, blast, simp)
  have "\<exists>v mf. m' = announce_self hash inc mf (m2\<lparr>self_version := v\<rparr>) \<or> m' = announce_self hash inc mf m2 \<or>
    m' = announce_self hash inc mf m"
    using assms(4) unfolding join_def Let_def 1 prod.case 2
    by (auto split: if_splits option.splits)
  then show ?thesis
    using announce_after [OF m2(1,2)] announce_accepted [OF m2(1,2)] announce_accepted [OF assms(1,2)] m2(3) by auto
qed

definition demo_net :: join_net where
  "demo_net = \<lparr>parse_addr = (\<lambda>_. Some (V4 10 0 0 2 9000)), show_addr = (\<lambda>_. []), dial = (\<lambda>_. None),
     pull_rpc = (\<lambda>_. Some [\<lparr>pe_node_id = Some ''a'', pe_state = 0, pe_incarnation = 4, pe_address = [],
       pe_version = 9, pe_origin = ''a'', pe_grpc_address = [], pe_manifest = None\<rparr>]), dial_push = (\<lambda>_. None)\<rparr>"

theorem join_announces_witness:
  "\<exists>m' sent. join demo_hash demo_net 5 [''seed''] (demo_member\<lparr>pool := True\<rparr>) = (Ok (), m', sent) \<and>
     state_of m' ''a'' = Some Alive \<and> incarnation_of m' ''a'' = Some 5"
proof -
  let ?m = "demo_member\<lparr>pool := True\<rparr>"
  obtain m' sent where j: "join demo_hash demo_net 5 [''seed''] ?m = (Ok (), m', sent)"
    by (simp add: join_def demo_net_def demo_member_def Membership_new_def GossipConfig_default_def Let_def)
  have inv: "member_inv ?m" using demo_inv by (simp add: member_inv_def)
  have r: "recorded_below (node_id ?m) 5 ?m" by (simp add: recorded_below_def demo_simps)
  have l: "reports_below demo_net (node_id ?m) 5" by (simp add: reports_below_def demo_net_def)
  have "node_id ?m = ''a''" by (simp add: demo_simps)
  with join_announces [OF inv r l j] j show ?thesis by simp
qed

text \<open>
  A graceful leave never reaches \<^verbatim>\<open>Left\<close> in the table.  \<^verbatim>\<open>leave\<close> sends the \<^verbatim>\<open>Leaving\<close> and the \<^verbatim>\<open>Left\<close> event with the same
  version, so after both have been handled the version gate has dropped the second and the node still holds itself, and
  announces itself, as leaving.
\<close>

theorem leave_stays_leaving:
  assumes "member_inv m" "events m = []" "hm_get (nodes (state m)) (node_id m) = Some e" "se_state e \<noteq> Dead"
    and "se_version e < self_version m + 1" "fst (leave hash handler m) = Ok ()"
  shows "state_of (fold (handle_event hash) (events (snd (leave hash handler m))) (snd (leave hash handler m))) (node_id m)
    = Some Leaving"
proof -
  let ?m = "snd (leave hash handler m)" and ?v = "self_version m + 1"
  note le = leave_effect [OF assms(6,2)]
  let ?m1 = "handle_event hash (leave_event m ?v Alive Leaving) ?m"
  have inv: "member_inv ?m" using assms(1) le by (simp add: member_inv_def)
  have i: "self_incarnation m = se_incarnation e" by (rule self_incarnation_entry [OF assms(1,3)])
  obtain e' where e': "hm_get (nodes (state ?m1)) (node_id m) = Some e'" "se_state e' = Leaving" "se_version e' = ?v"
    "se_origin e' = node_id m" "se_incarnation e' = se_incarnation e"
    using self_upsert_accepted [OF inv, of e ?v Leaving "se_incarnation e" hash "address m" "Some (address m)" None]
      assms(3-5) le(1,2) i
    by (auto simp: handle_event_def)
  have inv1: "member_inv ?m1" using inv by (rule mem.wf_step)
  have "node_id ?m1 = node_id m" using le(2) by (simp add: handle_event_def upsert_fields)
  then have "event_beaten ?m1 (leave_event m ?v Leaving Left)"
    using e' i table_invD(1) [OF inv1 [unfolded member_inv_def], of "node_id m" e']
    by (simp add: event_beaten_iff [OF inv1] outranks_def authority_class_self)
  then have "handle_event hash (leave_event m ?v Leaving Left) ?m1 = ?m1" by (rule mem.beaten_noop [OF inv1])
  with e' show ?thesis by (simp add: le(3) state_of_def)
qed

theorem leave_stays_leaving_witness:
  "let m = snd (start (announce_self demo_hash 1 None demo_member))\<lparr>events := []\<rparr>; m' = snd (leave demo_hash None m)
   in fst (leave demo_hash None m) = Ok () \<and> state_of (fold (handle_event demo_hash) (events m') m') ''a'' = Some Leaving"
proof -
  let ?m = "snd (start (announce_self demo_hash 1 None demo_member))\<lparr>events := []\<rparr>"
  have inv: "member_inv ?m"
    using member_moves_inv [OF announce_moves demo_inv, of demo_hash 1 None] by (simp add: member_inv_def start_def)
  obtain e where e: "hm_get (nodes (state ?m)) ''a'' = Some e" "se_state e = Alive" "se_version e = 1"
    "self_version ?m = 1" "started ?m" "node_id ?m = ''a''"
    by (simp add: start_def announce_self_def demo_simps)
  have ok: "fst (leave demo_hash None ?m) = Ok ()"
    using e(5) by (simp add: leave_def Let_def run_handoff_def)
  from leave_stays_leaving [OF inv _ _ _ _ ok, of e] e ok show ?thesis by (simp add: Let_def)
qed

text \<open>
  Along any sequence of events every node of the table keeps its virtual positions in the ring's member list, so the
  replica sets are computed over all known nodes, dead ones included.
\<close>

theorem table_stays_in_ring:
  assumes "member_inv m" "table_in_ring m"
  shows "table_in_ring (fold (handle_event hash) es m)"
  using assms by (rule fold_table_in_ring)

theorem table_stays_in_ring_witness:
  "table_in_ring (fold (handle_event demo_hash) [demo_event ''b'' Alive 3 1 ''b'', demo_event ''b'' Dead 3 1 ''a''] demo_member)"
  by (rule table_stays_in_ring [OF demo_inv]) (simp add: table_in_ring_def demo_simps)

text \<open>
  The converse fails: a \<^verbatim>\<open>Left\<close> event about a node the table has never seen adds that node to the ring although it is
  not added to the table.
\<close>

theorem left_of_unknown_enters_ring:
  assumes "hm_get (nodes (state m)) n = None" "hm_get (incarnations (state m)) n = None" "n \<noteq> node_id m"
    and "ev_node_id ev = n" "ev_new_state ev = Left"
  shows "state_of (handle_event hash ev m) n = None \<and> n \<in> set (node_ids (inner (ring (handle_event hash ev m))))"
  using assms
  by (auto simp: handle_event_def upsert_node_attributed_inner_def upsert_gates_def upsert_apply_def upsert_notify_def
      upsert_ring_def cache_update_def cache_snapshot_def add_node_def Let_def state_of_def split: option.splits)

theorem left_of_unknown_enters_ring_witness:
  "''z'' \<in> set (node_ids (inner (ring (handle_event demo_hash (demo_event ''z'' Left 2 7 ''z'') demo_member))))"
  using left_of_unknown_enters_ring [of demo_member "''z''" "demo_event ''z'' Left 2 7 ''z''" demo_hash]
  by (simp add: demo_simps)

end
