(* ===== verification/Gossip.thy ===== *)
theory Gossip
  imports MemberRuns
begin

text \<open>
  Dissemination of membership facts: the gossip protocol task (\<^verbatim>\<open>oceanfs-membership/src/gossip.rs\<close>) and the gossip service
  that answers its pushes and pulls (\<^verbatim>\<open>grpc/gossip_service.rs\<close>).  Events, pushes and commands are appended to lists; the
  remote side of a push is a message handed to the service of another node.
\<close>

section \<open>The protocol state\<close>

record GossipMessage =
  gm_delta :: "MembershipEntry list option"
  gm_vector :: version_vector

record GossipAck =
  ga_accepted :: bool
  ga_updated_entries :: u32
  ga_delta :: "MembershipEntry list option"
  ga_vector :: version_vector

record GossipProtocol =
  g_nodes :: "(NodeId \<times> NodeEntry) list"
  ring_json :: "string option"
  g_incarnations :: "(NodeId \<times> Incarnation) list"
  membership_events :: "MembershipEvent list"
  g_pool :: bool
  gossip_interval_ms :: u64
  g_fanout_k :: u8
  g_node_id :: NodeId
  messages_sent :: u64
  messages_received :: u64
  watermarks :: "(NodeId \<times> version_vector) list"
  pushes :: "(SocketAddr \<times> GossipMessage) list"

definition GossipProtocol_new :: "u64 \<Rightarrow> NodeId \<Rightarrow> u8 \<Rightarrow> GossipProtocol" where
  "GossipProtocol_new interval nid k =
     \<lparr>g_nodes = [], ring_json = None, g_incarnations = [], membership_events = [], g_pool = False,
      gossip_interval_ms = interval, g_fanout_k = k, g_node_id = nid, messages_sent = 0, messages_received = 0,
      watermarks = [], pushes = []\<rparr>"

section \<open>Merging\<close>

text \<open>The conditions under which the merge loop skips an entry.\<close>

definition merge_skips :: "GossipProtocol \<Rightarrow> NodeEntry \<Rightarrow> bool" where
  "merge_skips g e =
     (let current = (case hm_get (g_incarnations g) (ne_node_id e) of None \<Rightarrow> 0 | Some i \<Rightarrow> i);
          local_entry = hm_get (g_nodes g) (ne_node_id e)
      in if ne_incarnation e < current then True
         else if ne_incarnation e = current then
           (case local_entry of
              None \<Rightarrow> current > 0
            | Some l \<Rightarrow>
                let incoming_class = authority_class (ne_node_id e) (ne_origin e) (ne_state e) (g_node_id g);
                    local_class = authority_class (ne_node_id e) (ne_origin l) (ne_state l) (g_node_id g)
                in if incoming_class < local_class then True
                   else if incoming_class = local_class then
                     if ne_origin e = ne_origin l then ne_version e \<le> ne_version l else True
                   else False)
         else False)"

definition merge_accept :: "NodeEntry \<Rightarrow> GossipProtocol \<Rightarrow> GossipProtocol" where
  "merge_accept e g =
     (let local_entry = hm_get (g_nodes g) (ne_node_id e);
          old_state = (case local_entry of None \<Rightarrow> Alive | Some l \<Rightarrow> ne_state l);
          accepted = (if ne_manifest e = None
             then e\<lparr>ne_manifest := (case local_entry of None \<Rightarrow> None | Some l \<Rightarrow> ne_manifest l)\<rparr> else e);
          changed = (old_state \<noteq> ne_state e \<or> local_entry = None \<or>
             (case local_entry of None \<Rightarrow> False
              | Some l \<Rightarrow> ne_address l \<noteq> ne_address e \<or> ne_incarnation l \<noteq> ne_incarnation e \<or>
                  ne_manifest l \<noteq> ne_manifest accepted))
      in g\<lparr>g_nodes := hm_insert (ne_node_id e) accepted (g_nodes g),
           g_incarnations := hm_insert (ne_node_id e) (ne_incarnation e) (g_incarnations g),
           membership_events := (if changed then membership_events g @
             [\<lparr>ev_node_id = ne_node_id e, ev_old_state = old_state, ev_new_state = ne_state e,
               ev_incarnation = ne_incarnation e, ev_address = Some (ne_grpc_address e),
               ev_version = ne_version e, ev_origin = ne_origin e,
               ev_membership_address = Some (ne_address e), ev_manifest = ne_manifest e\<rparr>]
             else membership_events g)\<rparr>)"

definition merge_entry :: "NodeEntry \<Rightarrow> GossipProtocol \<Rightarrow> GossipProtocol" where
  "merge_entry e g = (if merge_skips g e then g else merge_accept e g)"

definition merge_delta :: "NodeEntry list \<Rightarrow> GossipProtocol \<Rightarrow> GossipProtocol" where
  "merge_delta delta g = fold merge_entry delta g"

definition gossip_add_node :: "NodeEntry \<Rightarrow> GossipProtocol \<Rightarrow> GossipProtocol" where
  "gossip_add_node e g =
     (let recorded = (case hm_get (g_incarnations g) (ne_node_id e) of None \<Rightarrow> 0 | Some i \<Rightarrow> i)
      in if ne_incarnation e < recorded then g
         else if ne_incarnation e = recorded \<and> recorded > 0 \<and> hm_get (g_nodes g) (ne_node_id e) = None then g
         else g\<lparr>g_incarnations := hm_insert (ne_node_id e) (ne_incarnation e) (g_incarnations g),
                g_nodes := hm_insert (ne_node_id e) e (g_nodes g)\<rparr>)"

section \<open>Deltas and version vectors\<close>

definition known_version :: "version_vector \<Rightarrow> NodeId \<Rightarrow> NodeId \<Rightarrow> u64 option" where
  "known_version vv n org = (case hm_get vv n of None \<Rightarrow> None | Some os \<Rightarrow> hm_get os org)"

text \<open>\<^verbatim>\<open>map_or(true, |known| version > known)\<close>\<close>

definition is_newer :: "version_vector \<Rightarrow> NodeId \<Rightarrow> NodeId \<Rightarrow> u64 \<Rightarrow> bool" where
  "is_newer vv n org v = (case known_version vv n org of None \<Rightarrow> True | Some known \<Rightarrow> known < v)"

definition build_delta :: "GossipProtocol \<Rightarrow> NodeEntry list" where
  "build_delta g = map snd (g_nodes g)"

definition build_delta_for :: "GossipProtocol \<Rightarrow> NodeId \<Rightarrow> NodeEntry list" where
  "build_delta_for g peer =
     filter (\<lambda>e. case hm_get (watermarks g) peer of
         None \<Rightarrow> True | Some wm \<Rightarrow> is_newer wm (ne_node_id e) (ne_origin e) (ne_version e)) (map snd (g_nodes g))"

definition vector_insert :: "NodeId \<Rightarrow> NodeId \<Rightarrow> u64 \<Rightarrow> version_vector \<Rightarrow> version_vector" where
  "vector_insert n org v vv =
     hm_insert n (hm_insert org v (case hm_get vv n of None \<Rightarrow> [] | Some os \<Rightarrow> os)) vv"

definition version_vector_proto :: "GossipProtocol \<Rightarrow> version_vector" where
  "version_vector_proto g =
     fold (\<lambda>e. vector_insert (ne_node_id e) (ne_origin e) (ne_version e)) (map snd (g_nodes g)) []"

definition alive_nodes :: "GossipProtocol \<Rightarrow> (NodeId \<times> NodeState) list" where
  "alive_nodes g = map (\<lambda>(n, e). (n, ne_state e)) (filter (\<lambda>(n, e). ne_state e = Alive) (g_nodes g))"

section \<open>The task\<close>

text \<open>
  Handling a command; the boolean tells whether the task goes on.  A push leaves the node only when a pool is set and
  the peer is known; its answer comes back as an \<^verbatim>\<open>Ack\<close> command.
\<close>

fun gossip_command :: "(SocketAddr \<Rightarrow> string) \<Rightarrow> GossipCommand \<Rightarrow> GossipProtocol \<Rightarrow> bool \<times> GossipProtocol" where
  "gossip_command shw (Push peer delta) g =
     (let g = merge_delta delta g
      in (True,
          if g_pool g then
            (case hm_get (g_nodes g) peer of
               None \<Rightarrow> g
             | Some entry \<Rightarrow> g\<lparr>pushes := pushes g @ [(ne_address entry,
                 \<lparr>gm_delta = Some (map (entry_to_proto shw) delta), gm_vector = version_vector_proto g\<rparr>)]\<rparr>)
          else g))"
| "gossip_command shw (Ack peer delta vv) g =
     (let g = merge_delta delta (g\<lparr>messages_received := messages_received g + 1\<rparr>)
      in (True, g\<lparr>watermarks := hm_insert peer vv (watermarks g)\<rparr>))"
| "gossip_command shw (ReceiveDelta from delta) g =
     (True, merge_delta delta (g\<lparr>messages_received := messages_received g + 1\<rparr>))"
| "gossip_command shw GossipSetPool g = (True, g\<lparr>g_pool := True\<rparr>)"
| "gossip_command shw (AddNode entry) g = (True, gossip_add_node entry g)"
| "gossip_command shw GossipShutdown g = (False, g)"

definition ack_command :: "(string \<Rightarrow> SocketAddr option) \<Rightarrow> NodeId \<Rightarrow> GossipAck \<Rightarrow> GossipCommand" where
  "ack_command parse peer ack =
     Ack peer (case ga_delta ack of None \<Rightarrow> [] | Some es \<Rightarrow> map (entry_from_proto parse) es) (ga_vector ack)"

text \<open>
  One gossip round; \<^verbatim>\<open>pick\<close> is the random choice of peers.  The cast of the number of peers to a byte wraps.
\<close>

definition tick_peers :: "GossipProtocol \<Rightarrow> NodeId list" where
  "tick_peers g = map fst (filter (\<lambda>(n, e). (ne_state e = Alive \<or> ne_state e = Suspect) \<and> n \<noteq> g_node_id g) (g_nodes g))"

definition push_peer :: "(SocketAddr \<Rightarrow> string) \<Rightarrow> NodeId \<Rightarrow> GossipProtocol \<Rightarrow> GossipProtocol" where
  "push_peer shw peer g =
     (let delta = build_delta_for g peer
      in if delta = [] then g
         else snd (gossip_command shw (Push peer delta) (g\<lparr>messages_sent := messages_sent g + 1\<rparr>)))"

definition on_gossip_tick ::
  "(SocketAddr \<Rightarrow> string) \<Rightarrow> (nat \<Rightarrow> NodeId list \<Rightarrow> NodeId list) \<Rightarrow> GossipProtocol \<Rightarrow> GossipProtocol" where
  "on_gossip_tick shw pick g =
     (let alive = tick_peers g
      in if alive = [] then g
         else let fanout = unat (min (g_fanout_k g) (of_nat (length alive) :: u8))
              in fold (push_peer shw) (pick fanout alive) g)"

section \<open>The service\<close>

definition full_to_proto ::
  "(SocketAddr \<Rightarrow> string) \<Rightarrow> NodeId \<times> NodeState \<times> Incarnation \<times> SocketAddr \<times> SocketAddr \<times> u64 \<times> NodeId \<times> NodeManifest option \<Rightarrow>
   MembershipEntry" where
  "full_to_proto shw = (\<lambda>(n, st, inc, addr, maddr, ver, org, mf).
     \<lparr>pe_node_id = Some n, pe_state = state_to_proto st, pe_incarnation = inc, pe_address = shw maddr,
      pe_version = ver, pe_origin = org, pe_grpc_address = shw addr, pe_manifest = mf\<rparr>)"

definition pull_entries :: "(SocketAddr \<Rightarrow> string) \<Rightarrow> version_vector \<Rightarrow> Membership \<Rightarrow> MembershipEntry list" where
  "pull_entries shw vv m =
     map (full_to_proto shw)
       (filter (\<lambda>(n, st, inc, addr, maddr, ver, org, mf). is_newer vv n org ver) (nodes_full m))"

definition ack_vector :: "Membership \<Rightarrow> version_vector" where
  "ack_vector m = fold (\<lambda>(n, st, inc, addr, maddr, ver, org, mf). vector_insert n org ver) (nodes_full m) []"

text \<open>
  One message of a push: the last message's vector is kept; the entries go to the running protocol task, or directly to
  the table when the task is not running.
\<close>

definition push_message ::
  "(NodeId \<Rightarrow> u32 \<Rightarrow> RingPosition) \<Rightarrow> (string \<Rightarrow> SocketAddr option) \<Rightarrow> GossipMessage \<Rightarrow>
   version_vector \<times> u32 \<times> Membership \<Rightarrow> version_vector \<times> u32 \<times> Membership" where
  "push_message hash parse msg = (\<lambda>(vv, count, m).
     case gm_delta msg of
       None \<Rightarrow> (gm_vector msg, count, m)
     | Some es \<Rightarrow>
         let changed = map (entry_from_proto parse) es
         in (gm_vector msg, count + of_nat (length es),
             case gossip_tx m of
               Some q \<Rightarrow> m\<lparr>gossip_tx := Some (q @ [ReceiveDelta ''gossip-push'' changed])\<rparr>
             | None \<Rightarrow> fold (\<lambda>e. upsert_node_attributed_inner hash (ne_node_id e) (ne_state e) (ne_incarnation e)
                 (Some (ne_grpc_address e)) (ne_version e) (ne_origin e) (Some (ne_address e)) (ne_manifest e)) changed m))"

definition service_push ::
  "(NodeId \<Rightarrow> u32 \<Rightarrow> RingPosition) \<Rightarrow> (string \<Rightarrow> SocketAddr option) \<Rightarrow> (SocketAddr \<Rightarrow> string) \<Rightarrow> GossipMessage list \<Rightarrow> Membership \<Rightarrow>
   GossipAck \<times> Membership" where
  "service_push hash parse shw msgs m =
     (let (vv, count, m) = fold (push_message hash parse) msgs ([], 0, m)
      in (\<lparr>ga_accepted = True, ga_updated_entries = count, ga_delta = Some (pull_entries shw vv m),
           ga_vector = ack_vector m\<rparr>, m))"

definition service_pull :: "(SocketAddr \<Rightarrow> string) \<Rightarrow> version_vector \<Rightarrow> Membership \<Rightarrow> GossipMessage list" where
  "service_pull shw vv m =
     (let filtered = pull_entries shw vv m
      in if filtered = [] then [\<lparr>gm_delta = None, gm_vector = []\<rparr>]
         else map (\<lambda>e. \<lparr>gm_delta = Some [e], gm_vector = []\<rparr>) filtered)"


section \<open>The invariant of the protocol state\<close>

definition gossip_inv :: "GossipProtocol \<Rightarrow> bool" where
  "gossip_inv g \<longleftrightarrow> hm_wf (g_nodes g) \<and>
     (\<forall>n e. hm_get (g_nodes g) n = Some e \<longrightarrow> ne_node_id e = n \<and> hm_get (g_incarnations g) n = Some (ne_incarnation e))"

lemma gossip_invD:
  assumes "gossip_inv g" "hm_get (g_nodes g) n = Some e"
  shows "ne_node_id e = n" "hm_get (g_incarnations g) n = Some (ne_incarnation e)"
  using assms by (auto simp: gossip_inv_def)

lemma gossip_inv_new: "gossip_inv (GossipProtocol_new i n k)"
  by (simp add: gossip_inv_def GossipProtocol_new_def)

lemma merge_accept_get:
  "hm_get (g_incarnations (merge_accept e g)) k = (if k = ne_node_id e then Some (ne_incarnation e) else hm_get (g_incarnations g) k)"
  "k \<noteq> ne_node_id e \<Longrightarrow> hm_get (g_nodes (merge_accept e g)) k = hm_get (g_nodes g) k"
  "\<exists>mf. hm_get (g_nodes (merge_accept e g)) (ne_node_id e) = Some (e\<lparr>ne_manifest := mf\<rparr>)"
  "g_node_id (merge_accept e g) = g_node_id g" "g_pool (merge_accept e g) = g_pool g"
  "watermarks (merge_accept e g) = watermarks g" "pushes (merge_accept e g) = pushes g"
  "hm_wf (g_nodes g) \<Longrightarrow> hm_wf (g_nodes (merge_accept e g))"
proof -
  show "\<exists>mf. hm_get (g_nodes (merge_accept e g)) (ne_node_id e) = Some (e\<lparr>ne_manifest := mf\<rparr>)"
    by (cases "ne_manifest e = None"; cases e) (auto simp: merge_accept_def Let_def)
qed (simp_all add: merge_accept_def Let_def)

lemma merge_entry_inv: "gossip_inv g \<Longrightarrow> gossip_inv (merge_entry e g)"
proof -
  assume inv: "gossip_inv g"
  have "ne_node_id l = k \<and> hm_get (g_incarnations (merge_accept e g)) k = Some (ne_incarnation l)"
    if "hm_get (g_nodes (merge_accept e g)) k = Some l" for k l
  proof (cases "k = ne_node_id e")
    case True
    obtain mf where "hm_get (g_nodes (merge_accept e g)) (ne_node_id e) = Some (e\<lparr>ne_manifest := mf\<rparr>)"
      using merge_accept_get(3) [of e g] ..
    with that True show ?thesis by (auto simp: merge_accept_get(1))
  next
    case False
    with that inv show ?thesis by (auto simp: merge_accept_get(1,2) dest: gossip_invD)
  qed
  with inv show ?thesis by (auto simp: merge_entry_def gossip_inv_def merge_accept_get(8))
qed

lemma add_node_inv: "gossip_inv g \<Longrightarrow> gossip_inv (gossip_add_node e g)"
  by (auto simp: gossip_add_node_def gossip_inv_def Let_def)

lemma merge_delta_fields [simp]:
  "g_node_id (merge_delta d g) = g_node_id g" "g_pool (merge_delta d g) = g_pool g"
  "watermarks (merge_delta d g) = watermarks g" "pushes (merge_delta d g) = pushes g"
  unfolding merge_delta_def
  by (induction d arbitrary: g) (simp_all add: merge_entry_def merge_accept_get)

section \<open>Merging absorbs what it has seen\<close>

definition recorded_inc :: "GossipProtocol \<Rightarrow> NodeId \<Rightarrow> Incarnation" where
  "recorded_inc g n = (case hm_get (g_incarnations g) n of None \<Rightarrow> 0 | Some i \<Rightarrow> i)"

lemma merge_skips_iff:
  "merge_skips g e \<longleftrightarrow> ne_incarnation e < recorded_inc g (ne_node_id e) \<or>
     ne_incarnation e = recorded_inc g (ne_node_id e) \<and>
     (case hm_get (g_nodes g) (ne_node_id e) of
        None \<Rightarrow> recorded_inc g (ne_node_id e) > 0
      | Some l \<Rightarrow>
          let ic = authority_class (ne_node_id e) (ne_origin e) (ne_state e) (g_node_id g);
              lc = authority_class (ne_node_id e) (ne_origin l) (ne_state l) (g_node_id g)
          in ic < lc \<or> ic = lc \<and> (ne_origin e = ne_origin l \<longrightarrow> ne_version e \<le> ne_version l))"
  by (auto simp: merge_skips_def recorded_inc_def Let_def split: option.splits)

lemma merge_accept_recorded: "recorded_inc (merge_accept e g) k = (if k = ne_node_id e then ne_incarnation e else recorded_inc g k)"
  by (simp add: recorded_inc_def merge_accept_get(1))

lemma accepted_skipped: "merge_skips (merge_accept e g) e"
proof -
  obtain mf where "hm_get (g_nodes (merge_accept e g)) (ne_node_id e) = Some (e\<lparr>ne_manifest := mf\<rparr>)"
    using merge_accept_get(3) [of e g] ..
  then show ?thesis by (simp add: merge_skips_iff merge_accept_recorded)
qed

lemma skipped_stays:
  assumes "\<not> merge_skips g e'" "merge_skips g e"
  shows "merge_skips (merge_accept e' g) e"
proof (cases "ne_node_id e = ne_node_id e'")
  case False
  then have "recorded_inc (merge_accept e' g) (ne_node_id e) = recorded_inc g (ne_node_id e)"
    "hm_get (g_nodes (merge_accept e' g)) (ne_node_id e) = hm_get (g_nodes g) (ne_node_id e)"
    by (simp_all add: merge_accept_recorded merge_accept_get(2))
  then have "merge_skips (merge_accept e' g) e = merge_skips g e"
    by (simp only: merge_skips_iff merge_accept_get(4))
  with assms(2) show ?thesis by simp
next
  case True
  obtain mf where l: "hm_get (g_nodes (merge_accept e' g)) (ne_node_id e') = Some (e'\<lparr>ne_manifest := mf\<rparr>)"
    using merge_accept_get(3) [of e' g] ..
  show ?thesis
  proof (cases "hm_get (g_nodes g) (ne_node_id e')")
    case None
    with assms True l show ?thesis
      by (auto simp: merge_skips_iff merge_accept_recorded)
  next
    case (Some l0)
    with assms True l show ?thesis
      by (auto simp: merge_skips_iff merge_accept_recorded merge_accept_get(4) Let_def)
  qed
qed

interpretation gsp: absorbing_merge merge_entry merge_skips gossip_inv "\<lambda>e. True"
  by unfold_locales
     (auto simp: merge_entry_def accepted_skipped skipped_stays merge_entry_inv [unfolded merge_entry_def])

lemma own_entry_skipped: "gossip_inv g \<Longrightarrow> e \<in> set (build_delta g) \<Longrightarrow> merge_skips g e"
  by (auto simp: build_delta_def merge_skips_iff recorded_inc_def gossip_inv_def hm_get_mem)

lemma own_delta_noop:
  assumes "gossip_inv g" "set d \<subseteq> set (build_delta g)"
  shows "merge_delta d g = g"
  unfolding merge_delta_def using assms own_entry_skipped by (intro gsp.fold_noop) auto

lemma merge_delta_inv: "gossip_inv g \<Longrightarrow> gossip_inv (merge_delta d g)"
  unfolding merge_delta_def by (rule gsp.wf_fold)

lemma gossip_command_inv: "gossip_inv g \<Longrightarrow> gossip_inv (snd (gossip_command shw c g))"
proof (cases c)
  case (Push peer d)
  then show "gossip_inv g \<Longrightarrow> ?thesis"
    using merge_delta_inv [of g d] by (auto simp: Let_def gossip_inv_def split: option.splits)
next
  case (Ack peer d vv)
  then show "gossip_inv g \<Longrightarrow> ?thesis"
    using merge_delta_inv [of "g\<lparr>messages_received := messages_received g + 1\<rparr>" d]
    by (auto simp: Let_def gossip_inv_def)
next
  case (ReceiveDelta src d)
  then show "gossip_inv g \<Longrightarrow> ?thesis"
    using merge_delta_inv [of "g\<lparr>messages_received := messages_received g + 1\<rparr>" d] by (auto simp: gossip_inv_def)
qed (simp_all add: add_node_inv, simp_all add: gossip_inv_def)

section \<open>Version vectors\<close>

lemma known_version_insert:
  "known_version (vector_insert n org v vv) n' org' = (if n' = n \<and> org' = org then Some v else known_version vv n' org')"
  by (auto simp: known_version_def vector_insert_def split: option.splits)

lemma known_version_fold:
  "distinct (map fst xs) \<Longrightarrow>
   known_version (fold (\<lambda>(n, e). vector_insert n (f e) (h e)) xs vv) n org =
     (case map_of xs n of
        None \<Rightarrow> known_version vv n org
      | Some e \<Rightarrow> if org = f e then Some (h e) else known_version vv n org)"
proof (induction xs arbitrary: vv)
  case (Cons x xs)
  obtain k e where x: "x = (k, e)" by (cases x)
  have "map_of xs k = None" using Cons.prems x by (auto simp: map_of_eq_None_iff)
  with Cons.IH Cons.prems x show ?case
    by (auto simp: known_version_insert split: option.splits)
qed simp

lemma known_version_ack:
  assumes "hm_wf (nodes (state m))"
  shows "known_version (ack_vector m) n org =
    (case hm_get (nodes (state m)) n of
       None \<Rightarrow> None | Some e \<Rightarrow> if org = se_origin e then Some (se_version e) else None)"
proof -
  have "ack_vector m = fold (\<lambda>(n, e). vector_insert n (se_origin e) (se_version e)) (nodes (state m)) []"
    by (simp add: ack_vector_def nodes_full_def fold_map comp_def case_prod_unfold)
  then show ?thesis
    using known_version_fold [of "nodes (state m)" se_origin se_version "[]" n org] assms
    by (simp add: hm_wf_def hm_get_def known_version_def [of "[]"] split: option.splits)
qed

text \<open>What a node pulls from a service is covered by the vector the service sends along.\<close>

lemma pulled_covered:
  assumes "hm_wf (nodes (state m))" "p \<in> set (pull_entries shw vv m)"
  shows "\<not> is_newer (ack_vector m) (ne_node_id (entry_from_proto parse p)) (ne_origin (entry_from_proto parse p))
     (ne_version (entry_from_proto parse p))"
proof -
  obtain n e where "(n, e) \<in> set (nodes (state m))" "pe_node_id p = Some n" "pe_origin p = se_origin e" "pe_version p = se_version e"
    using assms(2) by (auto simp: pull_entries_def full_to_proto_def nodes_full_def)
  moreover from this have "hm_get (nodes (state m)) n = Some e" using assms(1) hm_get_mem by metis
  ultimately show ?thesis
    by (simp add: is_newer_def known_version_ack [OF assms(1)] entry_from_proto_def)
qed

lemma merge_delta_source:
  assumes "gossip_inv g" "hm_get (g_nodes (merge_delta d g)) n = Some e"
  shows "hm_get (g_nodes g) n = Some e \<or>
    (\<exists>e0 \<in> set d. ne_node_id e0 = n \<and> ne_origin e0 = ne_origin e \<and> ne_version e0 = ne_version e)"
  using assms unfolding merge_delta_def
proof (induction d arbitrary: g)
  case (Cons x d)
  have "hm_get (g_nodes (merge_entry x g)) n = Some e \<or>
      (\<exists>e0 \<in> set d. ne_node_id e0 = n \<and> ne_origin e0 = ne_origin e \<and> ne_version e0 = ne_version e)"
    using Cons.prems by (intro Cons.IH merge_entry_inv) simp_all
  moreover have "hm_get (g_nodes g) n = Some e \<or> ne_node_id x = n \<and> ne_origin x = ne_origin e \<and> ne_version x = ne_version e"
    if "hm_get (g_nodes (merge_entry x g)) n = Some e"
  proof (cases "merge_skips g x \<or> n \<noteq> ne_node_id x")
    case True
    with that show ?thesis by (auto simp: merge_entry_def merge_accept_get(2) split: if_splits)
  next
    case False
    with that merge_accept_get(3) [of x g] show ?thesis by (auto simp: merge_entry_def)
  qed
  ultimately show ?case by auto
qed simp

lemma push_running_table:
  "gossip_tx m \<noteq> None \<Longrightarrow> fold (push_message hash parse) msgs (vv, c, m) = (vv', c', m') \<Longrightarrow> state m' = state m"
proof (induction msgs arbitrary: vv c m)
  case (Cons msg msgs)
  obtain vv1 c1 m1 where 1: "push_message hash parse msg (vv, c, m) = (vv1, c1, m1)" by (metis prod_cases3)
  then have "state m1 = state m" "gossip_tx m1 \<noteq> None"
    using Cons.prems(1) by (auto simp: push_message_def Let_def split: option.splits)
  with Cons.IH [of m1 vv1 c1] Cons.prems(2) 1 show ?case by simp
qed simp

section \<open>A gossip round\<close>

lemma push_peer_effect:
  assumes "gossip_inv g"
  shows "g_nodes (push_peer shw p g) = g_nodes g" "g_incarnations (push_peer shw p g) = g_incarnations g"
    "membership_events (push_peer shw p g) = membership_events g" "g_node_id (push_peer shw p g) = g_node_id g"
    "g_fanout_k (push_peer shw p g) = g_fanout_k g" "watermarks (push_peer shw p g) = watermarks g"
    "pushes (push_peer shw p g) = pushes g \<or>
     (\<exists>e msg. hm_get (g_nodes g) p = Some e \<and> pushes (push_peer shw p g) = pushes g @ [(ne_address e, msg)])"
proof -
  let ?d = "build_delta_for g p" and ?g = "g\<lparr>messages_sent := messages_sent g + 1\<rparr>"
  have inv: "gossip_inv ?g" using assms by (simp add: gossip_inv_def)
  have sub: "set ?d \<subseteq> set (build_delta ?g)" by (auto simp: build_delta_for_def build_delta_def)
  from own_delta_noop [OF inv sub] have m: "merge_delta ?d ?g = ?g" .
  show "g_nodes (push_peer shw p g) = g_nodes g" "g_incarnations (push_peer shw p g) = g_incarnations g"
    "membership_events (push_peer shw p g) = membership_events g" "g_node_id (push_peer shw p g) = g_node_id g"
    "g_fanout_k (push_peer shw p g) = g_fanout_k g" "watermarks (push_peer shw p g) = watermarks g"
    "pushes (push_peer shw p g) = pushes g \<or>
     (\<exists>e msg. hm_get (g_nodes g) p = Some e \<and> pushes (push_peer shw p g) = pushes g @ [(ne_address e, msg)])"
    by (auto simp: push_peer_def Let_def m split: option.splits)
qed

lemma push_peers_effect:
  assumes "gossip_inv g" "\<forall>p \<in> set ps. P p"
  shows "\<exists>new. g_nodes (fold (push_peer shw) ps g) = g_nodes g \<and>
    g_incarnations (fold (push_peer shw) ps g) = g_incarnations g \<and>
    membership_events (fold (push_peer shw) ps g) = membership_events g \<and>
    pushes (fold (push_peer shw) ps g) = pushes g @ new \<and> length new \<le> length ps \<and>
    (\<forall>(a, msg) \<in> set new. \<exists>p e. P p \<and> hm_get (g_nodes g) p = Some e \<and> ne_address e = a)"
  using assms
proof (induction ps arbitrary: g)
  case (Cons p ps)
  let ?g = "push_peer shw p g"
  note eff = push_peer_effect [OF Cons.prems(1), of shw p]
  have "gossip_inv ?g" using Cons.prems(1) eff(1,2) by (simp add: gossip_inv_def)
  with Cons.IH [of ?g] Cons.prems(2) obtain new where new:
    "g_nodes (fold (push_peer shw) ps ?g) = g_nodes g" "g_incarnations (fold (push_peer shw) ps ?g) = g_incarnations g"
    "membership_events (fold (push_peer shw) ps ?g) = membership_events g"
    "pushes (fold (push_peer shw) ps ?g) = pushes ?g @ new" "length new \<le> length ps"
    "\<forall>(a, msg) \<in> set new. \<exists>p e. P p \<and> hm_get (g_nodes g) p = Some e \<and> ne_address e = a"
    by (auto simp: eff(1-3))
  from eff(7) show ?case
  proof
    assume "pushes ?g = pushes g"
    with new show ?case by (intro exI [of _ new]) auto
  next
    assume "\<exists>e msg. hm_get (g_nodes g) p = Some e \<and> pushes ?g = pushes g @ [(ne_address e, msg)]"
    then obtain e msg where "hm_get (g_nodes g) p = Some e" "pushes ?g = pushes g @ [(ne_address e, msg)]" by blast
    with new Cons.prems(2) show ?case by (intro exI [of _ "(ne_address e, msg) # new"]) auto
  qed
qed simp


section \<open>Properties\<close>

definition demo_entry :: "NodeId \<Rightarrow> NodeState \<Rightarrow> Incarnation \<Rightarrow> u64 \<Rightarrow> NodeId \<Rightarrow> NodeEntry" where
  "demo_entry n st i v org = \<lparr>ne_node_id = n, ne_incarnation = i, ne_state = st, ne_address = V4 10 0 0 2 9000,
     ne_grpc_address = V4 10 0 0 2 9001, ne_version = v, ne_origin = org, ne_manifest = None\<rparr>"

definition demo_gossip :: GossipProtocol where
  "demo_gossip = (GossipProtocol_new 1000 ''a'' 3)\<lparr>g_pool := True\<rparr>"

lemma demo_gossip_inv: "gossip_inv demo_gossip"
  using gossip_inv_new by (simp add: demo_gossip_def gossip_inv_def)

text \<open>
  C21: gossip deltas can be received again, in any order and any number of times: after a delta has been merged, merging
  any of its entries again changes neither the local view nor the events it has emitted.
\<close>

theorem redelivered_deltas_absorbed:
  assumes "gossip_inv g" "set ds \<subseteq> set es"
  shows "merge_delta ds (merge_delta es g) = merge_delta es g"
  unfolding merge_delta_def using assms by (intro gsp.fold_absorbs) simp_all

theorem redelivered_deltas_absorbed_witness:
  "merge_delta [demo_entry ''b'' Alive 3 1 ''b''] (merge_delta [demo_entry ''b'' Alive 3 1 ''b'', demo_entry ''b'' Suspect 3 1 ''c''] demo_gossip)
   = merge_delta [demo_entry ''b'' Alive 3 1 ''b'', demo_entry ''b'' Suspect 3 1 ''c''] demo_gossip"
  by (rule redelivered_deltas_absorbed [OF demo_gossip_inv]) simp

text \<open>
  One push and its answer quiet a pair of nodes.  If the peer's table already holds everything this node gossips,
  from the same origins and at least as new, then after this node has processed the answer of the peer's gossip service
  to a push, the next delta for that peer is empty, whatever the answer added to the local view.
\<close>

theorem one_round_quiesces:
  assumes "gossip_inv g" "hm_wf (nodes (state m))" "gossip_tx m \<noteq> None"
    and "\<forall>e \<in> set (build_delta g). case hm_get (nodes (state m)) (ne_node_id e) of
       None \<Rightarrow> False | Some s \<Rightarrow> se_origin s = ne_origin e \<and> ne_version e \<le> se_version s"
  shows "build_delta_for (snd (gossip_command shw
      (ack_command parse peer (fst (service_push hash parse shw msgs m))) g)) peer = []"
proof -
  obtain vv c m' where f: "fold (push_message hash parse) msgs ([], 0, m) = (vv, c, m')" by (metis prod_cases3)
  have st: "state m' = state m" using push_running_table [OF assms(3) f] .
  have wf: "hm_wf (nodes (state m'))" using assms(2) st by simp
  define d where "d = map (entry_from_proto parse) (pull_entries shw vv m')"
  define g0 where "g0 = g\<lparr>messages_received := messages_received g + 1\<rparr>"
  have inv0: "gossip_inv g0" using assms(1) by (simp add: g0_def gossip_inv_def)
  let ?g = "merge_delta d g0"
  have "\<not> is_newer (ack_vector m') (ne_node_id e) (ne_origin e) (ne_version e)" if "e \<in> snd ` set (g_nodes ?g)" for e
  proof -
    have inv: "gossip_inv ?g" by (rule merge_delta_inv [OF inv0])
    then have "hm_wf (g_nodes ?g)" by (simp add: gossip_inv_def)
    with that obtain n where n: "hm_get (g_nodes ?g) n = Some e" using hm_values [of "g_nodes ?g" e] by blast
    note n = n gossip_invD(1) [OF inv n]
    from merge_delta_source [OF inv0 n(1)] show ?thesis
    proof
      assume "hm_get (g_nodes g0) n = Some e"
      then have "e \<in> set (build_delta g)"
        using assms(1) hm_get_mem [of "g_nodes g" n e] by (force simp: g0_def build_delta_def gossip_inv_def)
      with assms(4) n(2) obtain s where "hm_get (nodes (state m)) n = Some s" "se_origin s = ne_origin e"
        "ne_version e \<le> se_version s" by (fastforce split: option.splits)
      with n(2) show ?thesis by (simp add: is_newer_def known_version_ack [OF wf] st)
    next
      assume "\<exists>e0 \<in> set d. ne_node_id e0 = n \<and> ne_origin e0 = ne_origin e \<and> ne_version e0 = ne_version e"
      then obtain p where "p \<in> set (pull_entries shw vv m')" "ne_node_id (entry_from_proto parse p) = ne_node_id e"
        "ne_origin (entry_from_proto parse p) = ne_origin e" "ne_version (entry_from_proto parse p) = ne_version e"
        using n(2) by (auto simp: d_def)
      with pulled_covered [OF wf this(1), of parse] show ?thesis by simp
    qed
  qed
  then show ?thesis
    by (auto simp: service_push_def f ack_command_def Let_def d_def g0_def build_delta_for_def filter_empty_conv)
qed

theorem one_round_quiesces_witness:
  "let m = snd (start (handle_event demo_hash (demo_event ''b'' Alive 3 2 ''b'') demo_member));
       g = merge_delta [demo_entry ''b'' Alive 3 1 ''b''] demo_gossip
   in build_delta_for g ''c'' \<noteq> [] \<and>
      build_delta_for (snd (gossip_command (\<lambda>_. []) (ack_command (\<lambda>_. None) ''c''
        (fst (service_push demo_hash (\<lambda>_. None) (\<lambda>_. []) [] m))) g)) ''c'' = []"
proof -
  let ?m = "snd (start (handle_event demo_hash (demo_event ''b'' Alive 3 2 ''b'') demo_member))"
  let ?g = "merge_delta [demo_entry ''b'' Alive 3 1 ''b''] demo_gossip"
  have inv: "gossip_inv ?g" by (rule merge_delta_inv [OF demo_gossip_inv])
  have wf: "hm_wf (nodes (state ?m))" by (simp add: start_def demo_simps hm_wf_def)
  have d: "build_delta ?g = [demo_entry ''b'' Alive 3 1 ''b'']"
    by (simp add: merge_delta_def merge_entry_def merge_skips_def merge_accept_def demo_entry_def demo_gossip_def
        GossipProtocol_new_def build_delta_def hm_get_def hm_insert_def)
  have "build_delta_for ?g ''c'' = build_delta ?g"
    by (simp add: build_delta_for_def build_delta_def demo_gossip_def GossipProtocol_new_def)
  moreover have "\<forall>e \<in> set (build_delta ?g). case hm_get (nodes (state ?m)) (ne_node_id e) of
       None \<Rightarrow> False | Some s \<Rightarrow> se_origin s = ne_origin e \<and> ne_version e \<le> se_version s"
    unfolding d by (simp add: demo_entry_def start_def demo_simps)
  moreover have "gossip_tx ?m \<noteq> None" by (simp add: start_def demo_simps)
  ultimately have "build_delta_for ?g ''c'' \<noteq> []" "build_delta_for (snd (gossip_command (\<lambda>_. []) (ack_command (\<lambda>_. None) ''c''
        (fst (service_push demo_hash (\<lambda>_. None) (\<lambda>_. []) [] ?m))) ?g)) ''c'' = []"
    using one_round_quiesces [OF inv wf, of "\<lambda>_. []" "\<lambda>_. None" "''c''" demo_hash "[]"] by (simp_all add: d)
  then show ?thesis by (simp add: Let_def)
qed

text \<open>
  A gossip round is bounded and harmless to the local view: whatever peers are picked, it changes neither the view
  nor the recorded incarnations nor the emitted events, it sends at most as many messages as the configured fanout, and
  only to other nodes believed alive or suspect.
\<close>

theorem gossip_round_bounded:
  assumes "gossip_inv g" "\<forall>k xs. set (pick k xs) \<subseteq> set xs \<and> length (pick k xs) \<le> k"
  shows "\<exists>new. g_nodes (on_gossip_tick shw pick g) = g_nodes g \<and>
    g_incarnations (on_gossip_tick shw pick g) = g_incarnations g \<and>
    membership_events (on_gossip_tick shw pick g) = membership_events g \<and>
    pushes (on_gossip_tick shw pick g) = pushes g @ new \<and> length new \<le> unat (g_fanout_k g) \<and>
    (\<forall>(a, msg) \<in> set new. \<exists>p e. p \<noteq> g_node_id g \<and> hm_get (g_nodes g) p = Some e \<and>
       ne_address e = a \<and> (ne_state e = Alive \<or> ne_state e = Suspect))"
proof (cases "tick_peers g = []")
  case True
  then show ?thesis by (intro exI [of _ "[]"]) (simp add: on_gossip_tick_def)
next
  case False
  let ?k = "unat (min (g_fanout_k g) (of_nat (length (tick_peers g)) :: u8))"
  let ?ps = "pick ?k (tick_peers g)"
  let ?P = "\<lambda>p. p \<noteq> g_node_id g \<and> (\<forall>e. hm_get (g_nodes g) p = Some e \<longrightarrow> ne_state e = Alive \<or> ne_state e = Suspect)"
  have "?P p" if "p \<in> set (tick_peers g)" for p
    using that assms(1) hm_get_mem [of "g_nodes g" p] by (fastforce simp: tick_peers_def gossip_inv_def)
  then have "\<forall>p \<in> set ?ps. ?P p" using assms(2) by blast
  from push_peers_effect [OF assms(1) this, of shw] obtain new where new:
    "g_nodes (fold (push_peer shw) ?ps g) = g_nodes g" "g_incarnations (fold (push_peer shw) ?ps g) = g_incarnations g"
    "membership_events (fold (push_peer shw) ?ps g) = membership_events g"
    "pushes (fold (push_peer shw) ?ps g) = pushes g @ new" "length new \<le> length ?ps"
    "\<forall>(a, msg) \<in> set new. \<exists>p e. ?P p \<and> hm_get (g_nodes g) p = Some e \<and> ne_address e = a" by blast
  have "length ?ps \<le> ?k" using assms(2) by blast
  also have "?k \<le> unat (g_fanout_k g)" by (simp add: word_le_nat_alt [symmetric])
  finally have "length new \<le> unat (g_fanout_k g)" using new(5) by simp
  with new False show ?thesis by (intro exI [of _ new]) (fastforce simp: on_gossip_tick_def Let_def)
qed

theorem gossip_round_bounded_witness:
  "\<exists>new. pushes (on_gossip_tick (\<lambda>_. []) take (merge_delta [demo_entry ''b'' Alive 3 1 ''b''] demo_gossip)) = new \<and>
     length new \<le> 3"
proof -
  have inv: "gossip_inv (merge_delta [demo_entry ''b'' Alive 3 1 ''b''] demo_gossip)"
    by (rule merge_delta_inv [OF demo_gossip_inv])
  have "\<forall>k xs. set (take k xs) \<subseteq> set xs \<and> length (take k xs) \<le> k" by (simp add: set_take_subset)
  from gossip_round_bounded [OF inv this, of "\<lambda>_. []"] show ?thesis
    by (auto simp: demo_gossip_def GossipProtocol_new_def merge_delta_def merge_entry_def merge_accept_def Let_def)
qed

text \<open>
  The fanout is computed from the number of peers cast to a byte.  When the number of peers believed alive or
  suspect is a positive multiple of 256, the node gossips to nobody, although it has something to say.
\<close>

theorem gossip_silent_at_256:
  assumes "length (tick_peers g) mod 256 = 0" "\<forall>xs. pick 0 xs = []"
  shows "on_gossip_tick shw pick g = g"
proof -
  have "(of_nat (length (tick_peers g)) :: u8) = 0"
    using assms(1) by (simp add: word_of_nat_eq_0_iff mod_0_imp_dvd)
  then show ?thesis using assms(2) by (simp add: on_gossip_tick_def Let_def)
qed

theorem gossip_silent_at_256_witness:
  "let g = demo_gossip\<lparr>g_nodes := map (\<lambda>i. (replicate i CHR ''x'', demo_entry (replicate i CHR ''x'') Alive 1 1 []))
       [1..<257], g_node_id := []\<rparr>
   in length (tick_peers g) = 256 \<and> on_gossip_tick (\<lambda>_. []) take g = g"
proof -
  let ?g = "demo_gossip\<lparr>g_nodes := map (\<lambda>i. (replicate i CHR ''x'', demo_entry (replicate i CHR ''x'') Alive 1 1 []))
       [1..<257], g_node_id := []\<rparr>"
  have "tick_peers ?g = map (\<lambda>i. replicate i CHR ''x'') [1..<257]"
    by (auto simp: tick_peers_def demo_entry_def comp_def filter_map intro!: filter_True)
  then have l: "length (tick_peers ?g) = 256" by simp
  then show ?thesis using gossip_silent_at_256 [of ?g take "\<lambda>_. []"] by simp
qed

end
