(* ===== verification/Detector.thy ===== *)
theory Detector
  imports MemberRuns
begin

text \<open>
  The SWIM failure detector (\<^verbatim>\<open>oceanfs-membership/src/failure_detector\<close>): probe verdicts, suspicion timers, the choice of
  the next probe, and the probe service that answers them (\<^verbatim>\<open>grpc/probe_service.rs\<close>).  An instant is a number of
  nanoseconds; the time of a call, the random choices and the answers of remote probes are arguments.
\<close>

section \<open>State\<close>

record DetectorConfig =
  dc_interval_ms :: u64
  dc_ping_timeout_ms :: u64
  dc_suspicion_timeout_ms :: u64
  dc_failure_timeout_ms :: u64
  dc_indirect_ping_count :: u8

record FailureDetector =
  d_config :: DetectorConfig
  suspicion_timers :: "(NodeId \<times> (Incarnation \<times> nat)) list"
  d_node_id :: NodeId
  d_alive_nodes :: "(NodeId \<times> NodeState \<times> SocketAddr \<times> Incarnation) list"
  pending_probes :: "(NodeId \<times> nat) list"
  d_pool :: bool
  versions :: "(NodeId \<times> u64) list"
  d_events :: "MembershipEvent list"

definition FailureDetector_new :: "DetectorConfig \<Rightarrow> NodeId \<Rightarrow> bool \<Rightarrow> FailureDetector" where
  "FailureDetector_new cfg nid p =
     \<lparr>d_config = cfg, suspicion_timers = [], d_node_id = nid, d_alive_nodes = [], pending_probes = [],
      d_pool = p, versions = [], d_events = []\<rparr>"

text \<open>The detector configuration \<^verbatim>\<open>Membership::start\<close> derives from the gossip configuration.\<close>

definition detector_config :: "GossipConfig \<Rightarrow> DetectorConfig" where
  "detector_config c =
     \<lparr>dc_interval_ms = interval_ms c, dc_ping_timeout_ms = failure_timeout_ms c div 3,
      dc_suspicion_timeout_ms = suspicion_timeout_ms c, dc_failure_timeout_ms = failure_timeout_ms c,
      dc_indirect_ping_count = indirect_ping_count c\<rparr>"

definition incarnation_for :: "FailureDetector \<Rightarrow> NodeId \<Rightarrow> Incarnation option" where
  "incarnation_for d n =
     map_option (\<lambda>(_, _, _, i). i) (List.find (\<lambda>(k, _, _, _). k = n) (d_alive_nodes d))"

section \<open>Events\<close>

definition next_version :: "NodeId \<Rightarrow> FailureDetector \<Rightarrow> u64 \<times> FailureDetector" where
  "next_version n d =
     (let next = (case hm_get (versions d) n of None \<Rightarrow> 0 | Some v \<Rightarrow> v) + 1
      in (next, d\<lparr>versions := hm_insert n next (versions d)\<rparr>))"

text \<open>Every event of the detector has a fresh version, this node as origin and neither addresses nor a manifest.\<close>

definition send_event :: "NodeId \<Rightarrow> NodeState \<Rightarrow> NodeState \<Rightarrow> Incarnation \<Rightarrow> FailureDetector \<Rightarrow> FailureDetector" where
  "send_event n old new inc d =
     (let (v, d) = next_version n d
      in d\<lparr>d_events := d_events d @ [\<lparr>ev_node_id = n, ev_old_state = old, ev_new_state = new, ev_incarnation = inc,
            ev_address = None, ev_version = v, ev_origin = d_node_id d, ev_membership_address = None,
            ev_manifest = None\<rparr>]\<rparr>)"

section \<open>Suspicion\<close>

definition mark_suspect :: "nat \<Rightarrow> NodeId \<Rightarrow> FailureDetector \<Rightarrow> FailureDetector" where
  "mark_suspect now n d =
     (if hm_get (suspicion_timers d) n \<noteq> None then d
      else case incarnation_for d n of
          None \<Rightarrow> d
        | Some inc \<Rightarrow> send_event n Alive Suspect inc
            (d\<lparr>suspicion_timers := hm_insert n (inc, now) (suspicion_timers d)\<rparr>))"

definition recover_suspect :: "NodeId \<Rightarrow> FailureDetector \<Rightarrow> FailureDetector" where
  "recover_suspect n d =
     (let timer = hm_get (suspicion_timers d) n;
          is_suspect = (timer \<noteq> None \<or> (\<exists>(k, st, _, _) \<in> set (d_alive_nodes d). k = n \<and> st = Suspect))
      in if \<not> is_suspect then d
         else let d' = d\<lparr>suspicion_timers := hm_remove n (suspicion_timers d)\<rparr>;
                  incarnation = (case timer of Some (i, _) \<Rightarrow> Some i | None \<Rightarrow> incarnation_for d' n)
              in case incarnation of
                   None \<Rightarrow> d'
                 | Some inc \<Rightarrow> send_event n Suspect Alive inc d')"

definition millis :: "u64 \<Rightarrow> nat" where "millis ms = unat ms * 1000000"

definition expire_timer :: "NodeId \<Rightarrow> FailureDetector \<Rightarrow> FailureDetector" where
  "expire_timer n d =
     (let timer = hm_get (suspicion_timers d) n;
          superseded = (case (timer, incarnation_for d n) of
             (Some (timer_inc, _), Some current_inc) \<Rightarrow> current_inc > timer_inc | _ \<Rightarrow> False)
      in if superseded then recover_suspect n d
         else let d = d\<lparr>suspicion_timers := hm_remove n (suspicion_timers d),
                        d_alive_nodes := filter (\<lambda>(k, _, _, _). k \<noteq> n) (d_alive_nodes d),
                        pending_probes := hm_remove n (pending_probes d)\<rparr>;
                  inc = (case timer of Some (i, _) \<Rightarrow> i | None \<Rightarrow> 1)
              in send_event n Suspect Dead inc d)"

definition expired_nodes :: "nat \<Rightarrow> FailureDetector \<Rightarrow> NodeId list" where
  "expired_nodes now d =
     map fst (filter (\<lambda>(n, _, since). now - since \<ge> millis (dc_suspicion_timeout_ms (d_config d))) (suspicion_timers d))"

definition check_suspicion_timers :: "nat \<Rightarrow> FailureDetector \<Rightarrow> FailureDetector" where
  "check_suspicion_timers now d = fold expire_timer (expired_nodes now d) d"

section \<open>Commands and ticks\<close>

fun detector_command :: "nat \<Rightarrow> DetectorCommand \<Rightarrow> FailureDetector \<Rightarrow> bool \<times> FailureDetector" where
  "detector_command now (PingResponse target success) d =
     (let d = d\<lparr>pending_probes := hm_remove target (pending_probes d)\<rparr>
      in (True, if success then recover_suspect target d else mark_suspect now target d))"
| "detector_command now (UpdateAliveNodes ns) d = (True, d\<lparr>d_alive_nodes := ns\<rparr>)"
| "detector_command now (RemoveNode n) d =
     (True, d\<lparr>d_alive_nodes := filter (\<lambda>(k, _, _, _). k \<noteq> n) (d_alive_nodes d),
             suspicion_timers := hm_remove n (suspicion_timers d),
             pending_probes := hm_remove n (pending_probes d)\<rparr>)"
| "detector_command now DetectorSetPool d = (True, d\<lparr>d_pool := True\<rparr>)"
| "detector_command now DetectorShutdown d = (False, d)"

text \<open>
  The next probe: \<^verbatim>\<open>pick\<close> is the random choice of a target among the candidates, \<^verbatim>\<open>pick_relays\<close> that of the relays.  The
  result is the probe cycle to start, if any: target, its address and the relays.
\<close>

definition probe_candidates :: "FailureDetector \<Rightarrow> (NodeId \<times> SocketAddr) list" where
  "probe_candidates d =
     map (\<lambda>(n, _, a, _). (n, a))
       (filter (\<lambda>(n, st, _, _). (st = Alive \<or> st = Suspect) \<and> n \<noteq> d_node_id d \<and> hm_get (pending_probes d) n = None)
         (d_alive_nodes d))"

definition on_ping_tick ::
  "((NodeId \<times> SocketAddr) list \<Rightarrow> (NodeId \<times> SocketAddr) option) \<Rightarrow> (nat \<Rightarrow> (NodeId \<times> SocketAddr) list \<Rightarrow> (NodeId \<times> SocketAddr) list) \<Rightarrow>
   nat \<Rightarrow> FailureDetector \<Rightarrow> FailureDetector \<times> (NodeId \<times> SocketAddr \<times> (NodeId \<times> SocketAddr) list) option" where
  "on_ping_tick pick pick_relays now d =
     (if probe_candidates d = [] then (d, None)
      else case pick (probe_candidates d) of
          None \<Rightarrow> (d, None)
        | Some (target, addr) \<Rightarrow>
            let relays = pick_relays (unat (dc_indirect_ping_count (d_config d)))
                  (map (\<lambda>(n, _, a, _). (n, a))
                    (filter (\<lambda>(n, st, _, _). st = Alive \<and> n \<noteq> d_node_id d \<and> n \<noteq> target) (d_alive_nodes d)))
            in if \<not> d_pool d then (d, None)
               else (d\<lparr>pending_probes := hm_insert target now (pending_probes d)\<rparr>, Some (target, addr, relays)))"

text \<open>The verdict of a probe cycle from the answers of the direct probe and of the relayed ones.\<close>

definition run_probe_cycle :: "bool \<Rightarrow> (NodeId \<times> SocketAddr \<Rightarrow> bool) \<Rightarrow> (NodeId \<times> SocketAddr) list \<Rightarrow> bool" where
  "run_probe_cycle direct_ack relay_ack relays =
     (if direct_ack then True else if relays = [] then False else (\<exists>r \<in> set relays. relay_ack r))"

definition detector_tick ::
  "((NodeId \<times> SocketAddr) list \<Rightarrow> (NodeId \<times> SocketAddr) option) \<Rightarrow> (nat \<Rightarrow> (NodeId \<times> SocketAddr) list \<Rightarrow> (NodeId \<times> SocketAddr) list) \<Rightarrow>
   nat \<Rightarrow> nat \<Rightarrow> FailureDetector \<Rightarrow> FailureDetector" where
  "detector_tick pick pick_relays now now' d = check_suspicion_timers now' (fst (on_ping_tick pick pick_relays now d))"

section \<open>The probe service\<close>

record ProbeResponse =
  ack :: bool
  pr_incarnation :: u64

definition nack :: ProbeResponse where "nack = \<lparr>ack = False, pr_incarnation = 0\<rparr>"

definition ack_for_target :: "Membership \<Rightarrow> NodeId \<Rightarrow> ProbeResponse option" where
  "ack_for_target m target =
     (if target = node_id m
      then Some \<lparr>ack = True, pr_incarnation = (case incarnation_of m target of Some i \<Rightarrow> i | None \<Rightarrow> 1)\<rparr> else None)"

text \<open>\<^verbatim>\<open>call\<close> is the direct probe of another node over the network; \<^verbatim>\<open>None\<close> is any failure or timeout.\<close>

definition forward_to :: "(SocketAddr \<Rightarrow> NodeId \<Rightarrow> ProbeResponse option) \<Rightarrow> Membership \<Rightarrow> NodeId \<Rightarrow> ProbeResponse" where
  "forward_to call m target =
     (case membership_address_of m target of
        None \<Rightarrow> nack
      | Some addr \<Rightarrow> (case call addr target of Some r \<Rightarrow> r | None \<Rightarrow> nack))"

definition probe :: "(SocketAddr \<Rightarrow> NodeId \<Rightarrow> ProbeResponse option) \<Rightarrow> Membership \<Rightarrow> NodeId option \<Rightarrow> bool \<Rightarrow> ProbeResponse" where
  "probe call m target is_indirect =
     (case target of
        None \<Rightarrow> nack
      | Some t \<Rightarrow>
          (case ack_for_target m t of
             Some r \<Rightarrow> r
           | None \<Rightarrow> if is_indirect then forward_to call m t else nack))"

definition handle_probe :: "NodeId \<Rightarrow> Incarnation \<Rightarrow> NodeId option \<Rightarrow> ProbeResponse" where
  "handle_probe nid inc target =
     (if target = Some nid then \<lparr>ack = True, pr_incarnation = inc\<rparr> else nack)"


section \<open>The log of events\<close>

definition about :: "NodeId \<Rightarrow> MembershipEvent list \<Rightarrow> MembershipEvent list" where
  "about n evs = filter (\<lambda>e. ev_node_id e = n) evs"

definition last_about :: "NodeId \<Rightarrow> MembershipEvent list \<Rightarrow> MembershipEvent option" where
  "last_about n evs = (if about n evs = [] then None else Some (last (about n evs)))"

definition suspected :: "NodeId \<Rightarrow> Incarnation \<Rightarrow> MembershipEvent list \<Rightarrow> bool" where
  "suspected n inc evs \<longleftrightarrow> (\<exists>s. last_about n evs = Some s \<and> ev_new_state s = Suspect \<and> ev_incarnation s = inc)"

definition log_inv :: "NodeId \<Rightarrow> MembershipEvent list \<Rightarrow> bool" where
  "log_inv self evs \<longleftrightarrow> (\<forall>ys e zs. evs = ys @ e # zs \<longrightarrow>
     ev_origin e = self \<and> ev_version e = of_nat (Suc (length (about (ev_node_id e) ys))) \<and>
     (ev_new_state e = Dead \<longrightarrow> suspected (ev_node_id e) (ev_incarnation e) ys))"

lemma about_snoc: "about n (evs @ [e]) = (if ev_node_id e = n then about n evs @ [e] else about n evs)"
  by (simp add: about_def)

lemma last_about_snoc: "last_about n (evs @ [e]) = (if ev_node_id e = n then Some e else last_about n evs)"
  by (simp add: last_about_def about_snoc)

lemma suspected_snoc:
  "suspected n i (evs @ [e]) \<longleftrightarrow>
     (if ev_node_id e = n then ev_new_state e = Suspect \<and> ev_incarnation e = i else suspected n i evs)"
  by (simp add: suspected_def last_about_snoc)

lemma snoc_split: "evs @ [x] = ys @ e # zs \<longleftrightarrow> ys = evs \<and> e = x \<and> zs = [] \<or> (\<exists>zs'. zs = zs' @ [x] \<and> evs = ys @ e # zs')"
  by (cases zs rule: rev_cases) auto

lemma log_inv_snoc:
  "log_inv self (evs @ [e]) \<longleftrightarrow> log_inv self evs \<and> ev_origin e = self \<and>
     ev_version e = of_nat (Suc (length (about (ev_node_id e) evs))) \<and>
     (ev_new_state e = Dead \<longrightarrow> suspected (ev_node_id e) (ev_incarnation e) evs)"
  by (auto simp: log_inv_def snoc_split)

section \<open>The invariant of the detector\<close>

definition detector_inv :: "FailureDetector \<Rightarrow> bool" where
  "detector_inv d \<longleftrightarrow> log_inv (d_node_id d) (d_events d) \<and> hm_wf (suspicion_timers d) \<and>
     (\<forall>n. (case hm_get (versions d) n of None \<Rightarrow> 0 | Some v \<Rightarrow> v) = of_nat (length (about n (d_events d)))) \<and>
     (\<forall>n i t. hm_get (suspicion_timers d) n = Some (i, t) \<longrightarrow> suspected n i (d_events d))"

lemma send_event_fields [simp]:
  "d_config (send_event n old new inc d) = d_config d" "suspicion_timers (send_event n old new inc d) = suspicion_timers d"
  "d_node_id (send_event n old new inc d) = d_node_id d" "d_alive_nodes (send_event n old new inc d) = d_alive_nodes d"
  "pending_probes (send_event n old new inc d) = pending_probes d" "d_pool (send_event n old new inc d) = d_pool d"
  by (simp_all add: send_event_def next_version_def Let_def)

definition sent :: "NodeId \<Rightarrow> NodeState \<Rightarrow> NodeState \<Rightarrow> Incarnation \<Rightarrow> FailureDetector \<Rightarrow> MembershipEvent" where
  "sent n old new inc d = \<lparr>ev_node_id = n, ev_old_state = old, ev_new_state = new, ev_incarnation = inc, ev_address = None,
     ev_version = (case hm_get (versions d) n of None \<Rightarrow> 0 | Some v \<Rightarrow> v) + 1, ev_origin = d_node_id d,
     ev_membership_address = None, ev_manifest = None\<rparr>"

lemma sent_fields [simp]:
  "ev_node_id (sent n old new inc d) = n" "ev_new_state (sent n old new inc d) = new" "ev_incarnation (sent n old new inc d) = inc"
  "ev_origin (sent n old new inc d) = d_node_id d"
  "ev_version (sent n old new inc d) = (case hm_get (versions d) n of None \<Rightarrow> 0 | Some v \<Rightarrow> v) + 1"
  by (simp_all add: sent_def)

lemma send_event_log: "d_events (send_event n old new inc d) = d_events d @ [sent n old new inc d]"
  by (simp add: send_event_def next_version_def sent_def Let_def)

lemma send_event_versions:
  "hm_get (versions (send_event n old new inc d)) k =
     (if k = n then Some ((case hm_get (versions d) n of None \<Rightarrow> 0 | Some v \<Rightarrow> v) + 1) else hm_get (versions d) k)"
  by (simp add: send_event_def next_version_def Let_def)

text \<open>
  The shape of every change of the detector: some timers are dropped, and possibly one event about one node is sent,
  whose timer then is either gone or the one just started.
\<close>

lemma send_event_inv:
  assumes "detector_inv d" "d_node_id d' = d_node_id d" "d_events d' = d_events d" "versions d' = versions d"
    and "hm_wf (suspicion_timers d')"
    and "\<And>k x. k \<noteq> n \<Longrightarrow> hm_get (suspicion_timers d') k = Some x \<Longrightarrow> hm_get (suspicion_timers d) k = Some x"
    and "new = Dead \<Longrightarrow> suspected n inc (d_events d)"
    and "\<And>i t. hm_get (suspicion_timers d') n = Some (i, t) \<Longrightarrow> new = Suspect \<and> i = inc"
  shows "detector_inv (send_event n old new inc d')"
proof -
  have v: "(case hm_get (versions d) k of None \<Rightarrow> 0 | Some v \<Rightarrow> v) = of_nat (length (about k (d_events d)))" for k
    using assms(1) by (simp add: detector_inv_def)
  have "log_inv (d_node_id d) (d_events d @ [sent n old new inc d'])"
    using assms(1-4,7) v by (simp add: log_inv_snoc detector_inv_def)
  moreover have "(case hm_get (versions (send_event n old new inc d')) k of None \<Rightarrow> 0 | Some v \<Rightarrow> v) =
      of_nat (length (about k (d_events d @ [sent n old new inc d'])))" for k
    using v assms(4) by (simp add: send_event_versions about_snoc)
  moreover have "suspected k i (d_events d @ [sent n old new inc d'])" if "hm_get (suspicion_timers d') k = Some (i, t)" for k i t
    using assms(1,6,8) that by (auto simp: suspected_snoc detector_inv_def)
  ultimately show ?thesis using assms(2,3,5) by (auto simp: detector_inv_def send_event_log)
qed

lemma drop_timers_inv:
  assumes "detector_inv d" "d_node_id d' = d_node_id d" "d_events d' = d_events d" "versions d' = versions d"
    and "hm_wf (suspicion_timers d')"
    and "\<And>k x. hm_get (suspicion_timers d') k = Some x \<Longrightarrow> hm_get (suspicion_timers d) k = Some x"
  shows "detector_inv d'"
  using assms by (auto simp: detector_inv_def)

lemma hm_wf_timers: "detector_inv d \<Longrightarrow> hm_wf (suspicion_timers d)"
  by (simp add: detector_inv_def)

lemma mark_suspect_inv: "detector_inv d \<Longrightarrow> detector_inv (mark_suspect now n d)"
  by (auto simp: mark_suspect_def hm_wf_timers intro: send_event_inv split: option.splits if_splits)

lemma recover_suspect_inv: "detector_inv d \<Longrightarrow> detector_inv (recover_suspect n d)"
  by (auto simp: recover_suspect_def Let_def hm_wf_timers intro: send_event_inv drop_timers_inv
      split: option.splits if_splits)

lemma expire_timer_inv:
  assumes "detector_inv d" "hm_get (suspicion_timers d) n \<noteq> None"
  shows "detector_inv (expire_timer n d)"
proof -
  obtain i t where t: "hm_get (suspicion_timers d) n = Some (i, t)" using assms(2) by auto
  then have "suspected n i (d_events d)" using assms(1) by (auto simp: detector_inv_def)
  then show ?thesis
    using assms(1) t recover_suspect_inv [OF assms(1)]
    by (auto simp: expire_timer_def Let_def hm_wf_timers intro!: send_event_inv split: option.splits if_splits)
qed

lemma expire_timer_others:
  assumes "k \<noteq> n"
  shows "hm_get (suspicion_timers (expire_timer n d)) k = hm_get (suspicion_timers d) k"
    "incarnation_for (expire_timer n d) k = incarnation_for d k"
proof -
  have "List.find (\<lambda>(a, _, _, _). a = k) (filter (\<lambda>(a, _, _, _). a \<noteq> n) xs) = List.find (\<lambda>(a, _, _, _). a = k) xs"
    for xs :: "(NodeId \<times> NodeState \<times> SocketAddr \<times> Incarnation) list"
    using assms by (induction xs) auto
  then show "hm_get (suspicion_timers (expire_timer n d)) k = hm_get (suspicion_timers d) k"
    "incarnation_for (expire_timer n d) k = incarnation_for d k"
    using assms
    by (auto simp: expire_timer_def recover_suspect_def incarnation_for_def Let_def split: option.splits)
qed

lemma expired_nodes_iff:
  assumes "hm_wf (suspicion_timers d)"
  shows "n \<in> set (expired_nodes now d) \<longleftrightarrow>
    (\<exists>i since. hm_get (suspicion_timers d) n = Some (i, since) \<and> now - since \<ge> millis (dc_suspicion_timeout_ms (d_config d)))"
    "distinct (expired_nodes now d)"
proof -
  have "hm_get (suspicion_timers d) n = Some x \<longleftrightarrow> (n, x) \<in> set (suspicion_timers d)" for x
    using assms by (auto simp: hm_get_def hm_wf_def)
  then show "n \<in> set (expired_nodes now d) \<longleftrightarrow>
    (\<exists>i since. hm_get (suspicion_timers d) n = Some (i, since) \<and> now - since \<ge> millis (dc_suspicion_timeout_ms (d_config d)))"
    by (force simp: expired_nodes_def)
  show "distinct (expired_nodes now d)"
    using assms by (simp add: expired_nodes_def hm_wf_def distinct_map_filter)
qed

lemma fold_expire_inv:
  "detector_inv d \<Longrightarrow> distinct ns \<Longrightarrow> \<forall>n \<in> set ns. hm_get (suspicion_timers d) n \<noteq> None \<Longrightarrow> detector_inv (fold expire_timer ns d)"
proof (induction ns arbitrary: d)
  case (Cons n ns)
  have "hm_get (suspicion_timers (expire_timer n d)) k = hm_get (suspicion_timers d) k" if "k \<in> set ns" for k
    using that Cons.prems(2) by (intro expire_timer_others) auto
  then show ?case using Cons.prems Cons.IH [OF expire_timer_inv [of d n]] by simp
qed simp

lemma check_suspicion_timers_inv: "detector_inv d \<Longrightarrow> detector_inv (check_suspicion_timers now d)"
  unfolding check_suspicion_timers_def
  by (rule fold_expire_inv) (auto simp: expired_nodes_iff hm_wf_timers)

lemma detector_command_inv: "detector_inv d \<Longrightarrow> detector_inv (snd (detector_command now c d))"
proof -
  assume d: "detector_inv d"
  have "detector_inv (d\<lparr>pending_probes := p\<rparr>)" for p using d by (simp add: detector_inv_def)
  then show ?thesis using d
    by (cases c) (auto simp: Let_def mark_suspect_inv recover_suspect_inv hm_wf_timers intro: drop_timers_inv split: if_splits)
qed

lemma on_ping_tick_fields:
  "suspicion_timers (fst (on_ping_tick pick pr now d)) = suspicion_timers d" "d_events (fst (on_ping_tick pick pr now d)) = d_events d"
  "versions (fst (on_ping_tick pick pr now d)) = versions d" "d_node_id (fst (on_ping_tick pick pr now d)) = d_node_id d"
  "d_alive_nodes (fst (on_ping_tick pick pr now d)) = d_alive_nodes d" "d_config (fst (on_ping_tick pick pr now d)) = d_config d"
  by (auto simp: on_ping_tick_def Let_def split: option.splits)

lemma detector_tick_inv: "detector_inv d \<Longrightarrow> detector_inv (detector_tick pick pr now now' d)"
  unfolding detector_tick_def
  by (rule check_suspicion_timers_inv) (simp add: detector_inv_def on_ping_tick_fields)

section \<open>Runs of the detector\<close>

inductive detector_step :: "FailureDetector \<Rightarrow> FailureDetector \<Rightarrow> bool" where
  command: "detector_step d (snd (detector_command now c d))"
| tick: "detector_step d (detector_tick pick pick_relays now now' d)"

lemma detector_run_inv: "detector_step\<^sup>*\<^sup>* d d' \<Longrightarrow> detector_inv d \<Longrightarrow> detector_inv d'"
  by (induction rule: rtranclp_induct) (auto elim!: detector_step.cases intro: detector_command_inv detector_tick_inv)

lemma detector_new_inv: "detector_inv (FailureDetector_new cfg self p)"
  by (simp add: detector_inv_def FailureDetector_new_def log_inv_def about_def hm_wf_def hm_get_def)

lemma mark_suspect_id: "d_node_id (mark_suspect now n d) = d_node_id d"
  by (simp add: mark_suspect_def split: option.splits)

lemma recover_suspect_id: "d_node_id (recover_suspect n d) = d_node_id d"
  by (simp add: recover_suspect_def Let_def split: option.splits)

lemma expire_timer_id: "d_node_id (expire_timer n d) = d_node_id d"
  by (simp add: expire_timer_def Let_def recover_suspect_id)

lemma check_suspicion_timers_id: "d_node_id (check_suspicion_timers now d) = d_node_id d"
proof -
  have "d_node_id (fold expire_timer ns d) = d_node_id d" for ns
    by (induction ns arbitrary: d) (simp_all add: expire_timer_id)
  then show ?thesis by (simp add: check_suspicion_timers_def)
qed

lemma detector_step_id: "detector_step d d' \<Longrightarrow> d_node_id d' = d_node_id d"
proof (induction rule: detector_step.induct)
  case (command d now c)
  then show ?case by (cases c) (simp_all add: Let_def mark_suspect_id recover_suspect_id)
next
  case (tick d pick pr now now')
  then show ?case by (simp add: detector_tick_def check_suspicion_timers_id on_ping_tick_fields)
qed

lemma detector_run_id: "detector_step\<^sup>*\<^sup>* d d' \<Longrightarrow> d_node_id d' = d_node_id d"
  by (induction rule: rtranclp_induct) (simp_all add: detector_step_id)

section \<open>Expiry\<close>

definition dead_facts :: "MembershipEvent list \<Rightarrow> (NodeId \<times> Incarnation) set" where
  "dead_facts evs = {(ev_node_id e, ev_incarnation e) | e. e \<in> set evs \<and> ev_new_state e = Dead}"

definition superseded :: "FailureDetector \<Rightarrow> NodeId \<Rightarrow> Incarnation \<Rightarrow> bool" where
  "superseded d n inc = (case incarnation_for d n of None \<Rightarrow> False | Some cur \<Rightarrow> cur > inc)"

lemma dead_facts_append: "dead_facts (xs @ ys) = dead_facts xs \<union> dead_facts ys"
  by (auto simp: dead_facts_def)

lemma recover_suspect_dead_facts: "dead_facts (d_events (recover_suspect n d)) = dead_facts (d_events d)"
  by (auto simp: recover_suspect_def Let_def send_event_log dead_facts_append dead_facts_def split: option.splits)

lemma expire_timer_dead_facts:
  assumes "hm_get (suspicion_timers d) n = Some (i, t)"
  shows "dead_facts (d_events (expire_timer n d)) = dead_facts (d_events d) \<union> (if superseded d n i then {} else {(n, i)})"
proof (cases "superseded d n i")
  case True
  then show ?thesis using assms
    by (auto simp: expire_timer_def superseded_def recover_suspect_dead_facts split: option.splits)
next
  case False
  then show ?thesis using assms
    by (auto simp: expire_timer_def superseded_def Let_def send_event_log dead_facts_append split: option.splits)
      (auto simp: dead_facts_def)
qed

lemma fold_expire_dead_facts:
  "distinct ns \<Longrightarrow> \<forall>n \<in> set ns. hm_get (suspicion_timers d) n \<noteq> None \<Longrightarrow>
   dead_facts (d_events (fold expire_timer ns d)) = dead_facts (d_events d) \<union>
     {(n, i) | n i t. n \<in> set ns \<and> hm_get (suspicion_timers d) n = Some (i, t) \<and> \<not> superseded d n i}"
proof (induction ns arbitrary: d)
  case (Cons n ns)
  then obtain i t where t: "hm_get (suspicion_timers d) n = Some (i, t)" by auto
  have "superseded (expire_timer n d) k j = superseded d k j"
    "hm_get (suspicion_timers (expire_timer n d)) k = hm_get (suspicion_timers d) k" if "k \<in> set ns" for k j
  proof -
    have "k \<noteq> n" using that Cons.prems(1) by auto
    then show "superseded (expire_timer n d) k j = superseded d k j"
      "hm_get (suspicion_timers (expire_timer n d)) k = hm_get (suspicion_timers d) k"
      by (simp_all add: superseded_def expire_timer_others)
  qed
  then show ?case
    using Cons.prems Cons.IH [of "expire_timer n d"] t by (auto simp: expire_timer_dead_facts)
qed simp

lemma check_dead_facts:
  assumes "hm_wf (suspicion_timers d)"
  shows "dead_facts (d_events (check_suspicion_timers now d)) = dead_facts (d_events d) \<union>
    {(n, i) | n i since. hm_get (suspicion_timers d) n = Some (i, since) \<and> \<not> superseded d n i \<and>
       now - since \<ge> millis (dc_suspicion_timeout_ms (d_config d))}"
proof -
  have "dead_facts (d_events (fold expire_timer (expired_nodes now d) d)) = dead_facts (d_events d) \<union>
     {(n, i) | n i t. n \<in> set (expired_nodes now d) \<and> hm_get (suspicion_timers d) n = Some (i, t) \<and> \<not> superseded d n i}"
    using assms by (intro fold_expire_dead_facts) (auto simp: expired_nodes_iff)
  then show ?thesis using assms by (auto simp: check_suspicion_timers_def expired_nodes_iff)
qed

section \<open>A node that stays silent\<close>

text \<open>
  Steps during which nothing is heard of node \<open>n\<close>: no probe of it succeeds, it is not removed, the list of alive nodes
  never brings a higher incarnation of it, and the ticks come before the timeout of its suspicion.
\<close>

fun quiet :: "NodeId \<Rightarrow> Incarnation \<Rightarrow> DetectorCommand \<Rightarrow> bool" where
  "quiet n i (PingResponse k success) = (k = n \<longrightarrow> \<not> success)"
| "quiet n i (UpdateAliveNodes ns) = list_all (\<lambda>(k, _, _, j). k = n \<longrightarrow> j \<le> i) ns"
| "quiet n i (RemoveNode k) = (k \<noteq> n)"
| "quiet n i DetectorSetPool = True"
| "quiet n i DetectorShutdown = False"

inductive quiet_step :: "NodeId \<Rightarrow> Incarnation \<Rightarrow> nat \<Rightarrow> FailureDetector \<Rightarrow> FailureDetector \<Rightarrow> bool" for n i t0 where
  quiet_command: "quiet n i c \<Longrightarrow> quiet_step n i t0 d (snd (detector_command now c d))"
| quiet_tick: "now' - t0 < millis (dc_suspicion_timeout_ms (d_config d)) \<Longrightarrow>
    quiet_step n i t0 d (detector_tick pick pick_relays now now' d)"

definition waiting :: "NodeId \<Rightarrow> Incarnation \<Rightarrow> nat \<Rightarrow> DetectorConfig \<Rightarrow> FailureDetector \<Rightarrow> bool" where
  "waiting n i t0 cfg d \<longleftrightarrow> detector_inv d \<and> d_config d = cfg \<and> hm_get (suspicion_timers d) n = Some (i, t0) \<and>
     \<not> superseded d n i"

lemma find_filter_other:
  "k \<noteq> n \<Longrightarrow> List.find (\<lambda>(a, _, _, _). a = n) (filter (\<lambda>(a, _, _, _). a \<noteq> k) xs) = List.find (\<lambda>(a, _, _, _). a = n) xs"
  by (induction xs) auto

lemma find_bounded:
  "list_all (\<lambda>(k, _, _, j). k = n \<longrightarrow> j \<le> (i :: Incarnation)) ns \<Longrightarrow> List.find (\<lambda>(k, _, _, _). k = n) ns = Some (a, b, c, j) \<Longrightarrow> j \<le> i"
  by (induction ns) (auto split: if_splits)

lemma mark_suspect_other:
  "k \<noteq> n \<Longrightarrow> hm_get (suspicion_timers (mark_suspect now k d)) n = hm_get (suspicion_timers d) n"
  "d_alive_nodes (mark_suspect now k d) = d_alive_nodes d" "d_config (mark_suspect now k d) = d_config d"
  by (simp_all add: mark_suspect_def split: option.splits)

lemma mark_suspect_same: "hm_get (suspicion_timers d) n \<noteq> None \<Longrightarrow> mark_suspect now n d = d"
  by (simp add: mark_suspect_def)

lemma recover_suspect_other:
  "k \<noteq> n \<Longrightarrow> hm_get (suspicion_timers (recover_suspect k d)) n = hm_get (suspicion_timers d) n"
  "d_alive_nodes (recover_suspect k d) = d_alive_nodes d" "d_config (recover_suspect k d) = d_config d"
  by (simp_all add: recover_suspect_def Let_def split: option.splits)

lemma waiting_command: "quiet n i c \<Longrightarrow> waiting n i t0 cfg d \<Longrightarrow> waiting n i t0 cfg (snd (detector_command now c d))"
proof -
  assume q: "quiet n i c" and w: "waiting n i t0 cfg d"
  have inv: "detector_inv (snd (detector_command now c d))" using w by (simp add: waiting_def detector_command_inv)
  have "waiting n i t0 cfg (d\<lparr>pending_probes := p\<rparr>)" for p
    using w by (simp add: waiting_def detector_inv_def superseded_def incarnation_for_def)
  then show ?thesis using q w inv
  proof (cases c)
    case (PingResponse k success)
    then show ?thesis using q w inv
      by (cases "k = n")
        (auto simp: waiting_def Let_def mark_suspect_other recover_suspect_other superseded_def incarnation_for_def
           mark_suspect_same)
  next
    case (UpdateAliveNodes ns)
    then show ?thesis using q w inv
      by (auto simp: waiting_def superseded_def incarnation_for_def not_less dest: find_bounded split: option.splits)
  qed (auto simp: waiting_def superseded_def incarnation_for_def find_filter_other)
qed

lemma expire_timer_config: "d_config (expire_timer n d) = d_config d"
  by (simp add: expire_timer_def Let_def recover_suspect_other)

lemma fold_expire_other:
  "n \<notin> set ns \<Longrightarrow> hm_get (suspicion_timers (fold expire_timer ns d)) n = hm_get (suspicion_timers d) n \<and>
    incarnation_for (fold expire_timer ns d) n = incarnation_for d n \<and> d_config (fold expire_timer ns d) = d_config d"
  by (induction ns arbitrary: d) (auto simp: expire_timer_others expire_timer_config)

lemma waiting_tick:
  assumes "now' - t0 < millis (dc_suspicion_timeout_ms (d_config d))" "waiting n i t0 cfg d"
  shows "waiting n i t0 cfg (detector_tick pick pr now now' d)"
proof -
  let ?d = "fst (on_ping_tick pick pr now d)"
  have "detector_inv ?d" using assms(2) by (simp add: waiting_def detector_inv_def on_ping_tick_fields)
  then have "n \<notin> set (expired_nodes now' ?d)"
    using assms by (auto simp: expired_nodes_iff hm_wf_timers on_ping_tick_fields waiting_def)
  from fold_expire_other [OF this, of ?d] show ?thesis
    using assms(2) detector_tick_inv [of d pick pr now now']
    by (simp add: waiting_def detector_tick_def check_suspicion_timers_def superseded_def on_ping_tick_fields incarnation_for_def)
qed

lemma waiting_run: "(quiet_step n i t0)\<^sup>*\<^sup>* d d' \<Longrightarrow> waiting n i t0 cfg d \<Longrightarrow> waiting n i t0 cfg d'"
  by (induction rule: rtranclp_induct) (auto elim!: quiet_step.cases intro: waiting_command waiting_tick)

lemma incarnation_for_updates:
  "incarnation_for (d\<lparr>pending_probes := p\<rparr>) n = incarnation_for d n"
  "incarnation_for (d\<lparr>pending_probes := p, suspicion_timers := t\<rparr>) n = incarnation_for d n"
  "incarnation_for (send_event k old new inc d) n = incarnation_for d n"
  by (simp_all add: incarnation_for_def)

lemma failed_probe_waits:
  assumes "detector_inv d" "incarnation_for d n = Some i" "hm_get (suspicion_timers d) n = None"
  shows "waiting n i t0 (d_config d) (snd (detector_command t0 (PingResponse n False) d))"
  using assms detector_command_inv [OF assms(1), of t0 "PingResponse n False"]
  by (simp add: waiting_def Let_def mark_suspect_def superseded_def incarnation_for_updates)

section \<open>A concrete run\<close>

text \<open>Node \<open>a\<close> knows node \<open>b\<close> at incarnation 4, and a probe of it fails at instant 0.\<close>

definition demo_detector :: FailureDetector where
  "demo_detector = FailureDetector_new (detector_config GossipConfig_default) ''a'' True"

definition demo_knowing :: FailureDetector where
  "demo_knowing = snd (detector_command 0 (UpdateAliveNodes [(''b'', Alive, V4 10 0 0 2 9000, 4)]) demo_detector)"

definition demo_suspecting :: FailureDetector where
  "demo_suspecting = snd (detector_command 0 (PingResponse ''b'' False) demo_knowing)"

lemmas demo_detector_simps = demo_detector_def demo_knowing_def demo_suspecting_def FailureDetector_new_def detector_config_def
  GossipConfig_default_def Let_def mark_suspect_def incarnation_for_def send_event_def next_version_def hm_get_def
  hm_insert_def hm_remove_def millis_def

lemma demo_knowing_reach: "detector_step\<^sup>*\<^sup>* (FailureDetector_new (detector_config GossipConfig_default) ''a'' True) demo_knowing"
  unfolding demo_knowing_def demo_detector_def by (intro r_into_rtranclp detector_step.command)

lemma demo_suspecting_reach: "detector_step\<^sup>*\<^sup>* (FailureDetector_new (detector_config GossipConfig_default) ''a'' True) demo_suspecting"
  unfolding demo_suspecting_def by (rule rtranclp.rtrancl_into_rtrancl [OF demo_knowing_reach]) (rule detector_step.command)

lemma demo_checked_reach:
  "detector_step\<^sup>*\<^sup>* (FailureDetector_new (detector_config GossipConfig_default) ''a'' True) (check_suspicion_timers t demo_suspecting)"
proof -
  have "detector_step demo_suspecting (detector_tick (\<lambda>_. None) (\<lambda>_ _. []) 0 t demo_suspecting)" by (rule detector_step.tick)
  then show ?thesis
    by (intro rtranclp.rtrancl_into_rtrancl [OF demo_suspecting_reach]) (simp add: detector_tick_def on_ping_tick_def split: if_splits)
qed

section \<open>What the detector guarantees\<close>

text \<open>
  C22: a detector never declares a node dead without having suspected that incarnation of it before: in every reachable state, each
  Dead event of the log is preceded, as the last event about that node, by a Suspect event of the same incarnation.
  Moreover every event names this node as its origin, and the version of an event is one more than the number of earlier events
  about the same node (modulo the 64 bits of the version).
\<close>

theorem dead_only_after_suspect:
  assumes "detector_step\<^sup>*\<^sup>* (FailureDetector_new cfg self p) d" "d_events d = ys @ e # zs"
  shows "ev_origin e = self \<and> ev_version e = of_nat (Suc (length (about (ev_node_id e) ys))) \<and>
    (ev_new_state e = Dead \<longrightarrow>
       (\<exists>s. last_about (ev_node_id e) ys = Some s \<and> ev_new_state s = Suspect \<and> ev_incarnation s = ev_incarnation e))"
proof -
  have "log_inv self (d_events d)"
    using detector_run_inv [OF assms(1) detector_new_inv] detector_run_id [OF assms(1)]
    by (simp add: detector_inv_def FailureDetector_new_def)
  then show ?thesis using assms(2) by (auto simp: log_inv_def suspected_def)
qed

theorem dead_only_after_suspect_witness:
  "\<exists>s e. d_events (check_suspicion_timers 9000000000 demo_suspecting) = [s, e] \<and> ev_new_state e = Dead \<and>
     last_about ''b'' [s] = Some s \<and> ev_new_state s = Suspect \<and> ev_incarnation s = ev_incarnation e"
proof -
  let ?d = "check_suspicion_timers 9000000000 demo_suspecting"
  obtain s e where *: "d_events ?d = [s] @ e # []" "ev_new_state e = Dead" "ev_node_id e = ''b''"
    by (auto simp: demo_detector_simps expired_nodes_def expire_timer_def check_suspicion_timers_def)
  show ?thesis using dead_only_after_suspect [OF demo_checked_reach *(1)] * by (auto simp: last_about_def about_def split: if_splits)
qed

text \<open>
  A pass over the suspicion timers declares dead exactly the nodes whose suspicion is at least the configured timeout old
  and whose incarnation has not been superseded by a higher one.
\<close>

theorem expiry_exact:
  assumes "detector_step\<^sup>*\<^sup>* (FailureDetector_new cfg self p) d"
  shows "dead_facts (d_events (check_suspicion_timers now d)) = dead_facts (d_events d) \<union>
    {(n, i) | n i since. hm_get (suspicion_timers d) n = Some (i, since) \<and>
       \<not> (case incarnation_for d n of None \<Rightarrow> False | Some cur \<Rightarrow> cur > i) \<and>
       now - since \<ge> unat (dc_suspicion_timeout_ms (d_config d)) * 1000000}"
  using check_dead_facts [of d now] detector_run_inv [OF assms detector_new_inv]
  by (simp add: hm_wf_timers superseded_def millis_def)

theorem expiry_exact_witness:
  "dead_facts (d_events (check_suspicion_timers 9000000000 demo_suspecting)) = {(''b'', 4)} \<and>
   dead_facts (d_events (check_suspicion_timers 1000 demo_suspecting)) = {}"
  unfolding expiry_exact [OF demo_suspecting_reach, of 9000000000] expiry_exact [OF demo_suspecting_reach, of 1000]
  by (auto simp: demo_detector_simps dead_facts_def split: if_splits)

text \<open>
  C24: a node that stays silent is declared dead.  After a failed probe of a known, unsuspected node, however many other commands
  and ticks come in between without a sign of life of it, the first pass over the timers after the suspicion timeout declares that
  incarnation dead.
\<close>

theorem silent_node_declared_dead:
  assumes "detector_step\<^sup>*\<^sup>* (FailureDetector_new cfg self p) d"
    and "incarnation_for d n = Some i" "hm_get (suspicion_timers d) n = None"
    and "(quiet_step n i t0)\<^sup>*\<^sup>* (snd (detector_command t0 (PingResponse n False) d)) d'"
    and "now - t0 \<ge> unat (dc_suspicion_timeout_ms (d_config d)) * 1000000"
  shows "(n, i) \<in> dead_facts (d_events (check_suspicion_timers now d'))"
proof -
  have "waiting n i t0 (d_config d) d'"
    using waiting_run [OF assms(4) failed_probe_waits] detector_run_inv [OF assms(1) detector_new_inv] assms(2,3) by blast
  then show ?thesis using assms(5) by (auto simp: waiting_def check_dead_facts hm_wf_timers millis_def)
qed

theorem silent_node_declared_dead_witness:
  "(''b'', 4) \<in> dead_facts (d_events (check_suspicion_timers 9000000000
      (detector_tick (\<lambda>_. None) (\<lambda>_ _. []) 5 6 demo_suspecting)))"
proof -
  have "(quiet_step ''b'' 4 0)\<^sup>*\<^sup>* demo_suspecting (detector_tick (\<lambda>_. None) (\<lambda>_ _. []) 5 6 demo_suspecting)"
    by (rule r_into_rtranclp, rule quiet_tick) (simp add: demo_detector_simps)
  from silent_node_declared_dead [OF demo_knowing_reach _ _ this [unfolded demo_suspecting_def]]
  show ?thesis by (simp add: demo_suspecting_def [symmetric]) (simp add: demo_detector_simps)
qed

end
