(* ===== verification/ByteCodec.thy ===== *)
theory ByteCodec
  imports Prelude
begin

text \<open>
  Byte-level vocabulary of the on-disk formats: slices of a buffer and the little-endian form of machine integers
  (\<^verbatim>\<open>to_le_bytes\<close> and \<^verbatim>\<open>from_le_bytes\<close>), with the round trips the record formats rest on.
\<close>

named_theorems codec

section \<open>Slices\<close>

text \<open>\<^verbatim>\<open>&xs[a..b]\<close>, used where \<open>a \<le> b \<le> length xs\<close>.\<close>

definition slice :: "'a list \<Rightarrow> nat \<Rightarrow> nat \<Rightarrow> 'a list" where
  "slice xs a b = take (b - a) (drop a xs)"

lemma length_slice [simp]: "length (slice xs a b) = min (b - a) (length xs - a)"
  by (auto simp: slice_def)

lemma slice_skip: "length ys \<le> a \<Longrightarrow> slice (ys @ zs) a b = slice zs (a - length ys) (b - length ys)"
  by (simp add: slice_def)

lemma slice_exact: "length ys = b \<Longrightarrow> slice (ys @ zs) 0 b = ys"
  by (simp add: slice_def)

lemma slice_take: "b \<le> n \<Longrightarrow> slice (take n xs) a b = slice xs a b"
  by (simp add: slice_def drop_take min_def)

section \<open>Little-endian integers\<close>

primrec le_bytes :: "nat \<Rightarrow> nat \<Rightarrow> u8 list" where
  "le_bytes 0 v = []"
| "le_bytes (Suc n) v = of_nat v # le_bytes n (v div 256)"

primrec from_le :: "u8 list \<Rightarrow> nat" where
  "from_le [] = 0"
| "from_le (b # bs) = unat b + 256 * from_le bs"

definition u32_to_le :: "u32 \<Rightarrow> u8 list" where "u32_to_le w = le_bytes 4 (unat w)"
definition u64_to_le :: "u64 \<Rightarrow> u8 list" where "u64_to_le w = le_bytes 8 (unat w)"
definition u32_from_le :: "u8 list \<Rightarrow> u32" where "u32_from_le bs = of_nat (from_le bs)"
definition u64_from_le :: "u8 list \<Rightarrow> u64" where "u64_from_le bs = of_nat (from_le bs)"

lemma length_le_bytes [simp]: "length (le_bytes n v) = n"
  by (induction n arbitrary: v) auto

lemma from_le_le_bytes: "from_le (le_bytes n v) = v mod 256 ^ n"
proof (induction n arbitrary: v)
  case (Suc n)
  have "unat (of_nat v :: u8) = v mod 256" by (simp add: unat_of_nat)
  then show ?case using Suc by (simp add: mod_mult2_eq)
qed simp

lemma length_u32_to_le [simp, codec]: "length (u32_to_le w) = 4"
  by (simp add: u32_to_le_def)

lemma length_u64_to_le [simp, codec]: "length (u64_to_le w) = 8"
  by (simp add: u64_to_le_def)

lemma u32_le_round_trip [simp, codec]: "u32_from_le (u32_to_le w) = w"
proof -
  have "unat w < 256 ^ 4" using unsigned_less [of w] by simp
  then show ?thesis by (simp add: u32_from_le_def u32_to_le_def from_le_le_bytes del: of_nat_mod)
qed

lemma u64_le_round_trip [simp, codec]: "u64_from_le (u64_to_le w) = w"
proof -
  have "unat w < 256 ^ 8" using unsigned_less [of w] by simp
  then show ?thesis by (simp add: u64_from_le_def u64_to_le_def from_le_le_bytes del: of_nat_mod)
qed

end
