(* ===== verification/WalEntries.thy ===== *)
theory WalEntries
  imports ByteCodec
begin

text \<open>
  The records of the data write-ahead log (\<^verbatim>\<open>oceanfs-storage/src/wal/entry.rs\<close>) and the readers that replay them
  (\<^verbatim>\<open>wal/reader.rs\<close>).  The CRC-32 function of the \<^verbatim>\<open>crc32fast\<close> crate is the argument \<open>crc32\<close>.  A log directory is the list of
  its files in order of their sequence numbers; opening a file is taken to succeed.
\<close>

type_synonym SegmentId = "u8 list"

section \<open>Entries\<close>

definition WAL_ENTRY_MAGIC :: "u8 list" where "WAL_ENTRY_MAGIC = [87, 65, 76, 1]"

record WalEntry =
  we_magic :: "u8 list"
  we_segment_id :: SegmentId
  we_offset :: u64
  we_length :: u32
  we_logical_length :: u32
  we_tier :: u8
  we_hlc_wall_time :: u64
  we_hlc_logical :: u32
  we_checksum :: "u8 list"
  we_crc :: u32
  we_data :: "u8 list"

definition header_size :: nat where "header_size = 88"

definition crc_input :: "WalEntry \<Rightarrow> u8 list" where
  "crc_input e = we_magic e @ we_segment_id e @ u64_to_le (we_offset e) @ u32_to_le (we_length e) @
     u32_to_le (we_logical_length e) @ [we_tier e] @ [0, 0, 0] @ u64_to_le (we_hlc_wall_time e) @
     u32_to_le (we_hlc_logical e) @ we_checksum e"

definition compute_crc :: "(u8 list \<Rightarrow> u32) \<Rightarrow> WalEntry \<Rightarrow> u32" where
  "compute_crc crc32 e = crc32 (crc_input e)"

definition WalEntry_new ::
  "(u8 list \<Rightarrow> u32) \<Rightarrow> SegmentId \<Rightarrow> u64 \<Rightarrow> u32 \<Rightarrow> u32 \<Rightarrow> u8 \<Rightarrow> u64 \<Rightarrow> u32 \<Rightarrow> u8 list \<Rightarrow> u8 list \<Rightarrow> WalEntry" where
  "WalEntry_new crc32 sid off len logical tier wall logic checksum dat =
     (let entry = \<lparr>we_magic = WAL_ENTRY_MAGIC, we_segment_id = sid, we_offset = off, we_length = len,
            we_logical_length = logical, we_tier = tier, we_hlc_wall_time = wall, we_hlc_logical = logic,
            we_checksum = checksum, we_crc = 0, we_data = dat\<rparr>
      in entry\<lparr>we_crc := compute_crc crc32 entry\<rparr>)"

definition verify_crc :: "(u8 list \<Rightarrow> u32) \<Rightarrow> WalEntry \<Rightarrow> bool" where
  "verify_crc crc32 e \<longleftrightarrow> we_crc e = compute_crc crc32 e"

definition to_header_bytes :: "WalEntry \<Rightarrow> u8 list" where
  "to_header_bytes e = we_magic e @ we_segment_id e @ u64_to_le (we_offset e) @ u32_to_le (we_length e) @
     u32_to_le (we_logical_length e) @ [we_tier e] @ [0, 0, 0] @ u64_to_le (we_hlc_wall_time e) @
     u32_to_le (we_hlc_logical e) @ we_checksum e @ u32_to_le (we_crc e)"

definition to_bytes :: "WalEntry \<Rightarrow> u8 list" where
  "to_bytes e = to_header_bytes e @ we_data e"

definition serialized_size :: "WalEntry \<Rightarrow> nat" where
  "serialized_size e = header_size + length (we_data e)"

definition from_header_bytes :: "(u8 list \<Rightarrow> u32) \<Rightarrow> u8 list \<Rightarrow> WalEntry option" where
  "from_header_bytes crc32 header =
     (if length header < header_size then None
      else if slice header 0 4 \<noteq> WAL_ENTRY_MAGIC then None
      else
        (let entry = \<lparr>we_magic = slice header 0 4, we_segment_id = slice header 4 20,
              we_offset = u64_from_le (slice header 20 28), we_length = u32_from_le (slice header 28 32),
              we_logical_length = u32_from_le (slice header 32 36), we_tier = header ! 36,
              we_hlc_wall_time = u64_from_le (slice header 40 48), we_hlc_logical = u32_from_le (slice header 48 52),
              we_checksum = slice header 52 84, we_crc = u32_from_le (slice header 84 88), we_data = []\<rparr>
         in if verify_crc crc32 entry then Some entry else None))"

definition from_bytes :: "(u8 list \<Rightarrow> u32) \<Rightarrow> u8 list \<Rightarrow> WalEntry option" where
  "from_bytes crc32 bs =
     (case from_header_bytes crc32 bs of
        None \<Rightarrow> None
      | Some entry \<Rightarrow>
          (let n = unat (we_length entry)
           in if length bs < header_size + n then None
              else Some (entry\<lparr>we_data := slice bs header_size (header_size + n)\<rparr>)))"

section \<open>Replay\<close>

text \<open>Positions compare by file sequence, then by offset.\<close>

record DataWalPos =
  dp_file_seq :: u32
  dp_offset :: u64

definition pos_le :: "DataWalPos \<Rightarrow> DataWalPos \<Rightarrow> bool" where
  "pos_le p q \<longleftrightarrow> dp_file_seq p < dp_file_seq q \<or> dp_file_seq p = dp_file_seq q \<and> dp_offset p \<le> dp_offset q"

datatype wal_error = UnexpectedEof | SequenceTooLarge

type_synonym wal_dir = "(u64 \<times> u8 list) list"

definition file_seq_of :: "u64 \<Rightarrow> u32" where
  "file_seq_of seq = (if unat seq < 2 ^ 32 then of_nat (unat seq) else 0)"

text \<open>
  The entries of one open file from a reading position on.  \<open>is_last\<close> says that no further file follows: a record cut off
  in its data then ends the replay silently, and is an error otherwise.
\<close>

function file_entries :: "(u8 list \<Rightarrow> u32) \<Rightarrow> bool \<Rightarrow> u8 list \<Rightarrow> (wal_error, WalEntry) outcome list" where
  "file_entries crc32 is_last bs =
     (if length bs < header_size then []
      else case from_header_bytes crc32 (take header_size bs) of
          None \<Rightarrow> file_entries crc32 is_last (drop header_size bs)
        | Some parsed \<Rightarrow>
            (let rest = drop header_size bs; n = unat (we_length parsed)
             in if length rest < n then (if is_last then [] else [Err UnexpectedEof])
                else let entry = parsed\<lparr>we_data := take n rest\<rparr>
                     in if \<not> verify_crc crc32 entry then file_entries crc32 is_last (drop n rest)
                        else Ok entry # file_entries crc32 is_last (drop n rest)))"
  by pat_completeness auto
termination by (relation "measure (\<lambda>(_, _, bs). length bs)") (auto simp: header_size_def)

fun replay :: "(u8 list \<Rightarrow> u32) \<Rightarrow> wal_dir \<Rightarrow> (wal_error, WalEntry) outcome list" where
  "replay crc32 [] = []"
| "replay crc32 [(_, bs)] = file_entries crc32 True bs"
| "replay crc32 ((_, bs) # fs) = file_entries crc32 False bs @ replay crc32 fs"

text \<open>The position-yielding reader.\<close>

function file_positions ::
  "(u8 list \<Rightarrow> u32) \<Rightarrow> bool \<Rightarrow> u32 \<Rightarrow> u64 \<Rightarrow> u8 list \<Rightarrow> (wal_error, DataWalPos \<times> WalEntry) outcome list" where
  "file_positions crc32 is_last seq off bs =
     (if length bs < header_size then []
      else case from_header_bytes crc32 (take header_size bs) of
          None \<Rightarrow> file_positions crc32 is_last seq (off + of_nat header_size) (drop header_size bs)
        | Some parsed \<Rightarrow>
            (let rest = drop header_size bs; n = unat (we_length parsed)
             in if length rest < n then (if is_last then [] else [Err UnexpectedEof])
                else let entry = parsed\<lparr>we_data := take n rest\<rparr>
                     in if \<not> verify_crc crc32 entry
                        then file_positions crc32 is_last seq (off + of_nat (header_size + n)) (drop n rest)
                        else Ok (\<lparr>dp_file_seq = seq, dp_offset = off\<rparr>, entry) #
                          file_positions crc32 is_last seq (off + of_nat (header_size + n)) (drop n rest)))"
  by pat_completeness auto
termination by (relation "measure (\<lambda>(_, _, _, _, bs). length bs)") (auto simp: header_size_def)

fun replay_positions :: "(u8 list \<Rightarrow> u32) \<Rightarrow> wal_dir \<Rightarrow> (wal_error, DataWalPos \<times> WalEntry) outcome list" where
  "replay_positions crc32 [] = []"
| "replay_positions crc32 [(seq, bs)] = file_positions crc32 True (file_seq_of seq) 0 bs"
| "replay_positions crc32 ((seq, bs) # fs) = file_positions crc32 False (file_seq_of seq) 0 bs @ replay_positions crc32 fs"

definition entries_in_file_positions ::
  "(u8 list \<Rightarrow> u32) \<Rightarrow> u64 \<times> u8 list \<Rightarrow> (wal_error, DataWalPos \<times> WalEntry) outcome list" where
  "entries_in_file_positions crc32 f = replay_positions crc32 [f]"

declare file_entries.simps [simp del] file_positions.simps [simp del]

section \<open>The record format\<close>

definition entry_ok :: "(u8 list \<Rightarrow> u32) \<Rightarrow> WalEntry \<Rightarrow> bool" where
  "entry_ok crc32 e \<longleftrightarrow> we_magic e = WAL_ENTRY_MAGIC \<and> length (we_segment_id e) = 16 \<and> length (we_checksum e) = 32 \<and>
     length (we_data e) = unat (we_length e) \<and> verify_crc crc32 e"

lemma WalEntry_new_ok:
  assumes "length sid = 16" "length checksum = 32" "length dat = unat len"
  shows "entry_ok crc32 (WalEntry_new crc32 sid off len logical tier wall logic checksum dat)"
  using assms by (simp add: entry_ok_def WalEntry_new_def verify_crc_def compute_crc_def crc_input_def)

lemma length_magic [simp]: "length WAL_ENTRY_MAGIC = 4"
  by (simp add: WAL_ENTRY_MAGIC_def)

lemma length_header: "entry_ok crc32 e \<Longrightarrow> length (to_header_bytes e) = header_size"
  by (simp add: to_header_bytes_def entry_ok_def header_size_def)

lemma length_to_bytes: "entry_ok crc32 e \<Longrightarrow> length (to_bytes e) = serialized_size e"
  using length_header [of crc32 e] by (simp add: to_bytes_def serialized_size_def)

lemma verify_crc_data: "verify_crc crc32 (e\<lparr>we_data := d\<rparr>) = verify_crc crc32 e"
  by (simp add: verify_crc_def compute_crc_def crc_input_def)

lemma header_slices:
  assumes "entry_ok crc32 e"
  shows "slice (to_header_bytes e @ xs) 0 4 = WAL_ENTRY_MAGIC" "slice (to_header_bytes e @ xs) 4 20 = we_segment_id e"
    "u64_from_le (slice (to_header_bytes e @ xs) 20 28) = we_offset e"
    "u32_from_le (slice (to_header_bytes e @ xs) 28 32) = we_length e"
    "u32_from_le (slice (to_header_bytes e @ xs) 32 36) = we_logical_length e"
    "(to_header_bytes e @ xs) ! 36 = we_tier e"
    "u64_from_le (slice (to_header_bytes e @ xs) 40 48) = we_hlc_wall_time e"
    "u32_from_le (slice (to_header_bytes e @ xs) 48 52) = we_hlc_logical e"
    "slice (to_header_bytes e @ xs) 52 84 = we_checksum e"
    "u32_from_le (slice (to_header_bytes e @ xs) 84 88) = we_crc e"
  using assms by (simp_all add: to_header_bytes_def entry_ok_def slice_def nth_append)

lemma from_header_to_header:
  assumes "entry_ok crc32 e"
  shows "from_header_bytes crc32 (to_header_bytes e @ xs) = Some (e\<lparr>we_data := []\<rparr>)"
proof -
  have len: "\<not> length (to_header_bytes e @ xs) < header_size" using length_header [OF assms] by simp
  have "we_magic e = WAL_ENTRY_MAGIC" "verify_crc crc32 (e\<lparr>we_data := []\<rparr>)"
    using assms by (simp_all add: entry_ok_def verify_crc_data)
  then show ?thesis
    unfolding from_header_bytes_def header_slices [OF assms] Let_def using len by (cases e) simp
qed


lemma from_bytes_to_bytes:
  assumes "entry_ok crc32 e"
  shows "from_bytes crc32 (to_bytes e @ xs) = Some e"
proof -
  have "slice (to_header_bytes e @ we_data e @ xs) header_size (header_size + unat (we_length e)) = we_data e"
    using assms length_header [OF assms] by (simp add: slice_def entry_ok_def)
  then show ?thesis
    using assms length_header [OF assms]
    by (simp add: from_bytes_def to_bytes_def from_header_to_header [OF assms] Let_def entry_ok_def)
qed

section \<open>What the readers return\<close>

text \<open>The positions of entries written one after the other from an offset on.\<close>

fun located :: "u32 \<Rightarrow> u64 \<Rightarrow> WalEntry list \<Rightarrow> (DataWalPos \<times> WalEntry) list" where
  "located seq off [] = []"
| "located seq off (e # es) =
     (\<lparr>dp_file_seq = seq, dp_offset = off\<rparr>, e) # located seq (off + of_nat (serialized_size e)) es"

lemma located_append:
  "located seq off (xs @ ys) = located seq off xs @ located seq (off + of_nat (length (concat (map to_bytes xs)))) ys"
  if "list_all (entry_ok crc32) xs"
  using that by (induction xs arbitrary: off) (auto simp: length_to_bytes [of crc32] add.assoc)

lemma snd_located [simp]: "map snd (located seq off es) = es"
  by (induction es arbitrary: off) auto

lemma file_positions_entry:
  assumes "entry_ok crc32 e"
  shows "file_positions crc32 is_last seq off (to_bytes e @ bs) =
    Ok (\<lparr>dp_file_seq = seq, dp_offset = off\<rparr>, e) # file_positions crc32 is_last seq (off + of_nat (serialized_size e)) bs"
proof -
  have h: "take header_size (to_bytes e @ bs) = to_header_bytes e @ []" "drop header_size (to_bytes e @ bs) = we_data e @ bs"
    using length_header [OF assms] by (simp_all add: to_bytes_def)
  have l: "\<not> length (to_bytes e @ bs) < header_size" "length (we_data e) = unat (we_length e)"
    using assms length_header [OF assms] by (simp_all add: to_bytes_def entry_ok_def)
  have "verify_crc crc32 e" using assms by (simp add: entry_ok_def)
  then show ?thesis
    by (subst file_positions.simps)
      (simp only: h from_header_to_header [OF assms] l if_False option.simps Let_def,
       simp add: l serialized_size_def verify_crc_data)
qed

lemma file_positions_entries:
  assumes "list_all (entry_ok crc32) es"
  shows "file_positions crc32 is_last seq off (concat (map to_bytes es) @ bs) =
    map Ok (located seq off es) @
    file_positions crc32 is_last seq (off + of_nat (length (concat (map to_bytes es)))) bs"
  using assms
proof (induction es arbitrary: off)
  case (Cons e es)
  then show ?case by (simp add: file_positions_entry length_to_bytes [of crc32] add.assoc)
qed simp

lemma file_positions_short: "length bs < header_size \<Longrightarrow> file_positions crc32 is_last seq off bs = []"
  by (simp add: file_positions.simps)

text \<open>A record the crash cut off anywhere ends the log.\<close>

lemma file_positions_torn:
  assumes "entry_ok crc32 e" "n < serialized_size e"
  shows "file_positions crc32 True seq off (take n (to_bytes e)) = []"
proof (cases "n < header_size")
  case True
  then show ?thesis by (simp add: file_positions_short)
next
  case False
  have h: "take header_size (take n (to_bytes e)) = to_header_bytes e @ []"
    using length_header [OF assms(1)] False by (simp add: to_bytes_def min_def)
  have d: "drop header_size (take n (to_bytes e)) = take (n - header_size) (we_data e)"
    using length_header [OF assms(1)] False by (simp add: to_bytes_def drop_take)
  have l: "\<not> length (take n (to_bytes e)) < header_size"
    using assms False by (simp add: length_to_bytes [OF assms(1)])
  have "length (take (n - header_size) (we_data e)) < unat (we_length e)"
    using assms False by (simp add: serialized_size_def entry_ok_def)
  then show ?thesis
    by (subst file_positions.simps)
      (simp only: h d l from_header_to_header [OF assms(1)] if_False option.simps Let_def, simp)
qed

text \<open>Both readers agree: the position-yielding one returns the same entries and the same errors.\<close>

fun drop_pos :: "(wal_error, DataWalPos \<times> WalEntry) outcome \<Rightarrow> (wal_error, WalEntry) outcome" where
  "drop_pos (Ok (_, e)) = Ok e"
| "drop_pos (Err x) = Err x"
| "drop_pos Panic = Panic"

lemma file_entries_positions: "map drop_pos (file_positions crc32 is_last seq off bs) = file_entries crc32 is_last bs"
proof (induction crc32 is_last seq off bs rule: file_positions.induct)
  case (1 crc32 is_last seq off bs)
  show ?case
  proof (cases "length bs < header_size")
    case True
    then show ?thesis by (simp add: file_positions.simps file_entries.simps)
  next
    case False
    show ?thesis
    proof (cases "from_header_bytes crc32 (take header_size bs)")
      case None
      then show ?thesis using False 1(1)
        by (simp add: file_positions.simps [of _ _ _ _ bs] file_entries.simps [of _ _ bs])
    next
      case (Some parsed)
      note IH = 1(2,3) [OF False Some refl refl]
      show ?thesis using False Some IH [OF _ refl]
        by (simp add: file_positions.simps [of _ _ _ _ bs] file_entries.simps [of _ _ bs] Let_def)
    qed
  qed
qed

lemma replay_positions_agree: "map drop_pos (replay_positions crc32 fs) = replay crc32 fs"
  by (induction crc32 fs rule: replay.induct) (simp_all add: file_entries_positions)

text \<open>A log whose files hold whole entries, the last one possibly followed by a cut-off record.\<close>

lemma replay_log:
  assumes "\<forall>(seq, es) \<in> set log. list_all (entry_ok crc32) es" "list_all (entry_ok crc32) last_es"
    "entry_ok crc32 e" "n < serialized_size e"
  shows "replay_positions crc32 (map (\<lambda>(seq, es). (seq, concat (map to_bytes es))) log @
      [(last_seq, concat (map to_bytes last_es) @ take n (to_bytes e))]) =
    map Ok (concat (map (\<lambda>(seq, es). located (file_seq_of seq) 0 es) log) @ located (file_seq_of last_seq) 0 last_es)"
  using assms(1)
proof (induction log)
  case Nil
  then show ?case using assms(2-4) by (simp add: file_positions_entries file_positions_torn)
next
  case (Cons f log)
  obtain seq es where f: "f = (seq, es)" by (cases f)
  have "replay_positions crc32 ((seq, bs) # fs @ [g]) =
      file_positions crc32 False (file_seq_of seq) 0 bs @ replay_positions crc32 (fs @ [g])" for bs fs g
    by (cases "fs @ [g]") simp_all
  moreover have "file_positions crc32 False (file_seq_of seq) 0 (concat (map to_bytes es)) = map Ok (located (file_seq_of seq) 0 es)"
    using file_positions_entries [of crc32 es False "file_seq_of seq" 0 "[]"] Cons.prems f
    by (simp add: file_positions_short header_size_def)
  ultimately show ?case using Cons f by simp
qed

end
