(* ===== verification/EventRecords.thy ===== *)
theory EventRecords
  imports WalEntries Ring
begin

text \<open>
  The records of the segment event log (\<^verbatim>\<open>oceanfs-storage/src/segment/event_wal.rs\<close>): the lifecycle events, their byte format
  and its decoder.  The CRC-32 of \<^verbatim>\<open>crc32fast\<close> and the \<^verbatim>\<open>bincode\<close> form of a list of contained objects are fields of the
  argument \<open>fmt\<close>.
\<close>

section \<open>Events\<close>

datatype SizeTier = Inline | Small | Standard | Multi

record ContainedObject =
  co_bucket :: string
  co_key :: string

record formats =
  crc32 :: "u8 list \<Rightarrow> u32"
  bincode_serialize :: "ContainedObject list \<Rightarrow> u8 list option"
  bincode_deserialize :: "u8 list \<Rightarrow> ContainedObject list option"

type_synonym HashOutput = "u8 list"

record ReserveEvent =
  rv_segment_id :: SegmentId
  rv_tier :: SizeTier
  rv_ec_k :: u8
  rv_ec_m :: u8

record SealEvent =
  sl_segment_id :: SegmentId
  sl_tier :: SizeTier
  sl_ec_k :: u8
  sl_ec_m :: u8
  sl_merkle_root :: HashOutput
  sl_data_wal_pos :: DataWalPos
  sl_total_bytes :: u64
  sl_repacked_from :: "SegmentId option"
  sl_pool_id :: u32
  sl_contained_objects :: "ContainedObject list option"

record DeleteEvent =
  dl_segment_id :: SegmentId

record MetadataRefreshEvent =
  mr_segment_id :: SegmentId
  mr_merkle_root :: "HashOutput option"
  mr_storage_locations :: "NodeId list option"
  mr_pool_id :: "u32 option"

datatype SegmentEvent = Reserve ReserveEvent | Seal SealEvent | Delete DeleteEvent | MetadataRefresh MetadataRefreshEvent

fun event_segment_id :: "SegmentEvent \<Rightarrow> SegmentId" where
  "event_segment_id (Reserve e) = rv_segment_id e"
| "event_segment_id (Seal e) = sl_segment_id e"
| "event_segment_id (Delete e) = dl_segment_id e"
| "event_segment_id (MetadataRefresh e) = mr_segment_id e"

section \<open>Constants of the format\<close>

definition EVENT_RECORD_MAGIC :: "u8 list" where "EVENT_RECORD_MAGIC = [69, 86, 76, 1]"
definition EVENT_RECORD_VERSION :: u8 where "EVENT_RECORD_VERSION = 1"
definition EVENT_RECORD_HEADER_SIZE :: nat where "EVENT_RECORD_HEADER_SIZE = 28"
definition RESERVE_PAYLOAD_SIZE :: nat where "RESERVE_PAYLOAD_SIZE = 4"
definition SEAL_PAYLOAD_SIZE :: nat where "SEAL_PAYLOAD_SIZE = 56"
definition SEAL_PRE_POOL_PAYLOAD_SIZE :: nat where "SEAL_PRE_POOL_PAYLOAD_SIZE = 48"
definition SEAL_REPACKED_FROM_SIZE :: nat where "SEAL_REPACKED_FROM_SIZE = 16"
definition SEAL_POOL_ID_SIZE :: nat where "SEAL_POOL_ID_SIZE = 4"
definition SEAL_CONTAINED_LEN_SIZE :: nat where "SEAL_CONTAINED_LEN_SIZE = 4"
definition SEAL_MAX_CONTAINED_TAIL_BYTES :: nat where "SEAL_MAX_CONTAINED_TAIL_BYTES = 4 * 1024 * 1024"
definition DELETE_PAYLOAD_SIZE :: nat where "DELETE_PAYLOAD_SIZE = 0"
definition REFRESH_PAYLOAD_SIZE :: nat where "REFRESH_PAYLOAD_SIZE = 1"
definition REFRESH_ROOT_SIZE :: nat where "REFRESH_ROOT_SIZE = 32"
definition REFRESH_MAX_LOCATIONS :: nat where "REFRESH_MAX_LOCATIONS = 16"
definition REFRESH_MAX_NODE_ID_LEN :: nat where "REFRESH_MAX_NODE_ID_LEN = 255"
definition REFRESH_POOL_ID_SIZE :: nat where "REFRESH_POOL_ID_SIZE = 4"
definition MAX_PAYLOAD_SIZE :: nat where
  "MAX_PAYLOAD_SIZE = SEAL_PAYLOAD_SIZE + SEAL_REPACKED_FROM_SIZE + SEAL_POOL_ID_SIZE + SEAL_CONTAINED_LEN_SIZE +
     SEAL_MAX_CONTAINED_TAIL_BYTES"

definition SEAL_FLAG_REPACKED_FROM :: u8 where "SEAL_FLAG_REPACKED_FROM = 1"
definition SEAL_FLAG_POOL_ID :: u8 where "SEAL_FLAG_POOL_ID = 2"
definition SEAL_FLAG_CONTAINED_OBJECTS :: u8 where "SEAL_FLAG_CONTAINED_OBJECTS = 4"
definition REFRESH_FLAG_MERKLE_ROOT :: u8 where "REFRESH_FLAG_MERKLE_ROOT = 1"
definition REFRESH_FLAG_LOCATIONS :: u8 where "REFRESH_FLAG_LOCATIONS = 2"
definition REFRESH_FLAG_POOL_ID :: u8 where "REFRESH_FLAG_POOL_ID = 4"

definition KIND_RESERVE :: u8 where "KIND_RESERVE = 0"
definition KIND_SEAL :: u8 where "KIND_SEAL = 1"
definition KIND_DELETE :: u8 where "KIND_DELETE = 2"
definition KIND_METADATA_REFRESH :: u8 where "KIND_METADATA_REFRESH = 3"

lemmas event_format = EVENT_RECORD_VERSION_def EVENT_RECORD_HEADER_SIZE_def RESERVE_PAYLOAD_SIZE_def
  SEAL_PAYLOAD_SIZE_def SEAL_PRE_POOL_PAYLOAD_SIZE_def SEAL_REPACKED_FROM_SIZE_def SEAL_POOL_ID_SIZE_def SEAL_CONTAINED_LEN_SIZE_def
  DELETE_PAYLOAD_SIZE_def REFRESH_PAYLOAD_SIZE_def REFRESH_ROOT_SIZE_def
  REFRESH_MAX_LOCATIONS_def REFRESH_MAX_NODE_ID_LEN_def REFRESH_POOL_ID_SIZE_def SEAL_FLAG_REPACKED_FROM_def
  SEAL_FLAG_POOL_ID_def SEAL_FLAG_CONTAINED_OBJECTS_def REFRESH_FLAG_MERKLE_ROOT_def REFRESH_FLAG_LOCATIONS_def
  REFRESH_FLAG_POOL_ID_def KIND_RESERVE_def KIND_SEAL_def KIND_DELETE_def KIND_METADATA_REFRESH_def

section \<open>Encoding\<close>

fun tier_to_u8 :: "SizeTier \<Rightarrow> u8" where
  "tier_to_u8 Inline = 0"
| "tier_to_u8 Small = 1"
| "tier_to_u8 Standard = 2"
| "tier_to_u8 Multi = 3"

definition tier_from_u8 :: "u8 \<Rightarrow> SizeTier option" where
  "tier_from_u8 v = (if v = 0 then Some Inline else if v = 1 then Some Small else if v = 2 then Some Standard
     else if v = 3 then Some Multi else None)"

definition contained_blob :: "formats \<Rightarrow> ContainedObject list option \<Rightarrow> u8 list option" where
  "contained_blob fmt objs =
     (case objs of
        None \<Rightarrow> None
      | Some os \<Rightarrow>
          if os = [] then None
          else case bincode_serialize fmt os of
              None \<Rightarrow> None
            | Some b \<Rightarrow> if length b \<le> SEAL_MAX_CONTAINED_TAIL_BYTES then Some b else None)"

definition seal_flags :: "bool \<Rightarrow> bool \<Rightarrow> u8" where
  "seal_flags repacked has_objs =
     (let flags = SEAL_FLAG_POOL_ID;
          flags = (if repacked then flags OR SEAL_FLAG_REPACKED_FROM else flags)
      in if has_objs then flags OR SEAL_FLAG_CONTAINED_OBJECTS else flags)"

definition seal_payload :: "formats \<Rightarrow> SealEvent \<Rightarrow> u8 list" where
  "seal_payload fmt e =
     (let blob = contained_blob fmt (sl_contained_objects e)
      in [tier_to_u8 (sl_tier e), sl_ec_k e, sl_ec_m e, seal_flags (sl_repacked_from e \<noteq> None) (blob \<noteq> None)] @
         sl_merkle_root e @ u32_to_le (dp_file_seq (sl_data_wal_pos e)) @ u64_to_le (dp_offset (sl_data_wal_pos e)) @
         u64_to_le (sl_total_bytes e) @ (case sl_repacked_from e of None \<Rightarrow> [] | Some old \<Rightarrow> old) @
         u32_to_le (sl_pool_id e) @ (case blob of None \<Rightarrow> [] | Some b \<Rightarrow> u32_to_le (of_nat (length b)) @ b))"

definition refresh_flags :: "bool \<Rightarrow> bool \<Rightarrow> bool \<Rightarrow> u8" where
  "refresh_flags root locs pid =
     (let flags = 0;
          flags = (if root then flags OR REFRESH_FLAG_MERKLE_ROOT else flags);
          flags = (if locs then flags OR REFRESH_FLAG_LOCATIONS else flags)
      in if pid then flags OR REFRESH_FLAG_POOL_ID else flags)"

definition location_bytes :: "NodeId \<Rightarrow> u8 list" where
  "location_bytes loc = of_nat (length (str_bytes loc)) # str_bytes loc"

definition refresh_payload :: "MetadataRefreshEvent \<Rightarrow> u8 list" where
  "refresh_payload e =
     [refresh_flags (mr_merkle_root e \<noteq> None) (mr_storage_locations e \<noteq> None) (mr_pool_id e \<noteq> None)] @
     (case mr_merkle_root e of None \<Rightarrow> [] | Some root \<Rightarrow> root) @
     (case mr_storage_locations e of None \<Rightarrow> [] | Some locs \<Rightarrow> of_nat (length locs) # concat (map location_bytes locs)) @
     (case mr_pool_id e of None \<Rightarrow> [] | Some pid \<Rightarrow> u32_to_le pid)"

fun kind_payload :: "formats \<Rightarrow> SegmentEvent \<Rightarrow> u8 \<times> u8 list" where
  "kind_payload fmt (Reserve e) = (KIND_RESERVE, [tier_to_u8 (rv_tier e), rv_ec_k e, rv_ec_m e, 0])"
| "kind_payload fmt (Seal e) = (KIND_SEAL, seal_payload fmt e)"
| "kind_payload fmt (Delete e) = (KIND_DELETE, [])"
| "kind_payload fmt (MetadataRefresh e) = (KIND_METADATA_REFRESH, refresh_payload e)"

definition record_body :: "u8 \<Rightarrow> SegmentId \<Rightarrow> u8 list \<Rightarrow> u8 list" where
  "record_body kind sid payload =
     EVENT_RECORD_MAGIC @ [EVENT_RECORD_VERSION, kind] @ [0, 0] @ u32_to_le (of_nat (length payload)) @ sid @ payload"

definition to_record_bytes :: "formats \<Rightarrow> SegmentEvent \<Rightarrow> u8 list" where
  "to_record_bytes fmt e =
     (case kind_payload fmt e of (kind, payload) \<Rightarrow>
        let buf = record_body kind (event_segment_id e) payload in buf @ u32_to_le (crc32 fmt buf))"

section \<open>Decoding\<close>

text \<open>Well-formed UTF-8, the check of \<^verbatim>\<open>std::str::from_utf8\<close>.\<close>

definition cont :: "u8 \<Rightarrow> bool" where "cont b \<longleftrightarrow> 128 \<le> b \<and> b \<le> 191"

fun utf8_ok :: "u8 list \<Rightarrow> bool" where
  "utf8_ok [] = True"
| "utf8_ok (a # bs) =
     (if a \<le> 127 then utf8_ok bs
      else case bs of
          [] \<Rightarrow> False
        | b # bs1 \<Rightarrow>
            if 194 \<le> a \<and> a \<le> 223 then cont b \<and> utf8_ok bs1
            else case bs1 of
                [] \<Rightarrow> False
              | c # bs2 \<Rightarrow>
                  if 224 \<le> a \<and> a \<le> 239 then
                    cont b \<and> cont c \<and> (a = 224 \<longrightarrow> 160 \<le> b) \<and> (a = 237 \<longrightarrow> b \<le> 159) \<and> utf8_ok bs2
                  else case bs2 of
                      [] \<Rightarrow> False
                    | d # bs3 \<Rightarrow>
                        240 \<le> a \<and> a \<le> 244 \<and> cont b \<and> cont c \<and> cont d \<and> (a = 240 \<longrightarrow> 144 \<le> b) \<and>
                        (a = 244 \<longrightarrow> b \<le> 143) \<and> utf8_ok bs3)"

definition bytes_str :: "u8 list \<Rightarrow> string" where
  "bytes_str bs = map (\<lambda>b. char_of (unat b)) bs"

definition decode_seal :: "formats \<Rightarrow> SegmentId \<Rightarrow> u8 list \<Rightarrow> SegmentEvent option" where
  "decode_seal fmt sid payload =
     (let flags = payload ! 3
      in if flags AND NOT (SEAL_FLAG_REPACKED_FROM OR SEAL_FLAG_POOL_ID OR SEAL_FLAG_CONTAINED_OBJECTS) \<noteq> 0 then None
         else if flags AND SEAL_FLAG_POOL_ID = 0 then None
         else if length payload < 48 + 8 then None
         else
           (let total_bytes = u64_from_le (slice payload 48 56);
                cursor = 56
            in Option.bind
                 (if flags AND SEAL_FLAG_REPACKED_FROM \<noteq> 0
                  then (if length payload < cursor + SEAL_REPACKED_FROM_SIZE then None
                        else Some (Some (slice payload cursor (cursor + SEAL_REPACKED_FROM_SIZE)), cursor + SEAL_REPACKED_FROM_SIZE))
                  else Some (None, cursor))
                 (\<lambda>(repacked_from, cursor).
                    if length payload < cursor + SEAL_POOL_ID_SIZE then None
                    else
                      (let pool_id = u32_from_le (slice payload cursor (cursor + SEAL_POOL_ID_SIZE));
                           cursor = cursor + SEAL_POOL_ID_SIZE
                       in Option.bind
                            (if flags AND SEAL_FLAG_CONTAINED_OBJECTS \<noteq> 0
                             then (if length payload < cursor + SEAL_CONTAINED_LEN_SIZE then None
                                   else
                                     (let blob_len = unat (u32_from_le (slice payload cursor (cursor + SEAL_CONTAINED_LEN_SIZE)));
                                          cursor = cursor + SEAL_CONTAINED_LEN_SIZE
                                      in if blob_len > SEAL_MAX_CONTAINED_TAIL_BYTES then None
                                         else if length payload < cursor + blob_len then None
                                         else map_option (\<lambda>objs. (Some objs, cursor + blob_len))
                                                (bincode_deserialize fmt (slice payload cursor (cursor + blob_len)))))
                             else Some (None, cursor))
                            (\<lambda>(members, cursor).
                               if cursor \<noteq> length payload then None
                               else map_option
                                 (\<lambda>tier. Seal \<lparr>sl_segment_id = sid, sl_tier = tier, sl_ec_k = payload ! 1, sl_ec_m = payload ! 2,
                                    sl_merkle_root = slice payload 4 36,
                                    sl_data_wal_pos = \<lparr>dp_file_seq = u32_from_le (slice payload 36 40),
                                      dp_offset = u64_from_le (slice payload 40 48)\<rparr>,
                                    sl_total_bytes = total_bytes, sl_repacked_from = repacked_from, sl_pool_id = pool_id,
                                    sl_contained_objects = members\<rparr>)
                                 (tier_from_u8 (payload ! 0)))))))"

fun read_locations :: "nat \<Rightarrow> u8 list \<Rightarrow> nat \<Rightarrow> (NodeId list \<times> nat) option" where
  "read_locations 0 payload cursor = Some ([], cursor)"
| "read_locations (Suc n) payload cursor =
     (if length payload < cursor + 1 then None
      else
        (let len = unat (payload ! cursor); cursor = cursor + 1
         in if length payload < cursor + len \<or> len > REFRESH_MAX_NODE_ID_LEN then None
            else if \<not> utf8_ok (slice payload cursor (cursor + len)) then None
            else map_option (\<lambda>(locs, c). (bytes_str (slice payload cursor (cursor + len)) # locs, c))
                   (read_locations n payload (cursor + len))))"

definition decode_refresh_sections :: "SegmentId \<Rightarrow> u8 list \<Rightarrow> SegmentEvent option" where
  "decode_refresh_sections sid payload =
     (let flags = payload ! 0
      in if flags AND NOT (REFRESH_FLAG_MERKLE_ROOT OR REFRESH_FLAG_LOCATIONS OR REFRESH_FLAG_POOL_ID) \<noteq> 0 then None
         else Option.bind
           (if flags AND REFRESH_FLAG_MERKLE_ROOT \<noteq> 0
            then (if length payload < 1 + REFRESH_ROOT_SIZE then None
                  else Some (Some (slice payload 1 (1 + REFRESH_ROOT_SIZE)), 1 + REFRESH_ROOT_SIZE))
            else Some (None, 1))
           (\<lambda>(root, cursor). Option.bind
              (if flags AND REFRESH_FLAG_LOCATIONS \<noteq> 0
               then (if length payload < cursor + 1 then None
                     else (let count = unat (payload ! cursor)
                           in if count > REFRESH_MAX_LOCATIONS then None
                              else map_option (\<lambda>(locs, c). (Some locs, c)) (read_locations count payload (cursor + 1))))
               else Some (None, cursor))
              (\<lambda>(locs, cursor). Option.bind
                 (if flags AND REFRESH_FLAG_POOL_ID \<noteq> 0
                  then (if length payload < cursor + REFRESH_POOL_ID_SIZE then None
                        else Some (Some (u32_from_le (slice payload cursor (cursor + REFRESH_POOL_ID_SIZE))), cursor + REFRESH_POOL_ID_SIZE))
                  else Some (None, cursor))
                 (\<lambda>(pid, cursor).
                    if cursor \<noteq> length payload then None
                    else Some (MetadataRefresh \<lparr>mr_segment_id = sid, mr_merkle_root = root, mr_storage_locations = locs,
                      mr_pool_id = pid\<rparr>)))))"

definition decode_payload :: "formats \<Rightarrow> u8 \<Rightarrow> SegmentId \<Rightarrow> u8 list \<Rightarrow> SegmentEvent option" where
  "decode_payload fmt kind sid payload =
     (if kind = KIND_RESERVE \<and> length payload = RESERVE_PAYLOAD_SIZE then
        map_option (\<lambda>tier. Reserve \<lparr>rv_segment_id = sid, rv_tier = tier, rv_ec_k = payload ! 1, rv_ec_m = payload ! 2\<rparr>)
          (tier_from_u8 (payload ! 0))
      else if kind = KIND_SEAL \<and> length payload \<ge> SEAL_PAYLOAD_SIZE then decode_seal fmt sid payload
      else if kind = KIND_DELETE \<and> length payload = DELETE_PAYLOAD_SIZE then Some (Delete \<lparr>dl_segment_id = sid\<rparr>)
      else if kind = KIND_METADATA_REFRESH \<and> length payload = REFRESH_PAYLOAD_SIZE \<and> payload ! 0 = 0 then
        Some (MetadataRefresh \<lparr>mr_segment_id = sid, mr_merkle_root = None, mr_storage_locations = None, mr_pool_id = None\<rparr>)
      else if kind = KIND_METADATA_REFRESH \<and> length payload = REFRESH_PAYLOAD_SIZE + REFRESH_ROOT_SIZE \<and> payload ! 0 = 1 then
        Some (MetadataRefresh \<lparr>mr_segment_id = sid, mr_merkle_root = Some (slice payload 1 33), mr_storage_locations = None,
          mr_pool_id = None\<rparr>)
      else if kind = KIND_METADATA_REFRESH \<and> payload \<noteq> [] \<and>
          payload ! 0 AND (REFRESH_FLAG_LOCATIONS OR REFRESH_FLAG_POOL_ID) \<noteq> 0 then decode_refresh_sections sid payload
      else None)"

definition from_record_bytes :: "formats \<Rightarrow> u8 list \<Rightarrow> SegmentEvent option" where
  "from_record_bytes fmt bs =
     (if length bs < EVENT_RECORD_HEADER_SIZE + 4 then None
      else if slice bs 0 4 \<noteq> EVENT_RECORD_MAGIC then None
      else if bs ! 4 \<noteq> EVENT_RECORD_VERSION then None
      else
        (let kind = bs ! 5; payload_len = unat (u32_from_le (slice bs 8 12));
             expected_total = EVENT_RECORD_HEADER_SIZE + payload_len + 4
         in if length bs \<noteq> expected_total then None
            else if u32_from_le (slice bs (expected_total - 4) expected_total) \<noteq> crc32 fmt (take (expected_total - 4) bs) then None
            else decode_payload fmt kind (slice bs 12 28)
                   (slice bs EVENT_RECORD_HEADER_SIZE (EVENT_RECORD_HEADER_SIZE + payload_len))))"

definition is_pre_pool_seal :: "u8 \<Rightarrow> u8 list \<Rightarrow> bool" where
  "is_pre_pool_seal kind payload \<longleftrightarrow>
     kind = KIND_SEAL \<and> length payload \<ge> 4 \<and>
     payload ! 3 AND NOT (SEAL_FLAG_REPACKED_FROM OR SEAL_FLAG_POOL_ID) = 0 \<and> payload ! 3 AND SEAL_FLAG_POOL_ID = 0 \<and>
     (length payload = SEAL_PRE_POOL_PAYLOAD_SIZE \<or> length payload = SEAL_PRE_POOL_PAYLOAD_SIZE + SEAL_REPACKED_FROM_SIZE)"


section \<open>Round trips\<close>

definition location_ok :: "NodeId \<Rightarrow> bool" where
  "location_ok loc \<longleftrightarrow> utf8_ok (str_bytes loc) \<and> length loc \<le> REFRESH_MAX_NODE_ID_LEN"

fun event_ok :: "SegmentEvent \<Rightarrow> bool" where
  "event_ok (Reserve e) \<longleftrightarrow> length (rv_segment_id e) = 16"
| "event_ok (Seal e) \<longleftrightarrow> length (sl_segment_id e) = 16 \<and> length (sl_merkle_root e) = 32 \<and>
     (case sl_repacked_from e of None \<Rightarrow> True | Some old \<Rightarrow> length old = 16)"
| "event_ok (Delete e) \<longleftrightarrow> length (dl_segment_id e) = 16"
| "event_ok (MetadataRefresh e) \<longleftrightarrow> length (mr_segment_id e) = 16 \<and>
     (case mr_merkle_root e of None \<Rightarrow> True | Some root \<Rightarrow> length root = 32) \<and>
     (case mr_storage_locations e of None \<Rightarrow> True | Some locs \<Rightarrow> length locs \<le> REFRESH_MAX_LOCATIONS \<and> list_all location_ok locs)"

text \<open>What \<^verbatim>\<open>bincode\<close> documents: deserialising what was serialised gives the value back.\<close>

definition bincode_round_trip :: "formats \<Rightarrow> bool" where
  "bincode_round_trip fmt \<longleftrightarrow> (\<forall>os b. bincode_serialize fmt os = Some b \<longrightarrow> bincode_deserialize fmt b = Some os)"

text \<open>What a record keeps of an event: an empty or oversized list of contained objects is not stored.\<close>

fun stored :: "formats \<Rightarrow> SegmentEvent \<Rightarrow> SegmentEvent" where
  "stored fmt (Seal e) = Seal (e\<lparr>sl_contained_objects := (if contained_blob fmt (sl_contained_objects e) = None then None else sl_contained_objects e)\<rparr>)"
| "stored fmt e = e"

lemma tier_round_trip [simp]: "tier_from_u8 (tier_to_u8 t) = Some t"
  by (cases t) (simp_all add: tier_from_u8_def)

lemma bytes_str_round_trip [simp]: "bytes_str (str_bytes s) = s"
proof -
  have "char_of (unat (of_nat (of_char c) :: u8)) = c" for c
  proof -
    have "(of_char c :: nat) < 256" using rangeI [of "of_char :: char \<Rightarrow> nat" c] by (simp add: range_nat_of_char)
    then have "unat (of_nat (of_char c) :: u8) = of_char c" by (simp add: unat_of_nat)
    then show ?thesis by simp
  qed
  then show ?thesis by (simp add: bytes_str_def str_bytes_def comp_def)
qed

lemma length_str_bytes [simp]: "length (str_bytes s) = length s"
  by (simp add: str_bytes_def)

lemma seal_flags_tests [simp]:
  "seal_flags r c AND NOT (SEAL_FLAG_REPACKED_FROM OR SEAL_FLAG_POOL_ID OR SEAL_FLAG_CONTAINED_OBJECTS) = 0"
  "seal_flags r c AND NOT SEAL_FLAG_REPACKED_FROM AND NOT SEAL_FLAG_POOL_ID AND NOT SEAL_FLAG_CONTAINED_OBJECTS = 0"
  "seal_flags r c AND SEAL_FLAG_POOL_ID \<noteq> 0" "seal_flags r c AND SEAL_FLAG_REPACKED_FROM = 0 \<longleftrightarrow> \<not> r"
  "seal_flags r c AND SEAL_FLAG_CONTAINED_OBJECTS = 0 \<longleftrightarrow> \<not> c"
  by (cases r; cases c; simp add: seal_flags_def event_format)+

lemma refresh_flags_tests [simp]:
  "refresh_flags r l p AND NOT (REFRESH_FLAG_MERKLE_ROOT OR REFRESH_FLAG_LOCATIONS OR REFRESH_FLAG_POOL_ID) = 0"
  "refresh_flags r l p AND NOT REFRESH_FLAG_MERKLE_ROOT AND NOT REFRESH_FLAG_LOCATIONS AND NOT REFRESH_FLAG_POOL_ID = 0"
  "refresh_flags r l p AND REFRESH_FLAG_MERKLE_ROOT = 0 \<longleftrightarrow> \<not> r" "refresh_flags r l p AND REFRESH_FLAG_LOCATIONS = 0 \<longleftrightarrow> \<not> l"
  "refresh_flags r l p AND REFRESH_FLAG_POOL_ID = 0 \<longleftrightarrow> \<not> p"
  "refresh_flags r l p AND (REFRESH_FLAG_LOCATIONS OR REFRESH_FLAG_POOL_ID) = 0 \<longleftrightarrow> \<not> l \<and> \<not> p"
  "refresh_flags r l p = 0 \<longleftrightarrow> \<not> r \<and> \<not> l \<and> \<not> p" "refresh_flags r l p = 1 \<longleftrightarrow> r \<and> \<not> l \<and> \<not> p"
  by (cases r; cases l; cases p; simp add: refresh_flags_def event_format)+

lemma contained_blob_Some:
  assumes "bincode_round_trip fmt" "contained_blob fmt objs = Some b"
  shows "length b \<le> SEAL_MAX_CONTAINED_TAIL_BYTES" "unat (of_nat (length b) :: u32) = length b"
    "bincode_deserialize fmt b = objs" "objs \<noteq> None"
  using assms
  by (auto simp: contained_blob_def bincode_round_trip_def SEAL_MAX_CONTAINED_TAIL_BYTES_def unat_of_nat
      split: option.splits if_splits)

lemma decode_seal_round_trip:
  assumes "bincode_round_trip fmt" "event_ok (Seal e)"
  shows "decode_payload fmt KIND_SEAL (sl_segment_id e) (seal_payload fmt e) = Some (stored fmt (Seal e))"
proof -
  let ?blob = "contained_blob fmt (sl_contained_objects e)"
  have kinds: "KIND_SEAL \<noteq> KIND_RESERVE" by (simp add: event_format)
  have len: "length (sl_merkle_root e) = 32" using assms(2) by simp
  have tl: "length (case sl_repacked_from e of None \<Rightarrow> [] | Some old \<Rightarrow> old) = (if sl_repacked_from e = None then 0 else 16)"
    using assms(2) by (cases "sl_repacked_from e") auto
  show ?thesis
  proof (cases ?blob)
    case None
    then show ?thesis
      using assms(2) len kinds
      by (cases "sl_repacked_from e")
        (simp_all add: decode_payload_def decode_seal_def seal_payload_def event_format Let_def slice_def nth_append
          flip: SEAL_FLAG_POOL_ID_def SEAL_FLAG_REPACKED_FROM_def SEAL_FLAG_CONTAINED_OBJECTS_def)
  next
    case (Some b)
    note B = contained_blob_Some [OF assms(1) Some]
    obtain objs where objs: "sl_contained_objects e = Some objs" using B(4) by auto
    show ?thesis
      using assms(2) len kinds Some B objs
      by (cases "sl_repacked_from e")
        (simp_all add: decode_payload_def decode_seal_def seal_payload_def event_format Let_def slice_def nth_append
          flip: SEAL_FLAG_POOL_ID_def SEAL_FLAG_REPACKED_FROM_def SEAL_FLAG_CONTAINED_OBJECTS_def)
  qed
qed

lemma read_locations_round_trip:
  assumes "list_all location_ok locs"
  shows "read_locations (length locs) (xs @ concat (map location_bytes locs) @ ys) (length xs) =
    Some (locs, length xs + length (concat (map location_bytes locs)))"
  using assms
proof (induction locs arbitrary: xs)
  case (Cons l locs)
  let ?p = "xs @ concat (map location_bytes (l # locs)) @ ys"
  have l: "utf8_ok (str_bytes l)" "length l \<le> 255" using Cons.prems by (simp_all add: location_ok_def event_format)
  have n: "?p ! length xs = of_nat (length l)" "unat (of_nat (length l) :: u8) = length l"
    using l by (simp_all add: location_bytes_def nth_append unat_of_nat)
  have s: "slice ?p (length xs + 1) (length xs + 1 + length l) = str_bytes l"
    by (simp add: slice_def location_bytes_def)
  have "read_locations (length locs) ((xs @ location_bytes l) @ concat (map location_bytes locs) @ ys) (length (xs @ location_bytes l)) =
      Some (locs, length (xs @ location_bytes l) + length (concat (map location_bytes locs)))"
    using Cons by (intro Cons.IH) simp
  then have "read_locations (length locs) ?p (length xs + 1 + length l) =
      Some (locs, length xs + 1 + length l + length (concat (map location_bytes locs)))"
    by (simp add: location_bytes_def)
  moreover have "\<not> length ?p < length xs + 1" "\<not> length ?p < length xs + 1 + length l"
    by (simp_all add: location_bytes_def)
  ultimately show ?case
    using l n s by (simp del: concat.simps list.map add: Let_def event_format) (simp add: location_bytes_def)
qed simp

lemma decode_refresh_round_trip:
  assumes "event_ok (MetadataRefresh e)"
  shows "decode_payload fmt KIND_METADATA_REFRESH (mr_segment_id e) (refresh_payload e) = Some (MetadataRefresh e)"
proof -
  have kinds: "KIND_METADATA_REFRESH \<noteq> KIND_RESERVE" "KIND_METADATA_REFRESH \<noteq> KIND_SEAL" "KIND_METADATA_REFRESH \<noteq> KIND_DELETE"
    by (simp_all add: event_format)
  show ?thesis
  proof (cases "mr_storage_locations e = None \<and> mr_pool_id e = None")
    case True
    then show ?thesis
      using assms kinds
      by (cases "mr_merkle_root e") (simp_all add: decode_payload_def refresh_payload_def event_format slice_def)
  next
    case False
    have c: "unat (of_nat (length locs) :: u8) = length locs" "length locs \<le> 16" "list_all location_ok locs"
      if "mr_storage_locations e = Some locs" for locs
      using assms that by (simp_all add: event_format unat_of_nat)
    have d: "decode_payload fmt KIND_METADATA_REFRESH (mr_segment_id e) (refresh_payload e) =
        decode_refresh_sections (mr_segment_id e) (refresh_payload e)"
      using False kinds unfolding decode_payload_def by (auto simp: refresh_payload_def)
    show ?thesis
    proof (cases "mr_storage_locations e")
      case None
      then obtain pid where "mr_pool_id e = Some pid" using False by auto
      then show ?thesis unfolding d using assms None
        by (cases "mr_merkle_root e")
          (simp_all add: decode_refresh_sections_def refresh_payload_def event_format Let_def slice_def nth_append
            flip: REFRESH_FLAG_MERKLE_ROOT_def REFRESH_FLAG_LOCATIONS_def REFRESH_FLAG_POOL_ID_def)
    next
      case (Some locs)
      let ?f = "refresh_flags (mr_merkle_root e \<noteq> None) (mr_storage_locations e \<noteq> None) (mr_pool_id e \<noteq> None)"
      let ?root = "case mr_merkle_root e of None \<Rightarrow> [] | Some root \<Rightarrow> root"
      let ?pid = "case mr_pool_id e of None \<Rightarrow> [] | Some pid \<Rightarrow> u32_to_le pid"
      let ?xs = "?f # ?root @ [of_nat (length locs)]" and ?ls = "concat (map location_bytes locs)"
      have p: "refresh_payload e = ?xs @ ?ls @ ?pid" by (simp add: refresh_payload_def Some)
      note r = read_locations_round_trip [OF c(3) [OF Some], of ?xs ?pid]
      have rl: "length ?root = (if mr_merkle_root e = None then 0 else 32)"
        using assms by (cases "mr_merkle_root e") simp_all
      have dr: "drop (length ?xs + length ?ls) (?xs @ ?ls @ ?pid) = ?pid"
        by (simp only: append_assoc [symmetric] length_append [symmetric] append_eq_conv_conj drop_append) simp
      show ?thesis unfolding p d [unfolded p] using assms Some c(1,2) [OF Some] r rl dr
        by (cases "mr_merkle_root e"; cases "mr_pool_id e")
          (simp_all add: decode_refresh_sections_def event_format Let_def slice_def nth_append
            flip: REFRESH_FLAG_MERKLE_ROOT_def REFRESH_FLAG_LOCATIONS_def REFRESH_FLAG_POOL_ID_def)
    qed
  qed
qed

lemma decode_kind_payload:
  assumes "bincode_round_trip fmt" "event_ok e" "kind_payload fmt e = (kind, payload)"
  shows "decode_payload fmt kind (event_segment_id e) payload = Some (stored fmt e)"
proof (cases e)
  case (Reserve r)
  then show ?thesis using assms(3) by (auto simp: decode_payload_def event_format)
next
  case (Seal r)
  then show ?thesis using assms decode_seal_round_trip by auto
next
  case (Delete r)
  then show ?thesis using assms(3) by (auto simp: decode_payload_def event_format)
next
  case (MetadataRefresh r)
  then show ?thesis using assms decode_refresh_round_trip by auto
qed

lemma event_segment_id_length: "event_ok e \<Longrightarrow> length (event_segment_id e) = 16"
  by (cases e) simp_all

lemma length_location_bytes [simp]: "length (location_bytes l) = Suc (length l)"
  by (simp add: location_bytes_def)

lemma locations_length:
  "list_all location_ok locs \<Longrightarrow> length (concat (map location_bytes locs)) \<le> 256 * length locs"
  by (induction locs) (auto simp: location_ok_def event_format)

lemma payload_size:
  assumes "bincode_round_trip fmt" "event_ok e" "kind_payload fmt e = (kind, payload)"
  shows "length payload \<le> MAX_PAYLOAD_SIZE"
proof (cases e)
  case (Seal r)
  then show ?thesis using assms contained_blob_Some [OF assms(1)]
    by (fastforce simp: seal_payload_def MAX_PAYLOAD_SIZE_def SEAL_MAX_CONTAINED_TAIL_BYTES_def event_format Let_def
        split: option.splits)
next
  case (MetadataRefresh r)
  have "length (concat (map location_bytes locs)) \<le> 4096" if "mr_storage_locations r = Some locs" for locs
    using locations_length [of locs] assms(2) that MetadataRefresh by (simp add: event_format)
  then show ?thesis using assms MetadataRefresh
    by (fastforce simp: refresh_payload_def MAX_PAYLOAD_SIZE_def SEAL_MAX_CONTAINED_TAIL_BYTES_def event_format
        split: option.splits)
qed (use assms in \<open>auto simp: MAX_PAYLOAD_SIZE_def event_format\<close>)

lemma length_record_body: "length sid = 16 \<Longrightarrow> length (record_body kind sid payload) = 28 + length payload"
  by (simp add: record_body_def EVENT_RECORD_MAGIC_def)

lemma record_slices:
  assumes "length sid = 16" "length payload < 2 ^ 32" "bs = record_body kind sid payload @ tail"
  shows "slice bs 0 4 = EVENT_RECORD_MAGIC" "bs ! 4 = EVENT_RECORD_VERSION" "bs ! 5 = kind"
    "unat (u32_from_le (slice bs 8 12)) = length payload" "slice bs 12 28 = sid" "length bs = 28 + length payload + length tail"
    "slice bs 28 (28 + length payload) = payload" "take (28 + length payload) bs = record_body kind sid payload"
    "drop (28 + length payload) bs = tail"
proof -
  show "take (28 + length payload) bs = record_body kind sid payload" "drop (28 + length payload) bs = tail"
    "length bs = 28 + length payload + length tail"
    unfolding assms(3) by (simp_all add: length_record_body [OF assms(1)])
qed (use assms in \<open>simp_all add: record_body_def EVENT_RECORD_MAGIC_def slice_def unat_of_nat\<close>)

text \<open>
  C19: Decoding the bytes of an event record gives the event back, for every event whose segment ids and roots have
  16 and 32 bytes and whose node ids, at most 16 in a refresh, are valid UTF-8 of at most 255 bytes; a list of contained objects that is
  empty or too large to store is dropped.
\<close>

theorem event_record_round_trip:
  assumes "bincode_round_trip fmt" "event_ok e"
  shows "from_record_bytes fmt (to_record_bytes fmt e) = Some (stored fmt e)"
proof -
  obtain kind payload where kp: "kind_payload fmt e = (kind, payload)" by fastforce
  have n: "length payload < 2 ^ 32" using payload_size [OF assms kp]
    by (simp add: MAX_PAYLOAD_SIZE_def SEAL_MAX_CONTAINED_TAIL_BYTES_def event_format)
  let ?b = "record_body kind (event_segment_id e) payload"
  note s = record_slices [OF event_segment_id_length [OF assms(2)] n refl, of kind "u32_to_le (crc32 fmt ?b)"]
  have c: "slice (?b @ u32_to_le (crc32 fmt ?b)) (28 + length payload) (28 + length payload + 4) = u32_to_le (crc32 fmt ?b)"
    using s(9) by (simp add: slice_def)
  have b: "to_record_bytes fmt e = ?b @ u32_to_le (crc32 fmt ?b)" by (simp add: to_record_bytes_def kp Let_def)
  show ?thesis
    unfolding b from_record_bytes_def
    using s c decode_kind_payload [OF assms kp] by (simp add: Let_def event_format)
qed

definition sample_formats :: formats where
  "sample_formats = \<lparr>crc32 = (\<lambda>bs. foldr (\<lambda>b acc. acc + ucast b) bs 0), bincode_serialize = (\<lambda>_. None), bincode_deserialize = (\<lambda>_. None)\<rparr>"

definition sample_event :: SegmentEvent where
  "sample_event = Delete \<lparr>dl_segment_id = replicate 16 7\<rparr>"

theorem event_record_round_trip_witness:
  "from_record_bytes sample_formats (to_record_bytes sample_formats sample_event) = Some (stored sample_formats sample_event)"
  by (rule event_record_round_trip) (simp_all add: bincode_round_trip_def sample_formats_def sample_event_def)

text \<open>A refresh with more than 16 locations is written all the same, and its record is then unreadable.\<close>

lemma too_many_locations_unreadable:
  assumes "length (mr_segment_id e) = 16" "mr_merkle_root e = None" "mr_storage_locations e = Some locs" "mr_pool_id e = None"
    and "REFRESH_MAX_LOCATIONS < length locs" "length locs < 256"
  shows "decode_payload fmt KIND_METADATA_REFRESH (mr_segment_id e) (refresh_payload e) = None"
proof -
  have "unat (of_nat (length locs) :: u8) = length locs" using assms(6) by (simp add: unat_of_nat)
  then show ?thesis
    using assms by (auto simp: decode_payload_def refresh_payload_def decode_refresh_sections_def event_format refresh_flags_def Let_def)
qed

end
