(* ===== verification/DataWal.thy ===== *)
theory DataWal
  imports WalEntries HashMaps "HOL-Library.Sublist"
begin

text \<open>
  The data write-ahead log (\<^verbatim>\<open>oceanfs-storage/src/wal/writer.rs\<close>, \<^verbatim>\<open>sync.rs\<close>, and the retention of \<^verbatim>\<open>replay.rs\<close>): appending
  with rotation, group commit, truncation and the removal of old files.  The log directory is kept twice: \<open>ww_dir\<close> is what
  reads see, \<open>ww_disk\<close> what survives a power loss.  A synced file is taken to survive together with its directory entry;
  writes, opens and removals are taken to succeed.
\<close>

section \<open>State\<close>

record WalWriter =
  ww_max_file_size :: u64
  ww_use_range :: bool
  ww_dir :: wal_dir
  ww_disk :: wal_dir
  ww_file_seq :: u64
  ww_position :: u64
  ww_global_position :: u64
  ww_sync_position :: u64
  ww_last_synced :: u64

definition file_bytes :: "wal_dir \<Rightarrow> u64 \<Rightarrow> u8 list" where
  "file_bytes dir seq = (case hm_get dir seq of None \<Rightarrow> [] | Some bs \<Rightarrow> bs)"

definition latest_seq :: "wal_dir \<Rightarrow> u64" where
  "latest_seq dir = fold (\<lambda>(seq, _) m. max m seq) dir 0"

text \<open>Opening for reading orders the files by name, which is by sequence number below \<open>10 ^ 8\<close>.\<close>

definition WalReader_open :: "wal_dir \<Rightarrow> wal_dir" where
  "WalReader_open dir = sort_key fst dir"

definition WalWriter_open :: "u64 \<Rightarrow> bool \<Rightarrow> wal_dir \<Rightarrow> WalWriter" where
  "WalWriter_open max_size use_range dir =
     (let seq = latest_seq dir; existing_size = of_nat (length (file_bytes dir seq))
      in \<lparr>ww_max_file_size = max_size, ww_use_range = use_range,
          ww_dir = (if hm_get dir seq = None then hm_insert seq [] dir else dir), ww_disk = dir,
          ww_file_seq = seq, ww_position = existing_size, ww_global_position = existing_size,
          ww_sync_position = existing_size, ww_last_synced = existing_size\<rparr>)"

definition reopen_fresh :: "WalWriter \<Rightarrow> WalWriter" where
  "reopen_fresh w = w\<lparr>ww_dir := hm_insert 0 [] (ww_dir w), ww_file_seq := 0, ww_position := 0,
     ww_global_position := 0, ww_sync_position := 0, ww_last_synced := 0\<rparr>"

section \<open>Retention\<close>

definition WAL_RETENTION_FILES :: nat where "WAL_RETENTION_FILES = 4"

type_synonym liveness = "SegmentId \<Rightarrow> DataWalPos \<Rightarrow> bool"

definition file_contains_live_entries :: "(u8 list \<Rightarrow> u32) \<Rightarrow> liveness \<Rightarrow> u64 \<times> u8 list \<Rightarrow> bool" where
  "file_contains_live_entries crc32 is_garbage f =
     list_ex (\<lambda>item. case item of Ok (pos, e) \<Rightarrow> \<not> is_garbage (we_segment_id e) pos | _ \<Rightarrow> False)
       (entries_in_file_positions crc32 f)"

definition saturating_sub :: "u64 \<Rightarrow> u64 \<Rightarrow> u64" where
  "saturating_sub a b = (if a < b then 0 else a - b)"

definition cleanup_old_wal_files :: "(u8 list \<Rightarrow> u32) \<Rightarrow> nat \<Rightarrow> liveness option \<Rightarrow> wal_dir \<Rightarrow> wal_dir" where
  "cleanup_old_wal_files crc32 keep is_garbage dir =
     (let current_seq = latest_seq dir;
          retention_floor = saturating_sub current_seq (of_nat (keep - 1))
      in filter (\<lambda>f. \<not> (fst f < retention_floor \<and>
           (case is_garbage of None \<Rightarrow> True | Some g \<Rightarrow> \<not> file_contains_live_entries crc32 g f))) dir)"

definition count_wal_files :: "wal_dir \<Rightarrow> nat" where "count_wal_files dir = length dir"

section \<open>Writing\<close>

definition sync_all :: "WalWriter \<Rightarrow> WalWriter" where
  "sync_all w = w\<lparr>ww_disk := hm_insert (ww_file_seq w) (file_bytes (ww_dir w) (ww_file_seq w)) (ww_disk w)\<rparr>"

definition cleanup :: "(u8 list \<Rightarrow> u32) \<Rightarrow> liveness option \<Rightarrow> WalWriter \<Rightarrow> WalWriter" where
  "cleanup crc32 is_garbage w =
     (let dir = cleanup_old_wal_files crc32 WAL_RETENTION_FILES is_garbage (ww_dir w)
      in w\<lparr>ww_dir := dir, ww_disk := filter (\<lambda>f. hm_get (ww_dir w) (fst f) = None \<or> hm_get dir (fst f) \<noteq> None) (ww_disk w)\<rparr>)"

definition rotate :: "(u8 list \<Rightarrow> u32) \<Rightarrow> liveness option \<Rightarrow> WalWriter \<Rightarrow> WalWriter" where
  "rotate crc32 is_garbage w =
     (let w = sync_all w;
          seq = ww_file_seq w + 1;
          dir = (if hm_get (ww_dir w) seq = None then hm_insert seq [] (ww_dir w) else ww_dir w)
      in cleanup crc32 is_garbage (w\<lparr>ww_sync_position := 0, ww_file_seq := seq, ww_dir := dir, ww_position := 0\<rparr>))"

text \<open>
  The critical sections of \<^verbatim>\<open>append\<close> before the group commit: the write under the file lock, with the global position,
  and, when nothing else runs between them, the size check with the rotation it asks for followed by the write.
\<close>

definition append_entry :: "WalEntry \<Rightarrow> WalWriter \<Rightarrow> (wal_error, DataWalPos) outcome \<times> WalWriter" where
  "append_entry entry w =
     (let data = to_bytes entry; entry_size = of_nat (length data); seq = ww_file_seq w; written_pos = ww_position w;
          w = w\<lparr>ww_dir := hm_insert seq (file_bytes (ww_dir w) seq @ data) (ww_dir w),
                ww_position := written_pos + entry_size, ww_sync_position := written_pos + entry_size\<rparr>
      in if unat seq < 2 ^ 32
         then (Ok \<lparr>dp_file_seq = of_nat (unat seq), dp_offset = written_pos\<rparr>,
               w\<lparr>ww_global_position := ww_global_position w + entry_size\<rparr>)
         else (Err SequenceTooLarge, w))"

definition append_write ::
  "(u8 list \<Rightarrow> u32) \<Rightarrow> liveness option \<Rightarrow> WalEntry \<Rightarrow> WalWriter \<Rightarrow> (wal_error, DataWalPos) outcome \<times> WalWriter" where
  "append_write crc32 is_garbage entry w =
     (let entry_size = of_nat (length (to_bytes entry));
          w = (if ww_position w + entry_size > ww_max_file_size w then rotate crc32 is_garbage w else w)
      in append_entry entry w)"

text \<open>
  One round of the flusher: it may find the file locked by a writer, the sync may fail, or it is done.  With
  \<^verbatim>\<open>sync_file_range\<close> it only syncs when the write position is past the last synced one.
\<close>

datatype flush_result = Busy | Failed | Done

definition wal_flush :: "flush_result \<Rightarrow> WalWriter \<Rightarrow> WalWriter" where
  "wal_flush r w =
     (if r = Busy then w
      else if ww_use_range w then
        (if ww_sync_position w > ww_last_synced w
         then (if r = Done then (sync_all w)\<lparr>ww_last_synced := ww_sync_position w\<rparr> else w)
         else w)
      else if r = Done then sync_all w else w)"

text \<open>\<^verbatim>\<open>append\<close> waits for its round of the flusher, whatever the result of the round.\<close>

definition wal_append ::
  "(u8 list \<Rightarrow> u32) \<Rightarrow> liveness option \<Rightarrow> flush_result \<Rightarrow> WalEntry \<Rightarrow> WalWriter \<Rightarrow>
   (wal_error, DataWalPos) outcome \<times> WalWriter" where
  "wal_append crc32 is_garbage r entry w =
     (case append_write crc32 is_garbage entry w of
        (Ok pos, w') \<Rightarrow> (Ok pos, wal_flush r w')
      | (err, w') \<Rightarrow> (err, w'))"

definition set_len :: "nat \<Rightarrow> u8 list \<Rightarrow> u8 list" where
  "set_len n bs = take n bs @ replicate (n - length bs) 0"

definition wal_truncate :: "u64 \<Rightarrow> WalWriter \<Rightarrow> WalWriter" where
  "wal_truncate position w =
     w\<lparr>ww_dir := hm_insert (ww_file_seq w) (set_len (unat position) (file_bytes (ww_dir w) (ww_file_seq w))) (ww_dir w),
       ww_position := position, ww_sync_position := position,
       ww_last_synced := (if position < ww_last_synced w then position else ww_last_synced w)\<rparr>"

text \<open>The probe of a fresh log: append, read back, remove.\<close>

definition probe_data :: "u8 list" where
  "probe_data = map (of_nat \<circ> of_char) ''oceanfs-wal-verify-probe''"

fun find_probe :: "SegmentId \<Rightarrow> (wal_error, WalEntry) outcome list \<Rightarrow> (wal_error, bool) outcome" where
  "find_probe sid [] = Ok False"
| "find_probe sid (Ok e # items) = (if we_segment_id e = sid then Ok (we_data e = probe_data) else find_probe sid items)"
| "find_probe sid (Err x # items) = Err x"
| "find_probe sid (Panic # items) = Panic"

definition verify_wal_write ::
  "(u8 list \<Rightarrow> u32) \<Rightarrow> (u8 list \<Rightarrow> u8 list) \<Rightarrow> liveness option \<Rightarrow> flush_result \<Rightarrow> SegmentId \<Rightarrow> WalWriter \<Rightarrow> bool \<times> WalWriter" where
  "verify_wal_write crc32 blake3 is_garbage r sid w =
     (let n = of_nat (length probe_data);
          entry = WalEntry_new crc32 sid 0 n n 0 0 0 (blake3 probe_data) probe_data
      in case wal_append crc32 is_garbage r entry w of
           (Ok pos, w) \<Rightarrow>
             (case find_probe sid (replay crc32 (WalReader_open (ww_dir w))) of
                Ok True \<Rightarrow> (True, wal_truncate (dp_offset pos) w)
              | _ \<Rightarrow> (False, w))
         | (_, w) \<Rightarrow> (False, w))"

section \<open>Runs\<close>

text \<open>
  Concurrent appends: each writes its entry and waits; the flusher takes a batch of at most 64 waiters, runs one
  round and acknowledges the batch.  Other appends may run between the size check, the rotation and the write of one append, so
  that a file is rotated twice or grows beyond its bound: rotations and writes are also steps of their own, at any time.
  \<open>live\<close> names the entries that no retention decision of the run calls garbage.
\<close>

definition DEFAULT_SYNC_BATCH_MAX_WAITERS :: nat where "DEFAULT_SYNC_BATCH_MAX_WAITERS = 64"

record wal_run =
  wr_writer :: WalWriter
  wr_waiting :: "(DataWalPos \<times> WalEntry) list"
  wr_acked :: "(DataWalPos \<times> WalEntry) list"
  wr_written :: "(DataWalPos \<times> WalEntry) list"

definition wal_start :: "u64 \<Rightarrow> bool \<Rightarrow> wal_run" where
  "wal_start max_size use_range =
     \<lparr>wr_writer = WalWriter_open max_size use_range [], wr_waiting = [], wr_acked = [], wr_written = []\<rparr>"

inductive wal_step :: "(u8 list \<Rightarrow> u32) \<Rightarrow> liveness \<Rightarrow> flush_result set \<Rightarrow> wal_run \<Rightarrow> wal_run \<Rightarrow> bool"
  for crc32 live rounds where
  append_step: "entry_ok crc32 e \<Longrightarrow> \<forall>s p. live s p \<longrightarrow> \<not> g s p \<Longrightarrow>
    append_write crc32 (Some g) e (wr_writer r) = (Ok p, w) \<Longrightarrow>
    wal_step crc32 live rounds r (r\<lparr>wr_writer := w, wr_waiting := wr_waiting r @ [(p, e)], wr_written := wr_written r @ [(p, e)]\<rparr>)"
| rotate_step: "\<forall>s p. live s p \<longrightarrow> \<not> g s p \<Longrightarrow> unat (ww_file_seq (rotate crc32 (Some g) (wr_writer r))) < 2 ^ 32 \<Longrightarrow>
    wal_step crc32 live rounds r (r\<lparr>wr_writer := rotate crc32 (Some g) (wr_writer r)\<rparr>)"
| write_step: "entry_ok crc32 e \<Longrightarrow> append_entry e (wr_writer r) = (Ok p, w) \<Longrightarrow>
    wal_step crc32 live rounds r (r\<lparr>wr_writer := w, wr_waiting := wr_waiting r @ [(p, e)], wr_written := wr_written r @ [(p, e)]\<rparr>)"
| commit_step: "f \<in> rounds \<Longrightarrow> 0 < n \<Longrightarrow> n \<le> DEFAULT_SYNC_BATCH_MAX_WAITERS \<Longrightarrow>
    wal_step crc32 live rounds r (r\<lparr>wr_writer := wal_flush f (wr_writer r),
      wr_acked := wr_acked r @ take n (wr_waiting r), wr_waiting := drop n (wr_waiting r)\<rparr>)"


section \<open>Directories of whole entries\<close>

definition enc :: "WalEntry list \<Rightarrow> u8 list" where "enc es = concat (map to_bytes es)"

lemma enc_append [simp]: "enc (es @ fs) = enc es @ enc fs" and enc_Nil [simp]: "enc [] = []"
  by (simp_all add: enc_def)

lemma file_seq_of_nat: "n < 2 ^ 32 \<Longrightarrow> file_seq_of (of_nat n) = of_nat n"
proof -
  assume n: "n < 2 ^ 32"
  then have "unat (of_nat n :: u64) = n" by (simp add: unat_of_nat)
  then show ?thesis using n by (simp add: file_seq_of_def)
qed

lemma file_positions_enc:
  assumes "list_all (entry_ok crc32) es"
  shows "file_positions crc32 is_last seq 0 (enc es) = map Ok (located seq 0 es)"
  using file_positions_entries [OF assms, of is_last seq 0 "[]"] by (simp add: enc_def file_positions_short header_size_def)

lemma entries_in_enc:
  "list_all (entry_ok crc32) es \<Longrightarrow> entries_in_file_positions crc32 (seq, enc es) = map Ok (located (file_seq_of seq) 0 es)"
  by (simp add: entries_in_file_positions_def file_positions_enc)

lemma replay_positions_enc:
  assumes "\<forall>i \<in> set is. list_all (entry_ok crc32) (D i)"
  shows "replay_positions crc32 (map (\<lambda>i. (key i, enc (D i))) is) = map Ok (concat (map (\<lambda>i. located (file_seq_of (key i)) 0 (D i)) is))"
  using assms
proof (induction "is")
  case (Cons i "is")
  then show ?case by (cases "is") (simp_all add: file_positions_enc)
qed simp

lemma hm_get_filter:
  "hm_wf m \<Longrightarrow> hm_get (filter P m) k = (case hm_get m k of None \<Rightarrow> None | Some v \<Rightarrow> if P (k, v) then Some v else None)"
proof (induction m)
  case (Cons x m)
  have "hm_get m (fst x) = None" using Cons.prems by (simp add: hm_wf_def hm_get_def map_of_eq_None_iff)
  moreover have "hm_wf m" using Cons.prems by (simp add: hm_wf_def)
  ultimately show ?case using Cons.IH by (cases x) (auto simp: hm_get_def)
qed simp

lemma hm_wf_filter: "hm_wf m \<Longrightarrow> hm_wf (filter P m)"
  by (simp add: hm_wf_def distinct_map_filter)

lemma latest_seq_eq:
  assumes "\<And>k v. (k, v) \<in> set dir \<Longrightarrow> k \<le> m" "(m, v0) \<in> set dir"
  shows "latest_seq dir = m"
proof -
  have ge: "a \<le> fold (\<lambda>(seq, _) m. max m seq) xs a" for xs :: wal_dir and a
    by (induction xs arbitrary: a) (auto intro: order_trans [OF max.cobounded1])
  have mem: "(k, v) \<in> set xs \<Longrightarrow> k \<le> fold (\<lambda>(seq, _) m. max m seq) xs a" for xs :: wal_dir and a k v
    by (induction xs arbitrary: a) (auto intro: order_trans [OF max.cobounded2 ge])
  have le: "(\<And>k v. (k, v) \<in> set xs \<Longrightarrow> k \<le> m) \<Longrightarrow> a \<le> m \<Longrightarrow> fold (\<lambda>(seq, _) m. max m seq) xs a \<le> m" for xs :: wal_dir and a
  proof (induction xs arbitrary: a)
    case (Cons x xs)
    have "fst x \<le> m" using Cons.prems(1) [of "fst x" "snd x"] by simp
    moreover have "k \<le> m" if "(k, v) \<in> set xs" for k v using Cons.prems(1) [of k v] that by simp
    ultimately show ?case using Cons.IH [of "max a (fst x)"] Cons.prems(2) by (auto simp: case_prod_unfold)
  qed simp
  show ?thesis unfolding latest_seq_def using mem [OF assms(2)] le [OF assms(1)] by (intro antisym) auto
qed

section \<open>The invariant of the log\<close>

text \<open>
  \<open>L i\<close> is the list of entries ever written to file \<open>i\<close>.  Readers see each remaining file whole; on disk every file but the
  current one is whole, and of the current one some prefix of its entries.
\<close>

definition log_files :: "(u8 list \<Rightarrow> u32) \<Rightarrow> (nat \<Rightarrow> WalEntry list) \<Rightarrow> WalWriter \<Rightarrow> bool" where
  "log_files crc32 L w \<longleftrightarrow>
     (let N = unat (ww_file_seq w) in
      N \<le> 2 ^ 32 \<and> hm_wf (ww_dir w) \<and> hm_wf (ww_disk w) \<and>
      (\<forall>i. list_all (entry_ok crc32) (L i)) \<and> (\<forall>i > N. L i = []) \<and>
      (\<forall>seq bs. hm_get (ww_dir w) seq = Some bs \<longrightarrow> unat seq \<le> N \<and> bs = enc (L (unat seq))) \<and>
      hm_get (ww_dir w) (ww_file_seq w) \<noteq> None \<and> ww_position w = of_nat (length (enc (L N))) \<and>
      (\<forall>seq bs. hm_get (ww_disk w) seq = Some bs \<longrightarrow> unat seq \<le> N \<and>
         (\<exists>es. prefix es (L (unat seq)) \<and> bs = enc es \<and> (unat seq < N \<longrightarrow> es = L (unat seq)))))"

definition kept :: "liveness \<Rightarrow> (nat \<Rightarrow> WalEntry list) \<Rightarrow> WalWriter \<Rightarrow> bool" where
  "kept live L w \<longleftrightarrow> (\<forall>i < unat (ww_file_seq w). \<forall>(p, e) \<in> set (located (of_nat i) 0 (L i)).
     live (we_segment_id e) p \<longrightarrow> hm_get (ww_disk w) (of_nat i) \<noteq> None)"

lemma unat_u64_Suc: "unat (seq :: u64) \<le> 2 ^ 32 \<Longrightarrow> unat (seq + 1) = Suc (unat seq)"
  by (simp add: unat_word_ariths(1))

lemma unat_u64_of_nat: "n \<le> 2 ^ 33 \<Longrightarrow> unat (of_nat n :: u64) = n"
  by (simp add: unat_of_nat)

lemma log_filesD:
  assumes "log_files crc32 L w"
  shows "unat (ww_file_seq w) \<le> 2 ^ 32" "hm_wf (ww_dir w)" "hm_wf (ww_disk w)" "list_all (entry_ok crc32) (L i)"
    "i > unat (ww_file_seq w) \<Longrightarrow> L i = []"
    "hm_get (ww_dir w) seq = Some bs \<Longrightarrow> unat seq \<le> unat (ww_file_seq w) \<and> bs = enc (L (unat seq))"
    "hm_get (ww_dir w) (ww_file_seq w) = Some (enc (L (unat (ww_file_seq w))))"
    "file_bytes (ww_dir w) (ww_file_seq w) = enc (L (unat (ww_file_seq w)))"
    "ww_position w = of_nat (length (enc (L (unat (ww_file_seq w)))))"
  using assms by (auto simp: log_files_def Let_def file_bytes_def)

lemma log_filesI:
  assumes "unat (ww_file_seq w) \<le> 2 ^ 32" "hm_wf (ww_dir w)" "hm_wf (ww_disk w)" "\<And>i. list_all (entry_ok crc32) (L i)"
    "\<And>i. i > unat (ww_file_seq w) \<Longrightarrow> L i = []"
    "\<And>seq bs. hm_get (ww_dir w) seq = Some bs \<Longrightarrow> unat seq \<le> unat (ww_file_seq w) \<and> bs = enc (L (unat seq))"
    "hm_get (ww_dir w) (ww_file_seq w) \<noteq> None" "ww_position w = of_nat (length (enc (L (unat (ww_file_seq w)))))"
    "\<And>seq bs. hm_get (ww_disk w) seq = Some bs \<Longrightarrow> unat seq \<le> unat (ww_file_seq w) \<and>
       (\<exists>es. prefix es (L (unat seq)) \<and> bs = enc es \<and> (unat seq < unat (ww_file_seq w) \<longrightarrow> es = L (unat seq)))"
  shows "log_files crc32 L w"
  unfolding log_files_def Let_def using assms by blast

lemma log_files_diskD:
  assumes "log_files crc32 L w" "hm_get (ww_disk w) seq = Some bs"
  obtains es where "unat seq \<le> unat (ww_file_seq w)" "prefix es (L (unat seq))" "bs = enc es"
    "unat seq < unat (ww_file_seq w) \<Longrightarrow> es = L (unat seq)"
  using assms unfolding log_files_def Let_def by metis

lemma sync_all_files:
  assumes "log_files crc32 L w"
  shows "log_files crc32 L (sync_all w)" "hm_get (ww_disk (sync_all w)) (ww_file_seq w) = Some (enc (L (unat (ww_file_seq w))))"
    "kept live L w \<Longrightarrow> kept live L (sync_all w)"
proof -
  note D = log_filesD [OF assms]
  show "hm_get (ww_disk (sync_all w)) (ww_file_seq w) = Some (enc (L (unat (ww_file_seq w))))"
    by (simp add: sync_all_def D(8))
  show "kept live L w \<Longrightarrow> kept live L (sync_all w)"
    by (auto simp: kept_def sync_all_def)
  have "ww_file_seq (sync_all w) = ww_file_seq w" "ww_dir (sync_all w) = ww_dir w" "ww_position (sync_all w) = ww_position w"
    "hm_wf (ww_disk (sync_all w))"
    using D(3) by (simp_all add: sync_all_def)
  note c = this
  have "unat seq \<le> unat (ww_file_seq w) \<and> (\<exists>es. prefix es (L (unat seq)) \<and> bs = enc es \<and> (unat seq < unat (ww_file_seq w) \<longrightarrow> es = L (unat seq)))"
    if "hm_get (ww_disk (sync_all w)) seq = Some bs" for seq bs
    using that assms by (auto simp: sync_all_def D(8) log_files_def Let_def split: if_splits)
  note disk = this
  show "log_files crc32 L (sync_all w)"
  proof (rule log_filesI, goal_cases)
    case (9 seq bs)
    then show ?case unfolding c by (rule disk)
  next
    case (6 seq bs)
    then show ?case unfolding c by (rule D(6))
  next
    case (5 i)
    then show ?case unfolding c by (rule D(5))
  next
    case (4 i)
    show ?case by (rule D(4))
  qed (simp_all only: c D(1,2,7,9), simp)
qed

text \<open>Moving to the next, empty file.\<close>

lemma next_file:
  assumes "log_files crc32 L w" "unat (ww_file_seq w) < 2 ^ 32"
    and "hm_get (ww_disk w) (ww_file_seq w) = Some (enc (L (unat (ww_file_seq w))))" "kept live L w"
  defines "w' \<equiv> w\<lparr>ww_sync_position := 0, ww_file_seq := ww_file_seq w + 1,
     ww_dir := (if hm_get (ww_dir w) (ww_file_seq w + 1) = None then hm_insert (ww_file_seq w + 1) [] (ww_dir w) else ww_dir w),
     ww_position := 0\<rparr>"
  shows "log_files crc32 L w'" "kept live L w'" "unat (ww_file_seq w') = Suc (unat (ww_file_seq w))"
proof -
  note D = log_filesD [OF assms(1)]
  let ?N = "unat (ww_file_seq w)"
  have N: "unat (ww_file_seq w + 1) = Suc ?N" using assms(2) by (simp add: unat_u64_Suc)
  then show "unat (ww_file_seq w') = Suc ?N" by (simp add: w'_def)
  have fresh: "hm_get (ww_dir w) (ww_file_seq w + 1) = None"
    using D(6) [of "ww_file_seq w + 1"] N by (cases "hm_get (ww_dir w) (ww_file_seq w + 1)") auto
  have dir: "unat seq \<le> Suc ?N \<and> bs = enc (L (unat seq))" if "hm_get (ww_dir w') seq = Some bs" for seq bs
    using that D(5) [of "Suc ?N"] D(6) [of seq bs] N by (auto simp: w'_def fresh split: if_splits)
  have disk: "unat seq \<le> Suc ?N \<and> (\<exists>es. prefix es (L (unat seq)) \<and> bs = enc es \<and> (unat seq < Suc ?N \<longrightarrow> es = L (unat seq)))"
    if "hm_get (ww_disk w') seq = Some bs" for seq bs
  proof -
    have s: "hm_get (ww_disk w) seq = Some bs" using that by (simp add: w'_def)
    show ?thesis
    proof (cases "seq = ww_file_seq w")
      case True
      then show ?thesis using s assms(3) by auto
    next
      case False
      then have "unat seq \<noteq> ?N" by (simp add: word_unat_eq_iff)
      then show ?thesis using log_files_diskD [OF assms(1) s] by (metis le_Suc_eq le_neq_implies_less prefix_order.refl)
    qed
  qed
  have f: "unat (ww_file_seq w') = Suc ?N" by (simp add: w'_def N)
  show "log_files crc32 L w'"
  proof (rule log_filesI, goal_cases)
    case 1 then show ?case using assms(2) f by simp
  next
    case 2 then show ?case using D(2) by (simp add: w'_def)
  next
    case 3 then show ?case using D(3) by (simp add: w'_def)
  next
    case 4 then show ?case by (rule D(4))
  next
    case 5 then show ?case using D(5) f by simp
  next
    case 6 then show ?case using dir f by simp
  next
    case 7 then show ?case by (simp add: w'_def fresh)
  next
    case 8 then show ?case using D(5) [of "Suc ?N"] f by (simp add: w'_def)
  next
    case 9 then show ?case using disk f by simp
  qed
  show "kept live L w'"
    unfolding kept_def
  proof (intro allI impI ballI, clarify)
    fix i p e
    assume i: "i < unat (ww_file_seq w')" "(p, e) \<in> set (located (of_nat i) 0 (L i))" "live (we_segment_id e) p"
    show "\<exists>y. hm_get (ww_disk w') (of_nat i) = Some y"
    proof (cases "i = ?N")
      case True
      then show ?thesis using i assms(3) by (simp add: w'_def)
    next
      case False
      then have "i < ?N" using i(1) N by (simp add: w'_def)
      then show ?thesis using i assms(4) by (fastforce simp: kept_def w'_def)
    qed
  qed
qed

text \<open>Retention removes no file with a live entry.\<close>

lemma cleanup_files:
  assumes w: "log_files crc32 L w" and "kept live L w" and g: "\<forall>s p. live s p \<longrightarrow> \<not> g s p"
    and "unat (ww_file_seq w) < 2 ^ 32"
  shows "log_files crc32 L (cleanup crc32 (Some g) w)" "kept live L (cleanup crc32 (Some g) w)"
proof -
  note D = log_filesD [OF w]
  let ?c = "cleanup crc32 (Some g) w" and ?dir = "cleanup_old_wal_files crc32 WAL_RETENTION_FILES (Some g) (ww_dir w)"
  have latest: "latest_seq (ww_dir w) = ww_file_seq w"
  proof (rule latest_seq_eq)
    show "(ww_file_seq w, enc (L (unat (ww_file_seq w)))) \<in> set (ww_dir w)" using D(2,7) by (simp add: hm_get_mem)
    show "k \<le> ww_file_seq w" if "(k, v) \<in> set (ww_dir w)" for k v
      using that D(2) D(6) [of k v] by (simp add: hm_get_mem word_le_nat_alt)
  qed
  have floor: "saturating_sub (ww_file_seq w) x \<le> ww_file_seq w" for x
    by (simp add: saturating_sub_def word_sub_le_iff not_less)
  have dir: "hm_get ?dir seq = (case hm_get (ww_dir w) seq of None \<Rightarrow> None | Some bs \<Rightarrow>
      if seq < saturating_sub (ww_file_seq w) (of_nat (WAL_RETENTION_FILES - 1)) \<and> \<not> file_contains_live_entries crc32 g (seq, bs)
      then None else Some bs)" for seq
    using D(2) by (auto simp: cleanup_old_wal_files_def latest Let_def hm_get_filter split: option.splits)
  have disk: "hm_get (ww_disk ?c) seq = (if hm_get (ww_dir w) seq = None \<or> hm_get ?dir seq \<noteq> None then hm_get (ww_disk w) seq else None)" for seq
    using D(3) by (auto simp: cleanup_def Let_def hm_get_filter split: option.splits)
  have wf: "hm_wf ?dir" "hm_wf (ww_disk ?c)"
    using D(2,3) by (simp_all add: cleanup_def cleanup_old_wal_files_def Let_def hm_wf_filter)
  have cur: "hm_get ?dir (ww_file_seq w) \<noteq> None"
    using D(7) floor [of "of_nat (WAL_RETENTION_FILES - 1)"] by (simp add: dir not_less)
  have sub: "hm_get ?dir seq = Some bs \<Longrightarrow> hm_get (ww_dir w) seq = Some bs" for seq bs
    by (auto simp: dir split: option.splits if_splits)
  have c: "ww_file_seq ?c = ww_file_seq w" "ww_dir ?c = ?dir" "ww_position ?c = ww_position w"
    by (simp_all add: cleanup_def Let_def)
  show "log_files crc32 L ?c"
  proof (rule log_filesI, goal_cases)
    case (9 seq bs)
    then have "hm_get (ww_disk w) seq = Some bs" by (simp add: disk split: if_splits)
    with w show ?case unfolding c log_files_def Let_def by blast
  next
    case (6 seq bs)
    then have "hm_get (ww_dir w) seq = Some bs" unfolding c by (rule sub)
    then show ?case unfolding c by (rule D(6))
  next
    case (5 i)
    then show ?case unfolding c by (rule D(5))
  next
    case (4 i)
    show ?case by (rule D(4))
  next
    case 7
    show ?case unfolding c by (rule cur)
  qed (simp_all only: c D(1,9) wf)
  show "kept live L ?c"
    unfolding kept_def
  proof (intro allI impI ballI, clarify)
    fix i p e
    assume i: "i < unat (ww_file_seq ?c)" "(p, e) \<in> set (located (of_nat i) 0 (L i))" "live (we_segment_id e) p"
    have N: "i < unat (ww_file_seq w)" using i(1) c by simp
    then have u: "unat (of_nat i :: u64) = i" "file_seq_of (of_nat i) = of_nat i"
      using assms(4) by (auto intro: unat_u64_of_nat file_seq_of_nat)
    have "hm_get (ww_disk w) (of_nat i) \<noteq> None" using assms(2) N i(2,3) by (auto simp: kept_def)
    moreover have "hm_get ?dir (of_nat i) \<noteq> None" if "hm_get (ww_dir w) (of_nat i) = Some bs" for bs
    proof -
      have "bs = enc (L i)" using D(6) [OF that] u by simp
      then have "file_contains_live_entries crc32 g (of_nat i, bs)"
        using i(2,3) g u D(4) [of i] by (force simp: file_contains_live_entries_def entries_in_enc list_ex_iff)
      then show ?thesis using that by (simp add: dir)
    qed
    ultimately show "\<exists>y. hm_get (ww_disk ?c) (of_nat i) = Some y"
      by (cases "hm_get (ww_dir w) (of_nat i)") (auto simp: disk)
  qed
qed

lemma rotate_files:
  assumes "log_files crc32 L w" "kept live L w" "\<forall>s p. live s p \<longrightarrow> \<not> g s p"
    and "unat (ww_file_seq (rotate crc32 (Some g) w)) < 2 ^ 32" "unat (ww_file_seq w) < 2 ^ 32"
  shows "log_files crc32 L (rotate crc32 (Some g) w)" "kept live L (rotate crc32 (Some g) w)"
    "unat (ww_file_seq (rotate crc32 (Some g) w)) = Suc (unat (ww_file_seq w))"
proof -
  let ?s = "sync_all w"
  have f: "ww_file_seq ?s = ww_file_seq w" "ww_dir ?s = ww_dir w" by (simp_all add: sync_all_def)
  let ?n = "?s\<lparr>ww_sync_position := 0, ww_file_seq := ww_file_seq ?s + 1,
     ww_dir := (if hm_get (ww_dir ?s) (ww_file_seq ?s + 1) = None then hm_insert (ww_file_seq ?s + 1) [] (ww_dir ?s) else ww_dir ?s),
     ww_position := 0\<rparr>"
  have r: "rotate crc32 (Some g) w = cleanup crc32 (Some g) ?n" by (simp add: rotate_def Let_def)
  have q: "ww_file_seq (cleanup crc32 (Some g) x) = ww_file_seq x" for x by (simp add: cleanup_def Let_def)
  note S = sync_all_files [OF assms(1)]
  note n = next_file [OF S(1), of live, unfolded f(1), OF assms(5) S(2) S(3) [OF assms(2)]]
  show "unat (ww_file_seq (rotate crc32 (Some g) w)) = Suc (unat (ww_file_seq w))"
    unfolding r q using n(3) f by simp
  then have "unat (ww_file_seq ?n) < 2 ^ 32" using assms(4) unfolding r q by simp
  then show "log_files crc32 L (rotate crc32 (Some g) w)" "kept live L (rotate crc32 (Some g) w)"
    unfolding r using n(1,2) assms(3) f by (auto intro!: cleanup_files)
qed

text \<open>Writing one entry at the end of the current file.\<close>

definition put_entry :: "WalEntry \<Rightarrow> WalWriter \<Rightarrow> WalWriter" where
  "put_entry e w = w\<lparr>ww_dir := hm_insert (ww_file_seq w) (file_bytes (ww_dir w) (ww_file_seq w) @ to_bytes e) (ww_dir w),
     ww_position := ww_position w + of_nat (length (to_bytes e)),
     ww_sync_position := ww_position w + of_nat (length (to_bytes e))\<rparr>"

lemma append_entry_Ok:
  assumes "append_entry e v = (Ok p, w)"
  shows "unat (ww_file_seq v) < 2 ^ 32" "p = \<lparr>dp_file_seq = of_nat (unat (ww_file_seq v)), dp_offset = ww_position v\<rparr>"
    "w = (put_entry e v)\<lparr>ww_global_position := ww_global_position v + of_nat (length (to_bytes e))\<rparr>"
  using assms by (auto simp: append_entry_def Let_def put_entry_def split: if_splits)

lemma append_write_Ok:
  assumes "append_write crc32 (Some g) e w = (Ok p, w')"
  obtains v where "v = w \<or> v = rotate crc32 (Some g) w" "unat (ww_file_seq v) < 2 ^ 32"
    "p = \<lparr>dp_file_seq = of_nat (unat (ww_file_seq v)), dp_offset = ww_position v\<rparr>"
    "w' = (put_entry e v)\<lparr>ww_global_position := ww_global_position v + of_nat (length (to_bytes e))\<rparr>"
proof -
  let ?v = "if ww_position w + of_nat (length (to_bytes e)) > ww_max_file_size w then rotate crc32 (Some g) w else w"
  have "append_entry e ?v = (Ok p, w')" using assms by (simp only: append_write_def Let_def)
  from append_entry_Ok [OF this] show thesis by (intro that [of ?v]) (simp_all split: if_splits)
qed

lemma put_entry_files:
  assumes "log_files crc32 L w" "kept live L w" "entry_ok crc32 e"
  defines "L' \<equiv> L(unat (ww_file_seq w) := L (unat (ww_file_seq w)) @ [e])"
  shows "log_files crc32 L' (put_entry e w)" "kept live L' (put_entry e w)"
proof -
  note D = log_filesD [OF assms(1)]
  have c: "ww_file_seq (put_entry e w) = ww_file_seq w" "ww_disk (put_entry e w) = ww_disk w"
    by (simp_all add: put_entry_def)
  have eq: "unat seq = unat (ww_file_seq w) \<longleftrightarrow> seq = ww_file_seq w" for seq by (simp add: word_unat_eq_iff)
  show "kept live L' (put_entry e w)"
    using assms(2) unfolding kept_def c L'_def by auto
  show "log_files crc32 L' (put_entry e w)"
  proof (rule log_filesI, goal_cases)
    case (4 i)
    show ?case using D(4) [of i] D(4) [of "unat (ww_file_seq w)"] assms(3) by (simp add: L'_def)
  next
    case (5 i)
    then show ?case using D(5) unfolding c by (simp add: L'_def)
  next
    case (6 seq bs)
    then show ?case using D(6) [of seq bs] unfolding c
      by (auto simp: put_entry_def L'_def D(8) eq enc_def split: if_splits)
  next
    case 8
    show ?case unfolding c by (simp add: put_entry_def D(9) L'_def enc_def)
  next
    case (9 seq bs)
    from log_files_diskD [OF assms(1) this [unfolded c]] obtain es where es: "unat seq \<le> unat (ww_file_seq w)"
      "prefix es (L (unat seq))" "bs = enc es" "unat seq < unat (ww_file_seq w) \<Longrightarrow> es = L (unat seq)" by metis
    have "prefix es (L' (unat seq))" using es(2) by (cases "unat seq = unat (ww_file_seq w)") (simp_all add: L'_def)
    then show ?case unfolding c using es by (intro conjI exI [of _ es]) (auto simp: L'_def)
  next
    case 1
    show ?case unfolding c by (rule D(1))
  qed (simp_all add: D(2,3) put_entry_def)
qed

section \<open>The invariant of a run\<close>

definition run_inv :: "(u8 list \<Rightarrow> u32) \<Rightarrow> liveness \<Rightarrow> wal_run \<Rightarrow> bool" where
  "run_inv crc32 live r \<longleftrightarrow>
     (\<exists>L. let w = wr_writer r; N = unat (ww_file_seq w) in
        N < 2 ^ 32 \<and> \<not> ww_use_range w \<and> log_files crc32 L w \<and> kept live L w \<and>
        wr_written r = concat (map (\<lambda>i. located (of_nat i) 0 (L i)) [0..<Suc N]) \<and>
        set (wr_waiting r) \<subseteq> set (wr_written r) \<and>
        (\<forall>x \<in> set (wr_acked r). \<exists>i \<le> N. x \<in> set (located (of_nat i) 0 (L i)) \<and>
          (i = N \<longrightarrow> (\<exists>es. hm_get (ww_disk w) (ww_file_seq w) = Some (enc es) \<and> prefix es (L N) \<and>
             x \<in> set (located (of_nat N) 0 es)))))"

lemma run_invE:
  assumes "run_inv crc32 live r"
  obtains L where "unat (ww_file_seq (wr_writer r)) < 2 ^ 32" "\<not> ww_use_range (wr_writer r)"
    "log_files crc32 L (wr_writer r)" "kept live L (wr_writer r)"
    "wr_written r = concat (map (\<lambda>i. located (of_nat i) 0 (L i)) [0..<Suc (unat (ww_file_seq (wr_writer r)))])"
    "set (wr_waiting r) \<subseteq> set (wr_written r)"
    "\<And>x. x \<in> set (wr_acked r) \<Longrightarrow> \<exists>i \<le> unat (ww_file_seq (wr_writer r)). x \<in> set (located (of_nat i) 0 (L i)) \<and>
       (i = unat (ww_file_seq (wr_writer r)) \<longrightarrow> (\<exists>es. hm_get (ww_disk (wr_writer r)) (ww_file_seq (wr_writer r)) = Some (enc es) \<and>
          prefix es (L i) \<and> x \<in> set (located (of_nat i) 0 es)))"
proof -
  obtain L where L: "let w = wr_writer r; N = unat (ww_file_seq w) in
        N < 2 ^ 32 \<and> \<not> ww_use_range w \<and> log_files crc32 L w \<and> kept live L w \<and>
        wr_written r = concat (map (\<lambda>i. located (of_nat i) 0 (L i)) [0..<Suc N]) \<and>
        set (wr_waiting r) \<subseteq> set (wr_written r) \<and>
        (\<forall>x \<in> set (wr_acked r). \<exists>i \<le> N. x \<in> set (located (of_nat i) 0 (L i)) \<and>
          (i = N \<longrightarrow> (\<exists>es. hm_get (ww_disk w) (ww_file_seq w) = Some (enc es) \<and> prefix es (L N) \<and>
             x \<in> set (located (of_nat N) 0 es))))"
    using assms unfolding run_inv_def by blast
  show ?thesis using that [of L] L unfolding Let_def by blast
qed

lemma run_invI:
  assumes "unat (ww_file_seq (wr_writer r)) < 2 ^ 32" "\<not> ww_use_range (wr_writer r)"
    "log_files crc32 L (wr_writer r)" "kept live L (wr_writer r)"
    "wr_written r = concat (map (\<lambda>i. located (of_nat i) 0 (L i)) [0..<Suc (unat (ww_file_seq (wr_writer r)))])"
    "set (wr_waiting r) \<subseteq> set (wr_written r)"
    "\<And>x. x \<in> set (wr_acked r) \<Longrightarrow> \<exists>i \<le> unat (ww_file_seq (wr_writer r)). x \<in> set (located (of_nat i) 0 (L i)) \<and>
       (i = unat (ww_file_seq (wr_writer r)) \<longrightarrow> (\<exists>es. hm_get (ww_disk (wr_writer r)) (ww_file_seq (wr_writer r)) = Some (enc es) \<and>
          prefix es (L i) \<and> x \<in> set (located (of_nat i) 0 es)))"
  shows "run_inv crc32 live r"
  unfolding run_inv_def Let_def using assms by blast

lemma run_inv_rotate:
  assumes "run_inv crc32 live r" "\<forall>s p. live s p \<longrightarrow> \<not> g s p"
    and "unat (ww_file_seq (rotate crc32 (Some g) (wr_writer r))) < 2 ^ 32"
  shows "run_inv crc32 live (r\<lparr>wr_writer := rotate crc32 (Some g) (wr_writer r)\<rparr>)"
  using assms(1)
proof (rule run_invE)
  fix L
  let ?N = "unat (ww_file_seq (wr_writer r))"
  assume L: "?N < 2 ^ 32" "\<not> ww_use_range (wr_writer r)" "log_files crc32 L (wr_writer r)" "kept live L (wr_writer r)"
    "wr_written r = concat (map (\<lambda>i. located (of_nat i) 0 (L i)) [0..<Suc ?N])" "set (wr_waiting r) \<subseteq> set (wr_written r)"
    and A: "\<And>x. x \<in> set (wr_acked r) \<Longrightarrow> \<exists>i \<le> ?N. x \<in> set (located (of_nat i) 0 (L i)) \<and>
       (i = ?N \<longrightarrow> (\<exists>es. hm_get (ww_disk (wr_writer r)) (ww_file_seq (wr_writer r)) = Some (enc es) \<and>
          prefix es (L i) \<and> x \<in> set (located (of_nat i) 0 es)))"
  note R = rotate_files [OF L(3,4) assms(2,3) L(1)]
  have "L (Suc ?N) = []" using log_filesD(5) [OF L(3)] by simp
  then have w: "wr_written r = concat (map (\<lambda>i. located (of_nat i) 0 (L i)) [0..<Suc (Suc ?N)])" using L(5) by simp
  have "\<not> ww_use_range (rotate crc32 (Some g) (wr_writer r))"
    using L(2) by (simp add: rotate_def cleanup_def sync_all_def Let_def)
  moreover have "\<exists>i \<le> Suc ?N. x \<in> set (located (of_nat i) 0 (L i)) \<and> (i = Suc ?N \<longrightarrow> Q i)" if "x \<in> set (wr_acked r)" for x Q
    using A [OF that] by (metis le_Suc_eq not_less_eq_eq order_refl)
  ultimately show ?thesis
    using assms(3) R L(6) w by (intro run_invI [of _ _ L]) simp_all
qed

lemma run_inv_put:
  assumes "run_inv crc32 live r" "entry_ok crc32 e"
  defines "v \<equiv> wr_writer r"
  defines "p \<equiv> \<lparr>dp_file_seq = of_nat (unat (ww_file_seq v)), dp_offset = ww_position v\<rparr>"
  shows "run_inv crc32 live (r\<lparr>wr_writer := (put_entry e v)\<lparr>ww_global_position := x\<rparr>,
     wr_waiting := wr_waiting r @ [(p, e)], wr_written := wr_written r @ [(p, e)]\<rparr>)"
  using assms(1)
proof (rule run_invE)
  fix L
  let ?N = "unat (ww_file_seq v)"
  assume L: "unat (ww_file_seq (wr_writer r)) < 2 ^ 32" "\<not> ww_use_range (wr_writer r)" "log_files crc32 L (wr_writer r)" "kept live L (wr_writer r)"
    "wr_written r = concat (map (\<lambda>i. located (of_nat i) 0 (L i)) [0..<Suc (unat (ww_file_seq (wr_writer r)))])"
    "set (wr_waiting r) \<subseteq> set (wr_written r)"
    and A: "\<And>x. x \<in> set (wr_acked r) \<Longrightarrow> \<exists>i \<le> unat (ww_file_seq (wr_writer r)). x \<in> set (located (of_nat i) 0 (L i)) \<and>
       (i = unat (ww_file_seq (wr_writer r)) \<longrightarrow> (\<exists>es. hm_get (ww_disk (wr_writer r)) (ww_file_seq (wr_writer r)) = Some (enc es) \<and>
          prefix es (L i) \<and> x \<in> set (located (of_nat i) 0 es)))"
  define L' where "L' = L(?N := L ?N @ [e])"
  note D = log_filesD [OF L(3)]
  have loc: "located (of_nat ?N) 0 (L' ?N) = located (of_nat ?N) 0 (L ?N) @ [(p, e)]"
    using located_append [OF D(4), of "of_nat ?N" 0 ?N "[e]"] D(9) by (simp add: L'_def p_def v_def enc_def)
  have "log_files crc32 L' (put_entry e v)" "kept live L' (put_entry e v)"
    using put_entry_files [OF L(3,4) assms(2)] by (simp_all add: L'_def v_def)
  then have F: "log_files crc32 L' ((put_entry e v)\<lparr>ww_global_position := x\<rparr>)" "kept live L' ((put_entry e v)\<lparr>ww_global_position := x\<rparr>)"
    by (simp_all add: log_files_def kept_def)
  have s: "ww_file_seq (put_entry e v) = ww_file_seq v" "ww_disk (put_entry e v) = ww_disk v" "ww_use_range (put_entry e v) = ww_use_range v"
    by (simp_all add: put_entry_def)
  have "concat (map (\<lambda>i. located (of_nat i) 0 (L' i)) [0..<?N]) = concat (map (\<lambda>i. located (of_nat i) 0 (L i)) [0..<?N])"
    by (rule arg_cong [where f = concat]) (simp add: L'_def)
  then have W: "wr_written r @ [(p, e)] = concat (map (\<lambda>i. located (of_nat i) 0 (L' i)) [0..<Suc ?N])"
    using L(5) loc by (simp add: v_def)
  have sub: "set (located (of_nat i) 0 (L i)) \<subseteq> set (located (of_nat i) 0 (L' i))" for i
    using loc by (cases "i = ?N") (auto simp: L'_def)
  have B: "\<exists>i \<le> ?N. y \<in> set (located (of_nat i) 0 (L' i)) \<and> (i = ?N \<longrightarrow> (\<exists>es. hm_get (ww_disk v) (ww_file_seq v) = Some (enc es) \<and>
          prefix es (L' i) \<and> y \<in> set (located (of_nat i) 0 es)))" if "y \<in> set (wr_acked r)" for y
    using A [OF that] sub unfolding v_def [symmetric] by (fastforce simp: L'_def)
  show ?thesis
  proof (rule run_invI [of _ _ L'], goal_cases)
    case 6
    show ?case using L(6) by auto
  next
    case (7 y)
    then show ?case using B by (simp add: s)
  qed (use L(1,2) F W s in \<open>simp_all add: v_def\<close>)
qed

lemma run_inv_commit:
  assumes "run_inv crc32 live r"
  shows "run_inv crc32 live (r\<lparr>wr_writer := wal_flush Done (wr_writer r),
      wr_acked := wr_acked r @ take n (wr_waiting r), wr_waiting := drop n (wr_waiting r)\<rparr>)"
  using assms
proof (rule run_invE)
  fix L
  let ?w = "wr_writer r"
  let ?N = "unat (ww_file_seq ?w)"
  assume L: "?N < 2 ^ 32" "\<not> ww_use_range ?w" "log_files crc32 L ?w" "kept live L ?w"
    "wr_written r = concat (map (\<lambda>i. located (of_nat i) 0 (L i)) [0..<Suc ?N])" "set (wr_waiting r) \<subseteq> set (wr_written r)"
    and A: "\<And>x. x \<in> set (wr_acked r) \<Longrightarrow> \<exists>i \<le> ?N. x \<in> set (located (of_nat i) 0 (L i)) \<and>
       (i = ?N \<longrightarrow> (\<exists>es. hm_get (ww_disk ?w) (ww_file_seq ?w) = Some (enc es) \<and>
          prefix es (L i) \<and> x \<in> set (located (of_nat i) 0 es)))"
  note S = sync_all_files [OF L(3)]
  have f: "wal_flush Done ?w = sync_all ?w" using L(2) by (simp add: wal_flush_def)
  have s: "ww_file_seq (sync_all ?w) = ww_file_seq ?w" "ww_use_range (sync_all ?w) = ww_use_range ?w"
    by (simp_all add: sync_all_def)
  have wr: "x \<in> set (wr_written r) \<longleftrightarrow> (\<exists>i \<le> ?N. x \<in> set (located (of_nat i) 0 (L i)))" for x
    unfolding L(5) by (auto simp: less_Suc_eq_le simp del: upt_Suc)
  have "\<exists>i \<le> ?N. x \<in> set (located (of_nat i) 0 (L i))" if "x \<in> set (wr_acked r) \<union> set (wr_waiting r)" for x
    using that A [of x] L(6) wr [of x] by auto
  then have B: "\<exists>i \<le> ?N. x \<in> set (located (of_nat i) 0 (L i)) \<and> (i = ?N \<longrightarrow>
      (\<exists>es. hm_get (ww_disk (sync_all ?w)) (ww_file_seq ?w) = Some (enc es) \<and> prefix es (L i) \<and> x \<in> set (located (of_nat i) 0 es)))"
    if "x \<in> set (wr_acked r) \<union> set (wr_waiting r)" for x
    using that S(2) by blast
  show ?thesis
  proof (rule run_invI [of _ _ L], goal_cases)
    case 6
    show ?case using L(6) set_drop_subset [of n "wr_waiting r"] by auto
  next
    case (7 y)
    then have "y \<in> set (wr_acked r) \<union> set (wr_waiting r)" using set_take_subset [of n "wr_waiting r"] by auto
    then show ?case using B by (simp add: f s)
  qed (use L S f s in simp_all)
qed

lemma run_inv_step: "wal_step crc32 live {Done} r r' \<Longrightarrow> run_inv crc32 live r \<Longrightarrow> run_inv crc32 live r'"
proof (induction rule: wal_step.induct)
  case (append_step e g r p w)
  obtain v where v: "v = wr_writer r \<or> v = rotate crc32 (Some g) (wr_writer r)" "unat (ww_file_seq v) < 2 ^ 32"
    "p = \<lparr>dp_file_seq = of_nat (unat (ww_file_seq v)), dp_offset = ww_position v\<rparr>"
    "w = (put_entry e v)\<lparr>ww_global_position := ww_global_position v + of_nat (length (to_bytes e))\<rparr>"
    using append_write_Ok [OF append_step(3)] .
  have "run_inv crc32 live (r\<lparr>wr_writer := v\<rparr>)"
    using v(1,2) append_step(2,4) run_inv_rotate by auto
  from run_inv_put [OF this append_step(1)] show ?case by (simp add: v(3,4))
next
  case (rotate_step g r)
  then show ?case using run_inv_rotate by blast
next
  case (write_step e r p w)
  then show ?case using run_inv_put [OF write_step(3,1)] append_entry_Ok [OF write_step(2)] by simp
next
  case (commit_step f n r)
  then show ?case using run_inv_commit by simp
qed

lemma run_inv_reachable: "(wal_step crc32 live {Done})\<^sup>*\<^sup>* r r' \<Longrightarrow> run_inv crc32 live r \<Longrightarrow> run_inv crc32 live r'"
  by (induction rule: rtranclp_induct) (auto intro: run_inv_step)

lemma run_inv_start: "run_inv crc32 live (wal_start max_size False)"
proof (rule run_invI [of _ _ "\<lambda>_. []"], goal_cases)
  case 3
  show ?case
    by (rule log_filesI) (auto simp: wal_start_def WalWriter_open_def latest_seq_def file_bytes_def split: if_splits)
qed (simp_all add: wal_start_def WalWriter_open_def latest_seq_def kept_def Let_def)

section \<open>Replaying what survives\<close>

lemma enc_inject:
  assumes "list_all (entry_ok crc32) es" "list_all (entry_ok crc32) fs" "enc es = enc fs"
  shows "es = fs"
proof -
  have "map Ok (located 0 0 es) = (map Ok (located 0 0 fs) :: (wal_error, DataWalPos \<times> WalEntry) outcome list)"
    using file_positions_enc [OF assms(1), of True 0] file_positions_enc [OF assms(2), of True 0] assms(3) by simp
  then have "located 0 0 es = located 0 0 fs" by (simp add: map_injective inj_def)
  then show ?thesis by (metis snd_located)
qed

lemma keyed_list_eq: "map fst xs = map fst ys \<Longrightarrow> \<forall>x \<in> set xs \<union> set ys. snd x = f (fst x) \<Longrightarrow> xs = ys"
proof (induction xs arbitrary: ys)
  case (Cons x xs)
  then obtain y ys' where "ys = y # ys'" by (cases ys) auto
  then show ?case using Cons by (auto intro: prod_eqI)
qed simp

lemma WalReader_open_sorted:
  assumes "hm_wf m" "\<And>k v. hm_get m k = Some v \<Longrightarrow> unat k < n" "n \<le> 2 ^ 33"
  shows "WalReader_open m = map (\<lambda>i. (of_nat i, the (hm_get m (of_nat i)))) (filter (\<lambda>i. hm_get m (of_nat i) \<noteq> None) [0..<n])"
    (is "_ = ?r")
proof (rule keyed_list_eq [where f = "\<lambda>k. the (hm_get m k)"])
  let ?is = "filter (\<lambda>i. hm_get m (of_nat i) \<noteq> None) [0..<n]"
  have u: "unat (of_nat i :: u64) = i" if "i < n" for i using that assms(3) by (simp add: unat_u64_of_nat)
  have mono: "sorted (map (of_nat :: nat \<Rightarrow> u64) ?is)"
    unfolding sorted_map by (rule sorted_wrt_mono_rel [of _ "(\<le>)"]) (auto simp: word_le_nat_alt u sorted_wrt_filter)
  have dist: "distinct (map (of_nat :: nat \<Rightarrow> u64) ?is)"
    by (simp add: distinct_map inj_on_def) (metis u)
  have "set (map (of_nat :: nat \<Rightarrow> u64) ?is) = fst ` set m"
  proof (intro set_eqI iffI)
    fix k
    assume "k \<in> fst ` set m"
    then obtain v where v: "hm_get m k = Some v" using assms(1) by (force simp: hm_get_mem)
    then have "unat k < n" "of_nat (unat k) = k" using assms(2) by auto
    then show "k \<in> set (map of_nat ?is)" using v by (auto intro!: image_eqI [of _ _ "unat k"])
  next
    fix k :: u64
    assume "k \<in> set (map of_nat ?is)"
    then show "k \<in> fst ` set m" using assms(1) by (force simp: hm_get_mem [symmetric])
  qed
  then have "map fst (WalReader_open m) = map of_nat ?is"
    using mono dist assms(1)
    by (intro sorted_distinct_set_unique) (auto simp: WalReader_open_def hm_wf_def distinct_map inj_on_def)
  then show "map fst (WalReader_open m) = map fst ?r" by (simp add: comp_def)
  show "\<forall>x \<in> set (WalReader_open m) \<union> set ?r. snd x = the (hm_get m (fst x))"
    using assms(1) by (auto simp: WalReader_open_def hm_get_mem)
qed

lemma subseq_concat_filter: "\<forall>i \<in> set is. subseq (f i) (g i) \<Longrightarrow> subseq (concat (map f (filter P is))) (concat (map g is))"
  by (induction "is") (auto intro: list_emb_append_mono list_emb_append2)

lemma located_prefix: "prefix es fs \<Longrightarrow> list_all (entry_ok crc32) fs \<Longrightarrow> prefix (located seq off es) (located seq off fs)"
  by (auto simp: prefix_def located_append [of crc32])

lemma disk_contents:
  assumes "log_files crc32 L w" "unat (ww_file_seq w) < 2 ^ 32"
  obtains D where "\<And>i. prefix (D i) (L i)" "\<And>i. i < unat (ww_file_seq w) \<Longrightarrow> D i = L i"
    "\<And>i bs. i \<le> unat (ww_file_seq w) \<Longrightarrow> hm_get (ww_disk w) (of_nat i) = Some bs \<Longrightarrow> bs = enc (D i)"
proof -
  let ?N = "unat (ww_file_seq w)"
  have *: "\<exists>es. prefix es (L i) \<and> (i < ?N \<longrightarrow> es = L i) \<and> (i \<le> ?N \<longrightarrow> (\<forall>bs. hm_get (ww_disk w) (of_nat i) = Some bs \<longrightarrow> bs = enc es))" for i
  proof (cases "i \<le> ?N \<and> hm_get (ww_disk w) (of_nat i) \<noteq> None")
    case True
    then obtain bs where bs: "hm_get (ww_disk w) (of_nat i) = Some bs" by auto
    have "unat (of_nat i :: u64) = i" using True assms(2) by (intro unat_u64_of_nat) simp
    then show ?thesis using log_files_diskD [OF assms(1) bs] bs True by auto
  qed auto
  then obtain D where "\<And>i. prefix (D i) (L i) \<and> (i < ?N \<longrightarrow> D i = L i) \<and>
      (i \<le> ?N \<longrightarrow> (\<forall>bs. hm_get (ww_disk w) (of_nat i) = Some bs \<longrightarrow> bs = enc (D i)))"
    by metis
  then show ?thesis using that by blast
qed

lemma replay_survivors:
  assumes "run_inv crc32 live r"
  shows "\<exists>xs. replay_positions crc32 (WalReader_open (ww_disk (wr_writer r))) = map Ok xs \<and> subseq xs (wr_written r) \<and>
    (\<forall>x \<in> set (wr_acked r). live (we_segment_id (snd x)) (fst x) \<longrightarrow> x \<in> set xs)"
  using assms
proof (rule run_invE)
  fix L
  let ?w = "wr_writer r"
  let ?N = "unat (ww_file_seq ?w)" and ?disk = "ww_disk ?w"
  assume L: "?N < 2 ^ 32" "log_files crc32 L ?w" "kept live L ?w"
    "wr_written r = concat (map (\<lambda>i. located (of_nat i) 0 (L i)) [0..<Suc ?N])"
    and A: "\<And>x. x \<in> set (wr_acked r) \<Longrightarrow> \<exists>i \<le> ?N. x \<in> set (located (of_nat i) 0 (L i)) \<and>
       (i = ?N \<longrightarrow> (\<exists>es. hm_get ?disk (ww_file_seq ?w) = Some (enc es) \<and> prefix es (L i) \<and> x \<in> set (located (of_nat i) 0 es)))"
  obtain D where D: "\<And>i. prefix (D i) (L i)" "\<And>i. i < ?N \<Longrightarrow> D i = L i"
    "\<And>i bs. i \<le> ?N \<Longrightarrow> hm_get ?disk (of_nat i) = Some bs \<Longrightarrow> bs = enc (D i)"
    using disk_contents [OF L(2,1)] by metis
  have ok: "list_all (entry_ok crc32) (L i)" for i using log_filesD(4) [OF L(2)] .
  then have okD: "list_all (entry_ok crc32) (D i)" for i using D(1) [of i] by (auto simp: prefix_def) (metis list_all_append)
  let ?is = "filter (\<lambda>i. hm_get ?disk (of_nat i) \<noteq> None) [0..<Suc ?N]"
  define xs where "xs = concat (map (\<lambda>i. located (of_nat i) 0 (D i)) ?is)"
  have keys: "unat k < Suc ?N" if "hm_get ?disk k = Some v" for k v
    using log_files_diskD [OF L(2) that] by (metis less_Suc_eq_le)
  have "WalReader_open ?disk = map (\<lambda>i. (of_nat i, enc (D i))) ?is"
    using WalReader_open_sorted [OF log_filesD(3) [OF L(2)] keys] L(1) D(3) by (auto simp del: upt_Suc)
  then have "replay_positions crc32 (WalReader_open ?disk) = map Ok (concat (map (\<lambda>i. located (file_seq_of (of_nat i)) 0 (D i)) ?is))"
    using replay_positions_enc [of ?is crc32 D of_nat] okD by simp
  also have "map (\<lambda>i. located (file_seq_of (of_nat i)) 0 (D i)) ?is = map (\<lambda>i. located (of_nat i) 0 (D i)) ?is"
    using L(1) by (auto simp: file_seq_of_nat simp del: upt_Suc)
  finally have R: "replay_positions crc32 (WalReader_open ?disk) = map Ok xs" by (simp add: xs_def)
  have "subseq xs (wr_written r)"
    unfolding xs_def L(4) using located_prefix [OF D(1) ok]
    by (intro subseq_concat_filter) (auto intro: prefix_imp_subseq simp del: upt_Suc)
  moreover have "x \<in> set xs" if x: "x \<in> set (wr_acked r)" "live (we_segment_id (snd x)) (fst x)" for x
  proof -
    obtain i where i: "i \<le> ?N" "x \<in> set (located (of_nat i) 0 (L i))" "i = ?N \<Longrightarrow> \<exists>es. hm_get ?disk (ww_file_seq ?w) = Some (enc es) \<and>
        prefix es (L i) \<and> x \<in> set (located (of_nat i) 0 es)" using A [OF x(1)] by blast
    have *: "hm_get ?disk (of_nat i) \<noteq> None \<and> x \<in> set (located (of_nat i) 0 (D i))"
    proof (cases "i = ?N")
      case True
      then obtain es where es: "hm_get ?disk (of_nat i) = Some (enc es)" "prefix es (L i)" "x \<in> set (located (of_nat i) 0 es)"
        using i(3) by auto
      have "list_all (entry_ok crc32) es" using es(2) ok [of i] by (auto simp: prefix_def)
      then have "es = D i" using enc_inject okD D(3) [OF i(1) es(1)] by blast
      then show ?thesis using es by simp
    next
      case False
      then have "i < ?N" using i(1) by simp
      then show ?thesis using i(2) x(2) L(3) D(2) by (fastforce simp: kept_def)
    qed
    then have "i \<in> set ?is" using i(1) by (simp add: less_Suc_eq_le del: upt_Suc)
    with * show ?thesis unfolding xs_def by auto
  qed
  ultimately show ?thesis using R by blast
qed

section \<open>What an acknowledged append guarantees\<close>

definition demo_entry_at :: "u64 \<Rightarrow> WalEntry" where
  "demo_entry_at off = WalEntry_new (\<lambda>_. 7) (replicate 16 3) off 2 2 1 1000 0 (replicate 32 9) [1, 2]"

lemma demo_entry_ok: "entry_ok (\<lambda>_. 7) (demo_entry_at off)"
  unfolding demo_entry_at_def by (rule WalEntry_new_ok) simp_all

lemma demo_entry_size: "length (to_bytes (demo_entry_at off)) = 90"
  unfolding length_to_bytes [OF demo_entry_ok] by (simp add: serialized_size_def demo_entry_at_def WalEntry_new_def header_size_def)

text \<open>
  C12: every acknowledged append survives a power loss when the log is synced with \<^verbatim>\<open>sync_all\<close>.  For any run of concurrent
  appends and group commits whose sync rounds succeed, over any number of rotations and retention passes, also when the size check,
  the rotation and the write of several appends interleave, replaying the surviving
  files yields no error and returns entries in the order they were written, each at the position its append returned, and
  among them every acknowledged entry that no retention pass called garbage.
\<close>

theorem acked_entries_survive:
  assumes "(wal_step crc32 live {Done})\<^sup>*\<^sup>* (wal_start max_size False) r"
  shows "\<exists>xs. replay_positions crc32 (WalReader_open (ww_disk (wr_writer r))) = map Ok xs \<and> subseq xs (wr_written r) \<and>
    (\<forall>x \<in> set (wr_acked r). live (we_segment_id (snd x)) (fst x) \<longrightarrow> x \<in> set xs)"
  by (rule replay_survivors) (rule run_inv_reachable [OF assms run_inv_start])

definition demo_written :: wal_run where
  "demo_written = (let r = wal_start 100 False; e = demo_entry_at 0;
     a = append_write (\<lambda>_. 7) (Some (\<lambda>_ _. False)) e (wr_writer r); p = \<lparr>dp_file_seq = 0, dp_offset = 0\<rparr>
     in r\<lparr>wr_writer := snd a, wr_waiting := [(p, e)], wr_written := [(p, e)]\<rparr>)"

theorem acked_entries_survive_witness:
  "\<exists>w :: wal_run. (\<lparr>dp_file_seq = 0, dp_offset = 0\<rparr>, demo_entry_at 0) \<in> set (wr_acked w) \<and>
    Ok (\<lparr>dp_file_seq = 0, dp_offset = 0\<rparr>, demo_entry_at 0) \<in> set (replay_positions (\<lambda>_. 7) (WalReader_open (ww_disk (wr_writer w))))"
proof -
  let ?x = "(\<lparr>dp_file_seq = 0, dp_offset = 0\<rparr>, demo_entry_at 0)"
  let ?r = "demo_written\<lparr>wr_writer := wal_flush Done (wr_writer demo_written), wr_acked := wr_acked demo_written @ take 1 (wr_waiting demo_written),
     wr_waiting := drop 1 (wr_waiting demo_written)\<rparr>"
  have a: "append_write (\<lambda>_. 7) (Some (\<lambda>_ _. False)) (demo_entry_at 0) (wr_writer (wal_start 100 False)) =
      (Ok \<lparr>dp_file_seq = 0, dp_offset = 0\<rparr>, wr_writer demo_written)"
    by (simp add: append_write_def append_entry_def Let_def demo_written_def wal_start_def WalWriter_open_def latest_seq_def file_bytes_def
        demo_entry_size)
  have "wal_step (\<lambda>_. 7) (\<lambda>_ _. True) {Done} (wal_start 100 False) demo_written"
    using wal_step.append_step [OF demo_entry_ok _ a, of "\<lambda>_ _. True" "{Done}"]
    by (simp add: demo_written_def wal_start_def Let_def)
  moreover have "wal_step (\<lambda>_. 7) (\<lambda>_ _. True) {Done} demo_written ?r"
    by (rule wal_step.commit_step) (simp_all add: DEFAULT_SYNC_BATCH_MAX_WAITERS_def)
  ultimately have s: "(wal_step (\<lambda>_. 7) (\<lambda>_ _. True) {Done})\<^sup>*\<^sup>* (wal_start 100 False) ?r" by simp
  have "?x \<in> set (wr_acked ?r)" by (simp add: demo_written_def wal_start_def Let_def)
  moreover from this have "Ok ?x \<in> set (replay_positions (\<lambda>_. 7) (WalReader_open (ww_disk (wr_writer ?r))))"
    using acked_entries_survive [OF s] by force
  ultimately show ?thesis by blast
qed

definition demo_put :: "u64 \<Rightarrow> DataWalPos \<Rightarrow> wal_run \<Rightarrow> wal_run" where
  "demo_put off p r = r\<lparr>wr_writer := snd (append_write (\<lambda>_. 7) (Some (\<lambda>_ _. False)) (demo_entry_at off) (wr_writer r)),
     wr_waiting := wr_waiting r @ [(p, demo_entry_at off)], wr_written := wr_written r @ [(p, demo_entry_at off)]\<rparr>"

definition demo_commit :: "wal_run \<Rightarrow> wal_run" where
  "demo_commit r = r\<lparr>wr_writer := wal_flush Done (wr_writer r), wr_acked := wr_acked r @ take 1 (wr_waiting r),
     wr_waiting := drop 1 (wr_waiting r)\<rparr>"

lemma demo_put_step:
  "fst (append_write (\<lambda>_. 7) (Some (\<lambda>_ _. False)) (demo_entry_at off) (wr_writer r)) = Ok p \<Longrightarrow>
   wal_step (\<lambda>_. 7) (\<lambda>_ _. True) {Done} r (demo_put off p r)"
  unfolding demo_put_def by (rule wal_step.append_step [OF demo_entry_ok]) (auto simp: prod_eq_iff)

lemma demo_commit_step: "wal_step (\<lambda>_. 7) (\<lambda>_ _. True) {Done} r (demo_commit r)"
  unfolding demo_commit_def by (rule wal_step.commit_step) (simp_all add: DEFAULT_SYNC_BATCH_MAX_WAITERS_def)

lemmas wal_eval = append_write_def append_entry_def Let_def wal_flush_def sync_all_def file_bytes_def demo_entry_size hm_get_def hm_insert_def

definition first_pos :: DataWalPos where "first_pos = \<lparr>dp_file_seq = 0, dp_offset = 0\<rparr>"
definition second_pos :: DataWalPos where "second_pos = \<lparr>dp_file_seq = 1, dp_offset = 0\<rparr>"

definition after_first :: wal_run where "after_first = demo_commit (demo_put 0 first_pos (wal_start 100 True))"
definition after_second :: wal_run where "after_second = demo_commit (demo_put 2 second_pos after_first)"

lemma start_writer: "wr_writer (wal_start 100 True) = \<lparr>ww_max_file_size = 100, ww_use_range = True, ww_dir = [(0, [])], ww_disk = [],
     ww_file_seq = 0, ww_position = 0, ww_global_position = 0, ww_sync_position = 0, ww_last_synced = 0\<rparr>"
  by (simp add: wal_start_def WalWriter_open_def latest_seq_def file_bytes_def Let_def hm_insert_def)

lemma first_writer: "wr_writer after_first = \<lparr>ww_max_file_size = 100, ww_use_range = True, ww_dir = [(0, to_bytes (demo_entry_at 0))],
     ww_disk = [(0, to_bytes (demo_entry_at 0))], ww_file_seq = 0, ww_position = 90, ww_global_position = 90,
     ww_sync_position = 90, ww_last_synced = 90\<rparr>"
  by (simp add: after_first_def demo_commit_def demo_put_def start_writer wal_eval)

lemma rotated_writer: "rotate (\<lambda>_. 7) (Some (\<lambda>_ _. False)) (wr_writer after_first) =
   \<lparr>ww_max_file_size = 100, ww_use_range = True, ww_dir = [(0, to_bytes (demo_entry_at 0)), (1, [])],
     ww_disk = [(0, to_bytes (demo_entry_at 0))], ww_file_seq = 1, ww_position = 0, ww_global_position = 90,
     ww_sync_position = 0, ww_last_synced = 90\<rparr>"
proof -
  have l: "latest_seq [(0, to_bytes (demo_entry_at 0)), (1, [])] = 1" by (simp add: latest_seq_def)
  have f: "saturating_sub 1 3 = 0" by (simp add: saturating_sub_def)
  have "cleanup_old_wal_files (\<lambda>_. 7) WAL_RETENTION_FILES (Some (\<lambda>_ _. False)) [(0, to_bytes (demo_entry_at 0)), (1, [])] =
      [(0, to_bytes (demo_entry_at 0)), (1, [])]"
    by (simp only: cleanup_old_wal_files_def l Let_def WAL_RETENTION_FILES_def) (simp add: f)
  then show ?thesis
    by (simp add: rotate_def first_writer cleanup_def sync_all_def file_bytes_def hm_get_def hm_insert_def Let_def)
qed

lemma second_append: "append_write (\<lambda>_. 7) (Some (\<lambda>_ _. False)) (demo_entry_at 2) (wr_writer after_first) =
   (Ok second_pos, \<lparr>ww_max_file_size = 100, ww_use_range = True, ww_dir = [(0, to_bytes (demo_entry_at 0)), (1, to_bytes (demo_entry_at 2))],
     ww_disk = [(0, to_bytes (demo_entry_at 0))], ww_file_seq = 1, ww_position = 90, ww_global_position = 180,
     ww_sync_position = 90, ww_last_synced = 90\<rparr>)"
proof -
  have "ww_position (wr_writer after_first) + of_nat (length (to_bytes (demo_entry_at 2))) > ww_max_file_size (wr_writer after_first)"
    by (simp add: first_writer demo_entry_size)
  then show ?thesis
    by (simp add: append_write_def append_entry_def rotated_writer Let_def file_bytes_def hm_get_def hm_insert_def demo_entry_size second_pos_def)
qed

lemma second_writer: "ww_disk (wr_writer after_second) = [(0, to_bytes (demo_entry_at 0))]"
  by (simp add: after_second_def demo_commit_def demo_put_def second_append wal_flush_def)

text \<open>
  C33: with \<^verbatim>\<open>sync_file_range\<close>, the default on Linux, an acknowledged append can be lost although every sync round
  succeeds.  A rotation resets the write position to zero but not the last synced position, so the flusher sees nothing to sync
  in the new file until it has grown past the old one.
\<close>

theorem acked_entry_lost_after_rotation:
  "\<exists>r x. (wal_step (\<lambda>_. 7) (\<lambda>_ _. True) {Done})\<^sup>*\<^sup>* (wal_start 100 True) r \<and> x \<in> set (wr_acked r) \<and>
     Ok x \<notin> set (replay_positions (\<lambda>_. 7) (WalReader_open (ww_disk (wr_writer r))))"
proof (intro exI conjI)
  have a: "wal_step (\<lambda>_. 7) (\<lambda>_ _. True) {Done} (wal_start 100 True) (demo_put 0 first_pos (wal_start 100 True))"
    by (rule demo_put_step) (simp add: start_writer wal_eval first_pos_def)
  have b: "wal_step (\<lambda>_. 7) (\<lambda>_ _. True) {Done} after_first (demo_put 2 second_pos after_first)"
    by (rule demo_put_step) (simp add: second_append)
  have "(wal_step (\<lambda>_. 7) (\<lambda>_ _. True) {Done})\<^sup>*\<^sup>* (wal_start 100 True) after_first"
    unfolding after_first_def by (rule rtranclp.rtrancl_into_rtrancl [OF r_into_rtranclp [where r = "wal_step (\<lambda>_. 7) (\<lambda>_ _. True) {Done}", OF a] demo_commit_step])
  then have "(wal_step (\<lambda>_. 7) (\<lambda>_ _. True) {Done})\<^sup>*\<^sup>* (wal_start 100 True) (demo_put 2 second_pos after_first)"
    using b by (rule rtranclp.rtrancl_into_rtrancl)
  then show "(wal_step (\<lambda>_. 7) (\<lambda>_ _. True) {Done})\<^sup>*\<^sup>* (wal_start 100 True) after_second"
    unfolding after_second_def using demo_commit_step by (rule rtranclp.rtrancl_into_rtrancl)
  show "(second_pos, demo_entry_at 2) \<in> set (wr_acked after_second)"
    by (simp add: after_second_def after_first_def demo_commit_def demo_put_def wal_start_def)
  have "file_positions (\<lambda>_. 7) True 0 0 (to_bytes (demo_entry_at 0) @ []) = [Ok (first_pos, demo_entry_at 0)]"
    by (simp add: file_positions_entry [OF demo_entry_ok, of True 0 0 0 "[]", simplified] file_positions_short header_size_def first_pos_def)
  then show "Ok (second_pos, demo_entry_at 2) \<notin> set (replay_positions (\<lambda>_. 7) (WalReader_open (ww_disk (wr_writer after_second))))"
    by (simp add: second_writer WalReader_open_def file_seq_of_def first_pos_def second_pos_def)
qed

end
