(* ===== verification/EventLog.thy ===== *)
theory EventLog
  imports EventRecords DataWal
begin

text \<open>
  The segment event log (\<^verbatim>\<open>oceanfs-storage/src/segment/event_wal.rs\<close>): positions, the reader with its classification of bad
  records, opening with the repair of a torn tail, appending with rotation and group commit, and truncation after a
  checkpoint.  As for the data log, \<open>el_dir\<close> is what reads see and \<open>el_disk\<close> what is known to survive a power loss.
\<close>

section \<open>Positions\<close>

record EventWalPos =
  ep_file_seq :: u32
  ep_offset :: u64

definition PACKED_OFFSET_BITS :: nat where "PACKED_OFFSET_BITS = 48"
definition PACKED_OFFSET_MASK :: u64 where "PACKED_OFFSET_MASK = push_bit PACKED_OFFSET_BITS 1 - 1"

definition packed :: "EventWalPos \<Rightarrow> u64" where
  "packed p = push_bit PACKED_OFFSET_BITS (ucast (ep_file_seq p)) OR (ep_offset p AND PACKED_OFFSET_MASK)"

definition from_packed :: "u64 \<Rightarrow> EventWalPos" where
  "from_packed x = \<lparr>ep_file_seq = ucast (drop_bit PACKED_OFFSET_BITS x), ep_offset = x AND PACKED_OFFSET_MASK\<rparr>"

definition epos_le :: "EventWalPos \<Rightarrow> EventWalPos \<Rightarrow> bool" where
  "epos_le p q \<longleftrightarrow> ep_file_seq p < ep_file_seq q \<or> ep_file_seq p = ep_file_seq q \<and> ep_offset p \<le> ep_offset q"

section \<open>Reading\<close>

type_synonym event_dir = "(u32 \<times> u8 list) list"

datatype event_error = TornEventRecord EventWalPos | CorruptEventLog EventWalPos | UnsupportedPrePoolDataDir

datatype record_read = AtEnd | BadRecord nat | PrePoolRecord | GoodRecord SegmentEvent nat

text \<open>
  One record from the bytes between the reading position and the end of the file.  A bad record carries the number of bytes
  it is taken to occupy.
\<close>

definition read_record :: "formats \<Rightarrow> u8 list \<Rightarrow> record_read" where
  "read_record fmt bs =
     (if length bs < EVENT_RECORD_HEADER_SIZE then (if bs = [] then AtEnd else BadRecord (length bs))
      else if slice bs 0 4 \<noteq> EVENT_RECORD_MAGIC then BadRecord 32
      else if bs ! 4 \<noteq> EVENT_RECORD_VERSION then BadRecord 32
      else
        (let kind = bs ! 5; payload_len = unat (u32_from_le (slice bs 8 12))
         in if payload_len > MAX_PAYLOAD_SIZE then BadRecord 32
            else
              (let record_len = EVENT_RECORD_HEADER_SIZE + payload_len + 4;
                   payload = slice bs EVENT_RECORD_HEADER_SIZE (EVENT_RECORD_HEADER_SIZE + payload_len)
               in if length bs < record_len then BadRecord (length bs)
                  else if u32_from_le (slice bs (record_len - 4) record_len) \<noteq> crc32 fmt (take (record_len - 4) bs) then BadRecord record_len
                  else case decode_payload fmt kind (slice bs 12 28) payload of
                      Some e \<Rightarrow> GoodRecord e record_len
                    | None \<Rightarrow> if is_pre_pool_seal kind payload then PrePoolRecord else BadRecord record_len)))"

lemma read_record_size: "read_record fmt bs = GoodRecord e n \<Longrightarrow> 0 < n \<and> n \<le> length bs"
  by (auto simp: read_record_def Let_def event_format split: if_splits option.splits)

text \<open>
  The records of one file from an offset on; \<open>later\<close> is the number of bytes in later files.  The flag tells whether the file
  ended at a record boundary.
\<close>

definition bad_record :: "EventWalPos \<Rightarrow> nat \<Rightarrow> nat \<Rightarrow> event_error" where
  "bad_record pos after_here after_later = (if after_here + after_later > 0 then CorruptEventLog pos else TornEventRecord pos)"

function read_records ::
  "formats \<Rightarrow> u32 \<Rightarrow> u64 \<Rightarrow> u8 list \<Rightarrow> nat \<Rightarrow> (event_error, EventWalPos \<times> SegmentEvent) outcome list \<times> bool" where
  "read_records fmt seq off bs later =
     (let pos = \<lparr>ep_file_seq = seq, ep_offset = off\<rparr>
      in case read_record fmt bs of
           AtEnd \<Rightarrow> ([], True)
         | BadRecord n \<Rightarrow> ([Err (bad_record pos (length bs - n) later)], False)
         | PrePoolRecord \<Rightarrow> ([Err UnsupportedPrePoolDataDir], False)
         | GoodRecord e n \<Rightarrow>
             (case read_records fmt seq (off + of_nat n) (drop n bs) later of
                (items, clean) \<Rightarrow> (Ok (pos, e) # items, clean)))"
  by pat_completeness auto
termination
proof (relation "measure (\<lambda>(_, _, _, bs, _). length bs)", goal_cases)
  case (2 fmt seq off bs later pos e n)
  then have "0 < n \<and> n \<le> length bs" using read_record_size by metis
  then show ?case by auto
qed simp

declare read_records.simps [simp del]

fun read_files :: "formats \<Rightarrow> u64 \<Rightarrow> event_dir \<Rightarrow> (event_error, EventWalPos \<times> SegmentEvent) outcome list" where
  "read_files fmt off [] = []"
| "read_files fmt off ((seq, bs) # fs) =
     (case read_records fmt seq off (drop (unat off) bs) (sum_list (map (length \<circ> snd) fs)) of
        (items, clean) \<Rightarrow> if clean then items @ read_files fmt 0 fs else items)"

text \<open>Reading starts in the file of the position if it exists, and at the beginning of the next existing file otherwise.\<close>

definition read_from :: "formats \<Rightarrow> event_dir \<Rightarrow> EventWalPos \<Rightarrow> (event_error, EventWalPos \<times> SegmentEvent) outcome list" where
  "read_from fmt dir pos =
     (let fs = filter (\<lambda>f. ep_file_seq pos \<le> fst f) (sort_key fst dir)
      in read_files fmt (if hm_get dir (ep_file_seq pos) = None then 0 else ep_offset pos) fs)"

section \<open>Writing\<close>

record EventWal =
  el_file_size :: u64
  el_dir :: event_dir
  el_disk :: event_dir
  el_file_seq :: u32
  el_position :: u64
  el_latest_packed :: u64
  el_bytes_total :: u64
  el_file_bases :: "(u32 \<times> u64) list"
  el_file_count :: u64

definition evl_bytes :: "event_dir \<Rightarrow> u32 \<Rightarrow> u8 list" where
  "evl_bytes dir seq = (case hm_get dir seq of None \<Rightarrow> [] | Some bs \<Rightarrow> bs)"

definition truncate_torn_tail :: "formats \<Rightarrow> u32 \<Rightarrow> event_dir \<Rightarrow> (event_error, event_dir) outcome" where
  "truncate_torn_tail fmt seq dir =
     (let bs = evl_bytes dir seq; items = read_from fmt dir \<lparr>ep_file_seq = seq, ep_offset = 0\<rparr>
      in if bs = [] \<or> items = [] then Ok dir
         else case last items of
             Err (TornEventRecord pos) \<Rightarrow>
               Ok (if unat (ep_offset pos) < length bs then hm_insert seq (take (unat (ep_offset pos)) bs) dir else dir)
           | Err UnsupportedPrePoolDataDir \<Rightarrow> Err UnsupportedPrePoolDataDir
           | _ \<Rightarrow> Ok dir)"

fun bases_from :: "u64 \<Rightarrow> event_dir \<Rightarrow> (u32 \<times> u64) list \<times> u64" where
  "bases_from cumulative [] = ([], cumulative)"
| "bases_from cumulative ((seq, bs) # fs) =
     (case bases_from (cumulative + of_nat (length bs)) fs of (rest, acc) \<Rightarrow> ((seq, cumulative) # rest, acc))"

definition EventWal_open :: "formats \<Rightarrow> u64 \<Rightarrow> event_dir \<Rightarrow> (event_error, EventWal) outcome" where
  "EventWal_open fmt file_size dir =
     (let max_seq = (case sort_key fst dir of [] \<Rightarrow> 0 | f # fs \<Rightarrow> fst (last (f # fs)))
      in bind_outcome (truncate_torn_tail fmt max_seq (if hm_get dir max_seq = None then hm_insert max_seq [] dir else dir))
           (\<lambda>healed.
              (let size = of_nat (length (evl_bytes healed max_seq));
                   (bases, cumulative) = bases_from 0 (sort_key fst (if dir = [] then [] else healed))
               in Ok \<lparr>el_file_size = file_size, el_dir = healed, el_disk = healed, el_file_seq = max_seq, el_position = size,
                    el_latest_packed = packed \<lparr>ep_file_seq = max_seq, ep_offset = size\<rparr>, el_bytes_total = cumulative,
                    el_file_bases = bases, el_file_count = ucast max_seq + 1\<rparr>)))"

definition evl_sync :: "EventWal \<Rightarrow> EventWal" where
  "evl_sync w = w\<lparr>el_disk := hm_insert (el_file_seq w) (evl_bytes (el_dir w) (el_file_seq w)) (el_disk w)\<rparr>"

definition evl_rotate :: "EventWal \<Rightarrow> EventWal" where
  "evl_rotate w =
     (let w = evl_sync w; new_seq = el_file_seq w + 1
      in w\<lparr>el_dir := (if hm_get (el_dir w) new_seq = None then hm_insert new_seq [] (el_dir w) else el_dir w),
           el_file_bases := el_file_bases w @ [(new_seq, el_bytes_total w)], el_file_seq := new_seq, el_position := 0,
           el_latest_packed := packed \<lparr>ep_file_seq = new_seq, ep_offset = 0\<rparr>, el_file_count := ucast new_seq + 1\<rparr>)"

text \<open>The part of \<^verbatim>\<open>append\<close> before the group commit; the position returned is that of the record.\<close>

definition evl_append_write :: "formats \<Rightarrow> SegmentEvent \<Rightarrow> EventWal \<Rightarrow> EventWalPos \<times> EventWal" where
  "evl_append_write fmt evt w =
     (let data = to_record_bytes fmt evt; record_size = of_nat (length data);
          w = (if el_position w + record_size > el_file_size w then evl_rotate w else w);
          seq = el_file_seq w; written = el_position w
      in (\<lparr>ep_file_seq = seq, ep_offset = written\<rparr>,
          w\<lparr>el_dir := hm_insert seq (evl_bytes (el_dir w) seq @ data) (el_dir w), el_position := written + record_size,
            el_latest_packed := packed \<lparr>ep_file_seq = seq, ep_offset = written + record_size\<rparr>,
            el_bytes_total := el_bytes_total w + record_size\<rparr>))"

text \<open>One round of the log's own group commit: its closure waits for the write lock, so it syncs the file or fails.\<close>

definition evl_flush :: "bool \<Rightarrow> EventWal \<Rightarrow> EventWal" where
  "evl_flush synced w = (if synced then evl_sync w else w)"

definition evl_append :: "formats \<Rightarrow> bool \<Rightarrow> SegmentEvent \<Rightarrow> EventWal \<Rightarrow> EventWalPos \<times> EventWal" where
  "evl_append fmt synced evt w = (case evl_append_write fmt evt w of (pos, w') \<Rightarrow> (pos, evl_flush synced w'))"

definition latest_pos :: "EventWal \<Rightarrow> EventWalPos" where "latest_pos w = from_packed (el_latest_packed w)"

definition fully_covered :: "EventWal \<Rightarrow> EventWalPos \<Rightarrow> u32 \<times> u8 list \<Rightarrow> bool" where
  "fully_covered w pos f \<longleftrightarrow> fst f \<noteq> el_file_seq w \<and>
     (fst f < ep_file_seq pos \<or> fst f = ep_file_seq pos \<and> of_nat (length (snd f)) \<le> ep_offset pos)"

definition evl_truncate_before :: "EventWalPos \<Rightarrow> EventWal \<Rightarrow> u64 \<times> EventWal" where
  "evl_truncate_before pos w =
     (let removed = filter (fully_covered w pos) (el_dir w);
          remaining = filter (\<lambda>f. \<not> fully_covered w pos f) (el_dir w);
          (bases, cumulative) = bases_from 0 (sort_key fst remaining)
      in (sum_list (map (of_nat \<circ> length \<circ> snd) removed),
          w\<lparr>el_dir := remaining, el_disk := filter (\<lambda>f. hm_get remaining (fst f) \<noteq> None) (el_disk w),
            el_file_bases := bases, el_bytes_total := cumulative, el_file_count := of_nat (length remaining),
            el_latest_packed := packed \<lparr>ep_file_seq = el_file_seq w, ep_offset = el_position w\<rparr>\<rparr>))"

definition base_before :: "EventWal \<Rightarrow> u32 \<Rightarrow> u64 option" where
  "base_before w seq = map_option snd (List.find (\<lambda>(s, _). s \<le> seq) (rev (el_file_bases w)))"

definition bytes_since :: "EventWalPos \<Rightarrow> EventWal \<Rightarrow> u64" where
  "bytes_since pos w =
     (let base = (case base_before w (ep_file_seq pos) of None \<Rightarrow> 0 | Some b \<Rightarrow> b)
      in saturating_sub (el_bytes_total w) (base + ep_offset pos))"

definition evl_reopen_fresh :: "EventWal \<Rightarrow> EventWal" where
  "evl_reopen_fresh w = w\<lparr>el_dir := [(0, [])], el_disk := [], el_file_seq := 0, el_position := 0,
     el_latest_packed := packed \<lparr>ep_file_seq = 0, ep_offset = 0\<rparr>, el_bytes_total := 0, el_file_bases := [(0, 0)],
     el_file_count := 1\<rparr>"

section \<open>What the reader sees in a log\<close>

definition evl_enc :: "formats \<Rightarrow> SegmentEvent list \<Rightarrow> u8 list" where
  "evl_enc fmt es = concat (map (to_record_bytes fmt) es)"

lemma evl_enc_simps [simp]:
  "evl_enc fmt [] = []" "evl_enc fmt (e # es) = to_record_bytes fmt e @ evl_enc fmt es"
  "evl_enc fmt (es @ fs) = evl_enc fmt es @ evl_enc fmt fs"
  by (simp_all add: evl_enc_def)

fun evl_located :: "formats \<Rightarrow> u32 \<Rightarrow> u64 \<Rightarrow> SegmentEvent list \<Rightarrow> (EventWalPos \<times> SegmentEvent) list" where
  "evl_located fmt seq off [] = []"
| "evl_located fmt seq off (e # es) =
     (\<lparr>ep_file_seq = seq, ep_offset = off\<rparr>, stored fmt e) # evl_located fmt seq (off + of_nat (length (to_record_bytes fmt e))) es"

lemma evl_located_events [simp]: "map snd (evl_located fmt seq off es) = map (stored fmt) es"
  by (induction es arbitrary: off) simp_all

lemma record_parts:
  assumes "bincode_round_trip fmt" "event_ok e"
  obtains kind payload where "kind_payload fmt e = (kind, payload)" "length payload \<le> MAX_PAYLOAD_SIZE" "length payload < 2 ^ 32"
    "length (to_record_bytes fmt e) = 32 + length payload"
    "to_record_bytes fmt e = record_body kind (event_segment_id e) payload @
       u32_to_le (crc32 fmt (record_body kind (event_segment_id e) payload))"
proof -
  obtain kind payload where kp: "kind_payload fmt e = (kind, payload)" by fastforce
  note n = payload_size [OF assms kp]
  have m: "length payload < 2 ^ 32" using n by (simp add: MAX_PAYLOAD_SIZE_def SEAL_MAX_CONTAINED_TAIL_BYTES_def event_format)
  have b: "to_record_bytes fmt e = record_body kind (event_segment_id e) payload @
       u32_to_le (crc32 fmt (record_body kind (event_segment_id e) payload))" by (simp add: to_record_bytes_def kp Let_def)
  show thesis
    using that [OF kp n m _ b] length_record_body [OF event_segment_id_length [OF assms(2)], of kind payload] b by simp
qed

lemma read_record_good:
  assumes "bincode_round_trip fmt" "event_ok e"
  shows "read_record fmt (to_record_bytes fmt e @ rest) = GoodRecord (stored fmt e) (length (to_record_bytes fmt e))"
proof -
  obtain kind payload where p: "kind_payload fmt e = (kind, payload)" "length payload \<le> MAX_PAYLOAD_SIZE" "length payload < 2 ^ 32"
    "length (to_record_bytes fmt e) = 32 + length payload"
    "to_record_bytes fmt e = record_body kind (event_segment_id e) payload @
       u32_to_le (crc32 fmt (record_body kind (event_segment_id e) payload))"
    by (rule record_parts [OF assms])
  let ?bs = "to_record_bytes fmt e @ rest"
  note s = record_slices [OF event_segment_id_length [OF assms(2)] p(3), of ?bs, unfolded p(5) append_assoc, OF refl]
  show ?thesis
    unfolding read_record_def p(5) append_assoc
    using s p(2,4) decode_kind_payload [OF assms p(1)] by (simp add: Let_def event_format slice_def)
qed

lemma read_record_torn:
  assumes "bincode_round_trip fmt" "event_ok e" "0 < n" "n < length (to_record_bytes fmt e)"
  shows "read_record fmt (take n (to_record_bytes fmt e)) = BadRecord n"
proof -
  obtain kind payload where p: "kind_payload fmt e = (kind, payload)" "length payload \<le> MAX_PAYLOAD_SIZE" "length payload < 2 ^ 32"
    "length (to_record_bytes fmt e) = 32 + length payload"
    "to_record_bytes fmt e = record_body kind (event_segment_id e) payload @
       u32_to_le (crc32 fmt (record_body kind (event_segment_id e) payload))"
    by (rule record_parts [OF assms(1,2)])
  note s = record_slices [OF event_segment_id_length [OF assms(2)] p(3) p(5)]
  have t: "slice (take n (to_record_bytes fmt e)) a b = slice (to_record_bytes fmt e) a b" if "b \<le> n" for a b
    using that by (simp add: slice_def drop_take min_def)
  show ?thesis
  proof (cases "n < 28")
    case True
    then show ?thesis using assms(3,4) by (auto simp: read_record_def event_format)
  next
    case False
    then show ?thesis using assms(3,4) p(2,4) s by (simp add: read_record_def Let_def event_format t)
  qed
qed

lemma read_records_enc:
  assumes "bincode_round_trip fmt" "list_all event_ok es"
  shows "read_records fmt seq off (evl_enc fmt es @ rest) later =
    (case read_records fmt seq (off + of_nat (length (evl_enc fmt es))) rest later of
       (items, clean) \<Rightarrow> (map Ok (evl_located fmt seq off es) @ items, clean))"
  using assms(2)
proof (induction es arbitrary: off)
  case (Cons e es)
  show ?case
    using Cons by (simp add: read_records.simps [where bs = "to_record_bytes fmt e @ _"] read_record_good [OF assms(1)] Let_def
        add.assoc split: prod.splits)
qed (simp split: prod.splits)

lemma read_records_end [simp]: "read_records fmt seq off [] later = ([], True)"
  by (simp add: read_records.simps read_record_def event_format Let_def)

lemma read_records_torn:
  assumes "bincode_round_trip fmt" "event_ok e" "0 < n" "n < length (to_record_bytes fmt e)"
  shows "read_records fmt seq off (take n (to_record_bytes fmt e)) 0 =
    ([Err (TornEventRecord \<lparr>ep_file_seq = seq, ep_offset = off\<rparr>)], False)"
  using assms(4) by (simp add: read_records.simps read_record_torn [OF assms] Let_def bad_record_def)

text \<open>Cutting the bytes of a log leaves whole records and possibly a part of the next one.\<close>

lemma take_evl_enc:
  "\<exists>j m. take n (evl_enc fmt es) = evl_enc fmt (take j es) @ (if j < length es then take m (to_record_bytes fmt (es ! j)) else [])
     \<and> (j < length es \<longrightarrow> m < length (to_record_bytes fmt (es ! j)))
     \<and> (\<forall>k. length (evl_enc fmt (take k es)) \<le> n \<longrightarrow> prefix (take k es) (take j es))"
proof (induction es arbitrary: n)
  case (Cons e es)
  show ?case
  proof (cases "n < length (to_record_bytes fmt e)")
    case True
    have "prefix (take k (e # es)) []" if "length (evl_enc fmt (take k (e # es))) \<le> n" for k
      using that True by (cases k) simp_all
    then show ?thesis using True by (intro exI [of _ 0] exI [of _ n]) simp
  next
    case False
    obtain j m where jm: "take (n - length (to_record_bytes fmt e)) (evl_enc fmt es) =
        evl_enc fmt (take j es) @ (if j < length es then take m (to_record_bytes fmt (es ! j)) else [])"
        "j < length es \<longrightarrow> m < length (to_record_bytes fmt (es ! j))"
        "\<forall>k. length (evl_enc fmt (take k es)) \<le> n - length (to_record_bytes fmt e) \<longrightarrow> prefix (take k es) (take j es)"
      using Cons.IH by blast
    have "prefix (take k (e # es)) (take (Suc j) (e # es))" if "length (evl_enc fmt (take k (e # es))) \<le> n" for k
      using that jm(3) False by (cases k) simp_all
    then show ?thesis using False jm(1,2) by (intro exI [of _ "Suc j"] exI [of _ m]) simp
  qed
qed simp

section \<open>Directories with consecutive files\<close>

definition dir_is :: "u8 list list \<Rightarrow> event_dir \<Rightarrow> bool" where
  "dir_is bss d \<longleftrightarrow> hm_wf d \<and> (\<forall>seq. hm_get d seq = (if unat seq < length bss then Some (bss ! unat seq) else None))"

lemma dir_is_get: "dir_is bss d \<Longrightarrow> hm_get d seq = (if unat seq < length bss then Some (bss ! unat seq) else None)"
  and dir_is_wf: "dir_is bss d \<Longrightarrow> hm_wf d"
  and dir_is_Nil [simp]: "dir_is [] d \<longleftrightarrow> d = []"
proof -
  show "dir_is [] d \<longleftrightarrow> d = []"
    by (cases d) (auto simp: dir_is_def hm_wf_def hm_get_def dest: spec [of _ "fst (hd d)"])
qed (simp_all add: dir_is_def)

lemma unat_u32_of_nat: "n < 2 ^ 32 \<Longrightarrow> unat (of_nat n :: u32) = n"
  by (simp add: unat_of_nat)

lemma dir_is_insert:
  assumes "dir_is bss d \<or> dir_is (bss @ [b]) d" "length bss < 2 ^ 32"
  shows "dir_is (bss @ [b']) (hm_insert (of_nat (length bss)) b' d)"
proof -
  have "hm_get (hm_insert (of_nat (length bss)) b' d) seq =
      (if unat seq < length (bss @ [b']) then Some ((bss @ [b']) ! unat seq) else None)" for seq
  proof (cases "seq = of_nat (length bss)")
    case True
    then show ?thesis by (simp add: unat_u32_of_nat [OF assms(2)])
  next
    case False
    then have "unat seq \<noteq> length bss" using unat_u32_of_nat [OF assms(2)] by (metis word_unat_eq_iff)
    then show ?thesis using False assms(1) by (auto simp: dir_is_get nth_append)
  qed
  then show ?thesis using assms(1) by (auto simp: dir_is_def)
qed

lemma dir_is_sorted:
  assumes "dir_is bss d" "length bss \<le> 2 ^ 32"
  shows "sort_key fst d = map (\<lambda>i. (of_nat i, bss ! i)) [0..<length bss]"
proof (rule map_sorted_distinct_set_unique [of fst])
  let ?xs = "map (\<lambda>i. (of_nat i :: u32, bss ! i)) [0..<length bss]"
  have inj: "inj_on (of_nat :: nat \<Rightarrow> u32) {0..<length bss}"
    using assms(2) by (intro inj_onI) (metis atLeastLessThan_iff order_less_le_trans unat_u32_of_nat)
  have mem: "(seq, bs) \<in> set d \<longleftrightarrow> unat seq < length bss \<and> bs = bss ! unat seq" for seq bs
    using hm_get_mem [OF dir_is_wf [OF assms(1)]] dir_is_get [OF assms(1)] by auto
  show s: "set (sort_key fst d) = set ?xs"
  proof (intro set_eqI iffI)
    fix x assume "x \<in> set (sort_key fst d)"
    then have "unat (fst x) < length bss \<and> snd x = bss ! unat (fst x)" using mem [of "fst x" "snd x"] by simp
    then show "x \<in> set ?xs" by (cases x) (auto intro!: image_eqI [of _ _ "unat (fst x)"])
  next
    fix x assume "x \<in> set ?xs"
    then obtain i where i: "i < length bss" "x = (of_nat i, bss ! i)" by auto
    then have "unat (of_nat i :: u32) = i" using assms(2) by (simp add: unat_u32_of_nat)
    then show "x \<in> set (sort_key fst d)" using mem [of "fst x" "snd x"] i by simp
  qed
  have "inj_on fst (set d)" using dir_is_wf [OF assms(1)] by (simp add: hm_wf_def distinct_map)
  then show "inj_on fst (set (sort_key fst d) \<union> set ?xs)" using s by simp
  show "distinct (map fst (sort_key fst d))" using dir_is_wf [OF assms(1)] by (simp add: hm_wf_def distinct_map)
  show "distinct (map fst ?xs)" using inj by (simp add: distinct_map o_def)
  show "sorted (map fst ?xs)"
    using assms(2) by (auto simp: sorted_iff_nth_mono word_le_nat_alt unat_u32_of_nat)
qed simp

section \<open>Opening after a crash\<close>

definition evl_start_pos :: EventWalPos where "evl_start_pos = \<lparr>ep_file_seq = 0, ep_offset = 0\<rparr>"

definition evl_contents :: "formats \<Rightarrow> SegmentEvent list list \<Rightarrow> (EventWalPos \<times> SegmentEvent) list" where
  "evl_contents fmt fs = concat (map (\<lambda>i. evl_located fmt (of_nat i) 0 (fs ! i)) [0..<length fs])"

lemma evl_contents_events: "map snd (evl_contents fmt fs) = map (stored fmt) (concat fs)"
proof -
  have "map snd (evl_contents fmt fs) = concat (map (\<lambda>i. map (stored fmt) (fs ! i)) [0..<length fs])"
    by (simp add: evl_contents_def map_concat o_def)
  also have "\<dots> = concat (map (map (stored fmt)) (map ((!) fs) [0..<length fs]))" by (simp add: o_def)
  finally show ?thesis by (simp only: map_nth map_concat)
qed

lemma read_files_enc:
  assumes "bincode_round_trip fmt" "\<forall>i \<in> set is. list_all event_ok (fs i)"
  shows "read_files fmt 0 (map (\<lambda>i. (of_nat i, evl_enc fmt (fs i))) is) =
    map Ok (concat (map (\<lambda>i. evl_located fmt (of_nat i) 0 (fs i)) is))"
  using assms(2)
proof (induction "is")
  case (Cons i "is")
  then show ?case using read_records_enc [OF assms(1), of "fs i" "of_nat i" 0 "[]"] by simp
qed simp

lemma read_from_start:
  assumes "bincode_round_trip fmt" "dir_is (map (evl_enc fmt) fs) d" "list_all (list_all event_ok) fs" "length fs \<le> 2 ^ 32"
  shows "read_from fmt d evl_start_pos = map Ok (evl_contents fmt fs)"
proof -
  have "sort_key fst d = map (\<lambda>i. (of_nat i, evl_enc fmt (fs ! i))) [0..<length fs]"
    using dir_is_sorted [OF assms(2)] assms(4) by simp
  then show ?thesis
    using read_files_enc [OF assms(1), of "[0..<length fs]" "\<lambda>i. fs ! i"] assms(3)
    by (simp add: read_from_def evl_start_pos_def evl_contents_def list_all_length)
qed

lemma read_from_last:
  assumes "dir_is (bss @ [t]) d" "length bss < 2 ^ 32"
  shows "read_from fmt d \<lparr>ep_file_seq = of_nat (length bss), ep_offset = 0\<rparr> = fst (read_records fmt (of_nat (length bss)) 0 t 0)"
proof -
  have n: "length (bss @ [t]) \<le> 2 ^ 32" using assms(2) by simp
  have "filter (\<lambda>f. of_nat (length bss) \<le> fst f) (sort_key fst d) = [(of_nat (length bss), t)]"
    using assms(2) by (auto simp: dir_is_sorted [OF assms(1) n] filter_empty_conv word_le_nat_alt unat_u32_of_nat)
  then show ?thesis using assms by (simp add: read_from_def dir_is_get unat_u32_of_nat case_prod_unfold)
qed

lemma truncate_torn_tail_heals:
  assumes "bincode_round_trip fmt" "list_all event_ok es" "length bss < 2 ^ 32" "length (evl_enc fmt es) < 2 ^ 64"
    and "dir_is (bss @ [take n (evl_enc fmt es)]) d"
  shows "\<exists>j d'. truncate_torn_tail fmt (of_nat (length bss)) d = Ok d' \<and> dir_is (bss @ [evl_enc fmt (take j es)]) d'
    \<and> (\<forall>k. length (evl_enc fmt (take k es)) \<le> n \<longrightarrow> prefix (take k es) (take j es))"
proof -
  obtain j m where j: "take n (evl_enc fmt es) = evl_enc fmt (take j es) @ (if j < length es then take m (to_record_bytes fmt (es ! j)) else [])"
    "j < length es \<longrightarrow> m < length (to_record_bytes fmt (es ! j))"
    "\<forall>k. length (evl_enc fmt (take k es)) \<le> n \<longrightarrow> prefix (take k es) (take j es)"
    using take_evl_enc by blast
  let ?t = "take n (evl_enc fmt es)" and ?seq = "of_nat (length bss) :: u32" and ?g = "evl_enc fmt (take j es)"
  have ok: "list_all event_ok (take j es)" using assms(2) by (auto simp: list_all_iff dest: in_set_takeD)
  have bytes: "evl_bytes d ?seq = ?t" using assms(3,5) by (simp add: evl_bytes_def dir_is_get unat_u32_of_nat)
  note r = read_from_last [OF assms(5,3), of fmt]
  show ?thesis
  proof (cases "j < length es \<and> 0 < m")
    case True
    then have e: "event_ok (es ! j)" "0 < m" "m < length (to_record_bytes fmt (es ! j))"
      using assms(2) j(2) by (auto simp: list_all_length)
    have t: "?t = ?g @ take m (to_record_bytes fmt (es ! j))" using True j(1) by simp
    have items: "read_from fmt d \<lparr>ep_file_seq = ?seq, ep_offset = 0\<rparr> = map Ok (evl_located fmt ?seq 0 (take j es)) @
        [Err (TornEventRecord \<lparr>ep_file_seq = ?seq, ep_offset = of_nat (length ?g)\<rparr>)]"
      unfolding r t by (simp add: read_records_enc [OF assms(1) ok] read_records_torn [OF assms(1) e])
    have "length ?g < length ?t" using t e by simp
    moreover have "length ?t \<le> length (evl_enc fmt es)" by simp
    ultimately have "unat (of_nat (length ?g) :: u64) = length ?g" using assms(4) by (simp add: unat_of_nat)
    moreover have "take (length ?g) ?t = ?g" by (simp add: t)
    ultimately have "truncate_torn_tail fmt ?seq d = Ok (hm_insert ?seq ?g d)"
      using \<open>length ?g < length ?t\<close> by (auto simp: truncate_torn_tail_def bytes items Let_def)
    then show ?thesis using dir_is_insert [OF disjI2 [OF assms(5)] assms(3)] j(3) by blast
  next
    case False
    then have t: "?t = ?g" using j(1) by auto
    have items: "read_from fmt d \<lparr>ep_file_seq = ?seq, ep_offset = 0\<rparr> = map Ok (evl_located fmt ?seq 0 (take j es))"
      unfolding r t using read_records_enc [OF assms(1) ok, of ?seq 0 "[]" 0] by simp
    have "truncate_torn_tail fmt ?seq d = Ok d"
      by (auto simp: truncate_torn_tail_def items Let_def last_map split: outcome.splits)
    then show ?thesis using assms(5) j(3) t by auto
  qed
qed

section \<open>Runs with crashes\<close>

text \<open>
  A crash keeps of every file the bytes that were synced and possibly more of what was written, up to any byte; a file of
  which nothing was synced may be missing.
\<close>

definition crash :: "(u32 \<Rightarrow> nat option) \<Rightarrow> EventWal \<Rightarrow> event_dir" where
  "crash keep w = map (\<lambda>(seq, bs). (seq, take (max (case keep seq of None \<Rightarrow> 0 | Some n \<Rightarrow> n) (length (evl_bytes (el_disk w) seq))) bs))
     (filter (\<lambda>f. keep (fst f) \<noteq> None \<or> hm_get (el_disk w) (fst f) \<noteq> None) (el_dir w))"

record evl_run =
  er_log :: EventWal
  er_waiting :: "SegmentEvent list"
  er_acked :: "SegmentEvent list"
  er_written :: "SegmentEvent list"

definition evl_fresh :: "u64 \<Rightarrow> EventWal" where
  "evl_fresh file_size = \<lparr>el_file_size = file_size, el_dir = [(0, [])], el_disk = [(0, [])], el_file_seq = 0, el_position = 0,
     el_latest_packed = 0, el_bytes_total = 0, el_file_bases = [], el_file_count = 1\<rparr>"

definition evl_run_start :: "u64 \<Rightarrow> evl_run" where
  "evl_run_start file_size = \<lparr>er_log = evl_fresh file_size, er_waiting = [], er_acked = [], er_written = []\<rparr>"

definition DEFAULT_EVENT_SYNC_MAX_WAITERS :: nat where "DEFAULT_EVENT_SYNC_MAX_WAITERS = 64"

inductive evl_step :: "formats \<Rightarrow> bool set \<Rightarrow> evl_run \<Rightarrow> evl_run \<Rightarrow> bool" for fmt rounds where
  event_step: "event_ok e \<Longrightarrow> unat (el_file_seq (er_log r)) < 2 ^ 32 - 1 \<Longrightarrow>
    evl_step fmt rounds r (r\<lparr>er_log := snd (evl_append_write fmt e (er_log r)), er_waiting := er_waiting r @ [e],
      er_written := er_written r @ [e]\<rparr>)"
| round_step: "synced \<in> rounds \<Longrightarrow> n \<le> DEFAULT_EVENT_SYNC_MAX_WAITERS \<Longrightarrow>
    evl_step fmt rounds r (r\<lparr>er_log := evl_flush synced (er_log r), er_acked := er_acked r @ take n (er_waiting r),
      er_waiting := drop n (er_waiting r)\<rparr>)"
| crash_step: "EventWal_open fmt (el_file_size (er_log r)) (crash keep (er_log r)) = Ok w \<Longrightarrow>
    evl_step fmt rounds r (r\<lparr>er_log := w, er_waiting := [],
      er_written := take (length (read_from fmt (el_dir w) evl_start_pos)) (er_written r)\<rparr>)"

text \<open>
  The invariant: \<open>fs\<close> are the events of the files behind the current one and \<open>es\<close> those of the current one; on disk are the
  earlier files and, unless the current file is missing there, its first \<open>k\<close> events.
\<close>

definition event_cap :: nat where "event_cap = 2 ^ 24"

definition evl_files :: "formats \<Rightarrow> SegmentEvent list list \<Rightarrow> SegmentEvent list \<Rightarrow> SegmentEvent list option \<Rightarrow> EventWal \<Rightarrow> bool" where
  "evl_files fmt fs es durable w \<longleftrightarrow>
     length fs < 2 ^ 32 \<and> el_file_seq w = of_nat (length fs) \<and> el_position w = of_nat (length (evl_enc fmt es)) \<and>
     list_all (list_all event_ok) fs \<and> list_all event_ok es \<and> unat (el_file_size w) + event_cap < 2 ^ 64 \<and>
     list_all (\<lambda>f. length (evl_enc fmt f) \<le> max (unat (el_file_size w)) event_cap) (es # fs) \<and>
     dir_is (map (evl_enc fmt) (fs @ [es])) (el_dir w) \<and>
     (case durable of None \<Rightarrow> dir_is (map (evl_enc fmt) fs) (el_disk w)
      | Some ds \<Rightarrow> prefix ds es \<and> dir_is (map (evl_enc fmt) (fs @ [ds])) (el_disk w))"

lemma evl_filesD:
  assumes "evl_files fmt fs es durable w"
  shows "length fs < 2 ^ 32" "el_file_seq w = of_nat (length fs)" "el_position w = of_nat (length (evl_enc fmt es))"
    "list_all (list_all event_ok) fs" "list_all event_ok es" "unat (el_file_size w) + event_cap < 2 ^ 64"
    "length (evl_enc fmt es) \<le> max (unat (el_file_size w)) event_cap"
    "list_all (\<lambda>f. length (evl_enc fmt f) \<le> max (unat (el_file_size w)) event_cap) fs"
    "dir_is (map (evl_enc fmt) fs @ [evl_enc fmt es]) (el_dir w)"
    "durable = None \<Longrightarrow> dir_is (map (evl_enc fmt) fs) (el_disk w)"
    "durable = Some ds \<Longrightarrow> prefix ds es \<and> dir_is (map (evl_enc fmt) fs @ [evl_enc fmt ds]) (el_disk w)"
    "evl_bytes (el_dir w) (el_file_seq w) = evl_enc fmt es"
proof -
  show d: "dir_is (map (evl_enc fmt) fs @ [evl_enc fmt es]) (el_dir w)" using assms by (simp add: evl_files_def)
  have "length fs < 2 ^ 32" "el_file_seq w = of_nat (length fs)" using assms by (simp_all add: evl_files_def)
  then show "evl_bytes (el_dir w) (el_file_seq w) = evl_enc fmt es"
    using dir_is_get [OF d, of "of_nat (length fs)"] by (simp add: evl_bytes_def unat_u32_of_nat nth_append)
qed (use assms in \<open>simp_all add: evl_files_def\<close>)

lemma evl_sync_files:
  assumes "evl_files fmt fs es durable w"
  shows "evl_files fmt fs es (Some es) (evl_sync w)"
proof -
  note D = evl_filesD [OF assms]
  have "dir_is (map (evl_enc fmt) fs @ [evl_enc fmt es]) (hm_insert (of_nat (length fs)) (evl_enc fmt es) (el_disk w))"
    using dir_is_insert [of "map (evl_enc fmt) fs" "el_disk w"] D(1,10,11) by (cases durable) auto
  then show ?thesis using assms D(2,12) by (simp add: evl_files_def evl_sync_def)
qed

lemma record_size:
  assumes "bincode_round_trip fmt" "event_ok e"
  shows "length (to_record_bytes fmt e) \<le> event_cap"
  by (rule record_parts [OF assms]) (simp add: event_cap_def MAX_PAYLOAD_SIZE_def SEAL_MAX_CONTAINED_TAIL_BYTES_def event_format)

lemma evl_rotate_files:
  assumes "evl_files fmt fs es durable w" "unat (el_file_seq w) < 2 ^ 32 - 1"
  shows "evl_files fmt (fs @ [es]) [] None (evl_rotate w)"
proof -
  note D = evl_filesD [OF evl_sync_files [OF assms(1)]]
  have seq: "el_file_seq (evl_sync w) + 1 = of_nat (length (fs @ [es]))" using D(2) by simp
  have n: "Suc (length fs) < 2 ^ 32" using assms(2) evl_filesD(1,2) [OF assms(1)] by (simp add: unat_u32_of_nat)
  have fresh: "hm_get (el_dir (evl_sync w)) (of_nat (Suc (length fs))) = None"
    using dir_is_get [OF D(9), of "of_nat (Suc (length fs))"] unat_u32_of_nat [OF n] by (simp del: of_nat_Suc)
  have "dir_is ((map (evl_enc fmt) fs @ [evl_enc fmt es]) @ [[]]) (hm_insert (of_nat (Suc (length fs))) [] (el_dir (evl_sync w)))"
    using dir_is_insert [OF disjI1 [OF D(9)], of "[]"] n by simp
  then show ?thesis
    using D n fresh seq by (simp add: evl_files_def evl_rotate_def Let_def add.commute [of 1])
qed

lemma evl_write_files:
  assumes "bincode_round_trip fmt" "evl_files fmt fs es durable w" "event_ok e"
    and "length (evl_enc fmt es) + length (to_record_bytes fmt e) \<le> max (unat (el_file_size w)) event_cap"
  defines "b \<equiv> to_record_bytes fmt e"
  shows "evl_files fmt fs (es @ [e]) durable (w\<lparr>el_dir := hm_insert (el_file_seq w) (evl_bytes (el_dir w) (el_file_seq w) @ b) (el_dir w),
    el_position := el_position w + of_nat (length b), el_latest_packed := p, el_bytes_total := t\<rparr>)"
proof -
  note D = evl_filesD [OF assms(2)]
  have "dir_is (map (evl_enc fmt) fs @ [evl_enc fmt es @ b]) (hm_insert (of_nat (length fs)) (evl_enc fmt es @ b) (el_dir w))"
    using dir_is_insert [OF disjI2 [OF D(9)], of "evl_enc fmt es @ b"] D(1) by simp
  then show ?thesis
    using assms(2-4) D(2,3,12) by (auto simp: evl_files_def b_def split: option.splits)
qed

lemma evl_append_files:
  assumes "bincode_round_trip fmt" "evl_files fmt fs es durable w" "event_ok e" "unat (el_file_seq w) < 2 ^ 32 - 1"
  shows "evl_files fmt fs (es @ [e]) durable (snd (evl_append_write fmt e w)) \<or>
    evl_files fmt (fs @ [es]) [e] None (snd (evl_append_write fmt e w))"
proof -
  note D = evl_filesD [OF assms(2)] and r = record_size [OF assms(1,3)]
  let ?n = "length (to_record_bytes fmt e)"
  show ?thesis
  proof (cases "el_position w + of_nat ?n > el_file_size w")
    case True
    then show ?thesis
      using evl_write_files [OF assms(1) evl_rotate_files [OF assms(2,4)] assms(3)] r
      by (simp add: evl_append_write_def Let_def)
  next
    case False
    have "length (evl_enc fmt es) + ?n < 2 ^ 64" using r D(6,7) by (auto simp: max_def event_cap_def split: if_splits)
    then have "unat (of_nat (length (evl_enc fmt es) + ?n) :: u64) = length (evl_enc fmt es) + ?n"
      by (simp add: unat_of_nat del: of_nat_add)
    then have "length (evl_enc fmt es) + ?n \<le> unat (el_file_size w)"
      using False D(3) by (simp add: not_less word_le_nat_alt)
    then show ?thesis using evl_write_files [OF assms(1-3)] False by (simp add: evl_append_write_def Let_def)
  qed
qed

lemma hm_get_map_snd: "hm_get (map (\<lambda>(k, v). (k, f k v)) m) k = map_option (f k) (hm_get m k)"
  by (induction m) (auto simp: hm_get_def)

lemma hm_wf_map_snd: "hm_wf m \<Longrightarrow> hm_wf (map (\<lambda>(k, v). (k, f k v)) m)"
  by (simp add: hm_wf_def case_prod_unfold o_def)

lemma crash_get:
  assumes "hm_wf (el_dir w)"
  shows "hm_get (crash keep w) seq = (case hm_get (el_dir w) seq of None \<Rightarrow> None
    | Some bs \<Rightarrow> if keep seq = None \<and> hm_get (el_disk w) seq = None then None
        else Some (take (max (case keep seq of None \<Rightarrow> 0 | Some n \<Rightarrow> n) (length (evl_bytes (el_disk w) seq))) bs))"
  unfolding crash_def hm_get_map_snd hm_get_filter [OF assms] by (simp split: option.splits)

lemma crash_files:
  assumes "evl_files fmt fs es durable w"
  shows "(\<exists>n. dir_is (map (evl_enc fmt) fs @ [take n (evl_enc fmt es)]) (crash keep w) \<and>
      (\<forall>ds. durable = Some ds \<longrightarrow> length (evl_enc fmt ds) \<le> n)) \<or>
    durable = None \<and> dir_is (map (evl_enc fmt) fs) (crash keep w)"
proof -
  note D = evl_filesD [OF assms]
  let ?seq = "of_nat (length fs) :: u32" and ?d = "crash keep w"
  have wf: "hm_wf ?d" unfolding crash_def by (intro hm_wf_map_snd hm_wf_filter dir_is_wf [OF D(9)])
  note get = crash_get [OF dir_is_wf [OF D(9)]]
  have old: "hm_get ?d seq = Some (evl_enc fmt (fs ! unat seq))" if "unat seq < length fs" for seq
  proof -
    have "hm_get (el_disk w) seq = Some (evl_enc fmt (fs ! unat seq))"
      using that D(10,11) by (cases durable) (auto simp: dir_is_get nth_append)
    then show ?thesis using that by (simp add: get dir_is_get [OF D(9)] evl_bytes_def nth_append)
  qed
  have above: "hm_get ?d seq = None" if "length fs < unat seq" for seq
    using that by (simp add: get dir_is_get [OF D(9)])
  have q: "seq = ?seq" if "\<not> unat seq < length fs" "\<not> length fs < unat seq" for seq
    using that unat_u32_of_nat [OF D(1)] by (simp add: word_unat_eq_iff)
  let ?n = "max (case keep ?seq of None \<Rightarrow> 0 | Some n \<Rightarrow> n) (length (evl_bytes (el_disk w) ?seq))"
  have cur: "hm_get ?d ?seq = (if keep ?seq = None \<and> hm_get (el_disk w) ?seq = None then None else Some (take ?n (evl_enc fmt es)))"
    using unat_u32_of_nat [OF D(1)] by (simp add: get dir_is_get [OF D(9)] nth_append)
  show ?thesis
  proof (cases "keep ?seq = None \<and> hm_get (el_disk w) ?seq = None")
    case True
    then have "durable = None"
      using D(11) unat_u32_of_nat [OF D(1)] by (cases durable) (auto simp: dir_is_get)
    moreover have "dir_is (map (evl_enc fmt) fs) ?d"
      unfolding dir_is_def using wf old above cur q True by (metis length_map linorder_neqE_nat nth_map)
    ultimately show ?thesis by blast
  next
    case False
    have "hm_get ?d seq = (if unat seq < length (map (evl_enc fmt) fs @ [take ?n (evl_enc fmt es)])
        then Some ((map (evl_enc fmt) fs @ [take ?n (evl_enc fmt es)]) ! unat seq) else None)" for seq
      using old [of seq] above [of seq] cur q [of seq] False unat_u32_of_nat [OF D(1)]
      by (cases "unat seq" "length fs" rule: linorder_cases) (auto simp: nth_append)
    moreover have "length (evl_enc fmt ds) \<le> ?n" if "durable = Some ds" for ds
      using dir_is_get [OF conjunct2 [OF D(11) [OF that]], of ?seq] unat_u32_of_nat [OF D(1)] by (simp add: evl_bytes_def nth_append)
    ultimately show ?thesis using wf unfolding dir_is_def by blast
  qed
qed

lemma last_case: "(case xs of [] \<Rightarrow> z | x # ys \<Rightarrow> f (last (x # ys))) = (if xs = [] then z else f (last xs))"
  by (cases xs) simp_all

lemma open_files:
  assumes "bincode_round_trip fmt" "evl_files fmt fs es durable w" "dir_is (map (evl_enc fmt) fs @ [take n (evl_enc fmt es)]) d"
  shows "\<exists>j w'. EventWal_open fmt (el_file_size w) d = Ok w' \<and> el_file_size w' = el_file_size w \<and>
    evl_files fmt fs (take j es) (Some (take j es)) w' \<and>
    (\<forall>k. length (evl_enc fmt (take k es)) \<le> n \<longrightarrow> prefix (take k es) (take j es))"
proof -
  note D = evl_filesD [OF assms(2)]
  have "length (evl_enc fmt es) < 2 ^ 64" using D(6,7) by (auto simp: max_def event_cap_def split: if_splits)
  then obtain j d' where j: "truncate_torn_tail fmt (of_nat (length fs)) d = Ok d'"
      "dir_is (map (evl_enc fmt) fs @ [evl_enc fmt (take j es)]) d'"
      "\<forall>k. length (evl_enc fmt (take k es)) \<le> n \<longrightarrow> prefix (take k es) (take j es)"
    using truncate_torn_tail_heals [OF assms(1) D(5) _ _ assms(3)] D(1) by auto
  have sd: "sort_key fst d = map (\<lambda>i. (of_nat i, (map (evl_enc fmt) fs @ [take n (evl_enc fmt es)]) ! i)) [0..<Suc (length fs)]"
    using dir_is_sorted [OF assms(3)] D(1) by (simp del: upt_Suc)
  have seq: "(case sort_key fst d of [] \<Rightarrow> 0 | f # fs \<Rightarrow> fst (last (f # fs))) = of_nat (length fs)"
    unfolding sd last_case by simp
  have get: "hm_get d (of_nat (length fs)) \<noteq> None" using D(1) by (simp add: dir_is_get [OF assms(3)] unat_u32_of_nat)
  have bytes: "evl_bytes d' (of_nat (length fs)) = evl_enc fmt (take j es)"
    using D(1) by (simp add: evl_bytes_def dir_is_get [OF j(2)] unat_u32_of_nat nth_append)
  obtain w' where w': "EventWal_open fmt (el_file_size w) d = Ok w'" "el_file_size w' = el_file_size w" "el_dir w' = d'"
      "el_disk w' = d'" "el_file_seq w' = of_nat (length fs)" "el_position w' = of_nat (length (evl_enc fmt (take j es)))"
    unfolding EventWal_open_def seq using get j(1) bytes
    by (cases "bases_from 0 (sort_key fst (if d = [] then [] else d'))") (auto simp: Let_def)
  have "length (evl_enc fmt (take j es)) \<le> length (evl_enc fmt es)"
    by (metis append_take_drop_id evl_enc_simps(3) length_append le_add1)
  then have "evl_files fmt fs (take j es) (Some (take j es)) w'"
    using D w' j(2) by (auto simp: evl_files_def list_all_iff dest: in_set_takeD)
  then show ?thesis using w'(1,2) j(3) by blast
qed

lemma crash_open:
  assumes "bincode_round_trip fmt" "evl_files fmt fs es durable w"
  shows "\<exists>w' fs' es'. EventWal_open fmt (el_file_size w) (crash keep w) = Ok w' \<and> el_file_size w' = el_file_size w \<and>
    evl_files fmt fs' es' (Some es') w' \<and> prefix (concat fs' @ es') (concat fs @ es) \<and>
    prefix (concat fs @ (case durable of None \<Rightarrow> [] | Some ds \<Rightarrow> ds)) (concat fs' @ es')"
proof -
  note D = evl_filesD [OF assms(2)]
  consider (cut) n where "dir_is (map (evl_enc fmt) fs @ [take n (evl_enc fmt es)]) (crash keep w)"
      "\<forall>ds. durable = Some ds \<longrightarrow> length (evl_enc fmt ds) \<le> n"
    | (missing) "durable = None" "dir_is (map (evl_enc fmt) fs) (crash keep w)"
    using crash_files [OF assms(2)] by blast
  then show ?thesis
  proof cases
    case cut
    obtain j w' where j: "EventWal_open fmt (el_file_size w) (crash keep w) = Ok w'" "el_file_size w' = el_file_size w"
        "evl_files fmt fs (take j es) (Some (take j es)) w'"
        "\<forall>k. length (evl_enc fmt (take k es)) \<le> n \<longrightarrow> prefix (take k es) (take j es)"
      using open_files [OF assms cut(1)] by blast
    have "prefix ds (take j es)" if "durable = Some ds" for ds
      using cut(2) j(4) D(11) [OF that] that by (metis append_eq_conv_conj prefix_def)
    then show ?thesis
      using j take_is_prefix [of j es] by (intro exI [of _ w'] exI [of _ fs] exI [of _ "take j es"]) (auto split: option.splits)
  next
    case missing
    show ?thesis
    proof (cases fs rule: rev_cases)
      case Nil
      have "\<exists>w'. EventWal_open fmt (el_file_size w) (crash keep w) = Ok w' \<and> el_file_size w' = el_file_size w \<and> evl_files fmt [] [] (Some []) w'"
        using missing(2) Nil D(6) dir_is_insert [of "[]" "[]" "[]" "[]"]
        by (auto simp: EventWal_open_def truncate_torn_tail_def evl_bytes_def Let_def evl_files_def)
      then show ?thesis using Nil missing(1) by (auto intro!: exI [of _ "[]"])
    next
      case (snoc gs g)
      define v where "v = w\<lparr>el_file_seq := of_nat (length gs), el_position := of_nat (length (evl_enc fmt g)),
        el_dir := crash keep w, el_disk := crash keep w\<rparr>"
      have v: "evl_files fmt gs g (Some g) v"
        using D missing(2) snoc by (simp add: evl_files_def v_def)
      obtain j w' where j: "EventWal_open fmt (el_file_size v) (crash keep w) = Ok w'" "el_file_size w' = el_file_size v"
          "evl_files fmt gs (take j g) (Some (take j g)) w'"
          "\<forall>k. length (evl_enc fmt (take k g)) \<le> length (evl_enc fmt g) \<longrightarrow> prefix (take k g) (take j g)"
        using open_files [OF assms(1) v, of "length (evl_enc fmt g)" "crash keep w"] missing(2) snoc by auto
      have "prefix g (take j g)" using j(4) [rule_format, of "length g"] by simp
      then have "take j g = g" by (intro prefix_order.antisym take_is_prefix)
      then show ?thesis using j snoc missing(1) by (intro exI [of _ w'] exI [of _ gs] exI [of _ g]) (simp add: v_def)
    qed
  qed
qed

definition evl_run_inv :: "formats \<Rightarrow> bool set \<Rightarrow> evl_run \<Rightarrow> bool" where
  "evl_run_inv fmt rounds r \<longleftrightarrow> (\<exists>fs es durable. evl_files fmt fs es durable (er_log r) \<and> er_written r = concat fs @ es \<and>
     (False \<notin> rounds \<longrightarrow> subseq (er_acked r @ er_waiting r) (er_written r) \<and>
       subseq (er_acked r) (concat fs @ (case durable of None \<Rightarrow> [] | Some ds \<Rightarrow> ds))))"

lemma evl_run_start_inv: "unat file_size + event_cap < 2 ^ 64 \<Longrightarrow> evl_run_inv fmt rounds (evl_run_start file_size)"
proof -
  assume "unat file_size + event_cap < 2 ^ 64"
  moreover have "dir_is [[]] [(0, [])]" using dir_is_insert [of "[]" "[]" "[]" "[]"] by (simp add: hm_insert_def)
  ultimately have "evl_files fmt [] [] (Some []) (evl_fresh file_size)" by (simp add: evl_files_def evl_fresh_def)
  then show ?thesis unfolding evl_run_inv_def evl_run_start_def by fastforce
qed

lemma evl_contents_length:
  assumes "bincode_round_trip fmt" "evl_files fmt fs es durable w"
  shows "read_from fmt (el_dir w) evl_start_pos = map Ok (evl_contents fmt (fs @ [es]))"
    "length (read_from fmt (el_dir w) evl_start_pos) = length (concat fs @ es)"
proof -
  note D = evl_filesD [OF assms(2)]
  show r: "read_from fmt (el_dir w) evl_start_pos = map Ok (evl_contents fmt (fs @ [es]))"
    using read_from_start [OF assms(1), of "fs @ [es]" "el_dir w"] D(1,4,5,9) by simp
  show "length (read_from fmt (el_dir w) evl_start_pos) = length (concat fs @ es)"
    using arg_cong [OF evl_contents_events [of fmt "fs @ [es]"], of length] by (simp add: r)
qed

lemma evl_step_inv:
  assumes "bincode_round_trip fmt" "evl_step fmt rounds r r'" "evl_run_inv fmt rounds r"
  shows "evl_run_inv fmt rounds r'"
proof -
  obtain fs es durable where i: "evl_files fmt fs es durable (er_log r)" "er_written r = concat fs @ es"
      "False \<notin> rounds \<Longrightarrow> subseq (er_acked r @ er_waiting r) (er_written r)"
      "False \<notin> rounds \<Longrightarrow> subseq (er_acked r) (concat fs @ (case durable of None \<Rightarrow> [] | Some ds \<Rightarrow> ds))"
    using assms(3) by (auto simp: evl_run_inv_def)
  have acked: "subseq (er_acked r @ take n (er_waiting r)) (er_written r)" if "False \<notin> rounds" for n
    using i(3) [OF that] by (rule subseq_order.order_trans [rotated]) (simp add: prefix_imp_subseq take_is_prefix)
  show ?thesis
    using assms(2)
  proof cases
    case (event_step e)
    let ?w = "snd (evl_append_write fmt e (er_log r))"
    have sub: "subseq (er_acked r @ er_waiting r @ [e]) (er_written r @ [e])" if "False \<notin> rounds"
      using list_emb_append_mono [OF i(3) [OF that], of "[e]" "[e]"] by simp
    have "evl_files fmt fs (es @ [e]) durable ?w \<or> evl_files fmt (fs @ [es]) [e] None ?w"
      by (rule evl_append_files [OF assms(1) i(1) event_step(2,3)])
    then show ?thesis
    proof
      assume "evl_files fmt fs (es @ [e]) durable ?w"
      then show ?thesis using event_step(1) i(2,4) sub unfolding evl_run_inv_def
        by (intro exI [of _ fs] exI [of _ "es @ [e]"] exI [of _ durable]) simp
    next
      assume "evl_files fmt (fs @ [es]) [e] None ?w"
      then show ?thesis using event_step(1) i(2) acked [of 0] sub unfolding evl_run_inv_def
        by (intro exI [of _ "fs @ [es]"] exI [of _ "[e]"] exI [of _ None]) simp
    qed
  next
    case (round_step synced n)
    show ?thesis
    proof (cases synced)
      case True
      have "evl_files fmt fs es (Some es) (er_log r')"
        using evl_sync_files [OF i(1)] round_step(1) True by (simp add: evl_flush_def)
      then show ?thesis using round_step(1) i(2,3) acked [of n] unfolding evl_run_inv_def
        by (auto intro!: exI [of _ fs] exI [of _ es] exI [of _ "Some es"])
    next
      case False
      then show ?thesis using round_step(1,2) i(1,2) unfolding evl_run_inv_def
        by (auto simp: evl_flush_def intro!: exI [of _ fs] exI [of _ es] exI [of _ durable])
    qed
  next
    case (crash_step keep w)
    obtain fs' es' where w: "evl_files fmt fs' es' (Some es') w" "prefix (concat fs' @ es') (concat fs @ es)"
        "prefix (concat fs @ (case durable of None \<Rightarrow> [] | Some ds \<Rightarrow> ds)) (concat fs' @ es')"
      using crash_open [OF assms(1) i(1), of keep] crash_step(2) by auto
    obtain zs where zs: "er_written r = (concat fs' @ es') @ zs" using w(2) i(2) by (auto simp: prefix_def)
    have "take (length (read_from fmt (el_dir w) evl_start_pos)) (er_written r) = concat fs' @ es'"
      unfolding evl_contents_length(2) [OF assms(1) w(1)] zs by simp
    moreover have "subseq (er_acked r) (concat fs' @ es')" if "False \<notin> rounds"
      using i(4) [OF that] prefix_imp_subseq [OF w(3)] by (rule subseq_order.order_trans)
    ultimately show ?thesis using crash_step(1) w(1) unfolding evl_run_inv_def
      by (auto intro!: exI [of _ fs'] exI [of _ es'] exI [of _ "Some es'"])
  qed
qed

lemma evl_run_reachable:
  assumes "bincode_round_trip fmt" "unat file_size + event_cap < 2 ^ 64" "(evl_step fmt rounds)\<^sup>*\<^sup>* (evl_run_start file_size) r"
  shows "evl_run_inv fmt rounds r"
  using assms(3) by induction (auto intro: evl_run_start_inv [OF assms(2)] evl_step_inv [OF assms(1)])

section \<open>Properties\<close>

text \<open>
  C4: However appends, group-commit rounds, rotations and crashes with reopening interleave, and whatever bytes of unsynced data a
  crash keeps, the event log opens again without an error and reads back cleanly from its start: it yields a prefix of the events that
  were written, in order, and, if the syncs of all group-commit rounds succeed, every acknowledged event is among them.  The events can be
  represented in a record (node ids of at most 255 bytes of UTF-8, at most 16 of them in a refresh) and are read back as stored, without
  a list of contained objects that is empty or too large; there are fewer than 2^32 files, and the configured file size is more than
  2^24 below 2^64.
\<close>

theorem event_log_crash_safe:
  assumes "bincode_round_trip fmt" "unat file_size + event_cap < 2 ^ 64" "(evl_step fmt rounds)\<^sup>*\<^sup>* (evl_run_start file_size) r"
  shows "\<exists>w ps es. EventWal_open fmt (el_file_size (er_log r)) (crash keep (er_log r)) = Ok w \<and>
    read_from fmt (el_dir w) evl_start_pos = map Ok (zip ps (map (stored fmt) es)) \<and> length ps = length es \<and>
    (False \<notin> rounds \<longrightarrow> subseq (er_acked r) es) \<and> prefix es (er_written r)"
proof -
  obtain fs es durable where i: "evl_files fmt fs es durable (er_log r)" "er_written r = concat fs @ es"
      "False \<notin> rounds \<Longrightarrow> subseq (er_acked r) (concat fs @ (case durable of None \<Rightarrow> [] | Some ds \<Rightarrow> ds))"
    using evl_run_reachable [OF assms] by (auto simp: evl_run_inv_def)
  obtain w fs' es' where w: "EventWal_open fmt (el_file_size (er_log r)) (crash keep (er_log r)) = Ok w"
      "evl_files fmt fs' es' (Some es') w" "prefix (concat fs' @ es') (concat fs @ es)"
      "prefix (concat fs @ (case durable of None \<Rightarrow> [] | Some ds \<Rightarrow> ds)) (concat fs' @ es')"
    using crash_open [OF assms(1) i(1), of keep] by blast
  let ?c = "evl_contents fmt (fs' @ [es'])"
  have "?c = zip (map fst ?c) (map (stored fmt) (concat fs' @ es'))"
    using evl_contents_events [of fmt "fs' @ [es']"] zip_map_fst_snd [of ?c] by simp
  moreover have "length (map fst ?c) = length (concat fs' @ es')"
    using arg_cong [OF evl_contents_events [of fmt "fs' @ [es']"], of length] by simp
  moreover have "subseq (er_acked r) (concat fs' @ es')" if "False \<notin> rounds"
    using i(3) [OF that] prefix_imp_subseq [OF w(4)] by (rule subseq_order.order_trans)
  ultimately show ?thesis
    using w(1,3) i(2) evl_contents_length(1) [OF assms(1) w(2)]
    by (intro exI [of _ w] exI [of _ "map fst ?c"] exI [of _ "concat fs' @ es'"]) simp
qed

definition sample_run :: evl_run where
  "sample_run = \<lparr>er_log = evl_flush True (snd (evl_append_write sample_formats sample_event (evl_fresh 64))), er_waiting = [],
     er_acked = [sample_event], er_written = [sample_event]\<rparr>"

lemma sample_run_reachable: "(evl_step sample_formats {True})\<^sup>*\<^sup>* (evl_run_start 64) sample_run"
proof -
  let ?s = "evl_run_start 64"
  let ?r = "?s\<lparr>er_log := snd (evl_append_write sample_formats sample_event (er_log ?s)), er_waiting := er_waiting ?s @ [sample_event],
      er_written := er_written ?s @ [sample_event]\<rparr>"
  have "evl_step sample_formats {True} ?s ?r"
    by (rule evl_step.event_step) (simp_all add: sample_event_def evl_run_start_def evl_fresh_def)
  moreover have "evl_step sample_formats {True} ?r (?r\<lparr>er_log := evl_flush True (er_log ?r),
      er_acked := er_acked ?r @ take 1 (er_waiting ?r), er_waiting := drop 1 (er_waiting ?r)\<rparr>)"
    by (rule evl_step.round_step) (simp_all add: DEFAULT_EVENT_SYNC_MAX_WAITERS_def)
  moreover have "?r\<lparr>er_log := evl_flush True (er_log ?r),
      er_acked := er_acked ?r @ take 1 (er_waiting ?r), er_waiting := drop 1 (er_waiting ?r)\<rparr> = sample_run"
    by (simp add: sample_run_def evl_run_start_def)
  ultimately show ?thesis using rtranclp.rtrancl_into_rtrancl [OF r_into_rtranclp] by (simp only:)
qed

theorem event_log_crash_safe_witness:
  "\<exists>w ps es. EventWal_open sample_formats (el_file_size (er_log sample_run)) (crash (\<lambda>_. Some 3) (er_log sample_run)) = Ok w \<and>
    read_from sample_formats (el_dir w) evl_start_pos = map Ok (zip ps (map (stored sample_formats) es)) \<and> length ps = length es \<and>
    subseq [sample_event] es \<and> prefix es [sample_event]"
proof -
  have "bincode_round_trip sample_formats" "unat (64 :: u64) + event_cap < 2 ^ 64" "er_acked sample_run = [sample_event]"
    "er_written sample_run = [sample_event]"
    by (simp_all add: bincode_round_trip_def sample_formats_def event_cap_def sample_run_def)
  then show ?thesis using event_log_crash_safe [OF _ _ sample_run_reachable, of "\<lambda>_. Some 3"] by simp
qed

section \<open>Packed positions\<close>

lemma offset_mask: "x AND PACKED_OFFSET_MASK = take_bit 48 x"
  by (simp add: PACKED_OFFSET_MASK_def PACKED_OFFSET_BITS_def take_bit_eq_mask mask_eq_exp_minus_1 push_bit_of_1)

lemma packed_add: "packed p = push_bit 48 (ucast (ep_file_seq p)) + take_bit 48 (ep_offset p)"
proof -
  have "packed p = push_bit 48 (ucast (ep_file_seq p)) OR take_bit 48 (ep_offset p)"
    by (simp add: packed_def offset_mask PACKED_OFFSET_BITS_def)
  also have "\<dots> = push_bit 48 (ucast (ep_file_seq p)) + take_bit 48 (ep_offset p)"
    by (rule disjunctive_add [symmetric]) (auto simp: bit_simps)
  finally show ?thesis .
qed

lemma packed_unat:
  assumes "unat (ep_offset p) < 2 ^ 48" "unat (ep_file_seq p) < 2 ^ 16"
  shows "unat (packed p) = unat (ep_file_seq p) * 2 ^ 48 + unat (ep_offset p)"
proof -
  have "unat (push_bit 48 (ucast (ep_file_seq p) :: u64)) = unat (ep_file_seq p) * 2 ^ 48"
    unfolding unsigned_push_bit_eq unsigned_ucast_eq using assms(2) by (simp add: push_bit_eq_mult take_bit_eq_mod)
  moreover have "unat (take_bit 48 (ep_offset p)) = unat (ep_offset p)"
    unfolding unsigned_take_bit_eq using assms(1) by (simp add: take_bit_eq_mod)
  moreover have "unat (ep_file_seq p) * 2 ^ 48 + unat (ep_offset p) < 2 ^ 64" using assms by simp
  ultimately show ?thesis unfolding packed_add by (simp add: unat_word_ariths(1))
qed

text \<open>
  For files below 2^16 and offsets below 2^48 packing a position into one word loses nothing and keeps the order of
  positions; a file sequence from 2^16 on is cut to its low 16 bits, so the position then packs like one far behind it.
\<close>

theorem packed_positions:
  fixes p q :: EventWalPos
  assumes "unat (ep_offset p) < 2 ^ 48" "unat (ep_file_seq p) < 2 ^ 16" "unat (ep_offset q) < 2 ^ 48" "unat (ep_file_seq q) < 2 ^ 16"
  shows "from_packed (packed p) = p \<and> (packed p \<le> packed q \<longleftrightarrow> epos_le p q) \<and>
    packed (p\<lparr>ep_file_seq := ep_file_seq p + 2 ^ 16\<rparr>) = packed p"
proof (intro conjI)
  note u = packed_unat [OF assms(1,2)] packed_unat [OF assms(3,4)]
  have "unat (drop_bit 48 (packed p)) = unat (ep_file_seq p)"
    unfolding unat_drop_bit_eq u(1) using assms(1) by (simp add: drop_bit_eq_div)
  moreover have "unat (take_bit 48 (packed p)) = unat (ep_offset p)"
    unfolding unsigned_take_bit_eq u(1) using assms(1) by (simp add: take_bit_eq_mod)
  ultimately show "from_packed (packed p) = p"
    using assms(2) by (cases p) (simp add: from_packed_def offset_mask word_unat_eq_iff PACKED_OFFSET_BITS_def
        unsigned_ucast_eq, simp add: take_bit_eq_mod)
  show "packed p \<le> packed q \<longleftrightarrow> epos_le p q"
    using assms by (auto simp: word_le_nat_alt word_less_nat_alt u epos_le_def word_unat_eq_iff)
  show "packed (p\<lparr>ep_file_seq := ep_file_seq p + 2 ^ 16\<rparr>) = packed p"
  proof -
    have u: "unat (push_bit 48 (ucast t :: u64)) = unat t * 2 ^ 48 mod 2 ^ 64" for t :: u32
      unfolding unsigned_push_bit_eq unsigned_ucast_eq by (simp add: push_bit_eq_mult take_bit_eq_mod mod_mult_left_eq)
    have "(x mod 2 ^ 32) * 2 ^ 48 mod 2 ^ 64 = x * 2 ^ 48 mod (2 ^ 64 :: nat)" for x :: nat
      unfolding mult_mod_left by (rule mod_mod_cancel) simp
    note m = this
    have w: "unat (s + 2 ^ 16) = (unat s + 2 ^ 16) mod 2 ^ 32" for s :: u32 by (simp add: unat_word_ariths(1))
    have "(unat s + 2 ^ 16) * 2 ^ 48 mod 2 ^ 64 = unat s * 2 ^ 48 mod 2 ^ 64" for s :: u32 by (simp add: distrib_right)
    then have "push_bit 48 (ucast (s + 2 ^ 16) :: u64) = push_bit 48 (ucast s)" for s :: u32
      unfolding word_unat_eq_iff u w m .
    then show ?thesis by (simp add: packed_add)
  qed
qed

theorem packed_positions_witness:
  "from_packed (packed \<lparr>ep_file_seq = 3, ep_offset = 40\<rparr>) = \<lparr>ep_file_seq = 3, ep_offset = 40\<rparr> \<and>
   packed \<lparr>ep_file_seq = 65539, ep_offset = 40\<rparr> = packed \<lparr>ep_file_seq = 3, ep_offset = 40\<rparr>"
  using packed_positions [of "\<lparr>ep_file_seq = 3, ep_offset = 40\<rparr>" "\<lparr>ep_file_seq = 3, ep_offset = 40\<rparr>"] by simp

section \<open>Truncation after a checkpoint\<close>

lemma sorted_from_head:
  assumes "hm_wf d" "hm_get d k = Some v"
  obtains ys where "filter (\<lambda>f. k \<le> fst f) (sort_key fst d) = (k, v) # ys" "\<forall>f \<in> set ys. k < fst f"
proof -
  let ?xs = "filter (\<lambda>f. k \<le> fst f) (sort_key fst d)"
  have mem: "(k, v) \<in> set ?xs" using assms by (simp add: hm_get_mem)
  have dist: "distinct (map fst ?xs)" using assms(1) by (simp add: hm_wf_def distinct_map inj_on_def)
  have "sorted (map fst ?xs)" by (simp add: sorted_filter)
  obtain x ys where xs: "?xs = x # ys" using mem by (cases ?xs) simp_all
  have "k \<le> fst x" using arg_cong [OF xs, of set] by auto
  moreover have "fst x \<le> k" using mem \<open>sorted (map fst ?xs)\<close> unfolding xs by auto
  ultimately have "fst x = k" by simp
  then have "x = (k, v)" using mem dist unfolding xs by (cases x) force
  moreover have "k < fst f" if "f \<in> set ys" for f
    using that \<open>sorted (map fst ?xs)\<close> dist \<open>fst x = k\<close> unfolding xs by (force simp: order_less_le)
  ultimately show thesis using that xs by blast
qed

text \<open>
  Truncating the log at a checkpoint position removes nothing that is read from that position on: the same records, at the
  same positions, with the same verdict on a damaged record.
\<close>

theorem truncate_before_keeps_suffix:
  assumes "hm_wf (el_dir w)" "list_all (\<lambda>f. length (snd f) < 2 ^ 64) (el_dir w)"
  shows "read_from fmt (el_dir (snd (evl_truncate_before pos w))) pos = read_from fmt (el_dir w) pos"
proof -
  let ?Q = "\<lambda>f. \<not> fully_covered w pos f" and ?P = "\<lambda>f. ep_file_seq pos \<le> fst f"
  have d: "el_dir (snd (evl_truncate_before pos w)) = filter ?Q (el_dir w)"
    by (simp add: evl_truncate_before_def Let_def case_prod_unfold)
  have fs: "filter ?P (sort_key fst (filter ?Q (el_dir w))) = filter ?Q (filter ?P (sort_key fst (el_dir w)))"
    by (simp add: filter_sort [symmetric] conj_commute)
  have above: "filter ?Q ys = ys" if "\<forall>f \<in> set ys. ep_file_seq pos < fst f" for ys
    using that by (intro filter_True) (auto simp: fully_covered_def)
  show ?thesis
  proof (cases "hm_get (el_dir w) (ep_file_seq pos)")
    case None
    have "\<forall>f \<in> set (filter ?P (sort_key fst (el_dir w))). ep_file_seq pos < fst f"
      using None hm_get_mem [OF assms(1)] by (force simp: order_less_le)
    then have "filter ?Q (filter ?P (sort_key fst (el_dir w))) = filter ?P (sort_key fst (el_dir w))" by (rule above)
    then show ?thesis using None by (simp only: read_from_def Let_def d fs) (simp add: hm_get_filter [OF assms(1)])
  next
    case (Some bs)
    obtain ys where ys: "filter ?P (sort_key fst (el_dir w)) = (ep_file_seq pos, bs) # ys" "\<forall>f \<in> set ys. ep_file_seq pos < fst f"
      using sorted_from_head [OF assms(1) Some] by blast
    have "length bs < 2 ^ 64" using Some assms(2) hm_get_mem [OF assms(1)] by (force simp: list_all_iff)
    then have "drop (unat (ep_offset pos)) bs = []" if "\<not> ?Q (ep_file_seq pos, bs)"
      using that by (simp add: fully_covered_def word_le_nat_alt unat_of_nat)
    then show ?thesis
      using Some by (simp only: read_from_def Let_def d fs ys(1)) (simp add: hm_get_filter [OF assms(1)] above [OF ys(2)])
  qed
qed

definition sample_rotated :: EventWal where
  "sample_rotated = (evl_fresh 64)\<lparr>el_file_seq := 1,
     el_dir := [(0, to_record_bytes sample_formats sample_event), (1, to_record_bytes sample_formats sample_event)]\<rparr>"

theorem truncate_before_keeps_suffix_witness:
  "read_from sample_formats (el_dir (snd (evl_truncate_before \<lparr>ep_file_seq = 0, ep_offset = 32\<rparr> sample_rotated)))
     \<lparr>ep_file_seq = 0, ep_offset = 32\<rparr> = read_from sample_formats (el_dir sample_rotated) \<lparr>ep_file_seq = 0, ep_offset = 32\<rparr>"
  by (rule truncate_before_keeps_suffix)
    (simp_all add: sample_rotated_def evl_fresh_def hm_wf_def to_record_bytes_def sample_event_def length_record_body Let_def)

end
