(* ===== verification/Lifecycle.thy ===== *)
theory Lifecycle
  imports EventLog
begin

text \<open>
  The segment lifecycle registry (\<^verbatim>\<open>oceanfs-storage/src/segment/lifecycle.rs\<close>): the states of a segment, the sharded map of
  entries, every transition with its guards, and the pure accessors.  Instants are milliseconds passed as an argument.  The
  abstract machine that the registry implements, a map from segment ids to what the event log determines of them, is stated
  here as well, with the proof that each transition refines it.
\<close>

section \<open>Entries\<close>

datatype SegmentState = Reserved | Sealed | Deleted

record SegmentMetadata =
  sm_segment_id :: SegmentId
  sm_ec_k :: u8
  sm_ec_m :: u8
  sm_size_tier :: SizeTier
  sm_merkle_root :: "HashOutput option"
  sm_storage_locations :: "NodeId list"
  sm_sealed_at :: "int option"
  sm_pool_id :: u32
  sm_total_bytes :: u64

record LifecycleEntry =
  le_state :: SegmentState
  le_metadata :: SegmentMetadata
  le_data_wal_pos :: "DataWalPos option"
  le_repacked_from :: "SegmentId option"
  le_contained_objects :: "ContainedObject list option"
  le_evict_at :: nat
  le_in_flight :: "u8 list option"
  le_seal_queued :: bool
  le_writer_count :: u64

definition LifecycleEntry_new :: "nat \<Rightarrow> SegmentState \<Rightarrow> SegmentMetadata \<Rightarrow> LifecycleEntry" where
  "LifecycleEntry_new now state metadata = \<lparr>le_state = state, le_metadata = metadata, le_data_wal_pos = None,
     le_repacked_from = None, le_contained_objects = None, le_evict_at = now, le_in_flight = None, le_seal_queued = False,
     le_writer_count = 0\<rparr>"

definition reserved_metadata :: "SegmentId \<Rightarrow> SizeTier \<Rightarrow> u8 \<Rightarrow> u8 \<Rightarrow> SegmentMetadata" where
  "reserved_metadata sid tier ec_k ec_m = \<lparr>sm_segment_id = sid, sm_ec_k = ec_k, sm_ec_m = ec_m, sm_size_tier = tier,
     sm_merkle_root = None, sm_storage_locations = [], sm_sealed_at = None, sm_pool_id = 0, sm_total_bytes = 0\<rparr>"

datatype SegmentReadSource = ReadActiveSlot | ReadInFlight "u8 list" | ReadSealed | ReadMissing

datatype TransitionError = Missing | AlreadyReserved | AlreadySealed | AlreadyDeleted | NotReserved | DurableWriteFailed

fun entry_is_garbage :: "LifecycleEntry \<Rightarrow> DataWalPos \<Rightarrow> bool" where
  "entry_is_garbage entry pos =
     (case le_state entry of
        Deleted \<Rightarrow> True
      | Sealed \<Rightarrow> (case le_data_wal_pos entry of Some p \<Rightarrow> pos_le pos p | None \<Rightarrow> False)
      | Reserved \<Rightarrow> False)"

section \<open>The sharded map\<close>

record Registry =
  lr_shards :: "(SegmentId \<times> LifecycleEntry) list list"
  lr_hash :: "SegmentId \<Rightarrow> u64"
  lr_delete_grace :: nat

definition shard_count :: "nat \<Rightarrow> nat" where "shard_count configured = max configured 1"

definition Registry_new :: "(SegmentId \<Rightarrow> u64) \<Rightarrow> nat \<Rightarrow> nat \<Rightarrow> Registry" where
  "Registry_new hash shards grace = \<lparr>lr_shards = replicate (shard_count shards) [], lr_hash = hash, lr_delete_grace = grace\<rparr>"

definition shard_for :: "Registry \<Rightarrow> SegmentId \<Rightarrow> nat" where
  "shard_for r sid = unat (lr_hash r sid) mod length (lr_shards r)"

definition lookup :: "Registry \<Rightarrow> SegmentId \<Rightarrow> LifecycleEntry option" where
  "lookup r sid = hm_get (lr_shards r ! shard_for r sid) sid"

definition in_shard ::
  "((SegmentId \<times> LifecycleEntry) list \<Rightarrow> (SegmentId \<times> LifecycleEntry) list) \<Rightarrow> SegmentId \<Rightarrow> Registry \<Rightarrow> Registry" where
  "in_shard f sid r = r\<lparr>lr_shards := (lr_shards r)[shard_for r sid := f (lr_shards r ! shard_for r sid)]\<rparr>"

definition put :: "SegmentId \<Rightarrow> LifecycleEntry \<Rightarrow> Registry \<Rightarrow> Registry" where "put sid e = in_shard (hm_insert sid e) sid"
definition remove :: "SegmentId \<Rightarrow> Registry \<Rightarrow> Registry" where "remove sid = in_shard (hm_remove sid) sid"

definition deleted_expired :: "nat \<Rightarrow> LifecycleEntry \<Rightarrow> bool" where
  "deleted_expired now entry \<longleftrightarrow> le_state entry = Deleted \<and> le_evict_at entry \<le> now"

definition evict_expired :: "nat \<Rightarrow> SegmentId \<Rightarrow> Registry \<Rightarrow> Registry" where
  "evict_expired now = in_shard (filter (\<lambda>(_, entry). \<not> deleted_expired now entry))"

section \<open>Transitions\<close>

type_synonym transition = "(TransitionError, unit) outcome \<times> Registry"

definition reserve :: "nat \<Rightarrow> SegmentId \<Rightarrow> SegmentMetadata \<Rightarrow> Registry \<Rightarrow> transition" where
  "reserve now sid metadata r =
     (let r = evict_expired now sid r
      in case lookup r sid of
           None \<Rightarrow> (Ok (), put sid (LifecycleEntry_new now Reserved metadata) r)
         | Some entry \<Rightarrow>
             (case le_state entry of
                Reserved \<Rightarrow> (Ok (), r) | Sealed \<Rightarrow> (Err AlreadySealed, r) | Deleted \<Rightarrow> (Err AlreadyDeleted, r)))"

definition seal_with ::
  "nat \<Rightarrow> SegmentId \<Rightarrow> SegmentMetadata \<Rightarrow> SegmentId option \<Rightarrow> ContainedObject list option \<Rightarrow> Registry \<Rightarrow> transition" where
  "seal_with now sid metadata repacked_from contained_objects r =
     (let r = evict_expired now sid r
      in case lookup r sid of
           None \<Rightarrow> (Err Missing, r)
         | Some entry \<Rightarrow>
             (case le_state entry of
                Reserved \<Rightarrow> (Ok (), put sid (entry\<lparr>le_state := Sealed, le_metadata := metadata, le_repacked_from := repacked_from,
                  le_contained_objects := contained_objects, le_in_flight := None, le_seal_queued := False\<rparr>) r)
              | Sealed \<Rightarrow> (Err AlreadySealed, r)
              | Deleted \<Rightarrow> (Err NotReserved, r)))"

definition seal :: "nat \<Rightarrow> SegmentId \<Rightarrow> SegmentMetadata \<Rightarrow> Registry \<Rightarrow> transition" where
  "seal now sid metadata r = seal_with now sid metadata None None r"

definition delete :: "nat \<Rightarrow> SegmentId \<Rightarrow> Registry \<Rightarrow> transition" where
  "delete now sid r =
     (let r = evict_expired now sid r
      in case lookup r sid of
           None \<Rightarrow> (Err Missing, r)
         | Some entry \<Rightarrow>
             if le_state entry = Deleted then (Err AlreadyDeleted, r)
             else (Ok (), let r = put sid (entry\<lparr>le_state := Deleted, le_evict_at := now + lr_delete_grace r\<rparr>) r
                          in if lr_delete_grace r = 0 then remove sid r else r))"

definition get :: "nat \<Rightarrow> SegmentId \<Rightarrow> Registry \<Rightarrow> LifecycleEntry option" where
  "get now sid r = (case lookup r sid of None \<Rightarrow> None | Some entry \<Rightarrow> if deleted_expired now entry then None else Some entry)"

definition read_source :: "nat \<Rightarrow> SegmentId \<Rightarrow> Registry \<Rightarrow> SegmentReadSource" where
  "read_source now sid r =
     (case lookup r sid of
        None \<Rightarrow> ReadMissing
      | Some entry \<Rightarrow>
          if deleted_expired now entry \<or> le_state entry = Deleted then ReadMissing
          else case le_in_flight entry of
              Some data \<Rightarrow> ReadInFlight data
            | None \<Rightarrow> if le_state entry = Sealed then ReadSealed else ReadActiveSlot)"

definition attach_in_flight :: "nat \<Rightarrow> SegmentId \<Rightarrow> SizeTier \<Rightarrow> u8 \<Rightarrow> u8 \<Rightarrow> u8 list \<Rightarrow> Registry \<Rightarrow> bool \<times> Registry" where
  "attach_in_flight now sid tier ec_k ec_m data r =
     (case lookup r sid of
        None \<Rightarrow> (True, put sid ((LifecycleEntry_new now Reserved (reserved_metadata sid tier ec_k ec_m))
          \<lparr>le_in_flight := Some data, le_seal_queued := True\<rparr>) r)
      | Some entry \<Rightarrow>
          if le_state entry = Reserved then (True, put sid (entry\<lparr>le_in_flight := Some data, le_seal_queued := True\<rparr>) r)
          else (False, r))"

definition modify :: "SegmentId \<Rightarrow> (LifecycleEntry \<Rightarrow> LifecycleEntry) \<Rightarrow> Registry \<Rightarrow> Registry" where
  "modify sid f r = (case lookup r sid of None \<Rightarrow> r | Some entry \<Rightarrow> put sid (f entry) r)"

definition mark_seal_queued :: "SegmentId \<Rightarrow> Registry \<Rightarrow> Registry" where
  "mark_seal_queued sid = modify sid (\<lambda>entry. if le_in_flight entry \<noteq> None then entry\<lparr>le_seal_queued := True\<rparr> else entry)"

definition mark_seal_unqueued :: "SegmentId \<Rightarrow> Registry \<Rightarrow> Registry" where
  "mark_seal_unqueued sid = modify sid (\<lambda>entry. entry\<lparr>le_seal_queued := False\<rparr>)"

definition all_entries :: "Registry \<Rightarrow> (SegmentId \<times> LifecycleEntry) list" where "all_entries r = concat (lr_shards r)"

definition in_flight_count :: "Registry \<Rightarrow> nat" where
  "in_flight_count r = sum_list (map (\<lambda>shard. length (filter (\<lambda>(_, entry). le_in_flight entry \<noteq> None) shard)) (lr_shards r))"

text \<open>What \<^verbatim>\<open>for_each\<close> hands to its closure, in order.\<close>

definition live_entries :: "nat \<Rightarrow> Registry \<Rightarrow> (SegmentId \<times> LifecycleEntry) list" where
  "live_entries now r = filter (\<lambda>(_, entry). le_state entry \<noteq> Deleted \<and> \<not> deleted_expired now entry) (all_entries r)"

definition registry_len :: "Registry \<Rightarrow> nat" where
  "registry_len r = sum_list (map (\<lambda>shard. length (filter (\<lambda>(_, entry). le_state entry \<noteq> Deleted) shard)) (lr_shards r))"

definition ESTIMATED_BYTES_PER_ENTRY :: u64 where "ESTIMATED_BYTES_PER_ENTRY = 300"

definition mem_estimate_bytes :: "Registry \<Rightarrow> u64" where
  "mem_estimate_bytes r = of_nat (registry_len r) * ESTIMATED_BYTES_PER_ENTRY"

definition seed_entry ::
  "nat \<Rightarrow> SegmentId \<Rightarrow> SegmentState \<Rightarrow> SegmentMetadata \<Rightarrow> DataWalPos option \<Rightarrow> SegmentId option \<Rightarrow> Registry \<Rightarrow> Registry" where
  "seed_entry now sid state metadata data_wal_pos repacked_from r =
     (let r = evict_expired now sid r
      in case lookup r sid of
           None \<Rightarrow> put sid ((LifecycleEntry_new now state metadata)\<lparr>le_data_wal_pos := data_wal_pos, le_repacked_from := repacked_from\<rparr>) r
         | Some _ \<Rightarrow> r)"

definition drop_reserve :: "SegmentId \<Rightarrow> Registry \<Rightarrow> Registry" where
  "drop_reserve sid r = (case lookup r sid of None \<Rightarrow> r | Some entry \<Rightarrow> if le_state entry = Reserved then remove sid r else r)"

definition writer_join :: "SegmentId \<Rightarrow> Registry \<Rightarrow> Registry" where
  "writer_join sid = modify sid (\<lambda>entry. entry\<lparr>le_writer_count := le_writer_count entry + 1\<rparr>)"

definition writer_leave :: "SegmentId \<Rightarrow> Registry \<Rightarrow> bool \<times> Registry" where
  "writer_leave sid r =
     (case lookup r sid of
        None \<Rightarrow> (False, r)
      | Some entry \<Rightarrow>
          if le_state entry = Deleted then (False, r)
          else (le_writer_count entry = 1, put sid (entry\<lparr>le_writer_count := le_writer_count entry - 1\<rparr>) r))"

definition pos_max :: "DataWalPos \<Rightarrow> DataWalPos \<Rightarrow> DataWalPos" where "pos_max p q = (if pos_le p q then q else p)"

definition record_data_wal_pos :: "SegmentId \<Rightarrow> DataWalPos \<Rightarrow> Registry \<Rightarrow> Registry" where
  "record_data_wal_pos sid pos = modify sid (\<lambda>entry.
     if le_state entry = Deleted then entry
     else entry\<lparr>le_data_wal_pos := Some (case le_data_wal_pos entry of Some p \<Rightarrow> pos_max p pos | None \<Rightarrow> pos)\<rparr>)"

definition last_data_wal_pos :: "SegmentId \<Rightarrow> Registry \<Rightarrow> DataWalPos option" where
  "last_data_wal_pos sid r = Option.bind (lookup r sid) le_data_wal_pos"

section \<open>Validation and folds for the coordinator\<close>

definition validate_reserve :: "nat \<Rightarrow> SegmentId \<Rightarrow> Registry \<Rightarrow> (TransitionError, unit) outcome" where
  "validate_reserve now sid r =
     (case lookup r sid of
        None \<Rightarrow> Ok ()
      | Some entry \<Rightarrow>
          (case le_state entry of
             Reserved \<Rightarrow> Ok ()
           | Sealed \<Rightarrow> Err AlreadySealed
           | Deleted \<Rightarrow> if deleted_expired now entry then Ok () else Err AlreadyDeleted))"

definition fold_reserve :: "nat \<Rightarrow> SegmentId \<Rightarrow> SegmentMetadata \<Rightarrow> Registry \<Rightarrow> transition" where
  "fold_reserve now sid metadata r =
     (let r = evict_expired now sid r
      in case lookup r sid of
           None \<Rightarrow> (Ok (), put sid (LifecycleEntry_new now Reserved metadata) r)
         | Some entry \<Rightarrow>
             (case le_state entry of
                Reserved \<Rightarrow> (Ok (), r) | Sealed \<Rightarrow> (Err AlreadySealed, r) | Deleted \<Rightarrow> (Err AlreadyDeleted, r)))"

definition validate_seal :: "nat \<Rightarrow> SegmentId \<Rightarrow> Registry \<Rightarrow> (TransitionError, unit) outcome" where
  "validate_seal now sid r =
     (case lookup r sid of
        None \<Rightarrow> Err Missing
      | Some entry \<Rightarrow>
          (case le_state entry of
             Reserved \<Rightarrow> Ok ()
           | Sealed \<Rightarrow> Err AlreadySealed
           | Deleted \<Rightarrow> if deleted_expired now entry then Err Missing else Err NotReserved))"

definition fold_seal ::
  "nat \<Rightarrow> SegmentId \<Rightarrow> SegmentMetadata \<Rightarrow> SegmentId option \<Rightarrow> ContainedObject list option \<Rightarrow> Registry \<Rightarrow> transition" where
  "fold_seal now sid metadata repacked_from contained_objects r =
     (let r = evict_expired now sid r
      in case lookup r sid of
           None \<Rightarrow> (Err Missing, r)
         | Some entry \<Rightarrow>
             (case le_state entry of
                Reserved \<Rightarrow> (Ok (), put sid (entry\<lparr>le_state := Sealed, le_metadata := metadata, le_repacked_from := repacked_from,
                  le_contained_objects := contained_objects, le_in_flight := None, le_seal_queued := False\<rparr>) r)
              | Sealed \<Rightarrow> (Err AlreadySealed, r)
              | Deleted \<Rightarrow> (Err NotReserved, r)))"

definition validate_delete :: "nat \<Rightarrow> SegmentId \<Rightarrow> Registry \<Rightarrow> (TransitionError, unit) outcome" where
  "validate_delete now sid r =
     (case lookup r sid of
        None \<Rightarrow> Err Missing
      | Some entry \<Rightarrow> if le_state entry = Deleted \<and> \<not> deleted_expired now entry then Err AlreadyDeleted else Ok ())"

definition fold_refresh ::
  "nat \<Rightarrow> SegmentId \<Rightarrow> HashOutput option \<Rightarrow> NodeId list option \<Rightarrow> u32 option \<Rightarrow> Registry \<Rightarrow> transition" where
  "fold_refresh now sid merkle_root storage_locations pool_id r =
     (let r = evict_expired now sid r
      in case lookup r sid of
           None \<Rightarrow> (Err Missing, r)
         | Some entry \<Rightarrow>
             (case le_state entry of
                Sealed \<Rightarrow>
                  (let m = (le_metadata entry)\<lparr>sm_merkle_root := merkle_root\<rparr>;
                       m = (case storage_locations of None \<Rightarrow> m | Some locations \<Rightarrow> m\<lparr>sm_storage_locations := locations\<rparr>);
                       m = (case pool_id of None \<Rightarrow> m | Some p \<Rightarrow> m\<lparr>sm_pool_id := p\<rparr>)
                   in (Ok (), put sid (entry\<lparr>le_metadata := m\<rparr>) r))
              | Reserved \<Rightarrow> (Err NotReserved, r)
              | Deleted \<Rightarrow> (Err AlreadyDeleted, r)))"

definition fold_delete :: "nat \<Rightarrow> SegmentId \<Rightarrow> Registry \<Rightarrow> transition" where
  "fold_delete now sid r =
     (let r = evict_expired now sid r
      in case lookup r sid of
           None \<Rightarrow> (Err Missing, r)
         | Some entry \<Rightarrow>
             if le_state entry = Deleted then (Err AlreadyDeleted, r)
             else (Ok (), let r = put sid (entry\<lparr>le_state := Deleted, le_evict_at := now + lr_delete_grace r\<rparr>) r
                          in if lr_delete_grace r = 0 then remove sid r else r))"

section \<open>The sharded map is a map\<close>

definition reg_wf :: "Registry \<Rightarrow> bool" where
  "reg_wf r \<longleftrightarrow> lr_shards r \<noteq> [] \<and>
     (\<forall>i < length (lr_shards r). hm_wf (lr_shards r ! i) \<and> (\<forall>f \<in> set (lr_shards r ! i). shard_for r (fst f) = i))"

lemma shard_for_less: "reg_wf r \<Longrightarrow> shard_for r k < length (lr_shards r)"
  by (simp add: shard_for_def reg_wf_def)

lemma in_shard_same [simp]:
  "shard_for (in_shard f k r) = shard_for r" "lr_delete_grace (in_shard f k r) = lr_delete_grace r"
  "length (lr_shards (in_shard f k r)) = length (lr_shards r)" "lr_hash (in_shard f k r) = lr_hash r"
  by (auto simp: in_shard_def shard_for_def fun_eq_iff)

lemma lookup_in_shard:
  assumes "reg_wf r"
  shows "lookup (in_shard f k r) j = (if shard_for r j = shard_for r k then hm_get (f (lr_shards r ! shard_for r k)) j else lookup r j)"
  using shard_for_less [OF assms] unfolding lookup_def in_shard_same by (simp add: in_shard_def)

lemma reg_wf_in_shard:
  assumes "reg_wf r" "\<And>m. hm_wf m \<Longrightarrow> hm_wf (f m)"
    and "\<And>m. fst ` set (f m) \<subseteq> insert k (fst ` set m)"
  shows "reg_wf (in_shard f k r)"
  unfolding reg_wf_def in_shard_same
proof (intro conjI allI impI ballI)
  show "lr_shards (in_shard f k r) \<noteq> []" using assms(1) by (simp add: reg_wf_def in_shard_def)
  fix i assume i: "i < length (lr_shards r)"
  then show "hm_wf (lr_shards (in_shard f k r) ! i)"
    using assms(1,2) shard_for_less [OF assms(1), of k] by (auto simp: in_shard_def reg_wf_def nth_list_update)
  fix x assume x: "x \<in> set (lr_shards (in_shard f k r) ! i)"
  show "shard_for r (fst x) = i"
  proof (cases "i = shard_for r k")
    case True
    then have "fst x \<in> insert k (fst ` set (lr_shards r ! i))"
      using x shard_for_less [OF assms(1), of k] assms(3) [of "lr_shards r ! i"] by (force simp: in_shard_def)
    then show ?thesis using True i assms(1) by (force simp: reg_wf_def)
  next
    case False
    then show ?thesis using x i assms(1) by (simp add: in_shard_def reg_wf_def)
  qed
qed

lemma hm_keys: "fst ` set (hm_insert k v m) = insert k (fst ` set m)" "fst ` set (hm_remove k m) = fst ` set m - {k}"
  by (simp add: hm_insert_def dom_update) (force simp: hm_remove_def AList.delete_eq)

lemma reg_wf_put [simp]: "reg_wf r \<Longrightarrow> reg_wf (put k e r)"
  unfolding put_def by (rule reg_wf_in_shard) (simp_all add: hm_keys)

lemma lookup_put [simp]: "reg_wf r \<Longrightarrow> lookup (put k e r) j = (if j = k then Some e else lookup r j)"
  by (simp add: put_def lookup_in_shard) (auto simp: lookup_def)

lemma reg_wf_remove [simp]: "reg_wf r \<Longrightarrow> reg_wf (remove k r)"
  unfolding remove_def by (rule reg_wf_in_shard) (auto simp: hm_keys)

lemma lookup_remove [simp]: "reg_wf r \<Longrightarrow> lookup (remove k r) j = (if j = k then None else lookup r j)"
  by (simp add: remove_def lookup_in_shard) (auto simp: lookup_def)

lemma reg_wf_evict [simp]: "reg_wf r \<Longrightarrow> reg_wf (evict_expired now k r)"
  unfolding evict_expired_def by (rule reg_wf_in_shard) (auto simp: hm_wf_filter)

lemma lookup_evict:
  assumes "reg_wf r"
  shows "lookup (evict_expired now k r) j = (case lookup r j of None \<Rightarrow> None
    | Some e \<Rightarrow> if shard_for r j = shard_for r k \<and> deleted_expired now e then None else Some e)"
proof -
  have "hm_wf (lr_shards r ! shard_for r k)" using assms shard_for_less [OF assms] by (simp add: reg_wf_def)
  then show ?thesis
    unfolding evict_expired_def lookup_in_shard [OF assms] by (auto simp: lookup_def hm_get_filter split: option.splits)
qed

lemma lookup_evict_self:
  "reg_wf r \<Longrightarrow> lookup (evict_expired now k r) k = get now k r"
  by (simp add: lookup_evict get_def split: option.splits)

lemma lookup_evict_live:
  "reg_wf r \<Longrightarrow> lookup r j = Some e \<Longrightarrow> le_state e \<noteq> Deleted \<Longrightarrow> lookup (evict_expired now k r) j = Some e"
  by (simp add: lookup_evict deleted_expired_def)

lemma reg_grace [simp]:
  "lr_delete_grace (put k e r) = lr_delete_grace r" "lr_delete_grace (remove k r) = lr_delete_grace r"
  "lr_delete_grace (evict_expired now k r) = lr_delete_grace r"
  by (simp_all add: put_def remove_def evict_expired_def)

lemma reg_wf_modify [simp]: "reg_wf r \<Longrightarrow> reg_wf (modify k f r)"
  by (simp add: modify_def split: option.splits)

lemma lookup_modify [simp]: "reg_wf r \<Longrightarrow> lookup (modify k f r) j = (if j = k then map_option f (lookup r k) else lookup r j)"
  by (auto simp: modify_def split: option.splits)

lemma reg_wf_new: "reg_wf (Registry_new hash shards grace)" "lookup (Registry_new hash shards grace) k = None"
  by (simp_all add: reg_wf_def Registry_new_def shard_count_def lookup_def shard_for_def)

lemma mem_all_entries:
  assumes "reg_wf r"
  shows "(k, e) \<in> set (all_entries r) \<longleftrightarrow> lookup r k = Some e"
proof
  assume "(k, e) \<in> set (all_entries r)"
  then obtain shard where "shard \<in> set (lr_shards r)" "(k, e) \<in> set shard" by (auto simp: all_entries_def)
  then obtain i where i: "i < length (lr_shards r)" "(k, e) \<in> set (lr_shards r ! i)" by (metis in_set_conv_nth)
  then have "shard_for r k = i" "hm_wf (lr_shards r ! i)" using assms by (force simp: reg_wf_def)+
  then show "lookup r k = Some e" using i hm_get_mem [of "lr_shards r ! i" k e] by (simp add: lookup_def)
next
  assume l: "lookup r k = Some e"
  have "hm_wf (lr_shards r ! shard_for r k)" using assms shard_for_less [OF assms] by (simp add: reg_wf_def)
  then have "(k, e) \<in> set (lr_shards r ! shard_for r k)" using l by (simp add: lookup_def hm_get_mem)
  then show "(k, e) \<in> set (all_entries r)" using shard_for_less [OF assms, of k] by (auto simp: all_entries_def)
qed

section \<open>Operations in sequence\<close>

datatype registry_op =
    OpReserve SegmentId SegmentMetadata
  | OpSeal SegmentId SegmentMetadata "SegmentId option" "ContainedObject list option"
  | OpDelete SegmentId
  | OpRefresh SegmentId "HashOutput option" "NodeId list option" "u32 option"
  | OpAttach SegmentId SizeTier u8 u8 "u8 list"
  | OpMarkQueued SegmentId
  | OpMarkUnqueued SegmentId
  | OpSeed SegmentId SegmentState SegmentMetadata "DataWalPos option" "SegmentId option"
  | OpDropReserve SegmentId
  | OpJoin SegmentId
  | OpLeave SegmentId
  | OpRecord SegmentId DataWalPos

fun registry_apply :: "nat \<Rightarrow> registry_op \<Rightarrow> Registry \<Rightarrow> Registry" where
  "registry_apply now (OpReserve sid m) r = snd (reserve now sid m r)"
| "registry_apply now (OpSeal sid m old objs) r = snd (seal_with now sid m old objs r)"
| "registry_apply now (OpDelete sid) r = snd (delete now sid r)"
| "registry_apply now (OpRefresh sid root locs pool) r = snd (fold_refresh now sid root locs pool r)"
| "registry_apply now (OpAttach sid tier k m data) r = snd (attach_in_flight now sid tier k m data r)"
| "registry_apply now (OpMarkQueued sid) r = mark_seal_queued sid r"
| "registry_apply now (OpMarkUnqueued sid) r = mark_seal_unqueued sid r"
| "registry_apply now (OpSeed sid st m pos old) r = seed_entry now sid st m pos old r"
| "registry_apply now (OpDropReserve sid) r = drop_reserve sid r"
| "registry_apply now (OpJoin sid) r = writer_join sid r"
| "registry_apply now (OpLeave sid) r = snd (writer_leave sid r)"
| "registry_apply now (OpRecord sid pos) r = record_data_wal_pos sid pos r"

definition registry_run :: "(nat \<times> registry_op) list \<Rightarrow> Registry \<Rightarrow> Registry" where
  "registry_run ops r = fold (\<lambda>(now, op). registry_apply now op) ops r"

lemmas registry_defs = reserve_def seal_with_def delete_def fold_refresh_def attach_in_flight_def mark_seal_queued_def
  mark_seal_unqueued_def seed_entry_def drop_reserve_def writer_join_def writer_leave_def record_data_wal_pos_def

lemma registry_apply_wf: "reg_wf r \<Longrightarrow> reg_wf (registry_apply now op r)"
  by (cases op) (auto simp: registry_defs Let_def split: option.splits SegmentState.splits)

text \<open>What a sealed entry keeps: its state, its shape and origin, and every verdict of the retention rule.\<close>

definition sealed_keeps :: "LifecycleEntry \<Rightarrow> LifecycleEntry \<Rightarrow> bool" where
  "sealed_keeps e e' \<longleftrightarrow> le_state e' = Sealed \<and> sm_size_tier (le_metadata e') = sm_size_tier (le_metadata e) \<and>
     sm_ec_k (le_metadata e') = sm_ec_k (le_metadata e) \<and> sm_ec_m (le_metadata e') = sm_ec_m (le_metadata e) \<and>
     sm_total_bytes (le_metadata e') = sm_total_bytes (le_metadata e) \<and> le_repacked_from e' = le_repacked_from e \<and>
     (\<forall>p. entry_is_garbage e p \<longrightarrow> entry_is_garbage e' p)"

lemma pos_le_max: "pos_le p q \<Longrightarrow> pos_le p (pos_max q q')"
  by (auto simp: pos_max_def pos_le_def split: if_splits)

lemma sealed_keeps_updates:
  assumes "le_state e = Sealed"
  shows "sealed_keeps e e" "sealed_keeps e (e\<lparr>le_seal_queued := q\<rparr>)" "sealed_keeps e (e\<lparr>le_writer_count := n\<rparr>)"
    "sealed_keeps e (e\<lparr>le_data_wal_pos := Some (case le_data_wal_pos e of Some p \<Rightarrow> pos_max p pos | None \<Rightarrow> pos)\<rparr>)"
    "sealed_keeps e (e\<lparr>le_metadata := (le_metadata e)\<lparr>sm_merkle_root := root, sm_storage_locations := locs, sm_pool_id := pool\<rparr>\<rparr>)"
  using assms by (auto simp: sealed_keeps_def pos_le_max split: option.splits)

lemma sealed_keeps_step:
  assumes "reg_wf r" "lookup r sid = Some e" "le_state e = Sealed" "op \<noteq> OpDelete sid"
  shows "case lookup (registry_apply now op r) sid of None \<Rightarrow> False | Some e' \<Rightarrow> sealed_keeps e e'"
proof -
  have live: "lookup (evict_expired now k r) sid = Some e" for k
    using lookup_evict_live [OF assms(1,2)] assms(3) by simp
  note u = sealed_keeps_updates [OF assms(3)]
  show ?thesis
  proof (cases op)
    case (OpRefresh k root locs pool)
    then show ?thesis
      using assms live u(1) u(5) [where root = root and locs = "sm_storage_locations (le_metadata e)" and pool = "sm_pool_id (le_metadata e)"]
        u(5) [where root = root and locs = "the locs" and pool = "sm_pool_id (le_metadata e)"] u(5) [where root = root and locs = "sm_storage_locations (le_metadata e)" and pool = "the pool"]
        u(5) [where root = root and locs = "the locs" and pool = "the pool"]
      by (auto simp: fold_refresh_def Let_def split: option.splits SegmentState.splits)
  qed (use assms live u in \<open>auto simp: registry_defs Let_def split: option.splits SegmentState.splits if_splits\<close>)
qed

lemma sealed_keeps_trans: "sealed_keeps e e' \<Longrightarrow> sealed_keeps e' e'' \<Longrightarrow> sealed_keeps e e''"
  unfolding sealed_keeps_def by presburger

text \<open>
  C20: Whatever operations of the registry follow, at whatever times, a sealed segment that none of them deletes stays sealed,
  with its tier, its erasure-coding shape, its byte total and its origin, and a data-log entry that was garbage stays garbage.
\<close>

theorem sealed_is_stable:
  assumes "reg_wf r" "lookup r sid = Some e" "le_state e = Sealed" "list_all (\<lambda>(_, op). op \<noteq> OpDelete sid) ops"
  shows "\<exists>e'. lookup (registry_run ops r) sid = Some e' \<and> sealed_keeps e e'"
  using assms
proof (induction ops arbitrary: r e)
  case Nil
  then show ?case using sealed_keeps_updates(1) by (simp add: registry_run_def)
next
  case (Cons x ops)
  obtain now op where x: "x = (now, op)" by fastforce
  obtain e1 where e1: "lookup (registry_apply now op r) sid = Some e1" "sealed_keeps e e1"
    using sealed_keeps_step [OF Cons.prems(1-3), of op now] Cons.prems(4) x by (auto split: option.splits)
  have "le_state e1 = Sealed" using e1(2) by (simp add: sealed_keeps_def)
  then obtain e' where "lookup (registry_run ops (registry_apply now op r)) sid = Some e'" "sealed_keeps e1 e'"
    using Cons.IH [OF registry_apply_wf [OF Cons.prems(1)] e1(1)] Cons.prems(4) x by auto
  then show ?case using sealed_keeps_trans [OF e1(2)] x by (auto simp: registry_run_def)
qed

definition sample_registry :: Registry where
  "sample_registry = registry_run [(0, OpReserve [1] (reserved_metadata [1] Standard 4 2)), (5, OpRecord [1] \<lparr>dp_file_seq = 1, dp_offset = 9\<rparr>),
     (7, OpSeal [1] (reserved_metadata [1] Standard 4 2) None None)] (Registry_new (\<lambda>_. 3) 2 0)"

theorem sealed_is_stable_witness:
  "\<exists>e'. lookup (registry_run [(9, OpReserve [1] (reserved_metadata [1] Small 2 1)), (9, OpDelete [2]), (10, OpDropReserve [1])]
     sample_registry) [1] = Some e' \<and> sealed_keeps (the (lookup sample_registry [1])) e'"
proof (rule sealed_is_stable)
  show "reg_wf sample_registry"
    unfolding sample_registry_def registry_run_def by (simp add: registry_apply_wf reg_wf_new del: registry_apply.simps)
  show "lookup sample_registry [1] = Some (the (lookup sample_registry [1]))" by code_simp
  show "le_state (the (lookup sample_registry [1])) = Sealed" by code_simp
qed simp

section \<open>The abstract machine\<close>

text \<open>
  What the event log determines of a segment.  Runtime fields, the recorded log positions, the seal time and the membership
  list are left out: the first two are rebuilt from the data log, the seal time is not in the event.
\<close>

record seg =
  sg_sealed :: bool
  sg_tier :: SizeTier
  sg_ec_k :: u8
  sg_ec_m :: u8
  sg_root :: "HashOutput option"
  sg_locations :: "NodeId list"
  sg_pool :: u32
  sg_total :: u64
  sg_repacked :: "SegmentId option"

type_synonym segs = "SegmentId \<Rightarrow> seg option"

fun apply_event :: "SegmentEvent \<Rightarrow> segs \<Rightarrow> segs option" where
  "apply_event (Reserve e) m =
     (case m (rv_segment_id e) of
        Some _ \<Rightarrow> Some m
      | None \<Rightarrow> Some (m(rv_segment_id e \<mapsto> \<lparr>sg_sealed = False, sg_tier = rv_tier e, sg_ec_k = rv_ec_k e, sg_ec_m = rv_ec_m e,
          sg_root = None, sg_locations = [], sg_pool = 0, sg_total = 0, sg_repacked = None\<rparr>)))"
| "apply_event (Seal e) m =
     (case m (sl_segment_id e) of
        None \<Rightarrow> Some m
      | Some s \<Rightarrow> if sg_sealed s then Some m
          else Some (m(sl_segment_id e \<mapsto> \<lparr>sg_sealed = True, sg_tier = sl_tier e, sg_ec_k = sl_ec_k e, sg_ec_m = sl_ec_m e,
            sg_root = Some (sl_merkle_root e), sg_locations = [], sg_pool = sl_pool_id e, sg_total = sl_total_bytes e,
            sg_repacked = sl_repacked_from e\<rparr>)))"
| "apply_event (Delete e) m = Some (m(dl_segment_id e := None))"
| "apply_event (MetadataRefresh e) m =
     (case m (mr_segment_id e) of
        None \<Rightarrow> Some m
      | Some s \<Rightarrow> if \<not> sg_sealed s then None
          else Some (m(mr_segment_id e \<mapsto> s\<lparr>sg_root := mr_merkle_root e,
            sg_locations := (case mr_storage_locations e of None \<Rightarrow> sg_locations s | Some l \<Rightarrow> l),
            sg_pool := (case mr_pool_id e of None \<Rightarrow> sg_pool s | Some p \<Rightarrow> p)\<rparr>)))"

fun apply_events :: "SegmentEvent list \<Rightarrow> segs \<Rightarrow> segs option" where
  "apply_events [] m = Some m"
| "apply_events (e # es) m = Option.bind (apply_event e m) (apply_events es)"

lemma apply_events_append: "apply_events (es @ fs) m = Option.bind (apply_events es m) (apply_events fs)"
  by (induction es arbitrary: m) (simp_all split: Option.bind_splits)

lemma apply_event_stored: "apply_event (stored fmt e) m = apply_event e m"
  by (cases e) (simp_all split: option.splits)

lemma apply_events_stored: "apply_events (map (stored fmt) es) m = apply_events es m"
  by (induction es arbitrary: m) (simp_all add: apply_event_stored split: Option.bind_splits)

text \<open>Folding an event a second time changes nothing.\<close>

lemma apply_event_idem: "apply_event e m = Some m' \<Longrightarrow> apply_event e m' = Some m'"
  by (cases e) (auto split: option.splits if_splits)

definition seg_of :: "LifecycleEntry \<Rightarrow> seg" where
  "seg_of e = \<lparr>sg_sealed = (le_state e = Sealed), sg_tier = sm_size_tier (le_metadata e), sg_ec_k = sm_ec_k (le_metadata e),
     sg_ec_m = sm_ec_m (le_metadata e), sg_root = sm_merkle_root (le_metadata e),
     sg_locations = sm_storage_locations (le_metadata e), sg_pool = sm_pool_id (le_metadata e),
     sg_total = sm_total_bytes (le_metadata e), sg_repacked = le_repacked_from e\<rparr>"

definition segs_of :: "Registry \<Rightarrow> segs" where
  "segs_of r k = (case lookup r k of None \<Rightarrow> None | Some e \<Rightarrow> if le_state e = Deleted then None else Some (seg_of e))"

text \<open>With immediate eviction, the default, no deleted entry ever stays in the map.\<close>

definition reg_ok :: "Registry \<Rightarrow> bool" where
  "reg_ok r \<longleftrightarrow> reg_wf r \<and> lr_delete_grace r = 0 \<and> (\<forall>k e. lookup r k = Some e \<longrightarrow> le_state e \<noteq> Deleted)"

lemma reg_ok_get: "reg_ok r \<Longrightarrow> get now k r = lookup r k"
  by (auto simp: get_def reg_ok_def deleted_expired_def split: option.splits)

lemma reg_ok_segs: "reg_ok r \<Longrightarrow> segs_of r k = map_option seg_of (lookup r k)"
  by (auto simp: segs_of_def reg_ok_def split: option.splits)

lemma reg_ok_new: "reg_ok (Registry_new hash shards 0)" "segs_of (Registry_new hash shards 0) = (\<lambda>_. None)"
  by (auto simp: reg_ok_def reg_wf_new segs_of_def) (simp add: Registry_new_def)

lemma reg_ok_put: "reg_ok r \<Longrightarrow> le_state e \<noteq> Deleted \<Longrightarrow> reg_ok (put k e r)"
  and segs_of_put: "reg_ok r \<Longrightarrow> le_state e \<noteq> Deleted \<Longrightarrow> segs_of (put k e r) = (segs_of r)(k \<mapsto> seg_of e)"
  and reg_ok_remove: "reg_ok r \<Longrightarrow> reg_ok (remove k r)"
  and segs_of_remove: "reg_ok r \<Longrightarrow> segs_of (remove k r) = (segs_of r)(k := None)"
  by (auto simp: reg_ok_def segs_of_def fun_eq_iff)

lemma reg_ok_evict: "reg_ok r \<Longrightarrow> reg_ok (evict_expired now k r)" and segs_of_evict: "reg_ok r \<Longrightarrow> segs_of (evict_expired now k r) = segs_of r"
  and lookup_evict_ok: "reg_ok r \<Longrightarrow> lookup (evict_expired now k r) j = lookup r j"
  by (auto simp: reg_ok_def segs_of_def fun_eq_iff lookup_evict deleted_expired_def split: option.splits)

section \<open>Enumeration\<close>

lemma distinct_concat_nth:
  "\<forall>i < length xss. distinct (xss ! i) \<Longrightarrow> \<forall>i < length xss. \<forall>j < i. set (xss ! i) \<inter> set (xss ! j) = {} \<Longrightarrow> distinct (concat xss)"
proof (induction xss)
  case (Cons xs xss)
  have "distinct (xss ! i)" if "i < length xss" for i using Cons.prems(1) [rule_format, of "Suc i"] that by simp
  moreover have "set (xss ! i) \<inter> set (xss ! j) = {}" if "i < length xss" "j < i" for i j
    using Cons.prems(2) [rule_format, of "Suc i" "Suc j"] that by simp
  ultimately have "distinct (concat xss)" by (intro Cons.IH) blast+
  moreover have "set xs \<inter> set ys = {}" if ys: "ys \<in> set xss" for ys
  proof -
    obtain i where "i < length xss" "ys = xss ! i" using ys by (metis in_set_conv_nth)
    then show ?thesis using Cons.prems(2) [rule_format, of "Suc i" 0] by auto
  qed
  moreover have "distinct xs" using Cons.prems(1) [rule_format, of 0] by simp
  ultimately show ?case by auto
qed simp

lemma distinct_all_entries: "reg_wf r \<Longrightarrow> distinct (map fst (all_entries r))"
proof -
  assume wf: "reg_wf r"
  have each: "distinct (map fst (lr_shards r ! i))" if "i < length (lr_shards r)" for i using wf that by (simp add: reg_wf_def hm_wf_def)
  have index: "shard_for r (fst f) = i" if "i < length (lr_shards r)" "f \<in> set (lr_shards r ! i)" for i f
    using wf that by (simp add: reg_wf_def)
  moreover have "fst ` set (lr_shards r ! i) \<inter> fst ` set (lr_shards r ! j) = {}" if ij: "i < length (lr_shards r)" "j < i" for i j
  proof -
    have "fst f \<noteq> fst g" if "f \<in> set (lr_shards r ! i)" "g \<in> set (lr_shards r ! j)" for f g
      using index [OF ij(1) that(1)] index [OF _ that(2)] ij by force
    then show ?thesis by blast
  qed
  ultimately show ?thesis unfolding all_entries_def map_concat using each by (intro distinct_concat_nth) simp_all
qed

lemma live_entries_get:
  assumes "reg_wf r"
  shows "hm_get (live_entries now r) k = (case lookup r k of None \<Rightarrow> None | Some e \<Rightarrow> if le_state e = Deleted then None else Some e)"
proof -
  have wf: "hm_wf (all_entries r)" using distinct_all_entries [OF assms] by (simp add: hm_wf_def)
  have "hm_get (all_entries r) k = lookup r k"
    using hm_get_mem [OF wf] mem_all_entries [OF assms] by (metis not_None_eq)
  then show ?thesis
    unfolding live_entries_def hm_get_filter [OF wf] by (auto simp: deleted_expired_def split: option.splits)
qed

end
