(* ===== verification/Coordinator.thy ===== *)
theory Coordinator
  imports Lifecycle
begin

text \<open>
  The lifecycle coordinator (\<^verbatim>\<open>oceanfs-storage/src/segment/lifecycle.rs\<close>): the only writer of segment state.  Every request
  validates against the registry, appends its event, and folds the transition only after the append returned; start-up folds
  the event log back into a registry.
\<close>

section \<open>Requests\<close>

record Coordinator =
  co_registry :: Registry
  co_event_wal :: "EventWal option"
  co_last_folded_pos :: u64
  co_pending_seals :: "SegmentId list"

text \<open>
  The ways an append can end: it is acknowledged by a group-commit round (which syncs the file or fails to), it fails before
  the record is written, or the record is written and the sync group goes away.
\<close>

datatype append_io = Acknowledged bool | NotWritten | GroupGone

fun append_event :: "formats \<Rightarrow> append_io \<Rightarrow> SegmentEvent \<Rightarrow> EventWal \<Rightarrow> EventWalPos option \<times> EventWal" where
  "append_event fmt (Acknowledged synced) evt w = (case evl_append fmt synced evt w of (pos, w') \<Rightarrow> (Some pos, w'))"
| "append_event fmt NotWritten evt w = (None, w)"
| "append_event fmt GroupGone evt w = (None, snd (evl_append_write fmt evt w))"

type_synonym response = "(TransitionError, unit) outcome \<times> Coordinator"

text \<open>
  A request appends its event and then folds it; between the two other requests may run.  The position recorded is that of
  the event folded last.
\<close>

definition land :: "(Registry \<Rightarrow> transition) \<Rightarrow> EventWalPos \<Rightarrow> Coordinator \<Rightarrow> response" where
  "land fold_fn pos c =
     (case fold_fn (co_registry c) of
        (Ok _, r) \<Rightarrow> (Ok (), c\<lparr>co_registry := r, co_last_folded_pos := packed pos\<rparr>)
      | (err, r) \<Rightarrow> (err, c\<lparr>co_registry := r\<rparr>))"

definition append_then_fold ::
  "formats \<Rightarrow> append_io \<Rightarrow> SegmentEvent \<Rightarrow> (Registry \<Rightarrow> transition) \<Rightarrow> EventWal \<Rightarrow> Coordinator \<Rightarrow> response" where
  "append_then_fold fmt io evt fold_fn w c =
     (case append_event fmt io evt w of
        (None, w') \<Rightarrow> (Err DurableWriteFailed, c\<lparr>co_event_wal := Some w'\<rparr>)
      | (Some pos, w') \<Rightarrow> land fold_fn pos (c\<lparr>co_event_wal := Some w'\<rparr>))"

definition request_reserve :: "formats \<Rightarrow> append_io \<Rightarrow> nat \<Rightarrow> SegmentId \<Rightarrow> SizeTier \<Rightarrow> u8 \<Rightarrow> u8 \<Rightarrow> Coordinator \<Rightarrow> response" where
  "request_reserve fmt io now sid tier ec_k ec_m c =
     (case validate_reserve now sid (co_registry c) of
        Ok _ \<Rightarrow>
          (let meta = reserved_metadata sid tier ec_k ec_m
           in case co_event_wal c of
                None \<Rightarrow> (Err DurableWriteFailed, c)
              | Some w \<Rightarrow> append_then_fold fmt io (Reserve \<lparr>rv_segment_id = sid, rv_tier = tier, rv_ec_k = ec_k, rv_ec_m = ec_m\<rparr>)
                  (fold_reserve now sid meta) w c)
      | err \<Rightarrow> (err, c))"

definition shape_mismatch :: "SegmentMetadata \<Rightarrow> SegmentMetadata \<Rightarrow> bool" where
  "shape_mismatch old new \<longleftrightarrow> sm_size_tier old \<noteq> sm_size_tier new \<or> sm_ec_k old \<noteq> sm_ec_k new \<or> sm_ec_m old \<noteq> sm_ec_m new"

definition seal_event :: "SegmentId \<Rightarrow> SegmentMetadata \<Rightarrow> HashOutput \<Rightarrow> SegmentId option \<Rightarrow> ContainedObject list option \<Rightarrow> Registry \<Rightarrow> SegmentEvent" where
  "seal_event sid metadata merkle_root repacked_from objects r =
     Seal \<lparr>sl_segment_id = sid, sl_tier = sm_size_tier metadata, sl_ec_k = sm_ec_k metadata, sl_ec_m = sm_ec_m metadata,
       sl_merkle_root = merkle_root,
       sl_data_wal_pos = (case last_data_wal_pos sid r of None \<Rightarrow> \<lparr>dp_file_seq = 0, dp_offset = 0\<rparr> | Some p \<Rightarrow> p),
       sl_total_bytes = sm_total_bytes metadata, sl_repacked_from = repacked_from, sl_pool_id = sm_pool_id metadata,
       sl_contained_objects = objects\<rparr>"

definition request_seal_with_contained ::
  "formats \<Rightarrow> append_io \<Rightarrow> nat \<Rightarrow> SegmentId \<Rightarrow> SegmentMetadata \<Rightarrow> SegmentId option \<Rightarrow> ContainedObject list option \<Rightarrow> Coordinator \<Rightarrow> response" where
  "request_seal_with_contained fmt io now sid metadata repacked_from objects c =
     (case validate_seal now sid (co_registry c) of
        Ok _ \<Rightarrow>
          (if (case repacked_from of
                 None \<Rightarrow> False
               | Some old \<Rightarrow> (case get now old (co_registry c) of
                     None \<Rightarrow> False
                   | Some old_entry \<Rightarrow> shape_mismatch (le_metadata old_entry) metadata))
           then (Err DurableWriteFailed, c)
           else case co_event_wal c of
               None \<Rightarrow> (Err DurableWriteFailed, c)
             | Some w \<Rightarrow>
                 (case sm_merkle_root metadata of
                    None \<Rightarrow> (Err DurableWriteFailed, c)
                  | Some merkle_root \<Rightarrow>
                      append_then_fold fmt io (seal_event sid metadata merkle_root repacked_from objects (co_registry c))
                        (fold_seal now sid metadata repacked_from objects) w c))
      | err \<Rightarrow> (err, c))"

definition request_seal ::
  "formats \<Rightarrow> append_io \<Rightarrow> nat \<Rightarrow> SegmentId \<Rightarrow> SegmentMetadata \<Rightarrow> SegmentId option \<Rightarrow> Coordinator \<Rightarrow> response" where
  "request_seal fmt io now sid metadata repacked_from c = request_seal_with_contained fmt io now sid metadata repacked_from None c"

definition request_delete :: "formats \<Rightarrow> append_io \<Rightarrow> nat \<Rightarrow> SegmentId \<Rightarrow> Coordinator \<Rightarrow> response" where
  "request_delete fmt io now sid c =
     (case validate_delete now sid (co_registry c) of
        Ok _ \<Rightarrow>
          (case co_event_wal c of
             None \<Rightarrow> (Err DurableWriteFailed, c)
           | Some w \<Rightarrow> append_then_fold fmt io (Delete \<lparr>dl_segment_id = sid\<rparr>) (fold_delete now sid) w c)
      | err \<Rightarrow> (err, c))"

definition request_refresh_metadata ::
  "formats \<Rightarrow> append_io \<Rightarrow> nat \<Rightarrow> SegmentId \<Rightarrow> HashOutput option \<Rightarrow> NodeId list option \<Rightarrow> u32 option \<Rightarrow> Coordinator \<Rightarrow> response" where
  "request_refresh_metadata fmt io now sid merkle_root storage_locations pool_id c =
     (case co_event_wal c of
        None \<Rightarrow> (Err DurableWriteFailed, c)
      | Some w \<Rightarrow>
          (case get now sid (co_registry c) of
             None \<Rightarrow> (Err Missing, c)
           | Some entry \<Rightarrow>
               (case le_state entry of
                  Reserved \<Rightarrow> (Err NotReserved, c)
                | Deleted \<Rightarrow> (Err AlreadyDeleted, c)
                | Sealed \<Rightarrow>
                    append_then_fold fmt io
                      (MetadataRefresh \<lparr>mr_segment_id = sid, mr_merkle_root = merkle_root, mr_storage_locations = storage_locations,
                         mr_pool_id = pool_id\<rparr>)
                      (fold_refresh now sid merkle_root storage_locations pool_id) w c)))"

text \<open>The second component is the call of the storage-locations notifier, if it happens.\<close>

definition persist_storage_locations ::
  "formats \<Rightarrow> append_io \<Rightarrow> nat \<Rightarrow> SegmentId \<Rightarrow> NodeId list \<Rightarrow> Coordinator \<Rightarrow>
     (TransitionError, unit) outcome \<times> (SegmentId \<times> NodeId list) option \<times> Coordinator" where
  "persist_storage_locations fmt io now sid locations c =
     (let merkle_root = Option.bind (get now sid (co_registry c)) (\<lambda>entry. sm_merkle_root (le_metadata entry))
      in case request_refresh_metadata fmt io now sid merkle_root (Some locations) None c of
           (Ok _, c') \<Rightarrow> (Ok (), Some (sid, locations), c')
         | (err, c') \<Rightarrow> (err, None, c'))"

text \<open>
  A batch: all ids are validated first; each accepted one is then appended and folded on its own.  A fold that loses a race is
  only logged.
\<close>

fun seal_accepted ::
  "formats \<Rightarrow> (SegmentId \<Rightarrow> append_io) \<Rightarrow> nat \<Rightarrow> (SegmentMetadata \<times> ContainedObject list option) \<Rightarrow> Coordinator \<Rightarrow> response" where
  "seal_accepted fmt io now (meta, objects) c =
     (let sid = sm_segment_id meta
      in case co_event_wal c of
           None \<Rightarrow> (Err DurableWriteFailed, c)
         | Some w \<Rightarrow>
             (case sm_merkle_root meta of
                None \<Rightarrow> (Err DurableWriteFailed, c)
              | Some merkle_root \<Rightarrow>
                  (case append_then_fold fmt (io sid) (seal_event sid meta merkle_root None objects (co_registry c))
                      (fold_seal now sid meta None objects) w c of
                     (Err DurableWriteFailed, c') \<Rightarrow> (Err DurableWriteFailed, c')
                   | (_, c') \<Rightarrow> (Ok (), c'))))"

fun seal_batch ::
  "formats \<Rightarrow> (SegmentId \<Rightarrow> append_io) \<Rightarrow> nat \<Rightarrow> ((TransitionError, unit) outcome \<times> SegmentMetadata \<times> ContainedObject list option) list \<Rightarrow>
     Coordinator \<Rightarrow> (TransitionError, unit) outcome list \<times> Coordinator" where
  "seal_batch fmt io now [] c = ([], c)"
| "seal_batch fmt io now ((valid, s) # rest) c =
     (case (if valid = Ok () then seal_accepted fmt io now s c else (valid, c)) of
        (res, c1) \<Rightarrow> (case seal_batch fmt io now rest c1 of (out, c2) \<Rightarrow> (res # out, c2)))"

definition seal_finalized_batch_with_contained ::
  "formats \<Rightarrow> (SegmentId \<Rightarrow> append_io) \<Rightarrow> nat \<Rightarrow> (SegmentMetadata \<times> ContainedObject list option) list \<Rightarrow> Coordinator \<Rightarrow>
     (TransitionError, unit) outcome list \<times> Coordinator" where
  "seal_finalized_batch_with_contained fmt io now seals c =
     seal_batch fmt io now (map (\<lambda>s. (validate_seal now (sm_segment_id (fst s)) (co_registry c), s)) seals) c"

definition note_pending_seal :: "SegmentId \<Rightarrow> Coordinator \<Rightarrow> Coordinator" where
  "note_pending_seal sid c = c\<lparr>co_pending_seals := co_pending_seals c @ [sid]\<rparr>"

section \<open>Start-up\<close>

definition seed_from_checkpoint :: "nat \<Rightarrow> Registry \<Rightarrow> Registry \<Rightarrow> Registry" where
  "seed_from_checkpoint now snapshot r =
     fold (\<lambda>(sid, entry). seed_entry now sid (le_state entry) (le_metadata entry) (le_data_wal_pos entry) (le_repacked_from entry))
       (live_entries now snapshot) r"

fun fold_event :: "nat \<Rightarrow> SegmentEvent \<Rightarrow> Registry \<Rightarrow> transition" where
  "fold_event now (Reserve evt) r =
     reserve now (rv_segment_id evt) (reserved_metadata (rv_segment_id evt) (rv_tier evt) (rv_ec_k evt) (rv_ec_m evt)) r"
| "fold_event now (Seal evt) r =
     (let r = record_data_wal_pos (sl_segment_id evt) (sl_data_wal_pos evt) r;
          meta = \<lparr>sm_segment_id = sl_segment_id evt, sm_ec_k = sl_ec_k evt, sm_ec_m = sl_ec_m evt, sm_size_tier = sl_tier evt,
            sm_merkle_root = Some (sl_merkle_root evt), sm_storage_locations = [], sm_sealed_at = Some 0,
            sm_pool_id = sl_pool_id evt, sm_total_bytes = sl_total_bytes evt\<rparr>
      in seal_with now (sl_segment_id evt) meta (sl_repacked_from evt) (sl_contained_objects evt) r)"
| "fold_event now (Delete evt) r = delete now (dl_segment_id evt) r"
| "fold_event now (MetadataRefresh evt) r =
     fold_refresh now (mr_segment_id evt) (mr_merkle_root evt) (mr_storage_locations evt) (mr_pool_id evt) r"

datatype rebuild_error = LogError event_error | EventFoldError EventWalPos TransitionError

definition tolerated :: "TransitionError \<Rightarrow> bool" where
  "tolerated e \<longleftrightarrow> e = AlreadySealed \<or> e = AlreadyDeleted \<or> e = Missing"

text \<open>The result is the registry and the set of segments whose state the fold established.\<close>

fun rebuild_from_events ::
  "nat \<Rightarrow> (event_error, EventWalPos \<times> SegmentEvent) outcome list \<Rightarrow> Registry \<Rightarrow> SegmentId set \<Rightarrow>
     (rebuild_error, Registry \<times> SegmentId set) outcome" where
  "rebuild_from_events now [] r folded = Ok (r, folded)"
| "rebuild_from_events now (Ok (pos, evt) # items) r folded =
     (case fold_event now evt r of
        (Ok _, r') \<Rightarrow> rebuild_from_events now items r' (insert (event_segment_id evt) folded)
      | (Err e, r') \<Rightarrow> if tolerated e then rebuild_from_events now items r' folded else Err (EventFoldError pos e)
      | (Panic, r') \<Rightarrow> Panic)"
| "rebuild_from_events now (Err (TornEventRecord pos) # items) r folded = Ok (r, folded)"
| "rebuild_from_events now (Err e # items) r folded = Err (LogError e)"
| "rebuild_from_events now (Panic # items) r folded = Panic"

section \<open>The folds refine the abstract machine\<close>

lemma fold_eqs: "fold_reserve = reserve" "fold_seal = seal_with" "fold_delete = delete"
  by (simp_all add: fun_eq_iff fold_reserve_def reserve_def fold_seal_def seal_with_def fold_delete_def delete_def)

lemma reserve_refines:
  assumes "reg_ok r" "reserve now (rv_segment_id e) (reserved_metadata (rv_segment_id e) (rv_tier e) (rv_ec_k e) (rv_ec_m e)) r = (res, r')"
  shows "reg_ok r' \<and> apply_event (Reserve e) (segs_of r) = Some (segs_of r') \<and> (\<forall>err. res = Err err \<longrightarrow> tolerated err) \<and> res \<noteq> Panic"
  using assms
  by (auto simp: reserve_def Let_def lookup_evict_ok reg_ok_evict segs_of_evict reg_ok_put segs_of_put reg_ok_segs seg_of_def
      LifecycleEntry_new_def reserved_metadata_def tolerated_def split: option.splits SegmentState.splits)

lemma seal_refines:
  assumes "reg_ok r" "seal_with now (sl_segment_id e) meta (sl_repacked_from e) objects r = (res, r')"
    and "sm_size_tier meta = sl_tier e" "sm_ec_k meta = sl_ec_k e" "sm_ec_m meta = sl_ec_m e" "sm_merkle_root meta = Some (sl_merkle_root e)"
      "sm_storage_locations meta = []" "sm_pool_id meta = sl_pool_id e" "sm_total_bytes meta = sl_total_bytes e"
  shows "reg_ok r' \<and> apply_event (Seal e) (segs_of r) = Some (segs_of r') \<and> (\<forall>err. res = Err err \<longrightarrow> tolerated err) \<and> res \<noteq> Panic"
  using assms
  by (auto simp: seal_with_def Let_def lookup_evict_ok reg_ok_evict segs_of_evict reg_ok_put segs_of_put reg_ok_segs seg_of_def
      tolerated_def split: option.splits SegmentState.splits) (auto simp: reg_ok_def)

lemma delete_refines:
  assumes "reg_ok r" "delete now (dl_segment_id e) r = (res, r')"
  shows "reg_ok r' \<and> apply_event (Delete e) (segs_of r) = Some (segs_of r') \<and> (\<forall>err. res = Err err \<longrightarrow> tolerated err) \<and> res \<noteq> Panic"
proof (cases "lookup r (dl_segment_id e)")
  case None
  then have "segs_of r (dl_segment_id e) = None" by (simp add: segs_of_def)
  then show ?thesis using None assms
    by (auto simp: delete_def Let_def lookup_evict_ok reg_ok_evict segs_of_evict tolerated_def fun_upd_idem)
next
  case (Some entry)
  let ?v = "evict_expired now (dl_segment_id e) r"
  let ?p = "put (dl_segment_id e) (entry\<lparr>le_state := Deleted, le_evict_at := now + lr_delete_grace ?v\<rparr>) ?v"
  have "le_state entry \<noteq> Deleted" "lr_delete_grace ?v = 0" "reg_wf ?v" using Some assms(1) by (auto simp: reg_ok_def)
  then have r': "r' = remove (dl_segment_id e) ?p" "res = Ok ()"
    using Some assms by (auto simp: delete_def Let_def lookup_evict_ok split: if_splits)
  have "lookup r' k = (if k = dl_segment_id e then None else lookup r k)" for k
    using \<open>reg_wf ?v\<close> by (simp add: r' lookup_evict_ok [OF assms(1)])
  moreover have "reg_wf r'" "lr_delete_grace r' = 0" using \<open>reg_wf ?v\<close> \<open>lr_delete_grace ?v = 0\<close> by (simp_all add: r')
  ultimately show ?thesis using assms(1) r'(2) by (auto simp: reg_ok_def segs_of_def fun_eq_iff)
qed

lemma refresh_refines:
  assumes "reg_ok r" "fold_refresh now (mr_segment_id e) (mr_merkle_root e) (mr_storage_locations e) (mr_pool_id e) r = (res, r')"
    and "apply_event (MetadataRefresh e) (segs_of r) = Some m"
  shows "reg_ok r' \<and> m = segs_of r' \<and> (\<forall>err. res = Err err \<longrightarrow> tolerated err) \<and> res \<noteq> Panic"
  using assms
  by (auto simp: fold_refresh_def Let_def lookup_evict_ok reg_ok_evict segs_of_evict reg_ok_put segs_of_put reg_ok_segs seg_of_def
      tolerated_def split: option.splits SegmentState.splits if_splits)

text \<open>Operations that touch only runtime fields are invisible to the abstract machine.\<close>

lemma modify_invisible:
  assumes "reg_ok r" "\<And>e. le_state (f e) = le_state e \<and> seg_of (f e) = seg_of e"
  shows "reg_ok (modify k f r) \<and> segs_of (modify k f r) = segs_of r"
  using assms by (auto simp: reg_ok_def segs_of_def fun_eq_iff modify_def split: option.splits)

lemma record_invisible: "reg_ok r \<Longrightarrow> reg_ok (record_data_wal_pos k pos r) \<and> segs_of (record_data_wal_pos k pos r) = segs_of r"
  unfolding record_data_wal_pos_def by (rule modify_invisible) (auto simp: seg_of_def)

lemma fold_event_refines:
  assumes "reg_ok r" "fold_event now evt r = (res, r')" "apply_event evt (segs_of r) = Some m"
  shows "reg_ok r' \<and> segs_of r' = m \<and> (\<forall>err. res = Err err \<longrightarrow> tolerated err) \<and> res \<noteq> Panic"
proof (cases evt)
  case (Reserve e)
  then show ?thesis using reserve_refines [OF assms(1)] assms(2,3) by (auto simp del: apply_event.simps)
next
  case (Seal e)
  note rec = record_invisible [OF assms(1), of "sl_segment_id e" "sl_data_wal_pos e"]
  show ?thesis
    using seal_refines [of "record_data_wal_pos (sl_segment_id e) (sl_data_wal_pos e) r" now e _ _ res r'] rec assms(2,3) Seal
    by (auto simp: Let_def simp del: apply_event.simps)
next
  case (Delete e)
  then show ?thesis using delete_refines [OF assms(1)] assms(2,3) by (auto simp del: apply_event.simps)
next
  case (MetadataRefresh e)
  then show ?thesis using refresh_refines [OF assms(1)] assms(2,3) by (auto simp del: apply_event.simps)
qed

lemma rebuild_refines:
  assumes "reg_ok r" "apply_events (map snd items) (segs_of r) = Some m"
  shows "\<exists>r' folded'. rebuild_from_events now (map Ok items) r folded = Ok (r', folded') \<and> reg_ok r' \<and> segs_of r' = m"
  using assms
proof (induction items arbitrary: r folded)
  case (Cons x items)
  obtain pos evt where x: "x = (pos, evt)" by fastforce
  obtain m1 where m1: "apply_event evt (segs_of r) = Some m1" "apply_events (map snd items) m1 = Some m"
    using Cons.prems(2) x by (auto simp: bind_eq_Some_conv)
  obtain res r1 where f: "fold_event now evt r = (res, r1)" by fastforce
  note g = fold_event_refines [OF Cons.prems(1) f m1(1)]
  have r1: "reg_ok r1" and s: "apply_events (map snd items) (segs_of r1) = Some m" using g m1(2) by simp_all
  show ?case using Cons.IH [OF r1 s] g f x by (cases res) auto
qed auto

section \<open>Runs of the coordinator\<close>

definition co_start :: "(SegmentId \<Rightarrow> u64) \<Rightarrow> nat \<Rightarrow> u64 \<Rightarrow> Coordinator" where
  "co_start hash shards file_size = \<lparr>co_registry = Registry_new hash shards 0, co_event_wal = Some (evl_fresh file_size),
     co_last_folded_pos = 0, co_pending_seals = []\<rparr>"

text \<open>There are file numbers left for some number of rotations.\<close>

definition log_room :: "nat \<Rightarrow> Coordinator \<Rightarrow> bool" where
  "log_room n c \<longleftrightarrow> (case co_event_wal c of None \<Rightarrow> True | Some w \<Rightarrow> unat (el_file_seq w) + n < 2 ^ 32)"

definition seal_args_ok :: "SegmentMetadata \<Rightarrow> bool" where
  "seal_args_ok meta \<longleftrightarrow> length (sm_segment_id meta) = 16 \<and> pred_option (\<lambda>root. length root = 32) (sm_merkle_root meta) \<and>
     sm_storage_locations meta = []"

fun runtime_op :: "Registry \<Rightarrow> registry_op \<Rightarrow> bool" where
  "runtime_op r (OpMarkQueued sid) = True"
| "runtime_op r (OpMarkUnqueued sid) = True"
| "runtime_op r (OpJoin sid) = True"
| "runtime_op r (OpLeave sid) = True"
| "runtime_op r (OpRecord sid pos) = True"
| "runtime_op r (OpAttach sid tier k m data) = (lookup r sid \<noteq> None)"
| "runtime_op r _ = False"

text \<open>
  Requests and batches of seals one after the other, each acknowledged after a successful sync or failing before its record is written,
  mixed with the operations of the write path that touch runtime fields only; the delete grace is zero, its default, and no checkpoint
  is taken.  Ids are 16 bytes, roots 32 bytes; a seal names no storage
  locations, as in all callers; a refresh names at most 16 nodes with ids of at most 255 bytes.
\<close>

inductive co_step :: "formats \<Rightarrow> Coordinator \<Rightarrow> Coordinator \<Rightarrow> bool" for fmt where
  reserve_step: "log_room 1 c \<Longrightarrow> io \<in> {Acknowledged True, NotWritten} \<Longrightarrow> length sid = 16 \<Longrightarrow>
    co_step fmt c (snd (request_reserve fmt io now sid tier k m c))"
| seal_step: "log_room 1 c \<Longrightarrow> io \<in> {Acknowledged True, NotWritten} \<Longrightarrow> length sid = 16 \<Longrightarrow>
    pred_option (\<lambda>old. length old = 16) repacked_from \<Longrightarrow> pred_option (\<lambda>root. length root = 32) (sm_merkle_root meta) \<Longrightarrow>
    sm_storage_locations meta = [] \<Longrightarrow>
    co_step fmt c (snd (request_seal_with_contained fmt io now sid meta repacked_from objects c))"
| delete_step: "log_room 1 c \<Longrightarrow> io \<in> {Acknowledged True, NotWritten} \<Longrightarrow> length sid = 16 \<Longrightarrow>
    co_step fmt c (snd (request_delete fmt io now sid c))"
| refresh_step: "log_room 1 c \<Longrightarrow> io \<in> {Acknowledged True, NotWritten} \<Longrightarrow> length sid = 16 \<Longrightarrow>
    event_ok (MetadataRefresh \<lparr>mr_segment_id = sid, mr_merkle_root = root, mr_storage_locations = locations, mr_pool_id = pool\<rparr>) \<Longrightarrow>
    co_step fmt c (snd (request_refresh_metadata fmt io now sid root locations pool c))"
| batch_step: "log_room (length seals) c \<Longrightarrow> \<forall>sid. io sid \<in> {Acknowledged True, NotWritten} \<Longrightarrow>
    \<forall>s \<in> set seals. seal_args_ok (fst s) \<Longrightarrow> co_step fmt c (snd (seal_finalized_batch_with_contained fmt io now seals c))"
| runtime_step: "runtime_op (co_registry c) op \<Longrightarrow>
    co_step fmt c (c\<lparr>co_registry := registry_apply now op (co_registry c)\<rparr>)"
| note_step: "co_step fmt c (note_pending_seal sid c)"

definition co_inv :: "formats \<Rightarrow> Coordinator \<Rightarrow> bool" where
  "co_inv fmt c \<longleftrightarrow> reg_ok (co_registry c) \<and> (\<exists>w fs es. co_event_wal c = Some w \<and> evl_files fmt fs es (Some es) w \<and>
     apply_events (concat fs @ es) (\<lambda>_. None) = Some (segs_of (co_registry c)))"

lemma evl_append_synced:
  assumes "bincode_round_trip fmt" "evl_files fmt fs es (Some es) w" "event_ok evt" "unat (el_file_seq w) < 2 ^ 32 - 1"
  shows "\<exists>fs' es'. evl_files fmt fs' es' (Some es') (snd (evl_append fmt True evt w)) \<and> concat fs' @ es' = concat fs @ es @ [evt]"
proof -
  let ?w = "snd (evl_append_write fmt evt w)"
  have w: "snd (evl_append fmt True evt w) = evl_sync ?w" by (simp add: evl_append_def evl_flush_def case_prod_unfold)
  consider "evl_files fmt fs (es @ [evt]) (Some es) ?w" | "evl_files fmt (fs @ [es]) [evt] None ?w"
    using evl_append_files [OF assms] by blast
  then show ?thesis
  proof cases
    case 1
    then show ?thesis unfolding w using evl_sync_files [OF 1] by (metis append_assoc)
  next
    case 2
    then show ?thesis unfolding w using evl_sync_files [OF 2]
      by (intro exI [of _ "fs @ [es]"] exI [of _ "[evt]"]) simp
  qed
qed

lemma append_then_fold_inv:
  assumes "bincode_round_trip fmt" "co_inv fmt c" "co_event_wal c = Some w" "log_room 1 c" "io \<in> {Acknowledged True, NotWritten}"
    and "event_ok evt"
    and fold: "\<And>res r'. fold_fn (co_registry c) = (res, r') \<Longrightarrow> reg_ok r' \<and> apply_event evt (segs_of (co_registry c)) = Some (segs_of r')"
  shows "co_inv fmt (snd (append_then_fold fmt io evt fold_fn w c))"
proof (cases io)
  case (Acknowledged synced)
  obtain fs es where i: "reg_ok (co_registry c)" "evl_files fmt fs es (Some es) w"
      "apply_events (concat fs @ es) (\<lambda>_. None) = Some (segs_of (co_registry c))"
    using assms(2,3) by (auto simp: co_inv_def)
  obtain res r' where f: "fold_fn (co_registry c) = (res, r')" by fastforce
  have "unat (el_file_seq w) < 2 ^ 32 - 1" using assms(3,4) by (auto simp: log_room_def)
  then obtain fs' es' where w': "evl_files fmt fs' es' (Some es') (snd (evl_append fmt True evt w))"
      "concat fs' @ es' = concat fs @ es @ [evt]"
    using evl_append_synced [OF assms(1) i(2) assms(6)] by blast
  have "apply_events (concat fs' @ es') (\<lambda>_. None) = Some (segs_of r')"
    using apply_events_append [of "concat fs @ es" "[evt]" "\<lambda>_. None"] fold [OF f] unfolding i(3) w'(2) by simp
  then show ?thesis
    using Acknowledged assms(5) f fold [OF f] w'(1)
    by (auto simp: append_then_fold_def land_def co_inv_def case_prod_unfold split: outcome.splits)
next
  case NotWritten
  then show ?thesis using assms(2,3) by (simp add: append_then_fold_def co_inv_def)
qed (use assms(5) in simp)

lemma runtime_invisible:
  assumes "reg_ok r" "runtime_op r op"
  shows "reg_ok (registry_apply now op r) \<and> segs_of (registry_apply now op r) = segs_of r"
proof (cases op)
  case (OpAttach sid tier k m data)
  then have "snd (attach_in_flight now sid tier k m data r) =
      modify sid (\<lambda>e. if le_state e = Reserved then e\<lparr>le_in_flight := Some data, le_seal_queued := True\<rparr> else e) r \<or>
      snd (attach_in_flight now sid tier k m data r) = r"
    using assms(2) by (auto simp: attach_in_flight_def modify_def split: option.splits)
  then show ?thesis using OpAttach assms(1)
      modify_invisible [OF assms(1), of "\<lambda>e. if le_state e = Reserved then e\<lparr>le_in_flight := Some data, le_seal_queued := True\<rparr> else e" sid]
    by (auto simp: seg_of_def)
next
  case (OpLeave sid)
  have "snd (writer_leave sid r) = r \<or> snd (writer_leave sid r) = modify sid (\<lambda>e. e\<lparr>le_writer_count := le_writer_count e - 1\<rparr>) r"
    by (auto simp: writer_leave_def modify_def split: option.splits)
  then show ?thesis
    using OpLeave assms(1) modify_invisible [OF assms(1), of "\<lambda>e. e\<lparr>le_writer_count := le_writer_count e - 1\<rparr>" sid] by (auto simp: seg_of_def)
next
  case (OpRecord sid pos)
  then show ?thesis using record_invisible [OF assms(1)] by simp
next
  case (OpMarkQueued sid)
  then show ?thesis unfolding OpMarkQueued registry_apply.simps mark_seal_queued_def using assms(1)
    by (intro modify_invisible) (auto simp: seg_of_def)
next
  case (OpMarkUnqueued sid)
  then show ?thesis unfolding OpMarkUnqueued registry_apply.simps mark_seal_unqueued_def using assms(1)
    by (intro modify_invisible) (auto simp: seg_of_def)
next
  case (OpJoin sid)
  then show ?thesis unfolding OpJoin registry_apply.simps writer_join_def using assms(1)
    by (intro modify_invisible) (auto simp: seg_of_def)
qed (use assms(2) in simp_all)

lemma seal_event_ok:
  "length sid = 16 \<Longrightarrow> pred_option (\<lambda>old. length old = 16) repacked_from \<Longrightarrow> length root = 32 \<Longrightarrow>
   event_ok (seal_event sid meta root repacked_from objects r)"
  by (cases repacked_from) (simp_all add: seal_event_def)

lemma seal_event_refines:
  assumes "reg_ok r" "sm_merkle_root meta = Some root" "sm_storage_locations meta = []"
    "seal_with now sid meta repacked_from objects r = (res, r')"
  shows "reg_ok r' \<and> apply_event (seal_event sid meta root repacked_from objects r0) (segs_of r) = Some (segs_of r')"
proof -
  obtain e where e: "seal_event sid meta root repacked_from objects r0 = Seal e" "sl_segment_id e = sid" "sl_repacked_from e = repacked_from"
      "sl_tier e = sm_size_tier meta" "sl_ec_k e = sm_ec_k meta" "sl_ec_m e = sm_ec_m meta" "sl_merkle_root e = root"
      "sl_pool_id e = sm_pool_id meta" "sl_total_bytes e = sm_total_bytes meta"
    by (simp add: seal_event_def)
  show ?thesis using seal_refines [OF assms(1), of now e meta objects res r'] e assms(2-4) by (simp del: apply_event.simps)
qed

lemma seal_append_inv:
  assumes "bincode_round_trip fmt" "co_inv fmt c" "co_event_wal c = Some w" "log_room 1 c" "io \<in> {Acknowledged True, NotWritten}"
    and "length sid = 16" "pred_option (\<lambda>old. length old = 16) repacked_from" "sm_merkle_root meta = Some root" "length root = 32"
    and "sm_storage_locations meta = []"
  shows "co_inv fmt (snd (append_then_fold fmt io (seal_event sid meta root repacked_from objects (co_registry c))
    (fold_seal now sid meta repacked_from objects) w c))"
proof (rule append_then_fold_inv [OF assms(1-5)])
  have r: "reg_ok (co_registry c)" using assms(2) by (simp add: co_inv_def)
  show "event_ok (seal_event sid meta root repacked_from objects (co_registry c))" using assms(6-9) by (intro seal_event_ok)
  fix res r' assume "fold_seal now sid meta repacked_from objects (co_registry c) = (res, r')"
  then show "reg_ok r' \<and> apply_event (seal_event sid meta root repacked_from objects (co_registry c)) (segs_of (co_registry c)) = Some (segs_of r')"
    using seal_event_refines [OF r assms(8,10)] by (simp only: fold_eqs)
qed

lemma append_seq: "unat (el_file_seq (snd (evl_append_write fmt evt w))) \<le> Suc (unat (el_file_seq w))"
proof -
  have "unat (el_file_seq w + 1) \<le> Suc (unat (el_file_seq w))"
    using mod_less_eq_dividend [of "unat (el_file_seq w) + 1" "2 ^ 32"] by (simp add: unat_word_ariths)
  then show ?thesis by (auto simp: evl_append_write_def evl_rotate_def evl_sync_def Let_def)
qed

lemma append_then_fold_room:
  assumes "co_event_wal c = Some w" "log_room (Suc n) c"
  shows "log_room n (snd (append_then_fold fmt io evt fold_fn w c))"
proof -
  have "unat (el_file_seq w') + n < 2 ^ 32" if "append_event fmt io evt w = (pos, w')" for pos w'
    using that assms append_seq [of fmt evt w]
    by (cases io) (auto simp: log_room_def evl_append_def evl_flush_def evl_sync_def split: prod.splits if_splits)
  then show ?thesis by (auto simp: append_then_fold_def land_def log_room_def split: prod.splits option.splits outcome.splits)
qed

lemma seal_accepted_inv:
  assumes "bincode_round_trip fmt" "co_inv fmt c" "log_room (Suc n) c" "\<forall>sid. io sid \<in> {Acknowledged True, NotWritten}" "seal_args_ok meta"
  shows "co_inv fmt (snd (seal_accepted fmt io now (meta, objects) c)) \<and> log_room n (snd (seal_accepted fmt io now (meta, objects) c))"
proof -
  let ?sid = "sm_segment_id meta"
  have room: "log_room 1 c" "log_room n c" using assms(3) by (auto simp: log_room_def split: option.splits)
  have "co_inv fmt (snd (append_then_fold fmt (io ?sid) (seal_event ?sid meta root None objects (co_registry c)) (fold_seal now ?sid meta None objects) w c)) \<and>
      log_room n (snd (append_then_fold fmt (io ?sid) (seal_event ?sid meta root None objects (co_registry c)) (fold_seal now ?sid meta None objects) w c))"
    if "co_event_wal c = Some w" "sm_merkle_root meta = Some root" for w root
    using that assms room append_then_fold_room [OF that(1) assms(3)] by (intro conjI seal_append_inv) (auto simp: seal_args_ok_def)
  moreover have "snd (seal_accepted fmt io now (meta, objects) c) = (case (co_event_wal c, sm_merkle_root meta) of
      (Some w, Some root) \<Rightarrow> snd (append_then_fold fmt (io ?sid) (seal_event ?sid meta root None objects (co_registry c)) (fold_seal now ?sid meta None objects) w c)
    | _ \<Rightarrow> c)"
    by (auto simp: Let_def split: option.splits prod.splits outcome.splits TransitionError.splits)
  ultimately show ?thesis using assms(2) room by (cases "co_event_wal c"; cases "sm_merkle_root meta") simp_all
qed

lemma seal_batch_inv:
  assumes "bincode_round_trip fmt" "\<forall>sid. io sid \<in> {Acknowledged True, NotWritten}"
  shows "co_inv fmt c \<Longrightarrow> log_room (length items) c \<Longrightarrow> \<forall>s \<in> set items. seal_args_ok (fst (snd s)) \<Longrightarrow>
    co_inv fmt (snd (seal_batch fmt io now items c))"
proof (induction items arbitrary: c)
  case (Cons item items)
  obtain valid meta objects where item: "item = (valid, meta, objects)" by (cases item) auto
  let ?c = "snd (if valid = Ok () then seal_accepted fmt io now (meta, objects) c else (valid, c))"
  have "co_inv fmt ?c \<and> log_room (length items) ?c"
    using seal_accepted_inv [OF assms(1) Cons.prems(1) _ assms(2), of "length items" meta now objects] Cons.prems item
    by (auto simp: log_room_def split: option.splits)
  then have "co_inv fmt (snd (seal_batch fmt io now items ?c))" using Cons by simp
  then show ?case by (simp add: item case_prod_unfold)
qed simp

lemma co_step_inv:
  assumes "bincode_round_trip fmt" "co_step fmt c c'" "co_inv fmt c"
  shows "co_inv fmt c'"
proof -
  have r: "reg_ok (co_registry c)" using assms(3) by (simp add: co_inv_def)
  note app = append_then_fold_inv [OF assms(1,3)]
  show ?thesis
    using assms(2)
  proof cases
    case (reserve_step io sid now tier k m)
    let ?e = "\<lparr>rv_segment_id = sid, rv_tier = tier, rv_ec_k = k, rv_ec_m = m\<rparr>"
    have "co_inv fmt (snd (append_then_fold fmt io (Reserve ?e) (fold_reserve now sid (reserved_metadata sid tier k m)) w c))"
      if "co_event_wal c = Some w" for w
      using that reserve_step reserve_refines [OF r, of now ?e] by (intro app) (auto simp: fold_eqs)
    then show ?thesis
      using reserve_step(1) assms(3) by (auto simp: request_reserve_def Let_def split: outcome.splits option.splits)
  next
    case (seal_step io sid repacked_from meta now objects)
    have "co_inv fmt (snd (append_then_fold fmt io (seal_event sid meta root repacked_from objects (co_registry c))
        (fold_seal now sid meta repacked_from objects) w c))"
      if "co_event_wal c = Some w" "sm_merkle_root meta = Some root" for w root
      using seal_append_inv [OF assms(1,3) that(1) seal_step(2-5) that(2)] seal_step(6,7) that(2) by simp
    then show ?thesis
      using seal_step(1) assms(3) by (auto simp: request_seal_with_contained_def split: outcome.splits option.splits)
  next
    case (delete_step io sid now)
    have "co_inv fmt (snd (append_then_fold fmt io (Delete \<lparr>dl_segment_id = sid\<rparr>) (fold_delete now sid) w c))"
      if "co_event_wal c = Some w" for w
      using that delete_step delete_refines [OF r, of now "\<lparr>dl_segment_id = sid\<rparr>"] by (intro app) (auto simp: fold_eqs)
    then show ?thesis
      using delete_step(1) assms(3) by (auto simp: request_delete_def split: outcome.splits option.splits)
  next
    case (refresh_step io sid root locations pool now)
    let ?e = "\<lparr>mr_segment_id = sid, mr_merkle_root = root, mr_storage_locations = locations, mr_pool_id = pool\<rparr>"
    have "co_inv fmt (snd (append_then_fold fmt io (MetadataRefresh ?e) (fold_refresh now sid root locations pool) w c))"
      if w: "co_event_wal c = Some w" and e: "get now sid (co_registry c) = Some entry" "le_state entry = Sealed" for w entry
    proof -
      have "segs_of (co_registry c) sid = Some (seg_of entry)" "sg_sealed (seg_of entry)"
        using e r by (simp_all add: reg_ok_get reg_ok_segs seg_of_def)
      then obtain m where m: "apply_event (MetadataRefresh ?e) (segs_of (co_registry c)) = Some m" by simp
      show ?thesis
        using w refresh_step refresh_refines [OF r _ m, of now] m by (intro app) auto
    qed
    then show ?thesis
      using refresh_step(1) assms(3)
      by (auto simp: request_refresh_metadata_def split: outcome.splits option.splits SegmentState.splits)
  next
    case (batch_step seals io now)
    have "snd ` set (map (\<lambda>s. (validate_seal now (sm_segment_id (fst s)) (co_registry c), s)) seals) = set seals" by (simp add: image_image)
    then have "co_inv fmt (snd (seal_batch fmt io now (map (\<lambda>s. (validate_seal now (sm_segment_id (fst s)) (co_registry c), s)) seals) c))"
      using batch_step by (intro seal_batch_inv [OF assms(1) batch_step(3) assms(3)]) auto
    then show ?thesis using batch_step(1) by (simp add: seal_finalized_batch_with_contained_def)
  next
    case (runtime_step op now)
    then show ?thesis using runtime_invisible [OF r runtime_step(2)] assms(3) by (auto simp: co_inv_def)
  next
    case (note_step sid)
    then show ?thesis using assms(3) by (simp add: co_inv_def note_pending_seal_def)
  qed
qed

lemma co_start_inv: "unat file_size + event_cap < 2 ^ 64 \<Longrightarrow> co_inv fmt (co_start hash shards file_size)"
proof -
  assume f: "unat file_size + event_cap < 2 ^ 64"
  have "dir_is [[]] [(0, [])]" using dir_is_insert [of "[]" "[]" "[]" "[]"] by (simp add: hm_insert_def)
  then have "evl_files fmt [] [] (Some []) (evl_fresh file_size)" using f by (simp add: evl_files_def evl_fresh_def)
  then show ?thesis unfolding co_inv_def co_start_def using reg_ok_new [of hash shards] by fastforce
qed

lemma co_reachable_inv:
  assumes "bincode_round_trip fmt" "unat file_size + event_cap < 2 ^ 64" "(co_step fmt)\<^sup>*\<^sup>* (co_start hash shards file_size) c"
  shows "co_inv fmt c"
  using assms(3) by induction (auto intro: co_start_inv [OF assms(2)] co_step_inv [OF assms(1)])


definition sample_coordinator :: Coordinator where
  "sample_coordinator = snd (request_reserve sample_formats (Acknowledged True) 0 (replicate 16 7) Standard 4 2 (co_start (\<lambda>_. 0) 1 64))"


end
