(* ===== verification/Checkpoints.thy ===== *)
theory Checkpoints
  imports Coordinator "HOL-Library.Product_Lexorder"
begin

text \<open>
  Checkpoints of the event log (\<^verbatim>\<open>oceanfs-storage/src/segment/event_checkpoint.rs\<close>): the byte format of a snapshot of the
  registry, the choice of the newest valid snapshot at start-up, the byte-threshold trigger, and the covered position.
\<close>

section \<open>The snapshot format\<close>

text \<open>\<^verbatim>\<open>bincode\<close> for the metadata of a segment, beside the formats of event records.\<close>

record snapshot_formats =
  sn_formats :: formats
  sn_serialize :: "SegmentMetadata \<Rightarrow> u8 list option"
  sn_deserialize :: "u8 list \<Rightarrow> SegmentMetadata option"

definition CHECKPOINT_MAGIC :: "u8 list" where "CHECKPOINT_MAGIC = [67, 72, 75, 1]"
definition CHECKPOINT_VERSION :: u8 where "CHECKPOINT_VERSION = 1"
definition CHECKPOINT_HEADER_SIZE :: nat where "CHECKPOINT_HEADER_SIZE = 21"
definition ENTRY_FIXED_SIZE :: nat where "ENTRY_FIXED_SIZE = 21"
definition SEALED_EXTRA_SIZE :: nat where "SEALED_EXTRA_SIZE = 12"
definition REPACKED_FLAG_SIZE :: nat where "REPACKED_FLAG_SIZE = 1"
definition REPACKED_FROM_SIZE :: nat where "REPACKED_FROM_SIZE = 16"
definition CONTAINED_FLAG_SIZE :: nat where "CONTAINED_FLAG_SIZE = 1"
definition CONTAINED_LEN_SIZE :: nat where "CONTAINED_LEN_SIZE = 4"
definition STATE_RESERVED :: u8 where "STATE_RESERVED = 0"
definition STATE_SEALED :: u8 where "STATE_SEALED = 1"

lemmas checkpoint_format = CHECKPOINT_MAGIC_def CHECKPOINT_VERSION_def CHECKPOINT_HEADER_SIZE_def ENTRY_FIXED_SIZE_def
  SEALED_EXTRA_SIZE_def REPACKED_FLAG_SIZE_def REPACKED_FROM_SIZE_def CONTAINED_FLAG_SIZE_def CONTAINED_LEN_SIZE_def
  STATE_RESERVED_def STATE_SEALED_def

text \<open>The membership list of a sealed entry; a list beyond the size limit makes the whole snapshot fail.\<close>

definition encode_objects :: "formats \<Rightarrow> ContainedObject list option \<Rightarrow> u8 list option" where
  "encode_objects fmt objects =
     (case objects of
        Some (x # xs) \<Rightarrow>
          (case bincode_serialize fmt (x # xs) of
             None \<Rightarrow> None
           | Some blob \<Rightarrow> if length blob > SEAL_MAX_CONTAINED_TAIL_BYTES then None
               else Some ([1] @ u32_to_le (of_nat (length blob)) @ blob))
      | _ \<Rightarrow> Some [0])"

definition encode_sealed :: "formats \<Rightarrow> LifecycleEntry \<Rightarrow> u8 list option" where
  "encode_sealed fmt entry =
     (let pos = (case le_data_wal_pos entry of None \<Rightarrow> \<lparr>dp_file_seq = 0, dp_offset = 0\<rparr> | Some p \<Rightarrow> p)
      in map_option (\<lambda>tail. u32_to_le (dp_file_seq pos) @ u64_to_le (dp_offset pos) @
             (case le_repacked_from entry of None \<Rightarrow> [0] | Some old \<Rightarrow> [1] @ old) @ tail)
           (encode_objects fmt (le_contained_objects entry)))"

definition encode_entry :: "snapshot_formats \<Rightarrow> SegmentId \<times> LifecycleEntry \<Rightarrow> u8 list option" where
  "encode_entry sf f =
     (case f of (sid, entry) \<Rightarrow>
        if le_state entry = Deleted then None
        else Option.bind (sn_serialize sf (le_metadata entry)) (\<lambda>meta_bytes.
          map_option (\<lambda>tail. sid @ [if le_state entry = Sealed then STATE_SEALED else STATE_RESERVED] @
              u32_to_le (of_nat (length meta_bytes)) @ meta_bytes @ tail)
            (if le_state entry = Sealed then encode_sealed (sn_formats sf) entry else Some [])))"

fun encode_all :: "snapshot_formats \<Rightarrow> (SegmentId \<times> LifecycleEntry) list \<Rightarrow> u8 list option" where
  "encode_all sf [] = Some []"
| "encode_all sf (f # fs) = Option.bind (encode_entry sf f) (\<lambda>b. map_option (\<lambda>bs. b @ bs) (encode_all sf fs))"

definition snapshot_header :: "EventWalPos \<Rightarrow> nat \<Rightarrow> u8 list" where
  "snapshot_header up_to n = CHECKPOINT_MAGIC @ [CHECKPOINT_VERSION] @ u32_to_le (ep_file_seq up_to) @ u64_to_le (ep_offset up_to) @
     u32_to_le (of_nat n)"

definition encode_snapshot :: "snapshot_formats \<Rightarrow> nat \<Rightarrow> Registry \<Rightarrow> EventWalPos \<Rightarrow> u8 list option" where
  "encode_snapshot sf now r up_to =
     (let entries = live_entries now r
      in map_option (\<lambda>body. let buf = snapshot_header up_to (length entries) @ body in buf @ u32_to_le (crc32 (sn_formats sf) buf))
           (encode_all sf entries))"

definition is_pre_pool_checkpoint :: "snapshot_formats \<Rightarrow> u8 list \<Rightarrow> bool" where
  "is_pre_pool_checkpoint sf bytes \<longleftrightarrow>
     CHECKPOINT_HEADER_SIZE + 4 \<le> length bytes \<and> slice bytes 0 4 = CHECKPOINT_MAGIC \<and> bytes ! 4 = 2 \<and>
     u32_from_le (drop (length bytes - 4) bytes) = crc32 (sn_formats sf) (take (length bytes - 4) bytes)"

text \<open>
  Decoding works on the bytes between the cursor and the checksum: a test against the end of the entries is a test of the
  length of what is left.
\<close>

definition decode_repacked :: "u8 list \<Rightarrow> (SegmentId option \<times> u8 list) option" where
  "decode_repacked rest =
     (let flag = rest ! 0; rest = drop REPACKED_FLAG_SIZE rest
      in if flag = 0 then Some (None, rest)
         else if flag = 1 then
           (if length rest < REPACKED_FROM_SIZE then None
            else Some (Some (take REPACKED_FROM_SIZE rest), drop REPACKED_FROM_SIZE rest))
         else None)"

definition decode_objects :: "formats \<Rightarrow> u8 list \<Rightarrow> (ContainedObject list option \<times> u8 list) option" where
  "decode_objects fmt rest =
     (if length rest < CONTAINED_FLAG_SIZE then None
      else
        (let flag = rest ! 0; rest = drop CONTAINED_FLAG_SIZE rest
         in if flag = 0 then Some (None, rest)
            else if flag = 1 then
              (if length rest < CONTAINED_LEN_SIZE then None
               else
                 (let blob_len = unat (u32_from_le (take 4 rest)); rest = drop CONTAINED_LEN_SIZE rest
                  in if blob_len > SEAL_MAX_CONTAINED_TAIL_BYTES \<or> length rest < blob_len then None
                     else map_option (\<lambda>objects. (Some objects, drop blob_len rest)) (bincode_deserialize fmt (take blob_len rest))))
            else None))"

definition ok_registry :: "transition \<Rightarrow> Registry option" where
  "ok_registry t = (case t of (Ok _, r) \<Rightarrow> Some r | _ \<Rightarrow> None)"

definition decode_entry :: "snapshot_formats \<Rightarrow> nat \<Rightarrow> u8 list \<Rightarrow> Registry \<Rightarrow> (Registry \<times> u8 list) option" where
  "decode_entry sf now rest r =
     (if length rest < ENTRY_FIXED_SIZE then None
      else
        (let sid = take 16 rest; state_byte = rest ! 16; meta_len = unat (u32_from_le (slice rest 17 21)); rest = drop ENTRY_FIXED_SIZE rest
         in if length rest < meta_len then None
            else Option.bind (sn_deserialize sf (take meta_len rest)) (\<lambda>meta.
              (let rest = drop meta_len rest
               in if state_byte = STATE_RESERVED then map_option (\<lambda>r. (r, rest)) (ok_registry (reserve now sid meta r))
                  else if state_byte = STATE_SEALED then
                    (if length rest < SEALED_EXTRA_SIZE + REPACKED_FLAG_SIZE then None
                     else
                       (let pos = \<lparr>dp_file_seq = u32_from_le (slice rest 0 4), dp_offset = u64_from_le (slice rest 4 12)\<rparr>
                        in Option.bind (decode_repacked (drop SEALED_EXTRA_SIZE rest)) (\<lambda>(repacked_from, rest).
                           Option.bind (decode_objects (sn_formats sf) rest) (\<lambda>(objects, rest).
                           Option.bind (ok_registry (reserve now sid (reserved_metadata sid (sm_size_tier meta) (sm_ec_k meta) (sm_ec_m meta)) r))
                             (\<lambda>r. map_option (\<lambda>r. (r, rest))
                                (ok_registry (seal_with now sid meta repacked_from objects (record_data_wal_pos sid pos r))))))))
                  else None))))"

fun decode_entries :: "snapshot_formats \<Rightarrow> nat \<Rightarrow> nat \<Rightarrow> u8 list \<Rightarrow> Registry \<Rightarrow> Registry option" where
  "decode_entries sf now 0 rest r = Some r"
| "decode_entries sf now (Suc n) rest r = Option.bind (decode_entry sf now rest r) (\<lambda>(r', rest'). decode_entries sf now n rest' r')"

definition decode_snapshot :: "snapshot_formats \<Rightarrow> (SegmentId \<Rightarrow> u64) \<Rightarrow> nat \<Rightarrow> u8 list \<Rightarrow> (EventWalPos \<times> Registry) option" where
  "decode_snapshot sf hash now bytes =
     (if length bytes < CHECKPOINT_HEADER_SIZE + 4 then None
      else if slice bytes 0 4 \<noteq> CHECKPOINT_MAGIC then None
      else if bytes ! 4 \<noteq> CHECKPOINT_VERSION then None
      else if u32_from_le (drop (length bytes - 4) bytes) \<noteq> crc32 (sn_formats sf) (take (length bytes - 4) bytes) then None
      else map_option (Pair \<lparr>ep_file_seq = u32_from_le (slice bytes 5 9), ep_offset = u64_from_le (slice bytes 9 17)\<rparr>)
        (decode_entries sf now (unat (u32_from_le (slice bytes 17 21))) (drop CHECKPOINT_HEADER_SIZE (take (length bytes - 4) bytes))
          (Registry_new hash 64 0)))"

section \<open>The checkpoint manager\<close>

record EventCheckpoint =
  ec_files :: "(EventWalPos \<times> u8 list) list"
  ec_last_covered :: u64

definition pos_key :: "EventWalPos \<Rightarrow> u32 \<times> u64" where "pos_key p = (ep_file_seq p, ep_offset p)"

definition newest_first :: "(EventWalPos \<times> u8 list) list \<Rightarrow> (EventWalPos \<times> u8 list) list" where
  "newest_first files = rev (sort_key (pos_key \<circ> fst) files)"

definition EventCheckpoint_open :: "(EventWalPos \<times> u8 list) list \<Rightarrow> EventCheckpoint" where
  "EventCheckpoint_open files = \<lparr>ec_files = files,
     ec_last_covered = (case newest_first files of [] \<Rightarrow> 0 | f # _ \<Rightarrow> packed (fst f))\<rparr>"

definition write_checkpoint :: "snapshot_formats \<Rightarrow> nat \<Rightarrow> Registry \<Rightarrow> EventWalPos \<Rightarrow> EventCheckpoint \<Rightarrow> EventCheckpoint option" where
  "write_checkpoint sf now r up_to ck =
     map_option (\<lambda>bytes. ck\<lparr>ec_files := hm_insert up_to bytes (ec_files ck), ec_last_covered := packed up_to\<rparr>)
       (encode_snapshot sf now r up_to)"

fun load_newest :: "snapshot_formats \<Rightarrow> (SegmentId \<Rightarrow> u64) \<Rightarrow> nat \<Rightarrow> (EventWalPos \<times> u8 list) list \<Rightarrow>
    (event_error, (Registry \<times> EventWalPos) option) outcome" where
  "load_newest sf hash now [] = Ok None"
| "load_newest sf hash now ((pos, raw) # rest) =
     (case decode_snapshot sf hash now raw of
        Some (covered, r) \<Rightarrow> if covered = pos then Ok (Some (r, covered)) else load_newest sf hash now rest
      | None \<Rightarrow> if is_pre_pool_checkpoint sf raw then Err UnsupportedPrePoolDataDir else load_newest sf hash now rest)"

definition load_checkpoint ::
  "snapshot_formats \<Rightarrow> (SegmentId \<Rightarrow> u64) \<Rightarrow> nat \<Rightarrow> EventCheckpoint \<Rightarrow> (event_error, (Registry \<times> EventWalPos) option) outcome" where
  "load_checkpoint sf hash now ck = load_newest sf hash now (newest_first (ec_files ck))"

definition last_checkpoint_pos :: "EventCheckpoint \<Rightarrow> EventWalPos option" where
  "last_checkpoint_pos ck = (if ec_last_covered ck = 0 then None else Some (from_packed (ec_last_covered ck)))"

definition reset_for_fresh :: "EventCheckpoint \<Rightarrow> EventCheckpoint" where
  "reset_for_fresh ck = ck\<lparr>ec_files := [], ec_last_covered := 0\<rparr>"

definition needs_checkpoint :: "u64 \<Rightarrow> EventWal \<Rightarrow> EventCheckpoint \<Rightarrow> bool" where
  "needs_checkpoint threshold w ck \<longleftrightarrow>
     threshold \<le> bytes_since (case last_checkpoint_pos ck of None \<Rightarrow> \<lparr>ep_file_seq = 0, ep_offset = 0\<rparr> | Some p \<Rightarrow> p) w"

text \<open>
  The checkpoint that a request triggers: it covers the position of the last folded event at that moment, and truncates the
  log only when the snapshot is written.
\<close>

definition maybe_checkpoint :: "snapshot_formats \<Rightarrow> nat \<Rightarrow> u64 \<Rightarrow> Coordinator \<Rightarrow> EventCheckpoint \<Rightarrow> Coordinator \<times> EventCheckpoint" where
  "maybe_checkpoint sf now threshold c ck =
     (case co_event_wal c of
        None \<Rightarrow> (c, ck)
      | Some w \<Rightarrow>
          if \<not> needs_checkpoint threshold w ck then (c, ck)
          else (let up_to = from_packed (co_last_folded_pos c)
                in case write_checkpoint sf now (co_registry c) up_to ck of
                     None \<Rightarrow> (c, ck)
                   | Some ck' \<Rightarrow> (c\<lparr>co_event_wal := Some (snd (evl_truncate_before up_to w))\<rparr>, ck')))"

text \<open>Start-up with a checkpoint: seed the registry from the snapshot and fold the log from the covered position.\<close>

definition start_up ::
  "snapshot_formats \<Rightarrow> (SegmentId \<Rightarrow> u64) \<Rightarrow> nat \<Rightarrow> nat \<Rightarrow> EventWal \<Rightarrow> EventCheckpoint \<Rightarrow> (rebuild_error, Registry \<times> SegmentId set) outcome" where
  "start_up sf hash shards now w ck =
     (case load_checkpoint sf hash now ck of
        Ok None \<Rightarrow> rebuild_from_events now (read_from (sn_formats sf) (el_dir w) evl_start_pos) (Registry_new hash shards 0) {}
      | Ok (Some (snapshot, covered)) \<Rightarrow>
          rebuild_from_events now (read_from (sn_formats sf) (el_dir w) covered)
            (seed_from_checkpoint now snapshot (Registry_new hash shards 0)) {}
      | Err e \<Rightarrow> Err (LogError e)
      | Panic \<Rightarrow> Panic)"

section \<open>Round trip\<close>

definition sf_ok :: "snapshot_formats \<Rightarrow> bool" where
  "sf_ok sf \<longleftrightarrow> bincode_round_trip (sn_formats sf) \<and>
     (\<forall>m b. sn_serialize sf m = Some b \<longrightarrow> sn_deserialize sf b = Some m \<and> length b < 2 ^ 32)"

definition stored_objects :: "ContainedObject list option \<Rightarrow> ContainedObject list option" where
  "stored_objects objects = (case objects of Some (x # xs) \<Rightarrow> Some (x # xs) | _ \<Rightarrow> None)"

text \<open>An entry as a snapshot restores it.\<close>

definition restored :: "nat \<Rightarrow> LifecycleEntry \<Rightarrow> LifecycleEntry" where
  "restored now e =
     (if le_state e = Sealed
      then (LifecycleEntry_new now Sealed (le_metadata e))
        \<lparr>le_data_wal_pos := Some (case le_data_wal_pos e of None \<Rightarrow> \<lparr>dp_file_seq = 0, dp_offset = 0\<rparr> | Some p \<Rightarrow> p),
         le_repacked_from := le_repacked_from e, le_contained_objects := stored_objects (le_contained_objects e)\<rparr>
      else LifecycleEntry_new now Reserved (le_metadata e))"

definition entry_bytes_ok :: "SegmentId \<times> LifecycleEntry \<Rightarrow> bool" where
  "entry_bytes_ok f \<longleftrightarrow> length (fst f) = 16 \<and> pred_option (\<lambda>old. length old = 16) (le_repacked_from (snd f))"

lemma decode_objects_round_trip:
  assumes "bincode_round_trip fmt" "encode_objects fmt objects = Some tail"
  shows "decode_objects fmt (tail @ rest) = Some (stored_objects objects, rest)"
proof (cases "stored_objects objects")
  case None
  then have "tail = [0]" using assms(2)
    by (auto simp: encode_objects_def stored_objects_def split: option.splits list.splits if_splits)
  then show ?thesis using None by (simp add: decode_objects_def checkpoint_format)
next
  case (Some xs)
  then obtain blob where b: "bincode_serialize fmt xs = Some blob" "length blob \<le> SEAL_MAX_CONTAINED_TAIL_BYTES"
      "tail = [1] @ u32_to_le (of_nat (length blob)) @ blob"
    using assms(2) by (auto simp: encode_objects_def stored_objects_def split: option.splits list.splits if_splits)
  have "length blob < 2 ^ 32" using b(2) by (simp add: SEAL_MAX_CONTAINED_TAIL_BYTES_def)
  then have n: "unat (of_nat (length blob) :: u32) = length blob" by (simp add: unat_of_nat)
  have "bincode_deserialize fmt blob = Some xs" using assms(1) b(1) by (simp add: bincode_round_trip_def)
  then show ?thesis using Some b(2) n by (simp add: b(3) decode_objects_def checkpoint_format Let_def)
qed

lemma decode_repacked_round_trip:
  "pred_option (\<lambda>old. length old = 16) repacked \<Longrightarrow>
   decode_repacked ((case repacked of None \<Rightarrow> [0] | Some old \<Rightarrow> [1] @ old) @ rest) = Some (repacked, rest)"
  by (cases repacked) (simp_all add: decode_repacked_def checkpoint_format Let_def)

lemma reserve_absent:
  assumes "reg_ok r" "lookup r sid = None"
  shows "\<exists>r'. reserve now sid meta r = (Ok (), r') \<and> reg_ok r' \<and>
    (\<forall>k. lookup r' k = (if k = sid then Some (LifecycleEntry_new now Reserved meta) else lookup r k))"
proof -
  have "reg_wf (evict_expired now sid r)" using assms(1) by (simp add: reg_ok_def)
  then show ?thesis
    using assms reg_ok_put [OF reg_ok_evict [OF assms(1)], of "LifecycleEntry_new now Reserved meta" sid now sid]
    by (simp add: reserve_def Let_def lookup_evict_ok LifecycleEntry_new_def)
qed

lemma seal_reserved:
  assumes "reg_ok r" "lookup r sid = Some e" "le_state e = Reserved"
  shows "\<exists>r'. seal_with now sid meta repacked objects r = (Ok (), r') \<and> reg_ok r' \<and>
    (\<forall>k. lookup r' k = (if k = sid then Some (e\<lparr>le_state := Sealed, le_metadata := meta, le_repacked_from := repacked,
       le_contained_objects := objects, le_in_flight := None, le_seal_queued := False\<rparr>) else lookup r k))"
proof -
  have "reg_wf (evict_expired now sid r)" using assms(1) by (simp add: reg_ok_def)
  then show ?thesis
    using assms reg_ok_put [OF reg_ok_evict [OF assms(1)], of "e\<lparr>le_state := Sealed, le_metadata := meta, le_repacked_from := repacked,
       le_contained_objects := objects, le_in_flight := None, le_seal_queued := False\<rparr>" sid now sid]
    by (simp add: seal_with_def Let_def lookup_evict_ok)
qed

lemma record_lookup:
  assumes "reg_ok r" "lookup r sid = Some e" "le_data_wal_pos e = None" "le_state e \<noteq> Deleted"
  shows "reg_ok (record_data_wal_pos sid pos r)"
    and "lookup (record_data_wal_pos sid pos r) sid = Some (e\<lparr>le_data_wal_pos := Some pos\<rparr>)"
    and "k \<noteq> sid \<Longrightarrow> lookup (record_data_wal_pos sid pos r) k = lookup r k"
proof -
  have wf: "reg_wf r" using assms(1) by (simp add: reg_ok_def)
  show "reg_ok (record_data_wal_pos sid pos r)" using record_invisible [OF assms(1)] by blast
  show "lookup (record_data_wal_pos sid pos r) sid = Some (e\<lparr>le_data_wal_pos := Some pos\<rparr>)"
    and "k \<noteq> sid \<Longrightarrow> lookup (record_data_wal_pos sid pos r) k = lookup r k"
    using assms(2-) by (simp_all add: record_data_wal_pos_def lookup_modify [OF wf])
qed

lemma decode_entry_round_trip:
  assumes "sf_ok sf" "entry_bytes_ok (sid, e)" "encode_entry sf (sid, e) = Some b" "reg_ok r" "lookup r sid = None"
  shows "\<exists>r'. decode_entry sf now (b @ rest) r = Some (r', rest) \<and> reg_ok r' \<and>
    (\<forall>k. lookup r' k = (if k = sid then Some (restored now e) else lookup r k))"
proof -
  have fmt: "bincode_round_trip (sn_formats sf)" and sid: "length sid = 16"
    and old: "pred_option (\<lambda>old. length old = 16) (le_repacked_from e)"
    using assms(1,2) by (simp_all add: sf_ok_def entry_bytes_ok_def)
  obtain mb tail where mb: "sn_serialize sf (le_metadata e) = Some mb"
      "(if le_state e = Sealed then encode_sealed (sn_formats sf) e else Some []) = Some tail" "le_state e \<noteq> Deleted"
      "b = sid @ [if le_state e = Sealed then STATE_SEALED else STATE_RESERVED] @ u32_to_le (of_nat (length mb)) @ mb @ tail"
    using assms(3) by (auto simp: encode_entry_def bind_eq_Some_conv split: if_splits)
  have de: "sn_deserialize sf mb = Some (le_metadata e)" "unat (of_nat (length mb) :: u32) = length mb"
    using assms(1) mb(1) by (simp_all add: sf_ok_def unat_of_nat)
  have frame: "decode_entry sf now (b @ rest) r = (if le_state e = Sealed
      then decode_entry sf now (sid @ [STATE_SEALED] @ u32_to_le (of_nat (length mb)) @ mb @ tail @ rest) r
      else decode_entry sf now (sid @ [STATE_RESERVED] @ u32_to_le (of_nat (length mb)) @ mb @ tail @ rest) r)"
    by (simp add: mb(4))
  show ?thesis
  proof (cases "le_state e = Sealed")
    case False
    then have "le_state e = Reserved" "tail = []" using mb(2,3) by (cases "le_state e", simp_all)+
    moreover have "decode_entry sf now (sid @ [STATE_RESERVED] @ u32_to_le (of_nat (length mb)) @ mb @ rest) r =
        map_option (\<lambda>r. (r, rest)) (ok_registry (reserve now sid (le_metadata e) r))"
      using sid de by (simp add: decode_entry_def checkpoint_format Let_def slice_def nth_append)
    ultimately show ?thesis
      using reserve_absent [OF assms(4,5), of now "le_metadata e"] frame by (auto simp: ok_registry_def restored_def)
  next
    case True
    define pos where "pos = (case le_data_wal_pos e of None \<Rightarrow> \<lparr>dp_file_seq = 0, dp_offset = 0\<rparr> | Some p \<Rightarrow> p)"
    obtain ot where ot: "encode_objects (sn_formats sf) (le_contained_objects e) = Some ot"
        "tail = u32_to_le (dp_file_seq pos) @ u64_to_le (dp_offset pos) @
           (case le_repacked_from e of None \<Rightarrow> [0] | Some old \<Rightarrow> [1] @ old) @ ot"
      using True mb(2) by (auto simp: encode_sealed_def pos_def Let_def)
    let ?rm = "reserved_metadata sid (sm_size_tier (le_metadata e)) (sm_ec_k (le_metadata e)) (sm_ec_m (le_metadata e))"
    obtain r1 where r1: "reserve now sid ?rm r = (Ok (), r1)" "reg_ok r1"
        "\<forall>k. lookup r1 k = (if k = sid then Some (LifecycleEntry_new now Reserved ?rm) else lookup r k)"
      using reserve_absent [OF assms(4,5)] by blast
    let ?r2 = "record_data_wal_pos sid pos r1"
    have "lookup r1 sid = Some (LifecycleEntry_new now Reserved ?rm)" "le_data_wal_pos (LifecycleEntry_new now Reserved ?rm) = None"
        "le_state (LifecycleEntry_new now Reserved ?rm) \<noteq> Deleted"
      using r1(3) by (simp_all add: LifecycleEntry_new_def)
    note r2 = record_lookup [OF r1(2) this, where pos = pos]
    have e': "(LifecycleEntry_new now Reserved ?rm)\<lparr>le_data_wal_pos := Some pos, le_state := Sealed, le_metadata := le_metadata e,
        le_repacked_from := le_repacked_from e, le_contained_objects := stored_objects (le_contained_objects e),
        le_in_flight := None, le_seal_queued := False\<rparr> = restored now e"
      using True by (simp add: LifecycleEntry_new_def restored_def pos_def)
    have "le_state ((LifecycleEntry_new now Reserved ?rm)\<lparr>le_data_wal_pos := Some pos\<rparr>) = Reserved" by (simp add: LifecycleEntry_new_def)
    from seal_reserved [OF r2(1,2) this, of now "le_metadata e" "le_repacked_from e" "stored_objects (le_contained_objects e)"]
    obtain r3 where r3: "seal_with now sid (le_metadata e) (le_repacked_from e) (stored_objects (le_contained_objects e)) ?r2 = (Ok (), r3)"
        "reg_ok r3" "\<forall>k. lookup r3 k = (if k = sid then Some (restored now e) else lookup ?r2 k)"
      unfolding e' by blast
    obtain seq off where "pos = \<lparr>dp_file_seq = seq, dp_offset = off\<rparr>" by (cases pos)
    moreover have "(case le_repacked_from e of None \<Rightarrow> [0] | Some old \<Rightarrow> [1] @ old) \<noteq> ([] :: u8 list)"
      by (simp split: option.splits)
    ultimately have "decode_entry sf now (sid @ [STATE_SEALED] @ u32_to_le (of_nat (length mb)) @ mb @ tail @ rest) r = Some (r3, rest)"
      using sid de r1(1) r3(1) decode_repacked_round_trip [OF old, of "ot @ rest"] decode_objects_round_trip [OF fmt ot(1), of rest]
      by (simp add: ot(2) decode_entry_def checkpoint_format Let_def slice_def nth_append ok_registry_def)
    then show ?thesis using True frame r1(3) r2(3) r3(2,3) by auto
  qed
qed

lemma decode_entries_round_trip:
  assumes "sf_ok sf" "list_all entry_bytes_ok fs" "distinct (map fst fs)" "encode_all sf fs = Some b"
    and "reg_ok r" "\<forall>f \<in> set fs. lookup r (fst f) = None"
  shows "\<exists>r'. decode_entries sf now (length fs) b r = Some r' \<and> reg_ok r' \<and>
    (\<forall>k. lookup r' k = (case hm_get fs k of None \<Rightarrow> lookup r k | Some e \<Rightarrow> Some (restored now e)))"
  using assms
proof (induction fs arbitrary: b r)
  case (Cons f fs)
  obtain sid e where f: "f = (sid, e)" by fastforce
  obtain b1 b2 where b: "encode_entry sf (sid, e) = Some b1" "encode_all sf fs = Some b2" "b = b1 @ b2"
    using Cons.prems(4) f by (auto simp: bind_eq_Some_conv)
  obtain r1 where r1: "decode_entry sf now (b1 @ b2) r = Some (r1, b2)" "reg_ok r1"
      "\<forall>k. lookup r1 k = (if k = sid then Some (restored now e) else lookup r k)"
    using decode_entry_round_trip [OF assms(1) _ b(1) Cons.prems(5)] Cons.prems(2,6) f by fastforce
  have "\<forall>g \<in> set fs. lookup r1 (fst g) = None" using Cons.prems(3,6) r1(3) f by force
  then obtain r' where r': "decode_entries sf now (length fs) b2 r1 = Some r'" "reg_ok r'"
      "\<forall>k. lookup r' k = (case hm_get fs k of None \<Rightarrow> lookup r1 k | Some e \<Rightarrow> Some (restored now e))"
    using Cons.IH [OF assms(1) _ _ b(2) r1(2)] Cons.prems(2,3) by auto
  have "hm_get fs sid = None" using Cons.prems(3) f by (simp add: hm_get_def map_of_eq_None_iff)
  then show ?case using r1(1,3) r' b(3) f by (auto simp: hm_get_def split: option.splits)
qed (auto simp: hm_get_def)

lemma snapshot_header_fields:
  "length (snapshot_header up_to n) = 21" "slice (snapshot_header up_to n @ bs) 0 4 = CHECKPOINT_MAGIC"
  "(snapshot_header up_to n @ bs) ! 4 = CHECKPOINT_VERSION" "slice (snapshot_header up_to n @ bs) 5 9 = u32_to_le (ep_file_seq up_to)"
  "slice (snapshot_header up_to n @ bs) 9 17 = u64_to_le (ep_offset up_to)" "slice (snapshot_header up_to n @ bs) 17 21 = u32_to_le (of_nat n)"
  by (simp_all add: snapshot_header_def checkpoint_format slice_def)

text \<open>
  C11. A checkpoint reads back as what it covers.  When the snapshot of a well-formed registry is encoded, decoding its bytes
  at start-up succeeds, gives the covered position, and gives a registry that holds exactly the live segments of the original:
  every reservation with its metadata, every sealed segment with its metadata, log position, replaced segment and membership
  list; deleted segments are gone.
\<close>

theorem checkpoint_round_trip:
  assumes "sf_ok sf" and "reg_wf r" and "list_all entry_bytes_ok (live_entries now r)" and "length (live_entries now r) < 2 ^ 32"
    and "encode_snapshot sf now r up_to = Some bytes"
  shows "\<exists>r'. decode_snapshot sf hash now' bytes = Some (up_to, r') \<and>
    (\<forall>sid. lookup r' sid =
      (case lookup r sid of None \<Rightarrow> None | Some e \<Rightarrow> if le_state e = Deleted then None else Some (restored now' e)))"
proof -
  let ?es = "live_entries now r"
  obtain body where body: "encode_all sf ?es = Some body"
      "bytes = (snapshot_header up_to (length ?es) @ body) @ u32_to_le (crc32 (sn_formats sf) (snapshot_header up_to (length ?es) @ body))"
    using assms(5) by (auto simp: encode_snapshot_def Let_def)
  have new: "reg_ok (Registry_new hash 64 0)" "\<And>k. lookup (Registry_new hash 64 0) k = None"
    by (simp_all add: reg_ok_new reg_wf_new)
  have "distinct (map fst ?es)" using distinct_all_entries [OF assms(2)] by (simp add: live_entries_def distinct_map_filter)
  from decode_entries_round_trip [OF assms(1,3) this body(1) new(1), of now']
  obtain r' where r': "decode_entries sf now' (length ?es) body (Registry_new hash 64 0) = Some r'"
      "\<forall>k. lookup r' k = (case hm_get ?es k of None \<Rightarrow> None | Some e \<Rightarrow> Some (restored now' e))"
    unfolding new(2) by blast
  have n: "unat (of_nat (length ?es) :: u32) = length ?es" using assms(4) by (simp add: unat_of_nat)
  have "\<lparr>ep_file_seq = ep_file_seq up_to, ep_offset = ep_offset up_to\<rparr> = up_to" by simp
  then have "decode_snapshot sf hash now' bytes = Some (up_to, r')"
    using r'(1) n by (simp add: body(2) decode_snapshot_def snapshot_header_fields CHECKPOINT_HEADER_SIZE_def)
  then show ?thesis using r'(2) live_entries_get [OF assms(2)] by (auto split: option.splits)
qed

definition sample_segment :: SegmentId where "sample_segment = replicate 16 1"

definition sample_snapshot_formats :: snapshot_formats where
  "sample_snapshot_formats = \<lparr>sn_formats = sample_formats,
     sn_serialize = (\<lambda>m. if m = reserved_metadata sample_segment Standard 4 2 then Some [7] else None),
     sn_deserialize = (\<lambda>b. if b = [7] then Some (reserved_metadata sample_segment Standard 4 2) else None)\<rparr>"

definition sealed_registry :: Registry where
  "sealed_registry = registry_run [(0, OpReserve sample_segment (reserved_metadata sample_segment Standard 4 2)),
     (5, OpRecord sample_segment \<lparr>dp_file_seq = 1, dp_offset = 9\<rparr>),
     (7, OpSeal sample_segment (reserved_metadata sample_segment Standard 4 2) None None)] (Registry_new (\<lambda>_. 3) 2 0)"

theorem checkpoint_round_trip_witness:
  "\<exists>bytes r'. encode_snapshot sample_snapshot_formats 9 sealed_registry \<lparr>ep_file_seq = 1, ep_offset = 40\<rparr> = Some bytes \<and>
    decode_snapshot sample_snapshot_formats (\<lambda>_. 2) 20 bytes = Some (\<lparr>ep_file_seq = 1, ep_offset = 40\<rparr>, r') \<and>
    lookup r' sample_segment = Some (restored 20 (the (lookup sealed_registry sample_segment)))"
proof -
  have "encode_snapshot sample_snapshot_formats 9 sealed_registry \<lparr>ep_file_seq = 1, ep_offset = 40\<rparr> \<noteq> None" by code_simp
  then obtain bytes where bytes: "encode_snapshot sample_snapshot_formats 9 sealed_registry \<lparr>ep_file_seq = 1, ep_offset = 40\<rparr> = Some bytes"
    by blast
  have fmt: "sf_ok sample_snapshot_formats"
    by (auto simp: sf_ok_def sample_snapshot_formats_def bincode_round_trip_def sample_formats_def split: if_splits)
  have wf: "reg_wf sealed_registry"
    unfolding sealed_registry_def registry_run_def by (simp add: registry_apply_wf reg_wf_new del: registry_apply.simps)
  have bytes_ok: "list_all entry_bytes_ok (live_entries 9 sealed_registry)" by code_simp simp
  have one: "length (live_entries 9 sealed_registry) = 1" by code_simp
  have sealed: "lookup sealed_registry sample_segment \<noteq> None" "le_state (the (lookup sealed_registry sample_segment)) \<noteq> Deleted" by code_simp+
  show ?thesis using checkpoint_round_trip [OF fmt wf bytes_ok _ bytes, of "\<lambda>_. 2" 20] one bytes sealed by fastforce
qed

end
