(* ===== verification/CheckpointRace.thy ===== *)
theory CheckpointRace
  imports Checkpoints
begin

text \<open>
  Two reservations in flight at once.  A request waits for the group commit between its append and its fold
  (\<^verbatim>\<open>request_reserve\<close> in \<^verbatim>\<open>oceanfs-storage/src/segment/lifecycle.rs\<close>), so the request whose record comes later in the log may
  fold first, and a checkpoint triggered there covers both records.
\<close>

section \<open>Evaluation\<close>

text \<open>The reader compares the payload length as a machine word when it is evaluated.\<close>

lemma read_record_code [code]:
  "read_record fmt bs =
     (if length bs < EVENT_RECORD_HEADER_SIZE then (if bs = [] then AtEnd else BadRecord (length bs))
      else if slice bs 0 4 \<noteq> EVENT_RECORD_MAGIC then BadRecord 32
      else if bs ! 4 \<noteq> EVENT_RECORD_VERSION then BadRecord 32
      else if 4194384 < u32_from_le (slice bs 8 12) then BadRecord 32
      else
        (let kind = bs ! 5; payload_len = unat (u32_from_le (slice bs 8 12));
             record_len = EVENT_RECORD_HEADER_SIZE + payload_len + 4;
             payload = slice bs EVENT_RECORD_HEADER_SIZE (EVENT_RECORD_HEADER_SIZE + payload_len)
         in if length bs < record_len then BadRecord (length bs)
            else if u32_from_le (slice bs (record_len - 4) record_len) \<noteq> crc32 fmt (take (record_len - 4) bs) then BadRecord record_len
            else case decode_payload fmt kind (slice bs 12 28) payload of
                Some e \<Rightarrow> GoodRecord e record_len
              | None \<Rightarrow> if is_pre_pool_seal kind payload then PrePoolRecord else BadRecord record_len))"
proof -
  have "MAX_PAYLOAD_SIZE < unat w \<longleftrightarrow> 4194384 < w" for w :: u32 by (simp add: word_less_nat_alt event_format MAX_PAYLOAD_SIZE_def SEAL_MAX_CONTAINED_TAIL_BYTES_def)
  then show ?thesis by (simp add: read_record_def Let_def)
qed

section \<open>The two phases of a reservation\<close>

definition begin_reserve ::
  "formats \<Rightarrow> append_io \<Rightarrow> nat \<Rightarrow> SegmentId \<Rightarrow> SizeTier \<Rightarrow> u8 \<Rightarrow> u8 \<Rightarrow> Coordinator \<Rightarrow> (TransitionError, EventWalPos) outcome \<times> Coordinator" where
  "begin_reserve fmt io now sid tier ec_k ec_m c =
     (case validate_reserve now sid (co_registry c) of
        Ok _ \<Rightarrow>
          (case co_event_wal c of
             None \<Rightarrow> (Err DurableWriteFailed, c)
           | Some w \<Rightarrow>
               (case append_event fmt io (Reserve \<lparr>rv_segment_id = sid, rv_tier = tier, rv_ec_k = ec_k, rv_ec_m = ec_m\<rparr>) w of
                  (None, w') \<Rightarrow> (Err DurableWriteFailed, c\<lparr>co_event_wal := Some w'\<rparr>)
                | (Some pos, w') \<Rightarrow> (Ok pos, c\<lparr>co_event_wal := Some w'\<rparr>)))
      | Err e \<Rightarrow> (Err e, c)
      | Panic \<Rightarrow> (Panic, c))"

definition land_reserve :: "nat \<Rightarrow> SegmentId \<Rightarrow> SizeTier \<Rightarrow> u8 \<Rightarrow> u8 \<Rightarrow> EventWalPos \<Rightarrow> Coordinator \<Rightarrow> response" where
  "land_reserve now sid tier ec_k ec_m = land (fold_reserve now sid (reserved_metadata sid tier ec_k ec_m))"

text \<open>A request that nothing interrupts is its two phases one after the other.\<close>

lemma request_reserve_phases:
  "request_reserve fmt io now sid tier ec_k ec_m c =
     (case begin_reserve fmt io now sid tier ec_k ec_m c of
        (Ok pos, c') \<Rightarrow> land_reserve now sid tier ec_k ec_m pos c'
      | (Err e, c') \<Rightarrow> (Err e, c')
      | (Panic, c') \<Rightarrow> (Panic, c'))"
  by (auto simp: request_reserve_def begin_reserve_def land_reserve_def append_then_fold_def Let_def split: outcome.splits option.splits prod.splits)

definition other_segment :: SegmentId where "other_segment = replicate 16 2"

text \<open>Both records are in the log; the later one folds and triggers a checkpoint, then the earlier one folds.\<close>

definition raced :: "(response \<times> EventCheckpoint) option" where
  "raced =
     (case begin_reserve sample_formats (Acknowledged True) 0 other_segment Standard 4 2 (co_start (\<lambda>_. 0) 1 1000) of
        (Ok p1, c1) \<Rightarrow>
          (case begin_reserve sample_formats (Acknowledged True) 0 sample_segment Standard 4 2 c1 of
             (Ok p2, c2) \<Rightarrow>
               (case land_reserve 0 sample_segment Standard 4 2 p2 c2 of
                  (Ok _, c3) \<Rightarrow>
                    (case maybe_checkpoint sample_snapshot_formats 0 0 c3 (EventCheckpoint_open []) of
                       (c4, ck) \<Rightarrow> Some (land_reserve 0 other_segment Standard 4 2 p1 c4, ck))
                | _ \<Rightarrow> None)
           | _ \<Rightarrow> None)
      | _ \<Rightarrow> None)"

definition race_check :: "bool" where
  "race_check =
     (case raced of
        Some ((Ok _, c), ck) \<Rightarrow> lookup (co_registry c) other_segment \<noteq> None \<and>
          (case co_event_wal c of
             Some w \<Rightarrow> (case start_up sample_snapshot_formats (\<lambda>_. 0) 1 9 w ck of
                 Ok (r, _) \<Rightarrow> lookup r other_segment = None \<and> lookup r sample_segment \<noteq> None
               | _ \<Rightarrow> False)
           | None \<Rightarrow> False)
      | _ \<Rightarrow> False)"

lemma race_checked: race_check
  by code_simp

text \<open>
  C34. Two reservations append their records one after the other and both are acknowledged; the second one folds first, and the
  checkpoint it triggers covers the position of its record although the first one is not in the snapshot.  At the next start the
  registry holds the second segment and has lost the first.
\<close>

theorem checkpoint_race_loses_reservation:
  "\<exists>c ck w r folded. raced = Some ((Ok (), c), ck) \<and> lookup (co_registry c) other_segment \<noteq> None \<and> co_event_wal c = Some w \<and>
    start_up sample_snapshot_formats (\<lambda>_. 0) 1 9 w ck = Ok (r, folded) \<and> lookup r other_segment = None \<and> lookup r sample_segment \<noteq> None"
proof -
  obtain c ck where raced: "raced = Some ((Ok (), c), ck)"
    using race_checked by (auto simp: race_check_def split: option.split_asm prod.split_asm outcome.split_asm)
  note checked = race_checked [unfolded race_check_def raced option.case prod.case outcome.case]
  then obtain w where w: "co_event_wal c = Some w" by (cases "co_event_wal c") simp_all
  then obtain r folded where start: "start_up sample_snapshot_formats (\<lambda>_. 0) 1 9 w ck = Ok (r, folded)"
    using checked by (cases "start_up sample_snapshot_formats (\<lambda>_. 0) 1 9 w ck") auto
  then have "lookup (co_registry c) other_segment \<noteq> None" "lookup r other_segment = None" "lookup r sample_segment \<noteq> None"
    using checked w by simp_all
  then show ?thesis using raced w start by blast
qed

end
