(* ===== verification/MerkleTrees.thy ===== *)
theory MerkleTrees
  imports EventRecords
begin

text \<open>
  Merkle trees over segment data (\<^verbatim>\<open>oceanfs-durability/src/anti_entropy/merkle_tree.rs\<close>, \<^verbatim>\<open>merkle_proof.rs\<close>,
  \<^verbatim>\<open>merkle_root.rs\<close>): building the levels, the two ways to find the leaves in which two trees differ, and membership
  proofs.  The hash function is an argument; updating a hasher twice hashes the concatenation.
\<close>

section \<open>Building a tree\<close>

type_synonym hash_fn = "u8 list \<Rightarrow> HashOutput"

record MerkleRoot =
  mk_hash :: HashOutput
  mk_leaf_count :: u64
  mk_total_size :: u64

record MerkleTree =
  mt_root :: MerkleRoot
  mt_leaf_hashes :: "HashOutput list"
  mt_tree_levels :: "HashOutput list list"

definition DEFAULT_LEAF_SIZE :: nat where "DEFAULT_LEAF_SIZE = 64 * 1024"

function chunks_of :: "nat \<Rightarrow> 'a list \<Rightarrow> 'a list list" where
  "chunks_of n xs = (if xs = [] \<or> n = 0 then [] else take n xs # chunks_of n (drop n xs))"
  by pat_completeness auto
termination by (relation "measure (\<lambda>(n, xs). length xs)") auto

declare chunks_of.simps [simp del]

text \<open>What is hashed for each parent: the pair of its children, or the last child twice.\<close>

fun pair_inputs :: "HashOutput list \<Rightarrow> u8 list list" where
  "pair_inputs (a # b # rest) = (a @ b) # pair_inputs rest"
| "pair_inputs [a] = [a @ a]"
| "pair_inputs [] = []"

definition parents :: "hash_fn \<Rightarrow> HashOutput list \<Rightarrow> HashOutput list" where
  "parents h level = map h (pair_inputs level)"

lemma length_pair_inputs: "length (pair_inputs xs) = (length xs + 1) div 2"
  by (induction xs rule: pair_inputs.induct) auto

lemma length_parents [simp]: "length (parents h xs) = (length xs + 1) div 2"
  by (simp add: parents_def length_pair_inputs)

function build_levels :: "hash_fn \<Rightarrow> HashOutput list \<Rightarrow> HashOutput list list" where
  "build_levels h current = (if 1 < length current then current # build_levels h (parents h current) else [current])"
  by pat_completeness auto
termination by (relation "measure (\<lambda>(h, xs). length xs)") auto

declare build_levels.simps [simp del]

definition build_tree_from_leaves :: "hash_fn \<Rightarrow> HashOutput list \<Rightarrow> HashOutput list list \<times> HashOutput" where
  "build_tree_from_leaves h leaf_hashes = (let levels = build_levels h leaf_hashes in (levels, last levels ! 0))"

definition mt_build :: "hash_fn \<Rightarrow> u8 list \<Rightarrow> nat \<Rightarrow> MerkleTree option" where
  "mt_build h data leaf_size =
     (let leaf_size = if leaf_size = 0 then DEFAULT_LEAF_SIZE else leaf_size
      in if data = [] then None
         else (let leaf_hashes = map h (chunks_of leaf_size data); (levels, root_hash) = build_tree_from_leaves h leaf_hashes
               in Some \<lparr>mt_root = \<lparr>mk_hash = root_hash, mk_leaf_count = of_nat (length leaf_hashes), mk_total_size = of_nat (length data)\<rparr>,
                    mt_leaf_hashes = leaf_hashes, mt_tree_levels = levels\<rparr>))"

definition build_from_hashes :: "hash_fn \<Rightarrow> HashOutput list \<Rightarrow> MerkleTree option" where
  "build_from_hashes h leaf_hashes =
     (if leaf_hashes = [] then None
      else (let (levels, root_hash) = build_tree_from_leaves h leaf_hashes
            in Some \<lparr>mt_root = \<lparr>mk_hash = root_hash, mk_leaf_count = of_nat (length leaf_hashes), mk_total_size = 0\<rparr>,
                 mt_leaf_hashes = hd levels, mt_tree_levels = levels\<rparr>))"

definition leaf_hash :: "MerkleTree \<Rightarrow> nat \<Rightarrow> HashOutput option" where
  "leaf_hash t index = (if index < length (mt_leaf_hashes t) then Some (mt_leaf_hashes t ! index) else None)"

section \<open>Finding the leaves that differ\<close>

record LeafRange =
  rg_start :: nat
  rg_end :: nat

definition one_leaf :: "nat \<Rightarrow> LeafRange" where "one_leaf i = \<lparr>rg_start = i, rg_end = i + 1\<rparr>"

fun coalesce_loop :: "LeafRange \<Rightarrow> LeafRange list \<Rightarrow> LeafRange list" where
  "coalesce_loop current [] = [current]"
| "coalesce_loop current (r # rs) =
     (if rg_start r = rg_end current then coalesce_loop (current\<lparr>rg_end := rg_end r\<rparr>) rs else current # coalesce_loop r rs)"

definition coalesce_ranges :: "LeafRange list \<Rightarrow> LeafRange list" where
  "coalesce_ranges ranges = (case sort_key rg_start ranges of [] \<Rightarrow> [] | r # rs \<Rightarrow> coalesce_loop r rs)"

function run_end :: "(nat \<Rightarrow> bool) \<Rightarrow> nat \<Rightarrow> nat \<Rightarrow> nat" where
  "run_end d i n = (if i < n \<and> d i then run_end d (i + 1) n else i)"
  by pat_completeness auto
termination by (relation "measure (\<lambda>(d, i, n). n - i)") auto

declare run_end.simps [simp del]

lemma run_end_ge: "i \<le> run_end d i n"
proof (induction d i n rule: run_end.induct)
  case (1 d i n)
  then show ?case by (subst run_end.simps) auto
qed

function diff_scan :: "(nat \<Rightarrow> bool) \<Rightarrow> nat \<Rightarrow> nat \<Rightarrow> LeafRange list" where
  "diff_scan d i n =
     (if i < n then
        (if d i then \<lparr>rg_start = i, rg_end = run_end d (i + 1) n\<rparr> # diff_scan d (run_end d (i + 1) n) n else diff_scan d (i + 1) n)
      else [])"
  by pat_completeness auto
termination
  by (relation "measure (\<lambda>(d, i, n). n - i)") (use run_end_ge in \<open>fastforce intro: diff_less_mono2 dest: Suc_le_lessD\<close>)+

declare diff_scan.simps [simp del]

definition mt_diff :: "MerkleTree \<Rightarrow> MerkleTree \<Rightarrow> LeafRange list" where
  "mt_diff t other =
     (let mine = mt_leaf_hashes t; theirs = mt_leaf_hashes other; max_leaves = min (length mine) (length theirs)
      in if mk_hash (mt_root t) = mk_hash (mt_root other) then []
         else if max_leaves > 4 then coalesce_ranges (map one_leaf (filter (\<lambda>i. mine ! i \<noteq> theirs ! i) [0..<max_leaves]))
         else diff_scan (\<lambda>i. mine ! i \<noteq> theirs ! i) 0 max_leaves @ map one_leaf [max_leaves..<length mine])"

text \<open>Indexing a level that the other tree does not have panics.\<close>

fun descend_diff_inner :: "HashOutput list list \<Rightarrow> HashOutput list list \<Rightarrow> nat \<Rightarrow> nat \<Rightarrow> nat \<Rightarrow> (unit, LeafRange list) outcome" where
  "descend_diff_inner A B 0 j n =
     (if A = [] then Panic
      else if \<not> j < length (A ! 0) then Ok []
      else if B = [] then Panic
      else Ok (if j < length (B ! 0) \<and> A ! 0 ! j \<noteq> B ! 0 ! j then [one_leaf j] else []))"
| "descend_diff_inner A B (Suc l) j n =
     bind_outcome
       (if \<not> Suc l < length A then Panic
        else if \<not> j < length (A ! Suc l) then Ok False
        else if \<not> Suc l < length B then Panic
        else Ok (j < length (B ! Suc l) \<and> A ! Suc l ! j = B ! Suc l ! j))
       (\<lambda>same. if same then Ok []
         else (let left_leaf_count = min (2 ^ l) n
               in bind_outcome (descend_diff_inner A B l (j * 2) left_leaf_count) (\<lambda>left.
                    if left_leaf_count < n
                    then bind_outcome (descend_diff_inner A B l (j * 2 + 1) (n - left_leaf_count)) (\<lambda>right. Ok (left @ right))
                    else Ok left)))"

definition descend_diff :: "MerkleTree \<Rightarrow> MerkleTree \<Rightarrow> (unit, LeafRange list) outcome" where
  "descend_diff t other =
     (if mk_hash (mt_root t) = mk_hash (mt_root other) then Ok []
      else
        (let max_level = length (mt_tree_levels t) - 1; mine = mt_leaf_hashes t; theirs = mt_leaf_hashes other
         in bind_outcome
              (if 0 < max_level then descend_diff_inner (mt_tree_levels t) (mt_tree_levels other) max_level 0 (length mine)
               else Ok (map one_leaf (filter (\<lambda>i. mine ! i \<noteq> theirs ! i) [0..<min (length mine) (length theirs)])))
              (\<lambda>divergences. Ok (coalesce_ranges divergences))))"

section \<open>Membership proofs\<close>

record MerkleProof =
  pf_leaf_index :: nat
  pf_leaf_hash :: HashOutput
  pf_siblings :: "HashOutput list"
  pf_root_hash :: HashOutput

fun proof_siblings :: "HashOutput list list \<Rightarrow> nat \<Rightarrow> HashOutput list" where
  "proof_siblings (level # next_level # rest) i =
     (let sibling = if i mod 2 = 0 then i + 1 else i - 1
      in (if sibling < length level then [level ! sibling] else []) @ proof_siblings (next_level # rest) (i div 2))"
| "proof_siblings _ i = []"

definition generate_proof :: "MerkleTree \<Rightarrow> nat \<Rightarrow> MerkleProof option" where
  "generate_proof t leaf_index =
     (if length (mt_leaf_hashes t) \<le> leaf_index then None
      else Some \<lparr>pf_leaf_index = leaf_index, pf_leaf_hash = mt_leaf_hashes t ! leaf_index,
        pf_siblings = proof_siblings (mt_tree_levels t) leaf_index, pf_root_hash = mk_hash (mt_root t)\<rparr>)"

fun climb :: "hash_fn \<Rightarrow> HashOutput \<Rightarrow> nat \<Rightarrow> HashOutput list \<Rightarrow> HashOutput" where
  "climb h current i [] = current"
| "climb h current i (s # ss) = climb h (h (if i mod 2 = 0 then current @ s else s @ current)) (i div 2) ss"

definition verify_proof :: "hash_fn \<Rightarrow> MerkleTree \<Rightarrow> MerkleProof \<Rightarrow> bool" where
  "verify_proof h t p \<longleftrightarrow> pf_root_hash p = mk_hash (mt_root t) \<and> pf_leaf_index p < length (mt_leaf_hashes t) \<and>
     climb h (pf_leaf_hash p) (pf_leaf_index p) (pf_siblings p) = mk_hash (mt_root t)"

section \<open>Shape of the levels\<close>

lemma build_levels_nth_0 [simp]: "build_levels h xs \<noteq> []" "build_levels h xs ! 0 = xs" "hd (build_levels h xs) = xs"
  by (subst build_levels.simps; simp)+

lemma pair_inputs_nth:
  "j < (length xs + 1) div 2 \<Longrightarrow> pair_inputs xs ! j = xs ! (2 * j) @ xs ! (if 2 * j + 1 < length xs then 2 * j + 1 else 2 * j)"
proof (induction xs arbitrary: j rule: pair_inputs.induct)
  case (1 a b rest)
  then show ?case by (cases j) auto
qed auto

lemma build_levels_Suc: "Suc l < length (build_levels h xs) \<Longrightarrow> build_levels h xs ! Suc l = parents h (build_levels h xs ! l)"
proof (induction h xs arbitrary: l rule: build_levels.induct)
  case (1 h xs)
  have *: "build_levels h xs = (if 1 < length xs then xs # build_levels h (parents h xs) else [xs])" by (rule build_levels.simps)
  show ?case
  proof (cases l)
    case 0
    then show ?thesis using 1(2) by (simp add: * split: if_splits)
  next
    case (Suc k)
    then show ?thesis using 1 by (auto simp: * split: if_splits)
  qed
qed

lemma level_index: "l < length (build_levels h xs) \<Longrightarrow> k < length (build_levels h xs ! l) \<longleftrightarrow> k * 2 ^ l < length xs"
proof (induction l arbitrary: k)
  case (Suc l)
  have "k < length (build_levels h xs ! Suc l) \<longleftrightarrow> k * 2 < length (build_levels h xs ! l)"
    unfolding build_levels_Suc [OF Suc.prems] by (simp; presburger)
  then show ?case using Suc by (simp add: mult.assoc)
qed simp

lemma build_levels_height:
  "length xs = length ys \<Longrightarrow> length (build_levels h xs) = length (build_levels h ys)"
proof (induction h xs arbitrary: ys rule: build_levels.induct)
  case (1 h xs)
  show ?case using 1(1) [of "parents h ys"] 1(2) by (subst (1 2) build_levels.simps) simp
qed

lemma last_level_single: "xs \<noteq> [] \<Longrightarrow> length (last (build_levels h xs)) = 1"
proof (induction h xs rule: build_levels.induct)
  case (1 h xs)
  show ?case
  proof (cases "1 < length xs")
    case True
    then have "parents h xs \<noteq> []" by (simp flip: length_greater_0_conv)
    then show ?thesis using 1(1) True by (subst build_levels.simps) simp
  next
    case False
    then show ?thesis using 1(2) by (subst build_levels.simps) (cases xs; simp)
  qed
qed

lemma lower_level_wide: "Suc l < length (build_levels h xs) \<Longrightarrow> 1 < length (build_levels h xs ! l)"
proof (induction h xs arbitrary: l rule: build_levels.induct)
  case (1 h xs)
  have *: "build_levels h xs = (if 1 < length xs then xs # build_levels h (parents h xs) else [xs])" by (rule build_levels.simps)
  show ?case
  proof (cases l)
    case 0
    then show ?thesis using 1(2) by (simp add: * split: if_splits)
  next
    case (Suc k)
    then show ?thesis using 1 by (auto simp: * split: if_splits)
  qed
qed

lemma top_covers: "length xs \<le> 2 ^ (length (build_levels h xs) - 1)"
proof (cases "xs = []")
  case False
  let ?l = "length (build_levels h xs) - 1"
  have "length (build_levels h xs ! ?l) = 1" using last_level_single [OF False] by (simp add: last_conv_nth)
  then show ?thesis using level_index [of ?l h xs 1] by simp
qed simp

section \<open>The descent finds exactly the differences\<close>

definition node_inputs :: "HashOutput list list \<Rightarrow> u8 list list" where
  "node_inputs levels = concat (map pair_inputs (butlast levels))"

definition no_collision :: "hash_fn \<Rightarrow> HashOutput list list \<Rightarrow> HashOutput list list \<Rightarrow> bool" where
  "no_collision h A B \<longleftrightarrow> (\<forall>x \<in> set (node_inputs A). \<forall>y \<in> set (node_inputs B). h x = h y \<longrightarrow> x = y)"

definition hash32 :: "hash_fn \<Rightarrow> bool" where "hash32 h \<longleftrightarrow> (\<forall>x. length (h x) = 32)"

lemma levels_32:
  assumes "hash32 h" "\<forall>x \<in> set xs. length x = 32" "l < length (build_levels h xs)" "x \<in> set (build_levels h xs ! l)"
  shows "length x = 32"
proof (cases l)
  case 0
  then show ?thesis using assms(2,4) by simp
next
  case (Suc k)
  then show ?thesis using assms(1,3,4) build_levels_Suc [of k h xs] by (auto simp: parents_def hash32_def)
qed

lemma node_input_mem:
  assumes "Suc l < length (build_levels h xs)" "j < length (build_levels h xs ! Suc l)"
  shows "pair_inputs (build_levels h xs ! l) ! j \<in> set (node_inputs (build_levels h xs))"
    and "build_levels h xs ! Suc l ! j = h (pair_inputs (build_levels h xs ! l) ! j)"
proof -
  let ?L = "build_levels h xs"
  have j: "j < length (pair_inputs (?L ! l))" using assms(2) by (simp add: build_levels_Suc [OF assms(1)] length_pair_inputs)
  have "l < length (butlast ?L)" using assms(1) by simp
  then have "?L ! l \<in> set (butlast ?L)" using nth_mem [of l "butlast ?L"] by (simp add: nth_butlast)
  then show "pair_inputs (?L ! l) ! j \<in> set (node_inputs ?L)" using j by (auto simp: node_inputs_def intro!: bexI [of _ "?L ! l"])
  show "?L ! Suc l ! j = h (pair_inputs (?L ! l) ! j)" using j by (simp add: build_levels_Suc [OF assms(1)] parents_def)
qed

lemma same_node_same_leaves:
  assumes "hash32 h" "length xs = length ys" "\<forall>x \<in> set xs. length x = 32" "\<forall>y \<in> set ys. length y = 32"
    and "no_collision h (build_levels h xs) (build_levels h ys)"
    and "l < length (build_levels h xs)" "j * 2 ^ l < length xs" "build_levels h xs ! l ! j = build_levels h ys ! l ! j"
    and "j * 2 ^ l \<le> i" "i < (j + 1) * 2 ^ l" "i < length xs"
  shows "xs ! i = ys ! i"
  using assms(6-)
proof (induction l arbitrary: j)
  case 0
  then have "i = j" by simp
  then show ?case using 0 by simp
next
  case (Suc l)
  let ?A = "build_levels h xs" and ?B = "build_levels h ys"
  have lB: "Suc l < length ?B" using Suc.prems(1) build_levels_height [OF assms(2)] by simp
  have jA: "j < length (?A ! Suc l)" and jB: "j < length (?B ! Suc l)"
    using Suc.prems(1,2) lB assms(2) by (simp_all add: level_index)
  note A = node_input_mem [OF Suc.prems(1) jA] and B = node_input_mem [OF lB jB]
  have eq: "pair_inputs (?A ! l) ! j = pair_inputs (?B ! l) ! j"
    using assms(5) A B Suc.prems(3) by (metis no_collision_def)
  have len: "length (?A ! l) = length (?B ! l)"
    using level_index [of l h xs] level_index [of l h ys] Suc.prems(1) lB assms(2) by (metis Suc_lessD linorder_neqE_nat less_irrefl)
  have j2: "j < (length (?A ! l) + 1) div 2" using jA by (simp add: build_levels_Suc [OF Suc.prems(1)])
  have both: "2 * j < length (?A ! l)" using j2 by linarith
  have l32: "length (?A ! l ! k) = 32 \<and> length (?B ! l ! k) = 32" if "k < length (?A ! l)" for k
    using that len levels_32 [OF assms(1,3), of l] levels_32 [OF assms(1,4), of l] Suc.prems(1) lB by (simp add: nth_mem)
  have kids: "?A ! l ! (2 * j) = ?B ! l ! (2 * j)" "2 * j + 1 < length (?A ! l) \<Longrightarrow> ?A ! l ! (2 * j + 1) = ?B ! l ! (2 * j + 1)"
    using eq j2 len l32 [OF both] by (auto simp: pair_inputs_nth split: if_splits)
  show ?case
  proof (cases "i < (2 * j + 1) * 2 ^ l")
    case True
    then show ?thesis using Suc.IH [of "2 * j"] Suc.prems kids(1) by (simp add: algebra_simps)
  next
    case False
    then have "2 * j + 1 < length (?A ! l)" using Suc.prems(1,6) by (simp add: level_index)
    then show ?thesis using Suc.IH [of "2 * j + 1"] Suc.prems kids(2) False by (simp add: algebra_simps)
  qed
qed

lemma filter_upt_none: "(\<And>i. a \<le> i \<Longrightarrow> i < b \<Longrightarrow> \<not> P i) \<Longrightarrow> filter P [a..<b] = []"
  by (simp add: filter_empty_conv)

lemma descend_diff_inner_correct:
  assumes "hash32 h" "length xs = length ys" "\<forall>x \<in> set xs. length x = 32" "\<forall>y \<in> set ys. length y = 32"
    and "no_collision h (build_levels h xs) (build_levels h ys)"
    and "l < length (build_levels h xs)" "j * 2 ^ l < length xs"
  shows "descend_diff_inner (build_levels h xs) (build_levels h ys) l j (min (2 ^ l) (length xs - j * 2 ^ l)) =
    Ok (map one_leaf (filter (\<lambda>i. xs ! i \<noteq> ys ! i) [j * 2 ^ l ..< j * 2 ^ l + min (2 ^ l) (length xs - j * 2 ^ l)]))"
  using assms(6-)
proof (induction l arbitrary: j)
  case 0
  then show ?case using assms(2) by simp
next
  case (Suc l)
  let ?A = "build_levels h xs" and ?B = "build_levels h ys" and ?n = "min (2 ^ Suc l) (length xs - j * 2 ^ Suc l)"
  let ?f = "\<lambda>a b. map one_leaf (filter (\<lambda>i. xs ! i \<noteq> ys ! i) [a..<b])"
  have lB: "Suc l < length ?B" using Suc.prems(1) build_levels_height [OF assms(2)] by simp
  have jA: "j < length (?A ! Suc l)" and jB: "j < length (?B ! Suc l)"
    using Suc.prems(1,2) lB assms(2) by (simp_all add: level_index)
  show ?case
  proof (cases "?A ! Suc l ! j = ?B ! Suc l ! j")
    case True
    have "xs ! i = ys ! i" if "j * 2 ^ Suc l \<le> i" "i < j * 2 ^ Suc l + ?n" for i
      using that same_node_same_leaves [OF assms(1-5) Suc.prems True] by simp
    then have "?f (j * 2 ^ Suc l) (j * 2 ^ Suc l + ?n) = []" by (simp add: filter_upt_none)
    then show ?thesis using True Suc.prems(1) lB jA jB by simp
  next
    case False
    let ?a = "j * 2 ^ Suc l"
    have a: "j * 2 * 2 ^ l = ?a" "(j * 2 + 1) * 2 ^ l = ?a + 2 ^ l" by (simp_all add: algebra_simps)
    have left: "descend_diff_inner ?A ?B l (j * 2) (min (2 ^ l) ?n) = Ok (?f ?a (?a + min (2 ^ l) ?n))"
      using Suc.IH [of "j * 2"] Suc.prems unfolding a by (simp add: min.assoc [symmetric])
    show ?thesis
    proof (cases "2 ^ l < ?n")
      case True
      then have r: "(j * 2 + 1) * 2 ^ l < length xs" "min (2 ^ l) (length xs - (j * 2 + 1) * 2 ^ l) = ?n - 2 ^ l"
        and e: "?a + 2 ^ l + (?n - 2 ^ l) = ?a + ?n" unfolding a by auto
      have right: "descend_diff_inner ?A ?B l (j * 2 + 1) (?n - 2 ^ l) = Ok (?f (?a + 2 ^ l) (?a + ?n))"
        using Suc.IH [of "j * 2 + 1", unfolded r(2), unfolded a e] Suc.prems(1) r(1) [unfolded a] by simp
      have "?f ?a (?a + ?n) = ?f ?a (?a + 2 ^ l) @ ?f (?a + 2 ^ l) (?a + ?n)"
        using upt_add_eq_append [of ?a "?a + 2 ^ l" "?n - 2 ^ l", unfolded e] by simp
      then show ?thesis using False True Suc.prems(1) lB jA jB left right by (simp add: min_def Let_def)
    next
      case nright: False
      define n where "n = ?n"
      have "min (2 ^ l) n = n" using nright unfolding n_def by simp
      then show ?thesis using False Suc.prems(1) lB jA jB left unfolding n_def [symmetric] by (simp add: Let_def)
    qed
  qed
qed

lemma coalesce_scan:
  "coalesce_loop \<lparr>rg_start = s, rg_end = i\<rparr> (map one_leaf (filter d [i..<n])) =
     \<lparr>rg_start = s, rg_end = run_end d i n\<rparr> # diff_scan d (run_end d i n) n \<and>
   (\<forall>s e. e < i \<longrightarrow> coalesce_loop \<lparr>rg_start = s, rg_end = e\<rparr> (map one_leaf (filter d [i..<n])) =
     \<lparr>rg_start = s, rg_end = e\<rparr> # diff_scan d i n)"
proof (induction "n - i" arbitrary: i s)
  case 0
  then have "\<not> i < n" by simp
  then show ?case by (subst (1 2) run_end.simps, subst (1 2) diff_scan.simps) simp
next
  case (Suc k)
  then have i: "i < n" "[i..<n] = i # [i + 1..<n]" by (simp_all add: upt_conv_Cons)
  have IH: "coalesce_loop \<lparr>rg_start = s, rg_end = i + 1\<rparr> (map one_leaf (filter d [i + 1..<n])) =
       \<lparr>rg_start = s, rg_end = run_end d (i + 1) n\<rparr> # diff_scan d (run_end d (i + 1) n) n"
     "e < i + 1 \<Longrightarrow> coalesce_loop \<lparr>rg_start = s, rg_end = e\<rparr> (map one_leaf (filter d [i + 1..<n])) =
       \<lparr>rg_start = s, rg_end = e\<rparr> # diff_scan d (i + 1) n" for s e
    using Suc.hyps(1) [of "i + 1"] Suc.hyps(2) by simp_all
  have "run_end d i n = (if d i then run_end d (i + 1) n else i)" by (subst run_end.simps) (use i in simp)
  moreover have "diff_scan d i n = (if d i then \<lparr>rg_start = i, rg_end = run_end d (i + 1) n\<rparr> # diff_scan d (run_end d (i + 1) n) n
      else diff_scan d (i + 1) n)" by (subst diff_scan.simps) (use i in simp)
  ultimately show ?case using IH unfolding i(2) by (cases "d i") (simp_all add: one_leaf_def)
qed

lemma coalesce_leaves: "coalesce_ranges (map one_leaf (filter d [0..<n])) = diff_scan d 0 n"
proof -
  have "coalesce_ranges (map one_leaf (filter d [i..<n])) = diff_scan d i n" for i
  proof (induction "n - i" arbitrary: i)
    case 0
    then show ?case by (subst diff_scan.simps) (simp add: coalesce_ranges_def)
  next
    case (Suc k)
    then have i: "i < n" "[i..<n] = i # [i + 1..<n]" by (simp_all add: upt_conv_Cons)
    have sorted: "sort_key rg_start (map one_leaf (filter d [j..<n])) = map one_leaf (filter d [j..<n])" for j
      by (rule sort_key_id_if_sorted) (simp add: one_leaf_def comp_def sorted_wrt_filter)
    have "diff_scan d i n = (if d i then \<lparr>rg_start = i, rg_end = run_end d (i + 1) n\<rparr> # diff_scan d (run_end d (i + 1) n) n
      else diff_scan d (i + 1) n)" by (subst diff_scan.simps) (use i in simp)
    then show ?case
      using Suc.hyps(1) [of "i + 1"] Suc.hyps(2) coalesce_scan [of i "i + 1" d n] i(2) sorted [of i]
      by (auto simp: coalesce_ranges_def one_leaf_def)
  qed
  then show ?thesis by blast
qed

lemma run_end_stops: "run_end d i n \<le> max i n \<and> (\<forall>k. i \<le> k \<and> k < run_end d i n \<longrightarrow> d k)"
proof (induction d i n rule: run_end.induct)
  case (1 d i n)
  show ?case
  proof (cases "i < n \<and> d i")
    case True
    then have "run_end d i n = run_end d (i + 1) n" by (subst run_end.simps) simp
    then show ?thesis using 1 True by (auto simp: Suc_le_eq) (metis le_neq_implies_less)
  next
    case False
    then show ?thesis by (subst (1 2) run_end.simps) auto
  qed
qed

lemma diff_scan_covers:
  "(\<exists>r \<in> set (diff_scan d i n). rg_start r \<le> k \<and> k < rg_end r) \<longleftrightarrow> i \<le> k \<and> k < n \<and> d k"
proof (induction d i n rule: diff_scan.induct)
  case (1 d i n)
  show ?case
  proof (cases "i < n")
    case True
    show ?thesis
    proof (cases "d i")
      case d: True
      let ?e = "run_end d (i + 1) n"
      have e: "i < ?e" "?e \<le> n" "\<And>k. i \<le> k \<Longrightarrow> k < ?e \<Longrightarrow> d k"
        using run_end_ge [of "i + 1" d n] run_end_stops [of d "i + 1" n] True d by (auto simp: Suc_le_eq) (metis le_neq_implies_less)
      have "diff_scan d i n = \<lparr>rg_start = i, rg_end = ?e\<rparr> # diff_scan d ?e n" by (subst diff_scan.simps) (simp add: True d)
      then show ?thesis using 1(1) [OF True d] e by (auto dest: order.strict_trans1)
    next
      case d: False
      have "diff_scan d i n = diff_scan d (i + 1) n" by (subst diff_scan.simps) (simp add: True d)
      then show ?thesis using 1(2) [OF True d] d by (auto simp: Suc_le_eq)
    qed
  qed (subst diff_scan.simps, simp)
qed

text \<open>The first leaves of the maximal runs of leaves with a property.\<close>

definition run_starts :: "(nat \<Rightarrow> bool) \<Rightarrow> nat \<Rightarrow> nat list" where
  "run_starts d n = filter (\<lambda>i. d i \<and> (i = 0 \<or> \<not> d (i - 1))) [0..<n]"

lemma run_end_at: "run_end d i n < n \<Longrightarrow> \<not> d (run_end d i n)"
proof (induction d i n rule: run_end.induct)
  case (1 d i n)
  then show ?case by (cases "i < n \<and> d i") (simp_all add: run_end.simps[of d i n] split: if_splits)
qed

lemma diff_scan_starts: "map rg_start (diff_scan d i n) = filter (\<lambda>j. d j \<and> (j = i \<or> \<not> d (j - 1))) [i..<n]"
proof (induction d i n rule: diff_scan.induct)
  case (1 d i n)
  show ?case
  proof (cases "i < n \<and> d i")
    case True
    let ?e = "run_end d (i + 1) n"
    have e: "i < ?e" "?e \<le> n" using run_end_ge[of "i + 1" d n] run_end_stops[of d "i + 1" n] True by auto
    have run: "d k" if "i \<le> k" "k < ?e" for k
      using run_end_stops[of d "i + 1" n] True that by (cases "k = i") auto
    have split: "[i..<n] = i # [Suc i..<?e] @ [?e..<n]" using e(1,2) True upt_add_eq_append[of "Suc i" ?e "n - ?e"] by (simp add: upt_conv_Cons)
    have "filter (\<lambda>j. d j \<and> (j = i \<or> \<not> d (j - 1))) [Suc i..<?e] = []" using run by (auto simp: filter_empty_conv)
    moreover have "filter (\<lambda>j. d j \<and> (j = i \<or> \<not> d (j - 1))) [?e..<n] = filter (\<lambda>j. d j \<and> (j = ?e \<or> \<not> d (j - 1))) [?e..<n]"
      using run_end_at[of d "i + 1" n] e(1) by (intro filter_cong) auto
    ultimately show ?thesis using True 1(1) unfolding split by (subst diff_scan.simps) simp
  next
    case False
    show ?thesis
    proof (cases "i < n")
      case True
      have "filter (\<lambda>j. d j \<and> (j = i \<or> \<not> d (j - 1))) [Suc i..<n] = filter (\<lambda>j. d j \<and> (j = i + 1 \<or> \<not> d (j - 1))) [i + 1..<n]"
        using False True by (auto intro!: filter_cong)
      then show ?thesis using True False 1(2) by (subst diff_scan.simps) (simp add: upt_conv_Cons)
    qed (subst diff_scan.simps, simp)
  qed
qed

lemma diff_scan_run_starts: "map rg_start (diff_scan d 0 n) = run_starts d n"
  using diff_scan_starts[of d 0 n] by (simp add: run_starts_def)

lemma diff_scan_none: "(\<And>i. i < n \<Longrightarrow> \<not> d i) \<Longrightarrow> diff_scan d 0 n = []"
  using coalesce_leaves [of d n] by (simp add: filter_upt_none coalesce_ranges_def)

text \<open>A tree over given leaf hashes, however it was built.\<close>

definition tree_of :: "hash_fn \<Rightarrow> HashOutput list \<Rightarrow> MerkleTree \<Rightarrow> bool" where
  "tree_of h xs t \<longleftrightarrow> xs \<noteq> [] \<and> mt_leaf_hashes t = xs \<and> mt_tree_levels t = build_levels h xs \<and>
     mk_hash (mt_root t) = last (build_levels h xs) ! 0"

lemma tree_ofD:
  assumes "tree_of h xs t"
  shows "xs \<noteq> []" "mt_leaf_hashes t = xs" "mt_tree_levels t = build_levels h xs" "mk_hash (mt_root t) = last (build_levels h xs) ! 0"
  using assms by (simp_all add: tree_of_def)

lemma tree_of_hashes: "build_from_hashes h xs = Some t \<Longrightarrow> tree_of h xs t"
  by (auto simp: tree_of_def build_from_hashes_def build_tree_from_leaves_def Let_def split: if_splits)

lemma tree_of_hashes_ex: "xs \<noteq> [] \<Longrightarrow> \<exists>t. build_from_hashes h xs = Some t \<and> tree_of h xs t"
  by (auto simp: tree_of_def build_from_hashes_def build_tree_from_leaves_def Let_def)

lemma tree_of_data: "mt_build h data n = Some t \<Longrightarrow> 0 < n \<Longrightarrow> data \<noteq> [] \<and> tree_of h (map h (chunks_of n data)) t"
  by (auto simp: tree_of_def mt_build_def build_tree_from_leaves_def Let_def chunks_of.simps [of n data] split: if_splits)

lemma top_same_leaves:
  assumes "hash32 h" "length xs = length ys" "\<forall>x \<in> set xs. length x = 32" "\<forall>y \<in> set ys. length y = 32"
    and "no_collision h (build_levels h xs) (build_levels h ys)" "xs \<noteq> []"
    and "last (build_levels h xs) ! 0 = last (build_levels h ys) ! 0" "i < length xs"
  shows "xs ! i = ys ! i"
proof (rule same_node_same_leaves [OF assms(1-5), of "length (build_levels h xs) - 1" 0])
  show "build_levels h xs ! (length (build_levels h xs) - 1) ! 0 = build_levels h ys ! (length (build_levels h xs) - 1) ! 0"
    using assms(7) build_levels_height [OF assms(2), of h] by (simp add: last_conv_nth)
  show "i < (0 + 1) * 2 ^ (length (build_levels h xs) - 1)" using assms(8) top_covers [of xs h] by simp
qed (use assms(6,8) in \<open>auto simp: diff_less\<close>)

lemma descent_reference:
  assumes "hash32 h" "length xs = length ys" "\<forall>x \<in> set xs. length x = 32" "\<forall>y \<in> set ys. length y = 32"
    and "no_collision h (build_levels h xs) (build_levels h ys)"
    and "tree_of h xs t" "tree_of h ys t'"
  shows "descend_diff t t' = Ok (diff_scan (\<lambda>i. xs ! i \<noteq> ys ! i) 0 (length xs))"
    and "mt_diff t t' = diff_scan (\<lambda>i. xs ! i \<noteq> ys ! i) 0 (length xs)"
proof -
  note t = tree_ofD [OF assms(6)] and t' = tree_ofD [OF assms(7)]
  let ?d = "\<lambda>i. xs ! i \<noteq> ys ! i" and ?l = "length (build_levels h xs) - 1"
  have eq: "diff_scan ?d 0 (length xs) = []" if "mk_hash (mt_root t) = mk_hash (mt_root t')"
    using that top_same_leaves [OF assms(1-5) t(1)] by (intro diff_scan_none) (simp add: t t')
  have "min (2 ^ ?l) (length xs - 0 * 2 ^ ?l) = length xs" using top_covers [of xs h] by simp
  then have inner: "descend_diff_inner (build_levels h xs) (build_levels h ys) ?l 0 (length xs) = Ok (map one_leaf (filter ?d [0..<length xs]))"
    using descend_diff_inner_correct [OF assms(1-5), of ?l 0] t(1) by simp
  show "mt_diff t t' = diff_scan ?d 0 (length xs)"
    using eq assms(2) by (auto simp: mt_diff_def t t' Let_def coalesce_leaves)
  show "descend_diff t t' = Ok (diff_scan ?d 0 (length xs))"
    using eq inner assms(2) by (auto simp: descend_diff_def t t' Let_def coalesce_leaves)
qed

text \<open>
  C14. For two trees over the same number of leaves, the descent that skips subtrees with equal hashes and the comparison of all
  leaves return the same list of ranges without a panic, and these ranges cover exactly the leaves that differ, unless two
  different inputs hashed inside the two trees collide.
\<close>

theorem descend_diff_exact:
  assumes "hash32 h" and "length xs = length ys" and "\<forall>x \<in> set xs. length x = 32" and "\<forall>y \<in> set ys. length y = 32"
    and "no_collision h (build_levels h xs) (build_levels h ys)"
    and "build_from_hashes h xs = Some t" and "build_from_hashes h ys = Some t'"
  shows "\<exists>ranges. descend_diff t t' = Ok ranges \<and> mt_diff t t' = ranges \<and>
    (\<forall>i. (\<exists>r \<in> set ranges. rg_start r \<le> i \<and> i < rg_end r) \<longleftrightarrow> i < length xs \<and> xs ! i \<noteq> ys ! i)"
  using descent_reference [OF assms(1-5) tree_of_hashes [OF assms(6)] tree_of_hashes [OF assms(7)]] diff_scan_covers [of "\<lambda>i. xs ! i \<noteq> ys ! i" 0 "length xs"] by simp

definition sample_hash :: hash_fn where "sample_hash bs = take 32 (drop 16 (bs @ replicate 48 0))"

theorem descend_diff_exact_witness:
  "\<exists>t t' ranges. build_from_hashes sample_hash [replicate 32 1, replicate 32 2] = Some t \<and>
    build_from_hashes sample_hash [replicate 32 1, replicate 32 3] = Some t' \<and> descend_diff t t' = Ok ranges \<and>
    (\<exists>r \<in> set ranges. rg_start r \<le> 1 \<and> 1 < rg_end r)"
proof -
  let ?xs = "[replicate 32 1, replicate 32 2] :: HashOutput list" and ?ys = "[replicate 32 1, replicate 32 3] :: HashOutput list"
  obtain t t' where t: "build_from_hashes sample_hash ?xs = Some t" "build_from_hashes sample_hash ?ys = Some t'"
    by (auto simp: build_from_hashes_def build_tree_from_leaves_def Let_def)
  have "hash32 sample_hash" by (auto simp: hash32_def sample_hash_def)
  moreover have "no_collision sample_hash (build_levels sample_hash ?xs) (build_levels sample_hash ?ys)" by code_simp
  ultimately show ?thesis using descend_diff_exact [of sample_hash ?xs ?ys t t'] t by fastforce
qed

section \<open>Trees of different heights\<close>

lemma bind_outcome_Panic: "bind_outcome x f = Panic \<longleftrightarrow> x = Panic \<or> (\<exists>a. x = Ok a \<and> f a = Panic)"
  by (cases x) auto

lemma bind_outcome_Err: "bind_outcome x f = Err e \<longleftrightarrow> x = Err e \<or> (\<exists>a. x = Ok a \<and> f a = Err e)"
  by (cases x) auto

lemma descend_diff_inner_no_panic:
  "l < length A \<Longrightarrow> l < length B \<Longrightarrow> descend_diff_inner A B l j n \<noteq> Panic"
proof (induction l arbitrary: j n)
  case (Suc l)
  then have IH: "descend_diff_inner A B l j n \<noteq> Panic" for j n by simp
  show ?case using Suc.prems IH by (auto simp: Let_def bind_outcome_Panic split: if_splits)
qed auto

lemma descent_panics:
  assumes "tree_of h xs t" "tree_of h ys t'"
  shows "descend_diff t t' = Panic \<longleftrightarrow>
    mk_hash (mt_root t) \<noteq> mk_hash (mt_root t') \<and> length (mt_tree_levels t') < length (mt_tree_levels t)"
proof -
  note t = tree_ofD [OF assms(1)] and t' = tree_ofD [OF assms(2)]
  let ?A = "build_levels h xs" and ?B = "build_levels h ys"
  define l where "l = length ?A - 1"
  have "length ?A \<noteq> 0" by simp
  then have lA: "length ?A = Suc l" by (simp add: l_def)
  have B: "0 < length ?B" by simp
  have root: "0 < length (?A ! l)" using last_level_single [OF t(1), of h] by (simp add: last_conv_nth l_def)
  have "descend_diff_inner ?A ?B l 0 n = Panic \<longleftrightarrow> length ?B \<le> l" if "0 < l" for n
    using descend_diff_inner_no_panic [of l ?A ?B 0 n] lA root that by (cases l; cases "l < length ?B") auto
  then show ?thesis using B lA by (auto simp: descend_diff_def t t' Let_def bind_outcome_Panic)
qed

text \<open>
  The descent panics exactly when the roots differ and the local tree has more levels than the one built from the leaf
  hashes that a peer sent: it then indexes a level that the other tree does not have.
\<close>

theorem descend_diff_panics:
  assumes "build_from_hashes h xs = Some t" and "build_from_hashes h ys = Some t'"
  shows "descend_diff t t' = Panic \<longleftrightarrow>
    mk_hash (mt_root t) \<noteq> mk_hash (mt_root t') \<and> length (mt_tree_levels t') < length (mt_tree_levels t)"
  by (rule descent_panics) (rule tree_of_hashes [OF assms(1)] tree_of_hashes [OF assms(2)])+

theorem descend_diff_panics_witness:
  "\<exists>t t'. build_from_hashes sample_hash [replicate 32 1, replicate 32 2] = Some t \<and>
    build_from_hashes sample_hash [replicate 32 3] = Some t' \<and> descend_diff t t' = Panic"
proof -
  let ?xs = "[replicate 32 1, replicate 32 2] :: HashOutput list" and ?ys = "[replicate 32 3] :: HashOutput list"
  obtain t t' where t: "build_from_hashes sample_hash ?xs = Some t" "build_from_hashes sample_hash ?ys = Some t'"
    by (auto simp: build_from_hashes_def build_tree_from_leaves_def Let_def)
  have "last (build_levels sample_hash ?xs) ! 0 \<noteq> last (build_levels sample_hash ?ys) ! 0"
    "length (build_levels sample_hash ?ys) < length (build_levels sample_hash ?xs)" by code_simp+
  then show ?thesis
    using descend_diff_panics [OF t] t tree_ofD [OF tree_of_hashes [OF t(1)]] tree_ofD [OF tree_of_hashes [OF t(2)]] by auto
qed

section \<open>Well-formed trees and proofs\<close>

lemma ceil_div_step:
  fixes m n :: nat
  assumes "0 < n" "0 < m"
  shows "Suc ((m - n + n - 1) div n) = (m + n - 1) div n"
proof -
  have "((m - 1) + n) div n = Suc ((m - 1) div n)" using assms(1) by (simp add: div_add_self2)
  then have "(m + n - 1) div n = Suc ((m - 1) div n)" using assms(2) by (cases m) simp_all
  moreover have "(m - n + n - 1) div n = (m - 1) div n"
  proof (cases "n \<le> m")
    case False
    then have "(m - n + n - 1) div n = 0" "(m - 1) div n = 0" using assms by simp_all
    then show ?thesis by simp
  qed simp
  ultimately show ?thesis by simp
qed

lemma length_chunks_of: "0 < n \<Longrightarrow> length (chunks_of n xs) = (length xs + n - 1) div n"
proof (induction n xs rule: chunks_of.induct)
  case (1 n xs)
  show ?case
  proof (cases "xs = []")
    case True
    then show ?thesis using 1(2) by (subst chunks_of.simps) simp
  next
    case False
    then have "length (chunks_of n xs) = Suc (length (chunks_of n (drop n xs)))" using 1(2) by (subst chunks_of.simps) simp
    then show ?thesis using 1 False ceil_div_step [of n "length xs"] by simp
  qed
qed

text \<open>
  The reference: the hash of the node at a level and position, read off the data.  A leaf hashes its block; an inner node hashes its
  left child and its right child, or the left one twice when no data lies under the right one.
\<close>

fun node_hash :: "hash_fn \<Rightarrow> nat \<Rightarrow> u8 list \<Rightarrow> nat \<Rightarrow> nat \<Rightarrow> HashOutput" where
  "node_hash h n data 0 j = h (take n (drop (j * n) data))"
| "node_hash h n data (Suc l) j =
     (let left = node_hash h n data l (2 * j)
      in h (left @ (if (2 * j + 1) * (n * 2 ^ l) < length data then node_hash h n data l (2 * j + 1) else left)))"

text \<open>The leaf size in use, and how many blocks of a size the data starts.\<close>

definition leaf_bytes :: "nat \<Rightarrow> nat" where "leaf_bytes leaf_size = (if leaf_size = 0 then 64 * 1024 else leaf_size)"

definition block_count :: "nat \<Rightarrow> u8 list \<Rightarrow> nat" where "block_count sz data = (length data + sz - 1) div sz"

lemma block_count_less: "0 < sz \<Longrightarrow> j < block_count sz data \<longleftrightarrow> j * sz < length data"
proof -
  assume s: "0 < sz"
  have "j < (length data + sz - 1) div sz \<longleftrightarrow> Suc j * sz \<le> length data + sz - 1"
    using less_eq_div_iff_mult_less_eq[OF s, of "Suc j"] by (simp add: Suc_le_eq)
  also have "\<dots> \<longleftrightarrow> j * sz < length data" using s by auto
  finally show ?thesis by (simp add: block_count_def)
qed

lemma nth_chunks_of: "0 < n \<Longrightarrow> j < length (chunks_of n xs) \<Longrightarrow> chunks_of n xs ! j = take n (drop (j * n) xs)"
proof (induction n xs arbitrary: j rule: chunks_of.induct)
  case (1 n xs)
  have ne: "\<not> (xs = [] \<or> n = 0)" using 1(2,3) by (auto simp: chunks_of.simps[of n xs])
  have c: "chunks_of n xs = take n xs # chunks_of n (drop n xs)" using ne by (subst chunks_of.simps) simp
  show ?case
  proof (cases j)
    case (Suc i)
    then show ?thesis using 1(1)[OF ne 1(2), of i] 1(3) c by (simp add: add.commute)
  qed (simp add: c)
qed

lemma level_nodes:
  assumes "0 < n" "l < length (build_levels h (map h (chunks_of n data)))"
  shows "build_levels h (map h (chunks_of n data)) ! l = map (node_hash h n data l) [0..<block_count (n * 2 ^ l) data]"
  using assms(2)
proof (induction l)
  case 0
  have "length (chunks_of n data) = block_count n data" using length_chunks_of[OF assms(1), of data] by (simp add: block_count_def)
  then show ?case using nth_chunks_of[OF assms(1), of _ data] by (auto intro!: nth_equalityI)
next
  case (Suc l)
  let ?L = "build_levels h (map h (chunks_of n data))" and ?b = "\<lambda>l. block_count (n * 2 ^ l) data"
  have IH: "?L ! l = map (node_hash h n data l) [0..<?b l]" using Suc by simp
  have up: "?L ! Suc l = parents h (?L ! l)" by (rule build_levels_Suc) (use Suc.prems in simp)
  have blocks: "j < ?b i \<longleftrightarrow> j * (n * 2 ^ i) < length data" for i j using assms(1) by (intro block_count_less) simp
  have half: "j < (?b l + 1) div 2 \<longleftrightarrow> j < ?b (Suc l)" for j
  proof -
    have "j < (?b l + 1) div 2 \<longleftrightarrow> 2 * j < ?b l" by linarith
    then show ?thesis unfolding blocks by (simp add: algebra_simps)
  qed
  have len: "(?b l + 1) div 2 = ?b (Suc l)" using half by (metis less_irrefl linorder_neqE_nat)
  show ?case
  proof (rule nth_equalityI)
    fix j assume "j < length (?L ! Suc l)"
    moreover have "length (?L ! Suc l) = (?b l + 1) div 2" by (simp only: up IH length_parents length_map length_upt diff_zero)
    ultimately have j: "j < ?b (Suc l)" "2 * j < ?b l" "j < (?b l + 1) div 2" using len by (simp, linarith, simp)
    have right: "(2 * j + 1 < ?b l) = ((2 * j + 1) * (n * 2 ^ l) < length data)" by (rule blocks)
    have "?L ! Suc l ! j = h (pair_inputs (map (node_hash h n data l) [0..<?b l]) ! j)"
      unfolding up IH using j(3) by (simp add: parents_def length_pair_inputs)
    also have "\<dots> = node_hash h n data (Suc l) j"
      using j(2,3) right by (cases "2 * j + 1 < ?b l") (simp_all add: pair_inputs_nth Let_def)
    finally show "?L ! Suc l ! j = map (node_hash h n data (Suc l)) [0..<?b (Suc l)] ! j" using j(1) by simp
  qed (simp only: up IH len length_parents length_map length_upt diff_zero)
qed

text \<open>
  C23. A tree built from data is the reference Merkle tree over its blocks: with a leaf size of 0 standing for 64 KiB, it has the least
  number of levels at which one node covers the data; at each level there is one node for each block that the data starts, with
  the reference hash; the root is the top node, and leaf hashes and counts are those of the data.  No tree is built exactly when there
  is no data.
\<close>

theorem built_tree_reference:
  "let n = leaf_bytes leaf_size in case mt_build h data leaf_size of
      None \<Rightarrow> data = []
    | Some t \<Rightarrow> data \<noteq> [] \<and> (\<exists>top. length data \<le> n * 2 ^ top \<and> (top = 0 \<or> n * 2 ^ (top - 1) < length data) \<and>
        mt_tree_levels t = map (\<lambda>l. map (node_hash h n data l) [0..<block_count (n * 2 ^ l) data]) [0..<Suc top] \<and>
        mt_leaf_hashes t = map (\<lambda>j. h (take n (drop (j * n) data))) [0..<block_count n data] \<and>
        mt_root t = \<lparr>mk_hash = node_hash h n data top 0, mk_leaf_count = of_nat (block_count n data), mk_total_size = of_nat (length data)\<rparr>)"
proof (cases "data = []")
  case False
  define n where "n = leaf_bytes leaf_size"
  have n: "0 < n" by (simp add: n_def leaf_bytes_def)
  let ?xs = "map h (chunks_of n data)" and ?b = "\<lambda>l. block_count (n * 2 ^ l) data"
  let ?L = "build_levels h ?xs"
  define top where "top = length ?L - 1"
  have L: "length ?L = Suc top" by (simp add: top_def)
  have xs: "?xs \<noteq> []" using False n by (subst chunks_of.simps) simp
  have build: "mt_build h data leaf_size = Some \<lparr>mt_root = \<lparr>mk_hash = last ?L ! 0, mk_leaf_count = of_nat (length ?xs),
      mk_total_size = of_nat (length data)\<rparr>, mt_leaf_hashes = ?xs, mt_tree_levels = ?L\<rparr>"
    using False by (simp add: mt_build_def build_tree_from_leaves_def Let_def n_def leaf_bytes_def DEFAULT_LEAF_SIZE_def)
  have levels: "?L = map (\<lambda>l. map (node_hash h n data l) [0..<?b l]) [0..<Suc top]"
    by (rule nth_equalityI) (use level_nodes[OF n, of _ h data] L in \<open>simp_all del: upt_Suc\<close>)
  have width: "length (?L ! l) = ?b l" if "l \<le> top" for l using level_nodes[OF n, of l h data] that L by simp
  have blocks: "j < ?b l \<longleftrightarrow> j * (n * 2 ^ l) < length data" for l j using n by (intro block_count_less) simp
  have one: "?b top = 1" using last_level_single[OF xs, of h] width[of top] L by (simp add: last_conv_nth)
  have "last ?L ! 0 = node_hash h n data top 0" using level_nodes[OF n, of top h data] one L by (simp add: last_conv_nth)
  moreover have "length data \<le> n * 2 ^ top" using blocks[of 1 top] one by simp
  moreover have "n * 2 ^ (top - 1) < length data" if "top \<noteq> 0"
    using lower_level_wide[of "top - 1" h ?xs] width[of "top - 1"] blocks[of 1 "top - 1"] that L by simp
  moreover have "?xs = map (\<lambda>j. h (take n (drop (j * n) data))) [0..<block_count n data]" using level_nodes[OF n, of 0 h data] by simp
  ultimately show ?thesis using False build levels unfolding n_def[symmetric] Let_def by (auto simp del: upt_Suc)
qed (simp add: mt_build_def Let_def)

lemma proof_siblings_Cons:
  "L \<noteq> [] \<Longrightarrow> proof_siblings (level # L) i =
     (let sibling = if i mod 2 = 0 then i + 1 else i - 1
      in (if sibling < length level then [level ! sibling] else []) @ proof_siblings L (i div 2))"
  by (cases L) simp_all

lemma climb_to_root:
  "length xs = 2 ^ k \<Longrightarrow> i < 2 ^ k \<Longrightarrow> climb h (xs ! i) i (proof_siblings (build_levels h xs) i) = last (build_levels h xs) ! 0"
proof (induction k arbitrary: xs i)
  case 0
  then show ?case by (subst (1 2) build_levels.simps) simp
next
  case (Suc k)
  have "1 < length xs" using Suc.prems(1) one_less_power [of "2 :: nat" "Suc k"] by simp
  then have levels: "build_levels h xs = xs # build_levels h (parents h xs)" by (subst build_levels.simps) simp
  let ?s = "if i mod 2 = 0 then i + 1 else i - 1" and ?j = "i div 2"
  have even: "?s < length xs" "?j < 2 ^ k" using Suc.prems by (auto simp: less_mult_imp_div_less)
  have "?j < (length xs + 1) div 2" "2 * ?j + 1 < length xs" using Suc.prems by (auto; presburger)+
  then have "parents h xs ! ?j = h (xs ! (2 * ?j) @ xs ! (2 * ?j + 1))" by (simp add: parents_def length_pair_inputs pair_inputs_nth)
  moreover have "(if i mod 2 = 0 then xs ! i @ xs ! ?s else xs ! ?s @ xs ! i) = xs ! (2 * ?j) @ xs ! (2 * ?j + 1)"
    by (cases "i mod 2 = 0") (auto simp: mod_2_eq_odd elim!: evenE oddE)
  ultimately have "climb h (xs ! i) i (proof_siblings (build_levels h xs) i) =
      climb h (parents h xs ! ?j) ?j (proof_siblings (build_levels h (parents h xs)) ?j)"
    using even(1) unfolding levels by (simp add: proof_siblings_Cons Let_def)
  then show ?case using Suc.IH [of "parents h xs" ?j] Suc.prems even(2) by (simp add: levels)
qed

text \<open>Proofs verify when the number of leaves is a power of two.\<close>

lemma generated_proof_verifies:
  assumes "build_from_hashes h xs = Some t" "length xs = 2 ^ k" "i < 2 ^ k"
  shows "\<exists>p. generate_proof t i = Some p \<and> verify_proof h t p"
  using assms climb_to_root [OF assms(2,3), of h] tree_ofD [OF tree_of_hashes [OF assms(1)]]
  by (simp add: generate_proof_def verify_proof_def)

text \<open>
  With an odd number of leaves the proof of the last leaf lacks a sibling (the leaf itself), and is rejected; and a tree whose
  last leaf is repeated has the same root as the tree without the repetition, so the two compare as equal.
\<close>

lemma odd_leaf_proof_rejected:
  assumes "build_from_hashes h [a, b, c] = Some t" "h (c @ h (a @ b)) \<noteq> h (h (a @ b) @ h (c @ c))"
  shows "\<exists>p. generate_proof t 2 = Some p \<and> \<not> verify_proof h t p"
proof -
  have levels: "build_levels h [a, b, c] = [[a, b, c], [h (a @ b), h (c @ c)], [h (h (a @ b) @ h (c @ c))]]"
    by (subst build_levels.simps, simp add: parents_def)+
  note t = tree_ofD [OF tree_of_hashes [OF assms(1)]]
  show ?thesis using assms(2) by (simp add: generate_proof_def verify_proof_def t levels)
qed

lemma repeated_last_leaf_same_root:
  assumes "build_from_hashes h [a, b, c] = Some t" "build_from_hashes h [a, b, c, c] = Some t'"
  shows "mk_hash (mt_root t) = mk_hash (mt_root t')" "mt_diff t t' = []" "descend_diff t t' = Ok []"
proof -
  have "build_levels h [a, b, c] = [[a, b, c], [h (a @ b), h (c @ c)], [h (h (a @ b) @ h (c @ c))]]"
    "build_levels h [a, b, c, c] = [[a, b, c, c], [h (a @ b), h (c @ c)], [h (h (a @ b) @ h (c @ c))]]"
    by (subst build_levels.simps, simp add: parents_def)+
  then show root: "mk_hash (mt_root t) = mk_hash (mt_root t')"
    by (simp add: tree_ofD [OF tree_of_hashes [OF assms(1)]] tree_ofD [OF tree_of_hashes [OF assms(2)]])
  show "mt_diff t t' = []" "descend_diff t t' = Ok []" using root by (simp_all add: mt_diff_def descend_diff_def Let_def)
qed

end
