(* ===== verification/HealQueues.thy ===== *)
theory HealQueues
  imports MerkleTrees
begin

text \<open>
  The bounded queue of repair requests (\<^verbatim>\<open>oceanfs-durability/src/heal/queue.rs\<close>): a channel with a fixed capacity, of which one
  process-wide sender may be registered.
\<close>

record HealRequest =
  hr_segment_id :: SegmentId
  hr_corrupt_shard_indices :: "nat list"
  hr_retry_count :: u32

record HealQueue =
  hq_capacity :: nat
  hq_items :: "HealRequest list"
  hq_receiver_alive :: bool

datatype heal_error = QueueFull | QueueClosed | NotInitialized

definition HealQueue_new :: "nat \<Rightarrow> (heal_error, HealQueue) outcome" where
  "HealQueue_new capacity = (if capacity = 0 then Panic else Ok \<lparr>hq_capacity = capacity, hq_items = [], hq_receiver_alive = True\<rparr>)"

definition enqueue :: "HealRequest \<Rightarrow> HealQueue \<Rightarrow> (heal_error, unit) outcome \<times> HealQueue" where
  "enqueue request q =
     (if \<not> hq_receiver_alive q then (Err QueueClosed, q)
      else if hq_capacity q \<le> length (hq_items q) then (Err QueueFull, q)
      else (Ok (), q\<lparr>hq_items := hq_items q @ [request]\<rparr>))"

definition enqueue_heal :: "SegmentId \<Rightarrow> nat list \<Rightarrow> HealQueue option \<Rightarrow> (heal_error, unit) outcome \<times> HealQueue option" where
  "enqueue_heal sid corrupt global =
     (case global of
        None \<Rightarrow> (Err NotInitialized, None)
      | Some q \<Rightarrow> (case enqueue \<lparr>hr_segment_id = sid, hr_corrupt_shard_indices = corrupt, hr_retry_count = 0\<rparr> q of (res, q') \<Rightarrow> (res, Some q')))"

definition init_global_queue :: "HealQueue \<Rightarrow> HealQueue option \<Rightarrow> HealQueue option" where
  "init_global_queue q global = (case global of None \<Rightarrow> Some q | Some q' \<Rightarrow> Some q')"

definition receive :: "HealQueue \<Rightarrow> HealRequest option \<times> HealQueue" where
  "receive q = (case hq_items q of [] \<Rightarrow> (None, q) | r # rs \<Rightarrow> (Some r, q\<lparr>hq_items := rs\<rparr>))"

definition queue_ok :: "HealQueue \<Rightarrow> bool" where
  "queue_ok q \<longleftrightarrow> 0 < hq_capacity q \<and> length (hq_items q) \<le> hq_capacity q"

lemma queue_ok_ops:
  "HealQueue_new n = Ok q \<Longrightarrow> queue_ok q"
  "queue_ok q \<Longrightarrow> queue_ok (snd (enqueue r q))"
  "queue_ok q \<Longrightarrow> queue_ok (snd (receive q))"
  by (auto simp: queue_ok_def HealQueue_new_def enqueue_def receive_def split: if_splits list.splits)

text \<open>What was accepted is received in the order of the requests, and a request is refused only when the queue is full or closed.\<close>

lemma enqueue_accepted: "fst (enqueue r q) = Ok () \<longleftrightarrow> hq_receiver_alive q \<and> length (hq_items q) < hq_capacity q"
  by (auto simp: enqueue_def)

end
