(* ===== verification/AntiEntropy.thy ===== *)
theory AntiEntropy
  imports HealQueues Lifecycle
begin

text \<open>
  Anti-entropy (\<^verbatim>\<open>oceanfs-durability/src/anti_entropy/engine.rs\<close>, \<^verbatim>\<open>merkle/incremental_tree.rs\<close> and the server side in
  \<^verbatim>\<open>healing_service.rs\<close>): the in-memory tree per segment, the choice of the peers to compare with, the exchange of Merkle
  roots, and the cycles that queue repairs.  The network is the function that gives the answer of a peer to a list of segment
  ids, or nothing when the call fails; the segment store is a function from ids to the data of a readable segment.
\<close>

section \<open>The incremental tree\<close>

definition zero_hash :: HashOutput where "zero_hash = replicate 32 0"

record IncrementalMerkleTree =
  im_trees :: "(SegmentId \<times> HashOutput list) list"
  im_leaf_counts :: "(SegmentId \<times> nat) list"
  im_insertion_order :: "SegmentId list"
  im_max_segments :: nat

datatype tree_error = LeafCountMissing | SegmentNotFound

definition imt_new :: "nat \<Rightarrow> IncrementalMerkleTree" where
  "imt_new limit = \<lparr>im_trees = [], im_leaf_counts = [], im_insertion_order = [], im_max_segments = limit\<rparr>"

definition imt_root :: "IncrementalMerkleTree \<Rightarrow> SegmentId \<Rightarrow> HashOutput option" where
  "imt_root t sid = map_option (\<lambda>tree. tree ! 0) (hm_get (im_trees t) sid)"

definition segment_count :: "IncrementalMerkleTree \<Rightarrow> nat" where "segment_count t = length (im_trees t)"

definition imt_leaf_count :: "IncrementalMerkleTree \<Rightarrow> SegmentId \<Rightarrow> nat option" where "imt_leaf_count t = hm_get (im_leaf_counts t)"

function next_pow2 :: "nat \<Rightarrow> nat \<Rightarrow> nat" where
  "next_pow2 p n = (if 0 < p \<and> p < n then next_pow2 (2 * p) n else p)"
  by pat_completeness auto
termination by (relation "measure (\<lambda>(p, n). n - p)") auto

declare next_pow2.simps [simp del]

definition tree_size_for_leaves :: "nat \<Rightarrow> nat" where
  "tree_size_for_leaves num_leaves = (if num_leaves = 0 then 0 else 2 * next_pow2 1 num_leaves - 1)"

definition leaf_position :: "nat \<Rightarrow> nat \<Rightarrow> nat" where
  "leaf_position leaf_idx num_leaves = (next_pow2 1 num_leaves - 1) + leaf_idx"

definition node_or_zero :: "HashOutput list \<Rightarrow> nat \<Rightarrow> HashOutput" where
  "node_or_zero tree i = (if i < length tree then tree ! i else zero_hash)"

function recompute_path_to_root :: "hash_fn \<Rightarrow> HashOutput list \<Rightarrow> nat \<Rightarrow> HashOutput list" where
  "recompute_path_to_root h tree current =
     (if current = 0 then tree
      else (let parent = (current - 1) div 2
            in recompute_path_to_root h (tree[parent := h (node_or_zero tree (2 * parent + 1) @ node_or_zero tree (2 * parent + 2))]) parent))"
  by pat_completeness auto
termination by (relation "measure (\<lambda>(h, tree, current). current)") auto

declare recompute_path_to_root.simps [simp del]

fun evict_oldest :: "nat \<Rightarrow> IncrementalMerkleTree \<Rightarrow> IncrementalMerkleTree" where
  "evict_oldest 0 t = t"
| "evict_oldest (Suc n) t =
     (case im_insertion_order t of
        [] \<Rightarrow> t
      | sid # rest \<Rightarrow> evict_oldest n (t\<lparr>im_trees := hm_remove sid (im_trees t), im_leaf_counts := hm_remove sid (im_leaf_counts t),
          im_insertion_order := rest\<rparr>))"

definition maybe_evict :: "IncrementalMerkleTree \<Rightarrow> IncrementalMerkleTree" where
  "maybe_evict t =
     (let count = segment_count t in if im_max_segments t < count then evict_oldest (count - im_max_segments t) t else t)"

definition resize :: "nat \<Rightarrow> HashOutput list \<Rightarrow> HashOutput list" where
  "resize n tree = (if length tree < n then tree @ replicate (n - length tree) zero_hash else tree)"

definition insert_leaf :: "hash_fn \<Rightarrow> SegmentId \<Rightarrow> HashOutput \<Rightarrow> IncrementalMerkleTree \<Rightarrow> (tree_error, unit) outcome \<times> IncrementalMerkleTree" where
  "insert_leaf h sid leaf t =
     (if hm_get (im_trees t) sid = None then
        (Ok (), maybe_evict (t\<lparr>im_trees := hm_insert sid [leaf] (im_trees t), im_leaf_counts := hm_insert sid 1 (im_leaf_counts t),
           im_insertion_order := im_insertion_order t @ [sid]\<rparr>))
      else
        (case hm_get (im_leaf_counts t) sid of
           None \<Rightarrow> (Err LeafCountMissing, t)
         | Some leaf_idx \<Rightarrow>
             (let t = t\<lparr>im_leaf_counts := hm_insert sid (leaf_idx + 1) (im_leaf_counts t)\<rparr>
              in case hm_get (im_trees t) sid of
                   None \<Rightarrow> (Err SegmentNotFound, t)
                 | Some tree \<Rightarrow>
                     (let tree = resize (tree_size_for_leaves (leaf_idx + 1)) tree; leaf_pos = leaf_position leaf_idx (leaf_idx + 1);
                          tree = recompute_path_to_root h (tree[leaf_pos := leaf]) leaf_pos
                      in (Ok (), maybe_evict (t\<lparr>im_trees := hm_insert sid tree (im_trees t)\<rparr>))))))"

definition imt_clear :: "IncrementalMerkleTree \<Rightarrow> IncrementalMerkleTree" where
  "imt_clear t = t\<lparr>im_trees := [], im_leaf_counts := [], im_insertion_order := []\<rparr>"

text \<open>The sealed segments with a recorded root, in the order in which the registry hands them out.\<close>

definition sealed_roots :: "nat \<Rightarrow> Registry \<Rightarrow> (SegmentId \<times> HashOutput) list" where
  "sealed_roots now r = List.map_filter (\<lambda>(sid, entry). if le_state entry = Sealed then map_option (Pair sid) (sm_merkle_root (le_metadata entry))
     else None) (live_entries now r)"

definition rebuild_from_registry :: "hash_fn \<Rightarrow> nat \<Rightarrow> Registry \<Rightarrow> IncrementalMerkleTree \<Rightarrow> IncrementalMerkleTree" where
  "rebuild_from_registry h now r t = fold (\<lambda>(sid, root) t. snd (insert_leaf h sid root t)) (sealed_roots now r) (imt_clear t)"

definition rebuild_from_segment_scan :: "hash_fn \<Rightarrow> nat \<Rightarrow> Registry \<Rightarrow> nat \<Rightarrow> IncrementalMerkleTree" where
  "rebuild_from_segment_scan h now r limit = rebuild_from_registry h now r (imt_new limit)"

section \<open>Exchange of incremental trees\<close>

record TreeNode =
  tn_node_index :: nat
  tn_hash :: HashOutput
  tn_children :: "nat list"

definition serialize_tree :: "IncrementalMerkleTree \<Rightarrow> SegmentId \<Rightarrow> (tree_error, TreeNode list) outcome" where
  "serialize_tree t sid =
     (case hm_get (im_trees t) sid of
        None \<Rightarrow> Err SegmentNotFound
      | Some tree \<Rightarrow>
          (let total_leaves = (case hm_get (im_leaf_counts t) sid of None \<Rightarrow> 0 | Some n \<Rightarrow> n)
           in if total_leaves = 0 then Ok []
              else Ok (map (\<lambda>i. \<lparr>tn_node_index = i, tn_hash = tree ! i,
                     tn_children = filter (\<lambda>c. c < length tree \<and> tree ! c \<noteq> zero_hash) [2 * i + 1, 2 * i + 2]\<rparr>)
                   [0..<min (tree_size_for_leaves total_leaves) (length tree)])))"

function imt_descend :: "HashOutput list \<Rightarrow> (nat \<times> HashOutput) list \<Rightarrow> nat \<Rightarrow> nat list" where
  "imt_descend local peer i =
     (let left = 2 * i + 1; right = 2 * i + 2;
          has_left = left < length local \<and> local ! left \<noteq> zero_hash; has_right = right < length local \<and> local ! right \<noteq> zero_hash
      in if \<not> has_left \<and> \<not> has_right then
           (case hm_get peer i of None \<Rightarrow> [] | Some p \<Rightarrow> if local ! i \<noteq> p then [i] else [])
         else
           (if has_left \<and> hm_get peer left \<noteq> Some (local ! left) then imt_descend local peer left else []) @
           (if has_right \<and> hm_get peer right \<noteq> Some (local ! right) then imt_descend local peer right else []))"
  by pat_completeness auto
termination by (relation "measure (\<lambda>(local, peer, i). length local - i)") auto

declare imt_descend.simps [simp del]

definition compare_and_find_divergence :: "IncrementalMerkleTree \<Rightarrow> SegmentId \<Rightarrow> TreeNode list \<Rightarrow> (tree_error, nat list) outcome" where
  "compare_and_find_divergence t sid peer_tree =
     (case hm_get (im_trees t) sid of
        None \<Rightarrow> Err SegmentNotFound
      | Some local \<Rightarrow>
          (case peer_tree of
             [] \<Rightarrow> Ok []
           | p # _ \<Rightarrow>
               if local ! 0 = tn_hash p then Ok []
               else Ok (imt_descend local (fold (\<lambda>n m. hm_insert (tn_node_index n) (tn_hash n) m) peer_tree []) 0)))"

section \<open>The server side of the exchange\<close>

record MerkleResponse =
  rp_root_hash :: "u8 list"
  rp_leaf_hashes :: "u8 list list"

type_synonym segment_store = "SegmentId \<Rightarrow> u8 list option"

fun first_tree :: "hash_fn \<Rightarrow> segment_store \<Rightarrow> SegmentId list \<Rightarrow> MerkleTree option" where
  "first_tree h store [] = None"
| "first_tree h store (sid # sids) =
     (case store sid of
        None \<Rightarrow> first_tree h store sids
      | Some data \<Rightarrow> if data = [] then first_tree h store sids
          else (case mt_build h data 65536 of None \<Rightarrow> first_tree h store sids | Some t \<Rightarrow> Some t))"

definition merkle_exchange :: "hash_fn \<Rightarrow> segment_store \<Rightarrow> nat \<Rightarrow> Registry \<Rightarrow> SegmentId list \<Rightarrow> MerkleResponse" where
  "merkle_exchange h store now r sids =
     (let (best_root, best_leaves) = (case first_tree h store sids of
          None \<Rightarrow> (zero_hash, []) | Some t \<Rightarrow> (mk_hash (mt_root t), mt_leaf_hashes t));
        best_root = (if length best_root = 32 \<and> list_all (\<lambda>b. b = 0) best_root then
            (case sids of
               [] \<Rightarrow> zero_hash
             | sid # _ \<Rightarrow> (case get now sid r of
                   None \<Rightarrow> zero_hash
                 | Some entry \<Rightarrow> (case sm_merkle_root (le_metadata entry) of None \<Rightarrow> zero_hash | Some root \<Rightarrow> root)))
          else best_root)
      in \<lparr>rp_root_hash = best_root, rp_leaf_hashes = best_leaves\<rparr>)"

section \<open>The engine\<close>

record AntiEntropyEnv =
  ae_peer_count :: nat
  ae_node_id :: NodeId
  ae_peer_selector :: "(SegmentId \<Rightarrow> NodeId list \<Rightarrow> NodeId list) option"
  ae_has_address :: "NodeId \<Rightarrow> bool"
  ae_rpc :: "NodeId \<Rightarrow> SegmentId list \<Rightarrow> MerkleResponse option"
  ae_store :: segment_store

record AntiEntropyStats =
  ast_segments_compared :: nat
  ast_mismatches_found :: nat
  ast_leaves_repaired :: nat

definition no_stats :: AntiEntropyStats where
  "no_stats = \<lparr>ast_segments_compared = 0, ast_mismatches_found = 0, ast_leaves_repaired = 0\<rparr>"

definition mismatch :: "AntiEntropyStats \<Rightarrow> AntiEntropyStats" where
  "mismatch st = st\<lparr>ast_mismatches_found := ast_mismatches_found st + 1\<rparr>"

definition add_stats :: "AntiEntropyStats \<Rightarrow> AntiEntropyStats \<Rightarrow> AntiEntropyStats" where
  "add_stats st st' = st\<lparr>ast_mismatches_found := ast_mismatches_found st + ast_mismatches_found st',
     ast_leaves_repaired := ast_leaves_repaired st + ast_leaves_repaired st'\<rparr>"

definition comparison_peers :: "AntiEntropyEnv \<Rightarrow> SegmentMetadata \<Rightarrow> NodeId list" where
  "comparison_peers env seg =
     (case ae_peer_selector env of
        None \<Rightarrow> []
      | Some eligible_holders \<Rightarrow>
          sort (filter (\<lambda>n. n \<noteq> ae_node_id env) (eligible_holders (sm_segment_id seg) (sm_storage_locations seg))))"

definition add_to_groups :: "SegmentId \<Rightarrow> NodeId list \<Rightarrow> (NodeId \<times> SegmentId list) list \<Rightarrow> (NodeId \<times> SegmentId list) list" where
  "add_to_groups sid = fold (\<lambda>peer groups. hm_insert peer ((case hm_get groups peer of None \<Rightarrow> [] | Some ids \<Rightarrow> ids) @ [sid]) groups)"

definition holder_groups :: "AntiEntropyEnv \<Rightarrow> SegmentMetadata list \<Rightarrow> (NodeId \<times> SegmentId list) list \<times> nat" where
  "holder_groups env segs =
     fold (\<lambda>seg (groups, local_only).
        let eligible = comparison_peers env seg
        in if eligible = [] then (groups, local_only + 1)
           else (add_to_groups (sm_segment_id seg) (take (max (ae_peer_count env) 1) eligible) groups, local_only))
       segs ([], 0)"

definition sealed_segments :: "nat \<Rightarrow> Registry \<Rightarrow> SegmentMetadata list" where
  "sealed_segments now r = map (le_metadata \<circ> snd) (filter (\<lambda>f. le_state (snd f) = Sealed) (live_entries now r))"

text \<open>Results of the calls to \<^verbatim>\<open>enqueue_heal\<close> are ignored throughout.\<close>

type_synonym cycle_state = "AntiEntropyStats \<times> HealQueue option"

definition heal :: "SegmentId \<Rightarrow> nat list \<Rightarrow> cycle_state \<Rightarrow> cycle_state" where
  "heal sid corrupt cs = (fst cs, snd (enqueue_heal sid corrupt (snd cs)))"

definition compare_segment ::
  "hash_fn \<Rightarrow> AntiEntropyEnv \<Rightarrow> MerkleResponse \<Rightarrow> SegmentMetadata \<Rightarrow> cycle_state \<Rightarrow> (unit, cycle_state) outcome" where
  "compare_segment h env resp seg cs =
     (case sm_merkle_root seg of
        None \<Rightarrow> Ok (mismatch (fst cs), snd cs)
      | Some stored_root \<Rightarrow>
          if take 32 (rp_root_hash resp) = stored_root then Ok cs
          else
            (let cs = (mismatch (fst cs), snd cs); sid = sm_segment_id seg
             in if rp_leaf_hashes resp = [] then Ok (heal sid [] cs)
                else
                  (case build_from_hashes h (map (take 32) (filter (\<lambda>x. 32 \<le> length x) (rp_leaf_hashes resp))) of
                     None \<Rightarrow> Ok cs
                   | Some peer_tree \<Rightarrow>
                       (case ae_store env sid of
                          None \<Rightarrow> Ok cs
                        | Some data \<Rightarrow>
                            (case mt_build h data DEFAULT_LEAF_SIZE of
                               None \<Rightarrow> Ok cs
                             | Some local_tree \<Rightarrow>
                                 bind_outcome (descend_diff local_tree peer_tree) (\<lambda>diverged.
                                   let cs = fold (\<lambda>range. heal sid [rg_start range]) diverged cs
                                   in Ok ((fst cs)\<lparr>ast_leaves_repaired := ast_leaves_repaired (fst cs) + length diverged\<rparr>, snd cs)))))))"

fun compare_segments ::
  "hash_fn \<Rightarrow> AntiEntropyEnv \<Rightarrow> MerkleResponse \<Rightarrow> SegmentMetadata list \<Rightarrow> cycle_state \<Rightarrow> (unit, cycle_state) outcome" where
  "compare_segments h env resp [] cs = Ok cs"
| "compare_segments h env resp (seg # segs) cs =
     bind_outcome (compare_segment h env resp seg cs) (compare_segments h env resp segs)"

definition try_grpc_merkle_exchange ::
  "hash_fn \<Rightarrow> AntiEntropyEnv \<Rightarrow> NodeId \<Rightarrow> SegmentMetadata list \<Rightarrow> cycle_state \<Rightarrow> (unit, bool \<times> cycle_state) outcome" where
  "try_grpc_merkle_exchange h env peer segs cs =
     (case ae_rpc env peer (map sm_segment_id segs) of
        None \<Rightarrow> Ok (False, cs)
      | Some resp \<Rightarrow>
          if length (rp_root_hash resp) < 32 then Ok (False, cs)
          else bind_outcome (compare_segments h env resp segs cs) (\<lambda>cs. Ok (True, cs)))"

type_synonym local_trees = "(SegmentId \<times> MerkleTree) list"

definition local_merkle_verify :: "local_trees \<Rightarrow> SegmentMetadata list \<Rightarrow> cycle_state \<Rightarrow> cycle_state" where
  "local_merkle_verify trees segs cs =
     fold (\<lambda>seg cs.
        case sm_merkle_root seg of
          None \<Rightarrow> (mismatch (fst cs), snd cs)
        | Some stored_root \<Rightarrow>
            (case hm_get trees (sm_segment_id seg) of
               None \<Rightarrow> cs
             | Some tree \<Rightarrow>
                 if mk_hash (mt_root tree) \<noteq> stored_root then heal (sm_segment_id seg) [] (mismatch (fst cs), snd cs) else cs))
       segs cs"

definition exchange_merkle_roots ::
  "hash_fn \<Rightarrow> AntiEntropyEnv \<Rightarrow> local_trees \<Rightarrow> NodeId \<Rightarrow> SegmentMetadata list \<Rightarrow> HealQueue option \<Rightarrow> (unit, cycle_state) outcome" where
  "exchange_merkle_roots h env trees peer segs q =
     bind_outcome (try_grpc_merkle_exchange h env peer segs (no_stats, q)) (\<lambda>(succeeded, cs).
       Ok (if succeeded then cs else local_merkle_verify trees segs cs))"

fun build_local_trees :: "hash_fn \<Rightarrow> AntiEntropyEnv \<Rightarrow> SegmentMetadata list \<Rightarrow> local_trees \<Rightarrow> local_trees" where
  "build_local_trees h env [] trees = trees"
| "build_local_trees h env (seg # segs) trees =
     build_local_trees h env segs
       (case ae_store env (sm_segment_id seg) of
          None \<Rightarrow> trees
        | Some data \<Rightarrow> (case mt_build h data DEFAULT_LEAF_SIZE of None \<Rightarrow> trees | Some t \<Rightarrow> hm_insert (sm_segment_id seg) t trees))"

fun exchange_with_peers ::
  "hash_fn \<Rightarrow> AntiEntropyEnv \<Rightarrow> local_trees \<Rightarrow> (NodeId \<times> SegmentId list) list \<Rightarrow> SegmentMetadata list \<Rightarrow> NodeId list \<Rightarrow>
     bool \<times> cycle_state \<Rightarrow> (unit, bool \<times> cycle_state) outcome" where
  "exchange_with_peers h env trees groups segs [] acc = Ok acc"
| "exchange_with_peers h env trees groups segs (peer # peers) (exchanged, st, q) =
     (if \<not> ae_has_address env peer then exchange_with_peers h env trees groups segs peers (exchanged, st, q)
      else
        (let shared_ids = (case hm_get groups peer of None \<Rightarrow> [] | Some ids \<Rightarrow> ids);
             shared = filter (\<lambda>seg. sm_segment_id seg \<in> set shared_ids) segs
         in bind_outcome (exchange_merkle_roots h env trees peer shared q) (\<lambda>(peer_stats, q).
              exchange_with_peers h env trees groups segs peers (True, add_stats st peer_stats, q))))"

definition run_cycle :: "hash_fn \<Rightarrow> AntiEntropyEnv \<Rightarrow> nat \<Rightarrow> Registry \<Rightarrow> HealQueue option \<Rightarrow> (unit, cycle_state) outcome" where
  "run_cycle h env now r q =
     (let segs = sealed_segments now r; st = no_stats\<lparr>ast_segments_compared := length segs\<rparr>
      in if segs = [] then Ok (st, q)
         else
           (let trees = build_local_trees h env segs []; groups = fst (holder_groups env segs)
            in bind_outcome (exchange_with_peers h env trees groups segs (sort (map fst groups)) (False, st, q)) (\<lambda>(exchanged, st, q).
                 if \<not> exchanged \<or> ast_mismatches_found st = 0 then
                   (case local_merkle_verify trees segs (no_stats, q) of (fallback, q) \<Rightarrow> Ok (add_stats st fallback, q))
                 else Ok (st, q))))"

definition exchange_single_root :: "AntiEntropyEnv \<Rightarrow> SegmentId \<Rightarrow> HashOutput \<Rightarrow> NodeId \<Rightarrow> (unit, bool) outcome" where
  "exchange_single_root env sid local_root peer =
     (case ae_rpc env peer [sid] of
        None \<Rightarrow> Err ()
      | Some resp \<Rightarrow> Ok (length (rp_root_hash resp) = 32 \<and> take 32 (rp_root_hash resp) = local_root))"

definition compare_root :: "AntiEntropyEnv \<Rightarrow> IncrementalMerkleTree \<Rightarrow> NodeId \<Rightarrow> SegmentId \<Rightarrow> cycle_state \<Rightarrow> cycle_state" where
  "compare_root env t peer sid cs =
     (case imt_root t sid of
        None \<Rightarrow> cs
      | Some local_root \<Rightarrow> if exchange_single_root env sid local_root peer = Ok True then cs else heal sid [] (mismatch (fst cs), snd cs))"

definition run_continuous_cycle ::
  "AntiEntropyEnv \<Rightarrow> IncrementalMerkleTree \<Rightarrow> nat \<Rightarrow> Registry \<Rightarrow> HealQueue option \<Rightarrow> cycle_state" where
  "run_continuous_cycle env t now r q =
     (if segment_count t = 0 then (no_stats, q)
      else
        (let groups = fst (holder_groups env (sealed_segments now r))
         in fold (\<lambda>peer cs.
              if ae_has_address env peer
              then fold (compare_root env t peer) (case hm_get groups peer of None \<Rightarrow> [] | Some ids \<Rightarrow> ids) cs else cs)
            (sort (map fst groups)) (no_stats\<lparr>ast_segments_compared := segment_count t\<rparr>, q)))"

text \<open>
  The sampling cycle: the shuffled list of segment ids and the size of the sample, which the code computes from a fraction in
  floating point, are arguments.
\<close>

definition sample_segment_root :: "AntiEntropyEnv \<Rightarrow> IncrementalMerkleTree \<Rightarrow> SegmentMetadata list \<Rightarrow> SegmentId \<Rightarrow> cycle_state \<Rightarrow> cycle_state" where
  "sample_segment_root env t segs sid cs =
     (case find (\<lambda>seg. sm_segment_id seg = sid) (rev segs) of
        None \<Rightarrow> cs
      | Some seg \<Rightarrow>
          (case imt_root t sid of
             None \<Rightarrow> cs
           | Some local_root \<Rightarrow>
               (case comparison_peers env seg of
                  [] \<Rightarrow> cs
                | peer # _ \<Rightarrow>
                    if \<not> ae_has_address env peer then cs
                    else (case exchange_single_root env sid local_root peer of
                            Ok True \<Rightarrow> cs
                          | Ok False \<Rightarrow> heal sid [] (mismatch (fst cs), snd cs)
                          | _ \<Rightarrow> cs))))"

definition run_sampling_cycle ::
  "AntiEntropyEnv \<Rightarrow> bool \<Rightarrow> nat \<Rightarrow> SegmentId list \<Rightarrow> IncrementalMerkleTree \<Rightarrow> nat \<Rightarrow> Registry \<Rightarrow> HealQueue option \<Rightarrow> cycle_state" where
  "run_sampling_cycle env sampling_enabled sample_size shuffled t now r q =
     (if segment_count t = 0 \<or> \<not> sampling_enabled then (no_stats, q)
      else
        (let segs = sealed_segments now r; sampled = take (min sample_size (length segs)) shuffled
         in fold (sample_segment_root env t segs) sampled (no_stats\<lparr>ast_segments_compared := length sampled\<rparr>, q)))"

definition on_segment_sealed :: "hash_fn \<Rightarrow> SegmentId \<Rightarrow> HashOutput \<Rightarrow> IncrementalMerkleTree \<Rightarrow> IncrementalMerkleTree" where
  "on_segment_sealed h sid root t = snd (insert_leaf h sid root t)"

section \<open>The encoding of a list of roots\<close>

fun encode_root_entries :: "(SegmentId \<times> MerkleRoot) list \<Rightarrow> u8 list" where
  "encode_root_entries [] = []"
| "encode_root_entries ((sid, root) # roots) = sid @ mk_hash root @ encode_root_entries roots"

definition encode_roots :: "(SegmentId \<times> MerkleRoot) list \<Rightarrow> u8 list" where
  "encode_roots roots = u32_to_le (of_nat (length roots)) @ encode_root_entries roots"

fun decode_root_entries :: "nat \<Rightarrow> u8 list \<Rightarrow> (SegmentId \<times> MerkleRoot) list" where
  "decode_root_entries 0 data = []"
| "decode_root_entries (Suc n) data =
     (take 16 data, \<lparr>mk_hash = take 32 (drop 16 data), mk_leaf_count = 0, mk_total_size = 0\<rparr>) # decode_root_entries n (drop 48 data)"

definition decode_roots :: "u8 list \<Rightarrow> (unit, (SegmentId \<times> MerkleRoot) list) outcome" where
  "decode_roots data =
     (if length data < 4 then Err ()
      else (let count = unat (u32_from_le (take 4 data))
            in if length data < 4 + count * (16 + 32) then Err () else Ok (decode_root_entries count (drop 4 data))))"

section \<open>The incremental tree is bounded\<close>

definition imt_ok :: "IncrementalMerkleTree \<Rightarrow> bool" where
  "imt_ok t \<longleftrightarrow> hm_wf (im_trees t) \<and> distinct (im_insertion_order t) \<and> set (im_insertion_order t) = fst ` set (im_trees t) \<and>
     (\<forall>sid. hm_get (im_leaf_counts t) sid = None \<longleftrightarrow> hm_get (im_trees t) sid = None)"

lemma hm_get_None: "hm_get m k = None \<longleftrightarrow> k \<notin> fst ` set m"
  by (simp add: hm_get_def map_of_eq_None_iff)

lemma hm_get_Cons: "hm_get ((k, v) # m) j = (if j = k then Some v else hm_get m j)"
  by (simp add: hm_get_def)

lemma hm_keys_insert: "fst ` set (hm_insert k v m) = insert k (fst ` set m)"
  by (simp add: hm_insert_def dom_update)

lemma hm_keys_remove: "fst ` set (hm_remove k m) = fst ` set m - {k}"
  using dom_map_of_conv_image_fst [of "AList.delete k m"] by (simp add: hm_remove_def delete_conv' dom_map_of_conv_image_fst)

lemma imt_ok_count: "imt_ok t \<Longrightarrow> segment_count t = length (im_insertion_order t)"
  by (metis imt_ok_def hm_wf_def segment_count_def distinct_card length_map list.set_map)

lemma evict_oldest_ok:
  "imt_ok t \<Longrightarrow> imt_ok (evict_oldest n t) \<and> im_insertion_order (evict_oldest n t) = drop n (im_insertion_order t) \<and>
     im_max_segments (evict_oldest n t) = im_max_segments t \<and>
     (\<forall>sid \<in> set (drop n (im_insertion_order t)). hm_get (im_trees (evict_oldest n t)) sid = hm_get (im_trees t) sid)"
proof (induction n arbitrary: t)
  case (Suc n)
  show ?case
  proof (cases "im_insertion_order t")
    case (Cons sid rest)
    let ?t = "t\<lparr>im_trees := hm_remove sid (im_trees t), im_leaf_counts := hm_remove sid (im_leaf_counts t), im_insertion_order := rest\<rparr>"
    have "imt_ok ?t" using Suc.prems Cons by (auto simp: imt_ok_def hm_keys_remove)
    moreover have "sid \<notin> set (drop n rest)" using Suc.prems Cons by (auto simp: imt_ok_def dest: in_set_dropD)
    ultimately show ?thesis using Suc.IH [of ?t] Cons by auto
  qed (use Suc.prems in simp)
qed simp

lemma maybe_evict_ok:
  assumes "imt_ok t"
  shows "imt_ok (maybe_evict t)" "segment_count (maybe_evict t) = min (segment_count t) (im_max_segments t)"
    "im_max_segments (maybe_evict t) = im_max_segments t"
    "im_insertion_order (maybe_evict t) = drop (segment_count t - im_max_segments t) (im_insertion_order t)"
    "sid \<in> set (im_insertion_order (maybe_evict t)) \<Longrightarrow> hm_get (im_trees (maybe_evict t)) sid = hm_get (im_trees t) sid"
  using evict_oldest_ok [OF assms, of "segment_count t - im_max_segments t"] assms imt_ok_count [OF assms]
    imt_ok_count [of "evict_oldest (segment_count t - im_max_segments t) t"]
  by (auto simp: maybe_evict_def Let_def)

lemma insert_leaf_new_ok:
  assumes "imt_ok t" "hm_get (im_trees t) sid = None"
  shows "imt_ok (t\<lparr>im_trees := hm_insert sid v (im_trees t), im_leaf_counts := hm_insert sid n (im_leaf_counts t),
    im_insertion_order := im_insertion_order t @ [sid]\<rparr>)"
  using assms by (auto simp: imt_ok_def hm_keys_insert hm_get_None)

lemma insert_leaf_old_ok:
  assumes "imt_ok t" "hm_get (im_trees t) sid \<noteq> None"
  shows "imt_ok (t\<lparr>im_leaf_counts := hm_insert sid n (im_leaf_counts t), im_trees := hm_insert sid v (im_trees t)\<rparr>)"
proof -
  have "insert sid (fst ` set (im_trees t)) = fst ` set (im_trees t)" using assms(2) by (auto simp: hm_get_None)
  then show ?thesis using assms by (auto simp: imt_ok_def hm_keys_insert)
qed

text \<open>
  Observing sealed segments keeps the incremental tree consistent and within its limit: every insertion succeeds, never more
  than the configured number of segments is tracked, the segments given up are the ones inserted first, and a segment seen for
  the first time has its leaf as root.
\<close>

theorem incremental_tree_bounded:
  assumes "imt_ok t" and "segment_count t \<le> im_max_segments t" and "0 < im_max_segments t"
  shows "fst (insert_leaf h sid leaf t) = Ok () \<and> imt_ok (snd (insert_leaf h sid leaf t)) \<and>
    segment_count (snd (insert_leaf h sid leaf t)) \<le> im_max_segments (snd (insert_leaf h sid leaf t)) \<and>
    (\<exists>n. im_insertion_order (snd (insert_leaf h sid leaf t)) =
      drop n (im_insertion_order t @ (if hm_get (im_trees t) sid = None then [sid] else []))) \<and>
    (hm_get (im_trees t) sid = None \<longrightarrow> imt_root (snd (insert_leaf h sid leaf t)) sid = Some leaf)"
proof (cases "hm_get (im_trees t) sid")
  case None
  let ?t = "t\<lparr>im_trees := hm_insert sid [leaf] (im_trees t), im_leaf_counts := hm_insert sid 1 (im_leaf_counts t),
    im_insertion_order := im_insertion_order t @ [sid]\<rparr>"
  have ok: "imt_ok ?t" using insert_leaf_new_ok [OF assms(1) None] by simp
  note e = maybe_evict_ok [OF ok]
  have "segment_count ?t = Suc (length (im_insertion_order t))" using imt_ok_count [OF ok] by simp
  then have "segment_count ?t - im_max_segments ?t \<le> length (im_insertion_order t)" using assms(3) by simp
  then have "sid \<in> set (im_insertion_order (maybe_evict ?t))" using e(4) by simp
  then have "imt_root (maybe_evict ?t) sid = Some leaf" using e(5) [of sid] by (simp add: imt_root_def)
  moreover have "\<exists>n. im_insertion_order (maybe_evict ?t) = drop n (im_insertion_order t @ [sid])"
    by (rule exI [of _ "segment_count ?t - im_max_segments ?t"]) (use e(4) in simp)
  moreover have "insert_leaf h sid leaf t = (Ok (), maybe_evict ?t)" using None by (simp add: insert_leaf_def)
  ultimately show ?thesis using e(1-3) None by simp
next
  case (Some tree)
  then obtain n where n: "hm_get (im_leaf_counts t) sid = Some n" using assms(1) by (fastforce simp: imt_ok_def)
  let ?tree = "recompute_path_to_root h ((resize (tree_size_for_leaves (n + 1)) tree)[leaf_position n (n + 1) := leaf]) (leaf_position n (n + 1))"
  let ?t = "t\<lparr>im_leaf_counts := hm_insert sid (n + 1) (im_leaf_counts t), im_trees := hm_insert sid ?tree (im_trees t)\<rparr>"
  have "imt_ok ?t" using insert_leaf_old_ok [OF assms(1)] Some by simp
  note e = maybe_evict_ok [OF this]
  have "insert_leaf h sid leaf t = (Ok (), maybe_evict ?t)" using Some n by (simp add: insert_leaf_def Let_def)
  moreover have "\<exists>n. im_insertion_order (maybe_evict ?t) = drop n (im_insertion_order t)"
    by (rule exI [of _ "segment_count ?t - im_max_segments ?t"]) (use e(4) in simp)
  ultimately show ?thesis using e(1-3) Some by simp
qed

theorem incremental_tree_bounded_witness:
  "imt_ok (snd (insert_leaf sample_hash [1] (replicate 32 5) (imt_new 1))) \<and>
    imt_root (snd (insert_leaf sample_hash [1] (replicate 32 5) (imt_new 1))) [1] = Some (replicate 32 5)"
  using incremental_tree_bounded [of "imt_new 1" sample_hash "[1]" "replicate 32 5"] by (simp add: imt_ok_def imt_new_def segment_count_def)

lemma two_leaves:
  "imt_root (snd (insert_leaf h sid leaf (snd (insert_leaf h sid first (imt_new 1))))) sid = Some (h (zero_hash @ leaf))"
proof -
  have p: "next_pow2 1 2 = 2" by (simp add: next_pow2.simps)
  have size: "tree_size_for_leaves 2 = 3" "leaf_position 1 2 = 2" using p by (simp_all add: tree_size_for_leaves_def leaf_position_def)
  have "recompute_path_to_root h [first, zero_hash, leaf] 2 = [h (zero_hash @ leaf), zero_hash, leaf]"
    by (simp add: recompute_path_to_root.simps node_or_zero_def Let_def)
  then show ?thesis
    using size by (simp add: insert_leaf_def imt_new_def imt_root_def maybe_evict_def segment_count_def hm_insert_def hm_get_def resize_def numeral_2_eq_2 Let_def)
qed

text \<open>
  The incremental tree forgets the first leaf of a segment as soon as a second one is inserted: the root then depends on the
  second leaf alone, so two segments that differ in their first leaf have the same root.
\<close>

theorem incremental_tree_forgets_leaf:
  "imt_root (snd (insert_leaf h sid leaf (snd (insert_leaf h sid first (imt_new 1))))) sid =
   imt_root (snd (insert_leaf h sid leaf (snd (insert_leaf h sid other (imt_new 1))))) sid"
  by (simp only: two_leaves)

section \<open>Rebuilding from the registry\<close>

lemma insert_fresh_leaves:
  assumes "imt_ok t" "distinct (map fst rs)" "\<forall>f \<in> set rs. hm_get (im_trees t) (fst f) = None"
    and "segment_count t + length rs \<le> im_max_segments t"
  shows "imt_root (fold (\<lambda>(sid, root) t. snd (insert_leaf h sid root t)) rs t) sid =
    (case hm_get rs sid of Some root \<Rightarrow> Some root | None \<Rightarrow> imt_root t sid)"
  using assms
proof (induction rs arbitrary: t)
  case (Cons f rs)
  obtain k v where f: "f = (k, v)" by fastforce
  let ?t = "t\<lparr>im_trees := hm_insert k [v] (im_trees t), im_leaf_counts := hm_insert k 1 (im_leaf_counts t),
    im_insertion_order := im_insertion_order t @ [k]\<rparr>"
  have none: "hm_get (im_trees t) k = None" using Cons.prems(3) f by simp
  have ok: "imt_ok ?t" using insert_leaf_new_ok [OF Cons.prems(1) none] by simp
  have count: "segment_count ?t = Suc (segment_count t)" using imt_ok_count [OF ok] imt_ok_count [OF Cons.prems(1)] by simp
  have step: "snd (insert_leaf h k v t) = ?t"
    using none count Cons.prems(4) by (simp add: insert_leaf_def maybe_evict_def)
  have "imt_root (fold (\<lambda>(sid, root) t. snd (insert_leaf h sid root t)) rs ?t) sid =
      (case hm_get rs sid of Some root \<Rightarrow> Some root | None \<Rightarrow> imt_root ?t sid)"
    using Cons.prems count f by (intro Cons.IH [OF ok]) (auto simp: image_iff)
  moreover have "hm_get rs k = None" using Cons.prems(2) f by (simp add: hm_get_None)
  moreover have "imt_root ?t sid = (if sid = k then Some v else imt_root t sid)" by (simp add: imt_root_def)
  ultimately show ?case using f step by (auto simp: hm_get_Cons split: option.splits)
qed simp

lemma sealed_roots_get:
  assumes "reg_wf r"
  shows "distinct (map fst (sealed_roots now r))"
    and "hm_get (sealed_roots now r) sid =
      (case lookup r sid of Some e \<Rightarrow> if le_state e = Sealed then sm_merkle_root (le_metadata e) else None | None \<Rightarrow> None)"
proof -
  let ?f = "\<lambda>(sid, entry). if le_state entry = Sealed then map_option (Pair sid) (sm_merkle_root (le_metadata entry)) else None"
  have keys: "fst ` set (List.map_filter ?f es) \<subseteq> fst ` set es" for es
    by (force simp: List.map_filter_def split: if_splits)
  have d: "distinct (map fst es) \<Longrightarrow> distinct (map fst (List.map_filter ?f es))" for es
  proof (induction es)
    case (Cons e es)
    obtain k v where e: "e = (k, v)" by fastforce
    have "k \<notin> fst ` set (List.map_filter ?f es)" using Cons.prems keys [of es] e by auto
    then show ?case using Cons e by (auto simp: map_filter_simps split: option.splits if_splits)
  qed (simp add: map_filter_simps)
  have g: "distinct (map fst es) \<Longrightarrow> hm_get (List.map_filter ?f es) sid =
      (case hm_get es sid of Some e \<Rightarrow> if le_state e = Sealed then sm_merkle_root (le_metadata e) else None | None \<Rightarrow> None)" for es
  proof (induction es)
    case (Cons e es)
    obtain k v where e: "e = (k, v)" by fastforce
    have "hm_get es k = None" "hm_get (List.map_filter ?f es) k = None"
      using Cons.prems keys [of es] e by (auto simp: hm_get_None)
    then show ?case using Cons e by (auto simp: map_filter_simps hm_get_Cons split: option.splits if_splits)
  qed (simp add: map_filter_simps)
  have live: "distinct (map fst (live_entries now r))"
    using distinct_all_entries [OF assms] by (simp add: live_entries_def distinct_map_filter)
  show "distinct (map fst (sealed_roots now r))" unfolding sealed_roots_def by (rule d [OF live])
  show "hm_get (sealed_roots now r) sid =
      (case lookup r sid of Some e \<Rightarrow> if le_state e = Sealed then sm_merkle_root (le_metadata e) else None | None \<Rightarrow> None)"
    unfolding sealed_roots_def g [OF live] live_entries_get [OF assms] by (auto split: option.splits)
qed

text \<open>After a rebuild the tree holds the recorded root of every sealed segment, and nothing else, when they fit.\<close>

lemma rebuild_gives_sealed_roots:
  assumes "reg_wf r" "length (sealed_roots now r) \<le> im_max_segments t"
  shows "imt_root (rebuild_from_registry h now r t) sid =
    (case lookup r sid of Some e \<Rightarrow> if le_state e = Sealed then sm_merkle_root (le_metadata e) else None | None \<Rightarrow> None)"
proof -
  have "imt_ok (imt_clear t)" by (simp add: imt_ok_def imt_clear_def)
  then have "imt_root (rebuild_from_registry h now r t) sid =
      (case hm_get (sealed_roots now r) sid of Some root \<Rightarrow> Some root | None \<Rightarrow> imt_root (imt_clear t) sid)"
    unfolding rebuild_from_registry_def
    using assms(2) sealed_roots_get(1) [OF assms(1)] by (intro insert_fresh_leaves) (simp_all add: imt_clear_def segment_count_def)
  then show ?thesis
    unfolding sealed_roots_get(2) [OF assms(1)] by (auto simp: imt_clear_def imt_root_def split: option.splits)
qed

section \<open>Encoded lists of roots\<close>

lemma decode_root_entries_round_trip:
  "list_all (\<lambda>(sid, root). length sid = 16 \<and> length (mk_hash root) = 32 \<and> mk_leaf_count root = 0 \<and> mk_total_size root = 0) roots \<Longrightarrow>
   decode_root_entries (length roots) (encode_root_entries roots) = roots \<and> length (encode_root_entries roots) = length roots * 48"
  by (induction roots) auto

lemma roots_round_trip:
  assumes "list_all (\<lambda>(sid, root). length sid = 16 \<and> length (mk_hash root) = 32 \<and> mk_leaf_count root = 0 \<and> mk_total_size root = 0) roots"
    and "length roots < 2 ^ 32"
  shows "decode_roots (encode_roots roots) = Ok roots"
proof -
  have "unat (of_nat (length roots) :: u32) = length roots" using assms(2) by (simp add: unat_of_nat)
  then show ?thesis using decode_root_entries_round_trip [OF assms(1)] by (simp add: decode_roots_def encode_roots_def Let_def)
qed

section \<open>Exchanges\<close>

lemma diff_scan_length: "length (diff_scan d i n) \<le> n - i"
proof (induction d i n rule: diff_scan.induct)
  case (1 d i n)
  show ?case
  proof (cases "i < n")
    case True
    have "i + 1 \<le> run_end d (i + 1) n" by (rule run_end_ge)
    then show ?thesis using 1 True by (subst diff_scan.simps) (auto split: if_splits)
  qed (subst diff_scan.simps, simp)
qed

lemma descend_diff_no_error: "descend_diff t t' \<noteq> Err e"
proof -
  have inner: "descend_diff_inner A B l j n \<noteq> Err e" for A B l j n
  proof (induction l arbitrary: j n)
    case (Suc l)
    show ?case using Suc.IH by (auto simp: Let_def bind_outcome_Err split: if_splits)
  qed simp
  show ?thesis by (cases "descend_diff_inner (mt_tree_levels t) (mt_tree_levels t') (length (mt_tree_levels t) - 1) 0 (length (mt_leaf_hashes t))")
      (use inner in \<open>auto simp: descend_diff_def Let_def\<close>)
qed

lemma exI2: "P a b \<Longrightarrow> \<exists>a b. P a b"
  by blast

definition heal_request :: "SegmentId \<Rightarrow> nat list \<Rightarrow> HealRequest" where
  "heal_request sid corrupt = \<lparr>hr_segment_id = sid, hr_corrupt_shard_indices = corrupt, hr_retry_count = 0\<rparr>"

lemma heal_runs:
  assumes "hq_receiver_alive q" "length (hq_items q) + length rs \<le> hq_capacity q"
  shows "fold (\<lambda>range. heal sid [rg_start range]) rs (st, Some q) =
    (st, Some (q\<lparr>hq_items := hq_items q @ map (\<lambda>range. heal_request sid [rg_start range]) rs\<rparr>))"
  using assms
proof (induction rs arbitrary: q)
  case (Cons r rs)
  then show ?case
    using Cons.IH [of "q\<lparr>hq_items := hq_items q @ [heal_request sid [rg_start r]]\<rparr>"]
    by (simp add: heal_def enqueue_heal_def enqueue_def heal_request_def)
qed simp

lemma tree_of_root_32: "hash32 h \<Longrightarrow> tree_of h xs t \<Longrightarrow> \<forall>x \<in> set xs. length x = 32 \<Longrightarrow> length (mk_hash (mt_root t)) = 32"
proof -
  assume a: "hash32 h" "tree_of h xs t" "\<forall>x \<in> set xs. length x = 32"
  let ?l = "length (build_levels h xs) - 1"
  have "length (build_levels h xs ! ?l) = 1" using last_level_single [OF tree_ofD(1) [OF a(2)], of h] by (simp add: last_conv_nth)
  then show ?thesis
    using levels_32 [OF a(1,3), of ?l "build_levels h xs ! ?l ! 0"] tree_ofD(4) [OF a(2)] by (simp add: last_conv_nth)
qed

lemma zero_hash_iff: "length x = 32 \<Longrightarrow> list_all (\<lambda>b. b = 0) x \<longleftrightarrow> x = zero_hash"
  by (auto simp: zero_hash_def list_all_iff intro: nth_equalityI)

lemma merkle_exchange_first:
  assumes "hash32 h" "store sid = Some data" "mt_build h data 65536 = Some t" "mk_hash (mt_root t) \<noteq> zero_hash"
  shows "merkle_exchange h store now r (sid # sids) = \<lparr>rp_root_hash = mk_hash (mt_root t), rp_leaf_hashes = mt_leaf_hashes t\<rparr>"
    and "length (mk_hash (mt_root t)) = 32"
proof -
  have t: "data \<noteq> []" "tree_of h (map h (chunks_of 65536 data)) t" using tree_of_data [OF assms(3)] by simp_all
  show len: "length (mk_hash (mt_root t)) = 32" using tree_of_root_32 [OF assms(1) t(2)] assms(1) by (auto simp: hash32_def)
  show "merkle_exchange h store now r (sid # sids) = \<lparr>rp_root_hash = mk_hash (mt_root t), rp_leaf_hashes = mt_leaf_hashes t\<rparr>"
    using assms(2,3,4) t(1) zero_hash_iff [OF len] by (simp add: merkle_exchange_def)
qed

lemma compare_differing_segment:
  assumes "hash32 h" "sm_merkle_root seg = Some root" "take 32 (rp_root_hash resp) \<noteq> root" "rp_leaf_hashes resp = ys" "ys \<noteq> []"
    and "\<forall>y \<in> set ys. length y = 32" "build_from_hashes h ys = Some peer_tree"
    and "ae_store env (sm_segment_id seg) = Some data" "mt_build h data DEFAULT_LEAF_SIZE = Some t"
  shows "compare_segment h env resp seg (st, q) =
    bind_outcome (descend_diff t peer_tree) (\<lambda>diverged.
      let cs = fold (\<lambda>range. heal (sm_segment_id seg) [rg_start range]) diverged (mismatch st, q)
      in Ok ((fst cs)\<lparr>ast_leaves_repaired := ast_leaves_repaired (fst cs) + length diverged\<rparr>, snd cs))"
proof -
  have "filter (\<lambda>x. 32 \<le> length x) ys = ys" "map (take 32) ys = ys" using assms(6) by (auto simp: filter_id_conv intro: map_idI)
  then show ?thesis using assms by (simp add: compare_segment_def Let_def)
qed

text \<open>
  C13. Exchanging one segment with a peer finds exactly what differs: when the leaf hashes agree nothing is counted or queued; otherwise
  one mismatch is counted, and for each maximal run of differing leaves, in increasing order, one repair with the first leaf of the
  run is queued and counted.  Both nodes hold data of the same length, the stored root is that of the local data, the peer's root is
  not all zeros, hashes do not collide within the two trees, and the queue is open and has room for a repair of every leaf.
\<close>

theorem single_segment_exchange_exact:
  assumes "hash32 h" and "ae_store env sid = Some data" and "store' sid = Some data'" and "length data = length data'"
    and "mt_build h data DEFAULT_LEAF_SIZE = Some t" and "mt_build h data' DEFAULT_LEAF_SIZE = Some t'"
    and "mk_hash (mt_root t') \<noteq> zero_hash" and "no_collision h (mt_tree_levels t) (mt_tree_levels t')"
    and "sm_segment_id seg = sid" and "sm_merkle_root seg = Some (mk_hash (mt_root t))"
    and "ae_rpc env peer [sid] = Some (merkle_exchange h store' now' r' [sid])"
    and "hq_receiver_alive q" and "length (hq_items q) + length (mt_leaf_hashes t) \<le> hq_capacity q"
  shows "let starts = run_starts (\<lambda>i. mt_leaf_hashes t ! i \<noteq> mt_leaf_hashes t' ! i) (length (mt_leaf_hashes t))
    in try_grpc_merkle_exchange h env peer [seg] (no_stats, Some q) =
      Ok (True,
        if mt_leaf_hashes t = mt_leaf_hashes t' then no_stats else (mismatch no_stats)\<lparr>ast_leaves_repaired := length starts\<rparr>,
        Some (q\<lparr>hq_items := hq_items q @ map (\<lambda>i. heal_request sid [i]) starts\<rparr>))"
proof -
  have b: "0 < DEFAULT_LEAF_SIZE" "DEFAULT_LEAF_SIZE = 65536" by (simp_all add: DEFAULT_LEAF_SIZE_def)
  let ?xs = "mt_leaf_hashes t" and ?ys = "mt_leaf_hashes t'" and ?d = "\<lambda>i. mt_leaf_hashes t ! i \<noteq> mt_leaf_hashes t' ! i"
  have tx: "tree_of h ?xs t" "?xs = map h (chunks_of DEFAULT_LEAF_SIZE data)" using tree_of_data [OF assms(5) b(1)] by (simp_all add: tree_of_def)
  have ty: "tree_of h ?ys t'" "?ys = map h (chunks_of DEFAULT_LEAF_SIZE data')" using tree_of_data [OF assms(6) b(1)] by (simp_all add: tree_of_def)
  have x32: "\<forall>x \<in> set ?xs. length x = 32" and y32: "\<forall>y \<in> set ?ys. length y = 32" using assms(1) tx(2) ty(2) by (auto simp: hash32_def)
  have len: "length ?xs = length ?ys" using tx(2) ty(2) length_chunks_of [OF b(1), of data] length_chunks_of [OF b(1), of data'] assms(4) by simp
  have nc: "no_collision h (build_levels h ?xs) (build_levels h ?ys)" using assms(8) tree_ofD(3) [OF tx(1)] tree_ofD(3) [OF ty(1)] by simp
  obtain peer_tree where pt: "build_from_hashes h ?ys = Some peer_tree" "tree_of h ?ys peer_tree"
    using tree_of_hashes_ex [OF tree_ofD(1) [OF ty(1)]] by blast
  note ref = descent_reference [OF assms(1) len x32 y32 nc tx(1) pt(2)]
  note resp = merkle_exchange_first(1) [where store = store' and sid = sid and now = now' and r = r' and sids = "[]", OF assms(1,3) assms(6) [unfolded b(2)] assms(7)]
    merkle_exchange_first(2) [where store = store' and sid = sid, OF assms(1,3) assms(6) [unfolded b(2)] assms(7)]
  show ?thesis
  proof (cases "mk_hash (mt_root t) = mk_hash (mt_root t')")
    case True
    have "?xs ! i = ?ys ! i" if "i < length ?xs" for i
      using top_same_leaves [OF assms(1) len x32 y32 nc tree_ofD(1) [OF tx(1)] _ that] True tree_ofD(4) [OF tx(1)] tree_ofD(4) [OF ty(1)] by simp
    then have "?xs = ?ys" "run_starts ?d (length ?xs) = []" using len by (simp_all add: nth_equalityI run_starts_def filter_empty_conv)
    then show ?thesis
      using True assms(9-11) resp by (simp add: try_grpc_merkle_exchange_def compare_segment_def)
  next
    case False
    then have "?xs \<noteq> ?ys" using tree_ofD(4) [OF tx(1)] tree_ofD(4) [OF ty(1)] by auto
    let ?rs = "diff_scan ?d 0 (length ?xs)"
    have starts: "map rg_start ?rs = run_starts ?d (length ?xs)" by (rule diff_scan_run_starts)
    have requests: "map (\<lambda>range. heal_request sid [rg_start range]) ?rs = map (\<lambda>i. heal_request sid [i]) (run_starts ?d (length ?xs))"
      unfolding starts [symmetric] by simp
    have count: "length ?rs = length (run_starts ?d (length ?xs))" unfolding starts [symmetric] by simp
    have room: "length (hq_items q) + length ?rs \<le> hq_capacity q"
      using diff_scan_length [of ?d 0 "length ?xs"] assms(13) by simp
    have "compare_segment h env (merkle_exchange h store' now' r' [sid]) seg (no_stats, Some q) =
        Ok ((mismatch no_stats)\<lparr>ast_leaves_repaired := length ?rs\<rparr>,
          Some (q\<lparr>hq_items := hq_items q @ map (\<lambda>range. heal_request sid [rg_start range]) ?rs\<rparr>))"
      using compare_differing_segment [OF assms(1,10) _ _ _ y32 pt(1), where resp = "merkle_exchange h store' now' r' [sid]"
          and data = data and t = t and env = env and st = no_stats and q = "Some q"] False resp assms(2,5,9) tree_ofD(1) [OF ty(1)] ref(1)
        heal_runs [OF assms(12) room]
      by (simp add: Let_def mismatch_def no_stats_def)
    then show ?thesis
      using assms(9,11) resp \<open>?xs \<noteq> ?ys\<close> unfolding requests count by (simp add: try_grpc_merkle_exchange_def)
  qed
qed

definition ae_env :: "segment_store \<Rightarrow> (SegmentId list \<Rightarrow> MerkleResponse) \<Rightarrow> AntiEntropyEnv" where
  "ae_env store answer = \<lparr>ae_peer_count = 1, ae_node_id = ''a'', ae_peer_selector = None, ae_has_address = (\<lambda>_. True),
     ae_rpc = (\<lambda>_ sids. Some (answer sids)), ae_store = store\<rparr>"

definition sample_queue :: HealQueue where "sample_queue = \<lparr>hq_capacity = 8, hq_items = [], hq_receiver_alive = True\<rparr>"

lemma small_tree:
  assumes "data \<noteq> []" "length data \<le> 65536"
  shows "mt_build h data DEFAULT_LEAF_SIZE = Some \<lparr>mt_root = \<lparr>mk_hash = h data, mk_leaf_count = 1, mk_total_size = of_nat (length data)\<rparr>,
    mt_leaf_hashes = [h data], mt_tree_levels = [[h data]]\<rparr>"
  using assms by (simp add: mt_build_def DEFAULT_LEAF_SIZE_def build_tree_from_leaves_def build_levels.simps chunks_of.simps Let_def)

theorem single_segment_exchange_exact_witness:
  "\<exists>st. try_grpc_merkle_exchange sample_hash
      (ae_env (\<lambda>_. Some (replicate 20 1)) (merkle_exchange sample_hash (\<lambda>_. Some (replicate 20 2)) 0 (Registry_new (\<lambda>_. 0) 1 0))) ''b''
      [(reserved_metadata [1] Standard 4 2)\<lparr>sm_merkle_root := Some (sample_hash (replicate 20 1))\<rparr>] (no_stats, Some sample_queue) =
    Ok (True, st, Some (sample_queue\<lparr>hq_items := [heal_request [1] [0]]\<rparr>)) \<and> ast_mismatches_found st = 1 \<and> ast_leaves_repaired st = 1"
proof -
  let ?d = "replicate 20 1 :: u8 list" and ?d' = "replicate 20 2 :: u8 list"
  have "hash32 sample_hash" by (auto simp: hash32_def sample_hash_def)
  moreover have "sample_hash ?d' \<noteq> zero_hash" "sample_hash ?d \<noteq> sample_hash ?d'" by code_simp+
  ultimately show ?thesis
    using single_segment_exchange_exact [where h = sample_hash and sid = "[1]" and data = ?d and data' = ?d' and peer = "''b''" and now' = 0
        and store' = "\<lambda>_. Some ?d'" and r' = "Registry_new (\<lambda>_. 0) 1 0" and q = sample_queue
        and env = "ae_env (\<lambda>_. Some ?d) (merkle_exchange sample_hash (\<lambda>_. Some ?d') 0 (Registry_new (\<lambda>_. 0) 1 0))"
        and seg = "(reserved_metadata [1] Standard 4 2)\<lparr>sm_merkle_root := Some (sample_hash ?d)\<rparr>", OF _ _ _ _ small_tree small_tree]
    by (simp add: ae_env_def sample_queue_def reserved_metadata_def no_collision_def node_inputs_def run_starts_def mismatch_def no_stats_def)
qed

text \<open>
  C35. Two healthy nodes that hold identical data of two segments with different roots, the first one not all zeros, never have a clean
  exchange: the answer carries the root of the
  first segment only and is compared with the root of both.  When the tree of the second segment has more levels than that of the
  first the exchange panics, and otherwise it counts a mismatch.
\<close>

theorem healthy_exchange_never_clean:
  assumes "hash32 h" and "ae_store env (sm_segment_id sa) = Some da" and "ae_store env (sm_segment_id sb) = Some db"
    and "mt_build h da DEFAULT_LEAF_SIZE = Some t1" and "mt_build h db DEFAULT_LEAF_SIZE = Some t2"
    and "sm_merkle_root sa = Some (mk_hash (mt_root t1))" and "sm_merkle_root sb = Some (mk_hash (mt_root t2))"
    and "mk_hash (mt_root t1) \<noteq> zero_hash" and "mk_hash (mt_root t1) \<noteq> mk_hash (mt_root t2)"
    and "ae_rpc env peer [sm_segment_id sa, sm_segment_id sb] =
      Some (merkle_exchange h (ae_store env) now' r' [sm_segment_id sa, sm_segment_id sb])"
  shows "(length (mt_tree_levels t1) < length (mt_tree_levels t2) \<longrightarrow>
      try_grpc_merkle_exchange h env peer [sa, sb] (no_stats, q) = Panic) \<and>
    (length (mt_tree_levels t2) \<le> length (mt_tree_levels t1) \<longrightarrow>
      (\<exists>st q'. try_grpc_merkle_exchange h env peer [sa, sb] (no_stats, q) = Ok (True, st, q') \<and> ast_mismatches_found st = 1))"
proof -
  have b: "0 < DEFAULT_LEAF_SIZE" "DEFAULT_LEAF_SIZE = 65536" by (simp_all add: DEFAULT_LEAF_SIZE_def)
  let ?xs = "mt_leaf_hashes t1" and ?resp = "merkle_exchange h (ae_store env) now' r' [sm_segment_id sa, sm_segment_id sb]"
  have t1: "tree_of h ?xs t1" "?xs = map h (chunks_of DEFAULT_LEAF_SIZE da)" using tree_of_data [OF assms(4) b(1)] by (simp_all add: tree_of_def)
  have t2: "tree_of h (mt_leaf_hashes t2) t2" using tree_of_data [OF assms(5) b(1)] by (simp add: tree_of_def)
  have x32: "\<forall>x \<in> set ?xs. length x = 32" using assms(1) t1(2) by (auto simp: hash32_def)
  obtain pt where pt: "build_from_hashes h ?xs = Some pt" "tree_of h ?xs pt" using tree_of_hashes_ex [OF tree_ofD(1) [OF t1(1)]] by blast
  note resp = merkle_exchange_first(1) [where store = "ae_store env" and sid = "sm_segment_id sa" and now = now' and r = r' and sids = "[sm_segment_id sb]",
      OF assms(1,2) assms(4) [unfolded b(2)] assms(8)]
    merkle_exchange_first(2) [where store = "ae_store env" and sid = "sm_segment_id sa", OF assms(1,2) assms(4) [unfolded b(2)] assms(8)]
  have first: "compare_segment h env ?resp sa (no_stats, q) = Ok (no_stats, q)"
    using resp assms(6) by (simp add: compare_segment_def)
  have second: "compare_segment h env ?resp sb (no_stats, q) = bind_outcome (descend_diff t2 pt) (\<lambda>diverged.
      let cs = fold (\<lambda>range. heal (sm_segment_id sb) [rg_start range]) diverged (mismatch no_stats, q)
      in Ok ((fst cs)\<lparr>ast_leaves_repaired := ast_leaves_repaired (fst cs) + length diverged\<rparr>, snd cs))"
    by (rule compare_differing_segment [OF assms(1,7) _ _ tree_ofD(1) [OF t1(1)] x32 pt(1) assms(3,5)]) (use resp assms(9) in simp_all)
  have roots: "mk_hash (mt_root pt) = mk_hash (mt_root t1)" "mt_tree_levels pt = mt_tree_levels t1"
    using tree_ofD [OF pt(2)] tree_ofD [OF t1(1)] by simp_all
  have kept: "fst (fold (\<lambda>range. heal (sm_segment_id sb) [rg_start range]) rs (st, q)) = st" for rs st q
    by (induction rs arbitrary: q) (simp_all add: heal_def)
  have one: "ast_mismatches_found (mismatch no_stats) = 1" by (simp add: mismatch_def no_stats_def)
  have no_err: "descend_diff t2 pt \<noteq> Err ()"
    by (rule descend_diff_no_error)
  show ?thesis
    using descent_panics [OF t2 pt(2)] roots assms(9,10) first second resp no_err one
    by (cases "descend_diff t2 pt") (auto simp: try_grpc_merkle_exchange_def Let_def kept)
qed

theorem healthy_exchange_never_clean_witness:
  "\<exists>st q'. try_grpc_merkle_exchange sample_hash
      (let store = (\<lambda>sid. if sid = [1] then Some (replicate 20 1) else Some (replicate 20 2))
       in ae_env store (merkle_exchange sample_hash store 0 (Registry_new (\<lambda>_. 0) 1 0))) ''b''
      [(reserved_metadata [1] Standard 4 2)\<lparr>sm_merkle_root := Some (sample_hash (replicate 20 1))\<rparr>,
       (reserved_metadata [2] Standard 4 2)\<lparr>sm_merkle_root := Some (sample_hash (replicate 20 2))\<rparr>] (no_stats, None) =
    Ok (True, st, q') \<and> ast_mismatches_found st = 1"
proof -
  let ?d = "replicate 20 1 :: u8 list" and ?d' = "replicate 20 2 :: u8 list"
  let ?store = "\<lambda>sid :: SegmentId. if sid = [1] then Some ?d else Some ?d'"
  have "hash32 sample_hash" by (auto simp: hash32_def sample_hash_def)
  moreover have "sample_hash ?d \<noteq> zero_hash" "sample_hash ?d \<noteq> sample_hash ?d'" by code_simp+
  ultimately show ?thesis
    using healthy_exchange_never_clean [where h = sample_hash and da = ?d and db = ?d' and peer = "''b''" and now' = 0 and q = None
        and r' = "Registry_new (\<lambda>_. 0) 1 0" and env = "ae_env ?store (merkle_exchange sample_hash ?store 0 (Registry_new (\<lambda>_. 0) 1 0))"
        and sa = "(reserved_metadata [1] Standard 4 2)\<lparr>sm_merkle_root := Some (sample_hash ?d)\<rparr>"
        and sb = "(reserved_metadata [2] Standard 4 2)\<lparr>sm_merkle_root := Some (sample_hash ?d')\<rparr>", OF _ _ _ small_tree small_tree]
    by (simp add: ae_env_def reserved_metadata_def Let_def)
qed

end
