(* ===== verification/BufferPools.thy ===== *)
theory BufferPools
  imports Prelude
begin

text \<open>
  The pool of recycled append buffers (\<^verbatim>\<open>oceanfs-storage/src/buffer_pool.rs\<close>).  A released buffer is empty, so it is
  represented by its capacity.  The standard allocation gives a buffer of the requested capacity.
\<close>

definition SMALL_CLASS_THRESHOLD :: nat where "SMALL_CLASS_THRESHOLD = 256 * 1024"

record SizeClass =
  sc_free :: "nat list"
  sc_retained_bytes :: nat
  sc_max_bytes :: nat

definition SizeClass_new :: "nat \<Rightarrow> SizeClass" where
  "SizeClass_new max_bytes = \<lparr>sc_free = [], sc_retained_bytes = 0, sc_max_bytes = max_bytes\<rparr>"

definition sc_pop :: "SizeClass \<Rightarrow> nat option \<times> SizeClass" where
  "sc_pop c =
     (if sc_free c = [] then (None, c)
      else (Some (last (sc_free c)), c\<lparr>sc_free := butlast (sc_free c), sc_retained_bytes := sc_retained_bytes c - last (sc_free c)\<rparr>))"

definition sc_push :: "nat \<Rightarrow> SizeClass \<Rightarrow> bool \<times> SizeClass" where
  "sc_push capacity c =
     (if sc_retained_bytes c + capacity \<le> sc_max_bytes c
      then (True, c\<lparr>sc_free := sc_free c @ [capacity], sc_retained_bytes := sc_retained_bytes c + capacity\<rparr>) else (False, c))"

record BufferPool =
  bp_small :: SizeClass
  bp_large :: SizeClass
  bp_chunk_size :: nat
  bp_max_buffers :: nat

definition BufferPool_new :: "nat \<Rightarrow> nat \<Rightarrow> BufferPool" where
  "BufferPool_new chunk_size max_buffers =
     \<lparr>bp_small = ((\<lambda>c. snd (sc_push chunk_size c)) ^^ max_buffers) (SizeClass_new (chunk_size * max_buffers)),
      bp_large = SizeClass_new (chunk_size * max_buffers), bp_chunk_size = chunk_size, bp_max_buffers = max_buffers\<rparr>"

definition acquire :: "BufferPool \<Rightarrow> nat \<times> BufferPool" where
  "acquire p = (case sc_pop (bp_small p) of (buf, c) \<Rightarrow> (case buf of Some b \<Rightarrow> b | None \<Rightarrow> bp_chunk_size p, p\<lparr>bp_small := c\<rparr>))"

definition acquire_sized :: "nat \<Rightarrow> BufferPool \<Rightarrow> nat \<times> BufferPool" where
  "acquire_sized capacity p =
     (let (buf, p) = (if capacity \<le> SMALL_CLASS_THRESHOLD
          then (case sc_pop (bp_small p) of (buf, c) \<Rightarrow> (case buf of Some b \<Rightarrow> b | None \<Rightarrow> bp_chunk_size p, p\<lparr>bp_small := c\<rparr>))
          else (case sc_pop (bp_large p) of (buf, c) \<Rightarrow> (case buf of Some b \<Rightarrow> b | None \<Rightarrow> capacity, p\<lparr>bp_large := c\<rparr>)))
      in (max buf capacity, p))"

definition release :: "nat \<Rightarrow> BufferPool \<Rightarrow> BufferPool" where
  "release capacity p =
     (if capacity \<le> SMALL_CLASS_THRESHOLD then p\<lparr>bp_small := snd (sc_push capacity (bp_small p))\<rparr>
      else p\<lparr>bp_large := snd (sc_push capacity (bp_large p))\<rparr>)"

definition free_count :: "BufferPool \<Rightarrow> nat" where "free_count p = length (sc_free (bp_small p)) + length (sc_free (bp_large p))"

section \<open>The retained memory is bounded and accounted exactly\<close>

definition class_ok :: "SizeClass \<Rightarrow> bool" where
  "class_ok c \<longleftrightarrow> sc_retained_bytes c = sum_list (sc_free c) \<and> sc_retained_bytes c \<le> sc_max_bytes c"

definition pool_ok :: "BufferPool \<Rightarrow> bool" where "pool_ok p \<longleftrightarrow> class_ok (bp_small p) \<and> class_ok (bp_large p)"

lemma class_ok_new: "class_ok (SizeClass_new n)"
  by (simp add: class_ok_def SizeClass_new_def)

lemma class_ok_push: "class_ok c \<Longrightarrow> class_ok (snd (sc_push n c))"
  by (auto simp: class_ok_def sc_push_def)

lemma class_ok_pop:
  assumes "class_ok c"
  shows "class_ok (snd (sc_pop c))"
proof (cases "sc_free c" rule: rev_cases)
  case Nil
  then show ?thesis using assms by (simp add: sc_pop_def)
next
  case (snoc xs x)
  then show ?thesis using assms by (auto simp: class_ok_def sc_pop_def)
qed

lemma buffer_pool_bounded:
  "pool_ok (BufferPool_new n k)" "pool_ok p \<Longrightarrow> pool_ok (snd (acquire p))" "pool_ok p \<Longrightarrow> pool_ok (snd (acquire_sized n p))"
  "pool_ok p \<Longrightarrow> pool_ok (release n p)"
proof -
  have "class_ok (((\<lambda>c. snd (sc_push n c)) ^^ k) (SizeClass_new m))" for m
    by (induction k) (simp_all add: class_ok_new class_ok_push)
  then show "pool_ok (BufferPool_new n k)" by (simp add: pool_ok_def BufferPool_new_def class_ok_new)
  show "pool_ok p \<Longrightarrow> pool_ok (snd (acquire p))" by (simp add: pool_ok_def acquire_def case_prod_unfold class_ok_pop)
  show "pool_ok p \<Longrightarrow> pool_ok (snd (acquire_sized n p))" by (simp add: pool_ok_def acquire_sized_def case_prod_unfold class_ok_pop)
  show "pool_ok p \<Longrightarrow> pool_ok (release n p)" by (simp add: pool_ok_def release_def class_ok_push)
qed

lemma acquire_sized_capacity: "n \<le> fst (acquire_sized n p)"
  by (simp add: acquire_sized_def case_prod_unfold)

end
