(* ===== verification/SegmentPools.thy ===== *)
theory SegmentPools
  imports Coordinator Stripe BufferPools
begin

text \<open>
  The pool of active segments (\<^verbatim>\<open>oceanfs-storage/src/segment/pool.rs\<close> and \<^verbatim>\<open>segment/buffer.rs\<close>) and the drain of pending seals
  of the lifecycle coordinator.  Each critical section of the source is one function.  A buffer holds fewer than \<open>2 ^ 63\<close> bytes,
  so the write cursor of a segment is a natural number.  Segment ids are drawn from a generator.  The channel to the seal worker is
  the list of the items in it; the semaphore that bounds the number of concurrent encodes and the encoder are left out.
\<close>

section \<open>Active segments\<close>

record SegmentSizeConfig =
  inline_threshold_bytes :: nat
  small_threshold_bytes :: nat
  small_target_size :: nat
  default_target_size :: nat

definition SegmentSizeConfig_default :: SegmentSizeConfig where
  "SegmentSizeConfig_default = \<lparr>inline_threshold_bytes = 4096, small_threshold_bytes = 262144, small_target_size = 65536,
     default_target_size = 4194304\<rparr>"

definition classify :: "SegmentSizeConfig \<Rightarrow> nat \<Rightarrow> SizeTier" where
  "classify cfg blob_size =
     (if blob_size \<le> inline_threshold_bytes cfg then Inline
      else if blob_size \<le> small_threshold_bytes cfg then Small
      else if blob_size \<le> default_target_size cfg then Standard
      else Multi)"

datatype pool_error = PoolInvalidConfig | SegmentFull | WriteBackpressureTimeout

record ActiveSegment =
  as_id :: SegmentId
  as_tier :: SizeTier
  as_buffer :: "u8 list"
  as_cursor :: nat
  as_target_size :: nat

record SealedSegment =
  ss_segment_id :: SegmentId
  ss_tier :: SizeTier
  ss_data :: "u8 list"

text \<open>What the pools of a node share: the lifecycle registry, the buffer pool, the generator of ids and the clock.\<close>

record Shared =
  sh_registry :: Registry
  sh_buffers :: BufferPool
  sh_ids :: "nat \<Rightarrow> SegmentId"
  sh_drawn :: nat
  sh_now :: nat

fun target_size_of :: "SizeTier \<Rightarrow> SegmentSizeConfig \<Rightarrow> nat option" where
  "target_size_of Small cfg = Some (small_target_size cfg)"
| "target_size_of Standard cfg = Some (default_target_size cfg)"
| "target_size_of Multi cfg = Some (default_target_size cfg)"
| "target_size_of Inline cfg = None"

definition ActiveSegment_new :: "SizeTier \<Rightarrow> SegmentSizeConfig \<Rightarrow> Shared \<Rightarrow> (pool_error, ActiveSegment) outcome \<times> Shared" where
  "ActiveSegment_new tier cfg sh =
     (case target_size_of tier cfg of
        None \<Rightarrow> (Err PoolInvalidConfig, sh)
      | Some target \<Rightarrow>
          (Ok \<lparr>as_id = sh_ids sh (sh_drawn sh), as_tier = tier, as_buffer = [], as_cursor = 0, as_target_size = target\<rparr>,
           sh\<lparr>sh_buffers := snd (acquire_sized target (sh_buffers sh)), sh_drawn := Suc (sh_drawn sh)\<rparr>))"

definition new_with_id ::
  "SegmentId \<Rightarrow> SizeTier \<Rightarrow> SegmentSizeConfig \<Rightarrow> Shared \<Rightarrow> (pool_error, ActiveSegment) outcome \<times> Shared" where
  "new_with_id sid tier cfg sh =
     (case ActiveSegment_new tier cfg sh of
        (Ok segment, sh) \<Rightarrow> (Ok (segment\<lparr>as_id := sid\<rparr>), sh)
      | (err, sh) \<Rightarrow> (err, sh))"

definition as_is_full :: "ActiveSegment \<Rightarrow> bool" where "as_is_full segment \<longleftrightarrow> as_target_size segment \<le> as_cursor segment"

definition as_is_empty :: "ActiveSegment \<Rightarrow> bool" where "as_is_empty segment \<longleftrightarrow> as_cursor segment = 0"

definition as_append :: "u8 list \<Rightarrow> ActiveSegment \<Rightarrow> (pool_error, nat \<times> nat) outcome \<times> ActiveSegment" where
  "as_append data segment =
     (if as_is_full segment then (Err SegmentFull, segment)
      else (Ok (as_cursor segment, length data),
            segment\<lparr>as_buffer := as_buffer segment @ data, as_cursor := as_cursor segment + length data\<rparr>))"

definition as_seal :: "ActiveSegment \<Rightarrow> SealedSegment" where
  "as_seal segment = \<lparr>ss_segment_id = as_id segment, ss_tier = as_tier segment, ss_data = as_buffer segment\<rparr>"

section \<open>Slots\<close>

definition IN_FLIGHT_CAP :: nat where "IN_FLIGHT_CAP = 16"

datatype SlotState = Appending ActiveSegment | Sealing SegmentId "u8 list" | Idle

definition PoolSlot_new :: "SizeTier \<Rightarrow> SegmentSizeConfig \<Rightarrow> Shared \<Rightarrow> (pool_error, SlotState) outcome \<times> Shared" where
  "PoolSlot_new tier cfg sh =
     (case ActiveSegment_new tier cfg sh of (segment, sh) \<Rightarrow> (bind_outcome segment (\<lambda>s. Ok (Appending s)), sh))"

fun is_appending :: "SlotState \<Rightarrow> bool" where
  "is_appending (Appending _) = True"
| "is_appending _ = False"

fun needs_segment :: "SlotState \<Rightarrow> bool" where
  "needs_segment (Sealing _ _) = True"
| "needs_segment Idle = True"
| "needs_segment (Appending _) = False"

text \<open>Whether a slot accepts writes for the given segment.\<close>

fun holds :: "SegmentId \<Rightarrow> SlotState \<Rightarrow> bool" where
  "holds sid (Appending segment) = (as_id segment = sid)"
| "holds sid _ = False"

definition transition_to_sealing ::
  "SizeTier \<Rightarrow> u8 \<Rightarrow> u8 \<Rightarrow> bool \<Rightarrow> SlotState \<Rightarrow> Shared \<Rightarrow> SealedSegment option \<times> SlotState \<times> Shared" where
  "transition_to_sealing tier ec_k ec_m ignore_cap slot sh =
     (if \<not> ignore_cap \<and> IN_FLIGHT_CAP \<le> in_flight_count (sh_registry sh) then (None, slot, sh)
      else case slot of
          Appending segment \<Rightarrow>
            (let sealed = as_seal segment;
                 (_, r) = attach_in_flight (sh_now sh) (ss_segment_id sealed) tier ec_k ec_m (ss_data sealed) (sh_registry sh)
             in (Some sealed, Sealing (ss_segment_id sealed) (ss_data sealed), sh\<lparr>sh_registry := r\<rparr>))
        | other \<Rightarrow> (None, other, sh))"

fun install_replacement :: "ActiveSegment \<Rightarrow> SlotState \<Rightarrow> bool \<times> SlotState" where
  "install_replacement replacement (Sealing _ _) = (True, Appending replacement)"
| "install_replacement replacement Idle = (True, Appending replacement)"
| "install_replacement replacement (Appending s) = (False, Appending s)"

text \<open>What the write path records for a segment when it appends to it.\<close>

record SegmentIndexEntry =
  ie_offset :: nat
  ie_length :: u32
  ie_blob_key_hash :: HashOutput

record PoolIndex =
  blob_entries :: "(SegmentId \<times> SegmentIndexEntry list) list"
  object_keys :: "(SegmentId \<times> ContainedObject list) list"

definition push_entry :: "'k \<Rightarrow> 'v \<Rightarrow> ('k \<times> 'v list) list \<Rightarrow> ('k \<times> 'v list) list" where
  "push_entry k v m = hm_insert k ((case hm_get m k of None \<Rightarrow> [] | Some vs \<Rightarrow> vs) @ [v]) m"

definition record_blob_entry :: "SegmentId \<Rightarrow> nat \<Rightarrow> u32 \<Rightarrow> HashOutput \<Rightarrow> PoolIndex \<Rightarrow> PoolIndex" where
  "record_blob_entry sid off len h ix =
     ix\<lparr>blob_entries := push_entry sid \<lparr>ie_offset = off, ie_length = len, ie_blob_key_hash = h\<rparr> (blob_entries ix)\<rparr>"

definition record_object_key :: "SegmentId \<Rightarrow> ContainedObject \<Rightarrow> PoolIndex \<Rightarrow> PoolIndex" where
  "record_object_key sid obj ix = ix\<lparr>object_keys := push_entry sid obj (object_keys ix)\<rparr>"

type_synonym hook = "SegmentId \<Rightarrow> nat \<Rightarrow> u32 \<Rightarrow> PoolIndex \<Rightarrow> PoolIndex"

record AppendOutcome =
  ao_segment_id :: SegmentId
  ao_offset :: nat
  ao_length :: u32
  ao_sealed :: "SealedSegment option"

definition length_u32 :: "nat \<Rightarrow> u32" where
  "length_u32 n = (if n < 2 ^ 32 then of_nat n else - 1)"

definition try_append_with_hook ::
  "u8 list \<Rightarrow> hook \<Rightarrow> SizeTier \<Rightarrow> u8 \<Rightarrow> u8 \<Rightarrow> SlotState \<Rightarrow> PoolIndex \<Rightarrow> Shared \<Rightarrow>
     (pool_error, AppendOutcome option) outcome \<times> SlotState \<times> PoolIndex \<times> Shared" where
  "try_append_with_hook data hook tier ec_k ec_m slot ix sh =
     (case slot of
        Appending segment \<Rightarrow>
          (case as_append data segment of
             (Ok (off, n), segment) \<Rightarrow>
               (let len = length_u32 n;
                    ix = hook (as_id segment) off len ix;
                    (sealed, slot, sh) = (if as_is_full segment
                      then transition_to_sealing tier ec_k ec_m False (Appending segment) sh else (None, Appending segment, sh))
                in (Ok (Some \<lparr>ao_segment_id = as_id segment, ao_offset = off, ao_length = len, ao_sealed = sealed\<rparr>), slot, ix, sh))
           | (Err SegmentFull, _) \<Rightarrow> (Ok None, slot, ix, sh)
           | (Err e, _) \<Rightarrow> (Err e, slot, ix, sh)
           | (Panic, _) \<Rightarrow> (Panic, slot, ix, sh))
      | _ \<Rightarrow> (Ok None, slot, ix, sh))"

section \<open>The pool\<close>

record SealingWork =
  sw_segment_id :: SegmentId
  sw_segment_data :: "u8 list"
  sw_tier :: SizeTier
  sw_ec_k :: u8
  sw_ec_m :: u8
  sw_strip_size_bytes :: nat
  sw_entries :: "SegmentIndexEntry list"
  sw_object_keys :: "ContainedObject list"

record PoolConfig =
  active_pool_size :: nat
  encode_queue_capacity :: nat
  ec_streaming_encode :: bool

text \<open>The items the seal worker has received are kept beside the channel.\<close>

record SegmentPool =
  sp_slots :: "SlotState list"
  sp_tier :: SizeTier
  sp_size_config :: SegmentSizeConfig
  sp_ec_config :: "CodecConfig option"
  sp_current_index :: nat
  sp_queue :: "SealingWork list"
  sp_queue_capacity :: nat
  sp_rx_open :: bool
  sp_received :: "SealingWork list"
  sp_index :: PoolIndex

type_synonym pst = "SegmentPool \<times> Shared"

fun new_slots :: "nat \<Rightarrow> SizeTier \<Rightarrow> SegmentSizeConfig \<Rightarrow> Shared \<Rightarrow> (pool_error, SlotState list) outcome \<times> Shared" where
  "new_slots 0 tier cfg sh = (Ok [], sh)"
| "new_slots (Suc n) tier cfg sh =
     (case PoolSlot_new tier cfg sh of
        (Ok slot, sh) \<Rightarrow> (case new_slots n tier cfg sh of (slots, sh) \<Rightarrow> (bind_outcome slots (\<lambda>ss. Ok (slot # ss)), sh))
      | (Err e, sh) \<Rightarrow> (Err e, sh)
      | (Panic, sh) \<Rightarrow> (Panic, sh))"

text \<open>A channel of capacity 0 is a panic of the channel constructor.\<close>

definition SegmentPool_new ::
  "PoolConfig \<Rightarrow> SizeTier \<Rightarrow> SegmentSizeConfig \<Rightarrow> CodecConfig option \<Rightarrow> Shared \<Rightarrow> (pool_error, SegmentPool) outcome \<times> Shared" where
  "SegmentPool_new cfg tier size_config ec_config sh =
     (if encode_queue_capacity cfg = 0 then (Panic, sh)
      else case new_slots (active_pool_size cfg) tier size_config sh of
          (slots, sh) \<Rightarrow> (bind_outcome slots (\<lambda>ss. Ok \<lparr>sp_slots = ss, sp_tier = tier, sp_size_config = size_config,
            sp_ec_config = (if ec_streaming_encode cfg then ec_config else None), sp_current_index = 0, sp_queue = [],
            sp_queue_capacity = encode_queue_capacity cfg, sp_rx_open = True, sp_received = [],
            sp_index = \<lparr>blob_entries = [], object_keys = []\<rparr>\<rparr>), sh))"

definition ec_params :: "SegmentPool \<Rightarrow> u8 \<times> u8 \<times> nat" where
  "ec_params p = (case sp_ec_config p of None \<Rightarrow> (0, 0, 0) | Some c \<Rightarrow> (cfg_data_shards c, cfg_parity_shards c, strip_size_bytes c))"

definition active_count :: "SegmentPool \<Rightarrow> nat" where "active_count p = length (filter is_appending (sp_slots p))"

text \<open>The \<^verbatim>\<open>for\<close> loop over the slots from the round-robin index on, given the indices still to visit.\<close>

fun append_scan :: "u8 list \<Rightarrow> hook \<Rightarrow> nat list \<Rightarrow> pst \<Rightarrow> (pool_error, AppendOutcome option) outcome \<times> pst" where
  "append_scan data hook [] st = (Ok None, st)"
| "append_scan data hook (i # is) (p, sh) =
     (case ec_params p of
        (ec_k, ec_m, _) \<Rightarrow>
          (case try_append_with_hook data hook (sp_tier p) ec_k ec_m (sp_slots p ! i) (sp_index p) sh of
             (res, slot, ix, sh) \<Rightarrow>
               (let p = p\<lparr>sp_slots := (sp_slots p)[i := slot], sp_index := ix\<rparr>
                in case res of Ok None \<Rightarrow> append_scan data hook is (p, sh) | res \<Rightarrow> (res, (p, sh)))))"

text \<open>Without slots the index arithmetic divides by zero.\<close>

definition try_append_single_pass :: "u8 list \<Rightarrow> hook \<Rightarrow> pst \<Rightarrow> (pool_error, AppendOutcome option) outcome \<times> pst" where
  "try_append_single_pass data hook st =
     (case st of
        (p, sh) \<Rightarrow>
          (let n = length (sp_slots p); start = sp_current_index p
           in if n = 0 then (Panic, st)
              else append_scan data hook (map (\<lambda>off. (start + off) mod n) [0..<n]) (p\<lparr>sp_current_index := (start + 1) mod n\<rparr>, sh)))"

definition first_slot :: "(SlotState \<Rightarrow> bool) \<Rightarrow> SlotState list \<Rightarrow> nat option" where
  "first_slot P slots = find (\<lambda>i. P (slots ! i)) [0..<length slots]"

definition try_activate_slot :: "pst \<Rightarrow> bool \<times> pst" where
  "try_activate_slot st =
     (case st of
        (p, sh) \<Rightarrow>
          (case first_slot needs_segment (sp_slots p) of
             None \<Rightarrow> (False, st)
           | Some i \<Rightarrow>
               (case ActiveSegment_new (sp_tier p) (sp_size_config p) sh of
                  (Ok replacement, sh) \<Rightarrow>
                    (case install_replacement replacement (sp_slots p ! i) of
                       (installed, slot) \<Rightarrow> (installed, (p\<lparr>sp_slots := (sp_slots p)[i := slot]\<rparr>, sh)))
                | (_, sh) \<Rightarrow> (False, (p, sh)))))"

section \<open>Handing a frozen segment to the seal worker\<close>

definition entries_of :: "SegmentId \<Rightarrow> (SegmentId \<times> 'v list) list \<Rightarrow> 'v list" where
  "entries_of sid m = (case hm_get m sid of None \<Rightarrow> [] | Some vs \<Rightarrow> vs)"

definition seal_work :: "SegmentPool \<Rightarrow> SegmentId \<Rightarrow> u8 list \<Rightarrow> SizeTier \<Rightarrow> SealingWork" where
  "seal_work p sid data tier =
     (case ec_params p of
        (ec_k, ec_m, strip) \<Rightarrow> \<lparr>sw_segment_id = sid, sw_segment_data = data, sw_tier = tier, sw_ec_k = ec_k, sw_ec_m = ec_m,
          sw_strip_size_bytes = strip, sw_entries = entries_of sid (blob_entries (sp_index p)),
          sw_object_keys = entries_of sid (object_keys (sp_index p))\<rparr>)"

definition clear_entries :: "SegmentId \<Rightarrow> SegmentPool \<Rightarrow> SegmentPool" where
  "clear_entries sid p = p\<lparr>sp_index := \<lparr>blob_entries = hm_remove sid (blob_entries (sp_index p)),
     object_keys = hm_remove sid (object_keys (sp_index p))\<rparr>\<rparr>"

definition seal_capacity :: "SegmentPool \<Rightarrow> nat" where "seal_capacity p = sp_queue_capacity p - length (sp_queue p)"

definition receive_works :: "nat \<Rightarrow> SegmentPool \<Rightarrow> SegmentPool" where
  "receive_works n p = p\<lparr>sp_received := sp_received p @ take n (sp_queue p), sp_queue := drop n (sp_queue p)\<rparr>"

text \<open>
  What a bounded wait for room in the channel meets: the deadline has already passed, or the seal worker receives some items
  before it passes.
\<close>

datatype wait = NoTime | Receives nat

definition send_work :: "nat \<Rightarrow> SealingWork \<Rightarrow> SegmentPool \<Rightarrow> (unit, unit) outcome option \<times> SegmentPool" where
  "send_work n work p =
     (if \<not> sp_rx_open p then (Some (Err ()), p)
      else let p = receive_works n p
           in if seal_capacity p = 0 then (None, p) else (Some (Ok ()), p\<lparr>sp_queue := sp_queue p @ [work]\<rparr>))"

definition update_registry :: "(Registry \<Rightarrow> Registry) \<Rightarrow> Shared \<Rightarrow> Shared" where
  "update_registry f sh = sh\<lparr>sh_registry := f (sh_registry sh)\<rparr>"

text \<open>
  The enqueue of the synchronous path.  On a full channel it blocks until the worker has received an item.
\<close>

definition enqueue_seal :: "SealedSegment \<Rightarrow> SegmentPool \<Rightarrow> bool \<times> SegmentPool" where
  "enqueue_seal payload p =
     (let work = seal_work p (ss_segment_id payload) (ss_data payload) (ss_tier payload)
      in case send_work (if seal_capacity p = 0 then 1 else 0) work p of
          (Some (Ok _), p) \<Rightarrow> (True, clear_entries (ss_segment_id payload) p)
        | (_, p) \<Rightarrow> (False, p))"

definition finish_seal_handoff :: "SealedSegment option \<Rightarrow> pst \<Rightarrow> pst" where
  "finish_seal_handoff sealed st =
     (case sealed of
        None \<Rightarrow> st
      | Some payload \<Rightarrow>
          (case snd (try_activate_slot st) of
             (p, sh) \<Rightarrow>
               (case enqueue_seal payload p of
                  (accepted, p) \<Rightarrow> (p, if accepted then update_registry (mark_seal_queued (ss_segment_id payload)) sh else sh))))"

definition finish_seal_handoff_async :: "wait \<Rightarrow> SealedSegment option \<Rightarrow> pst \<Rightarrow> (pool_error, unit) outcome \<times> pst" where
  "finish_seal_handoff_async w sealed st =
     (case sealed of
        None \<Rightarrow> (Ok (), st)
      | Some payload \<Rightarrow>
          (let sid = ss_segment_id payload
           in case snd (try_activate_slot st) of
               (p, sh) \<Rightarrow>
                 (case w of
                    NoTime \<Rightarrow> (Err WriteBackpressureTimeout, (p, update_registry (mark_seal_unqueued sid) sh))
                  | Receives n \<Rightarrow>
                      (case send_work n (seal_work p sid (ss_data payload) (ss_tier payload)) p of
                         (Some (Ok _), p) \<Rightarrow> (Ok (), (clear_entries sid p, update_registry (mark_seal_queued sid) sh))
                       | (_, p) \<Rightarrow> (Err WriteBackpressureTimeout, (p, update_registry (mark_seal_unqueued sid) sh))))))"

definition enqueue_seal_handoff :: "wait \<Rightarrow> SealedSegment option \<Rightarrow> pst \<Rightarrow> (pool_error, unit) outcome \<times> pst" where
  "enqueue_seal_handoff w sealed st = finish_seal_handoff_async w sealed st"

text \<open>
  The retry of the drain looks only at whether the wait timed out: a send to a closed channel returns at once and counts as
  accepted.
\<close>

definition enqueue_inflight_work :: "nat \<Rightarrow> SegmentId \<Rightarrow> SizeTier \<Rightarrow> u8 list \<Rightarrow> SegmentPool \<Rightarrow> bool \<times> SegmentPool" where
  "enqueue_inflight_work n sid tier data p =
     (case send_work n (seal_work p sid data tier) p of
        (Some _, p) \<Rightarrow> (True, clear_entries sid p)
      | (None, p) \<Rightarrow> (False, p))"

section \<open>Freezing segments\<close>

text \<open>The transition of one slot of the pool.\<close>

definition freeze_slot :: "bool \<Rightarrow> nat \<Rightarrow> pst \<Rightarrow> SealedSegment option \<times> pst" where
  "freeze_slot ignore_cap i st =
     (case st of
        (p, sh) \<Rightarrow>
          (case ec_params p of
             (ec_k, ec_m, _) \<Rightarrow>
               (case transition_to_sealing (sp_tier p) ec_k ec_m ignore_cap (sp_slots p ! i) sh of
                  (payload, slot, sh) \<Rightarrow> (payload, (p\<lparr>sp_slots := (sp_slots p)[i := slot]\<rparr>, sh)))))"

fun holds_full :: "SlotState \<Rightarrow> bool" where
  "holds_full (Appending segment) = as_is_full segment"
| "holds_full _ = False"

fun freeze_full :: "nat list \<Rightarrow> pst \<Rightarrow> SealedSegment list \<times> pst" where
  "freeze_full [] st = ([], st)"
| "freeze_full (i # is) st =
     (if holds_full (sp_slots (fst st) ! i)
      then (case freeze_slot True i st of
              (payload, st) \<Rightarrow> (case freeze_full is st of
                 (payloads, st) \<Rightarrow> ((case payload of None \<Rightarrow> [] | Some s \<Rightarrow> [s]) @ payloads, st)))
      else freeze_full is st)"

definition slot_indices :: "pst \<Rightarrow> nat list" where "slot_indices st = [0..<length (sp_slots (fst st))]"

definition recover_full_slots_sync :: "pst \<Rightarrow> pst" where
  "recover_full_slots_sync st =
     (if seal_capacity (fst st) = 0 then st
      else case freeze_full (slot_indices st) st of
          (payloads, st) \<Rightarrow> fold (\<lambda>payload. finish_seal_handoff (Some payload)) payloads st)"

text \<open>The wait of each hand-off is given per segment; a failure is ignored.\<close>

definition recover_full_slots_async :: "(SegmentId \<Rightarrow> wait) \<Rightarrow> pst \<Rightarrow> pst" where
  "recover_full_slots_async ws st =
     (if seal_capacity (fst st) = 0 then st
      else case freeze_full (slot_indices st) st of
          (payloads, st) \<Rightarrow>
            fold (\<lambda>payload st. snd (finish_seal_handoff_async (ws (ss_segment_id payload)) (Some payload) st)) payloads st)"

fun freeze_first :: "SegmentId \<Rightarrow> nat list \<Rightarrow> pst \<Rightarrow> SealedSegment option \<times> pst" where
  "freeze_first sid [] st = (None, st)"
| "freeze_first sid (i # is) st =
     (if holds sid (sp_slots (fst st) ! i)
      then (case freeze_slot False i st of (Some payload, st) \<Rightarrow> (Some payload, st) | (None, st) \<Rightarrow> freeze_first sid is st)
      else freeze_first sid is st)"

definition freeze_partial_for_seal :: "SegmentId \<Rightarrow> pst \<Rightarrow> (pool_error, SealedSegment option) outcome \<times> pst" where
  "freeze_partial_for_seal sid st = (case freeze_first sid (slot_indices st) st of (payload, st) \<Rightarrow> (Ok payload, st))"

definition seal_replayed_partial :: "wait \<Rightarrow> SegmentId \<Rightarrow> pst \<Rightarrow> (pool_error, unit) outcome \<times> pst" where
  "seal_replayed_partial w sid st =
     (case freeze_first sid (slot_indices st) st of
        (Some payload, st) \<Rightarrow> finish_seal_handoff_async w (Some payload) st
      | (None, st) \<Rightarrow> (Ok (), st))"

section \<open>Replaying the data log into the pool\<close>

definition set_slot :: "nat \<Rightarrow> SlotState \<Rightarrow> SegmentPool \<Rightarrow> SegmentPool" where
  "set_slot i slot p = p\<lparr>sp_slots := (sp_slots p)[i := slot]\<rparr>"

fun holds_empty :: "SlotState \<Rightarrow> bool" where
  "holds_empty (Appending segment) = as_is_empty segment"
| "holds_empty _ = False"

text \<open>Appending to the slot that already rebuilds the segment.\<close>

definition replay_rebuilding :: "wait \<Rightarrow> nat \<Rightarrow> u8 list \<Rightarrow> pst \<Rightarrow> (pool_error, unit) outcome \<times> pst" where
  "replay_rebuilding w i data st =
     (case st of
        (p, sh) \<Rightarrow>
          (case sp_slots p ! i of
             Appending segment \<Rightarrow>
               (case as_append data segment of
                  (Ok _, segment) \<Rightarrow>
                    (let st = (set_slot i (Appending segment) p, sh);
                         (sealed, st) = (if as_is_full segment then freeze_slot False i st else (None, st))
                     in finish_seal_handoff_async w sealed st)
                | (Err SegmentFull, _) \<Rightarrow> (Err PoolInvalidConfig, st)
                | (Err e, _) \<Rightarrow> (Err e, st)
                | (Panic, _) \<Rightarrow> (Panic, st))
           | _ \<Rightarrow> (Ok (), st)))"

text \<open>Claiming a slot whose segment has never been written; a full replacement is frozen without looking at the cap.\<close>

definition replay_claim :: "wait \<Rightarrow> nat \<Rightarrow> SegmentId \<Rightarrow> u8 list \<Rightarrow> pst \<Rightarrow> (pool_error, unit) outcome \<times> pst" where
  "replay_claim w i sid data st =
     (case st of
        (p, sh) \<Rightarrow>
          (case new_with_id sid (sp_tier p) (sp_size_config p) sh of
             (Ok replacement, sh) \<Rightarrow>
               (case as_append data replacement of
                  (Ok _, replacement) \<Rightarrow>
                    (if as_is_full replacement
                     then (case freeze_slot True i (set_slot i (Appending replacement) p, sh) of
                             (sealed, st) \<Rightarrow> finish_seal_handoff_async w sealed st)
                     else (Ok (), (set_slot i (Appending replacement) p, sh)))
                | (Err e, _) \<Rightarrow> (Err e, (p, sh))
                | (Panic, _) \<Rightarrow> (Panic, (p, sh)))
           | (Err e, sh) \<Rightarrow> (Err e, (p, sh))
           | (Panic, sh) \<Rightarrow> (Panic, (p, sh))))"

definition append_replayed :: "wait \<Rightarrow> SegmentId \<Rightarrow> u8 list \<Rightarrow> pst \<Rightarrow> (pool_error, unit) outcome \<times> pst" where
  "append_replayed w sid data st =
     (case first_slot (holds sid) (sp_slots (fst st)) of
        Some i \<Rightarrow> replay_rebuilding w i data st
      | None \<Rightarrow>
          (let st = snd (try_activate_slot st)
           in case first_slot holds_empty (sp_slots (fst st)) of
               Some i \<Rightarrow> replay_claim w i sid data st
             | None \<Rightarrow> (Err PoolInvalidConfig, st)))"

section \<open>Reading\<close>

text \<open>The clamped copy out of an append buffer, and the slice of a frozen one.\<close>

definition slice_range :: "u8 list \<Rightarrow> nat \<Rightarrow> u32 \<Rightarrow> u8 list option" where
  "slice_range data off len =
     (let end = min (off + unat len) (length data)
      in if off < length data then Some (ByteCodec.slice data off end) else None)"

definition slice_bytes :: "u8 list \<Rightarrow> nat \<Rightarrow> u32 \<Rightarrow> u8 list option" where
  "slice_bytes data off len =
     (let end = min (off + unat len) (length data)
      in if off < length data then Some (ByteCodec.slice data off end) else None)"

text \<open>
  A read looks at the registry, then at the slots, then at the registry again; other tasks run in between, so the three looks
  may see three states.
\<close>

definition try_read :: "SegmentId \<Rightarrow> nat \<Rightarrow> u32 \<Rightarrow> pst \<Rightarrow> pst \<Rightarrow> pst \<Rightarrow> u8 list option" where
  "try_read sid off len first second third =
     (case read_source (sh_now (snd first)) sid (sh_registry (snd first)) of
        ReadInFlight data \<Rightarrow> slice_bytes data off len
      | ReadActiveSlot \<Rightarrow>
          (case find (holds sid) (sp_slots (fst second)) of
             Some (Appending segment) \<Rightarrow> slice_range (as_buffer segment) off len
           | _ \<Rightarrow>
               (case read_source (sh_now (snd third)) sid (sh_registry (snd third)) of
                  ReadInFlight data \<Rightarrow> slice_bytes data off len
                | _ \<Rightarrow> None))
      | _ \<Rightarrow> None)"

section \<open>The append loops\<close>

text \<open>
  What the asynchronous append meets in its \<open>i\<close>-th iteration: the waits of the hand-offs in the recovery, what other tasks do
  after this one has installed a segment and before it scans again, whether the deadline has passed when it is compared with the
  clock, and what other tasks do while this one sleeps.
\<close>

record async_env =
  ae_handoff :: "nat \<Rightarrow> SegmentId \<Rightarrow> wait"
  ae_race :: "nat \<Rightarrow> pst \<Rightarrow> pst"
  ae_expired :: "nat \<Rightarrow> bool"
  ae_sleep :: "nat \<Rightarrow> pst \<Rightarrow> pst"

type_synonym append_result = "(pool_error, SegmentId \<times> nat \<times> u32 \<times> SealedSegment option) outcome \<times> pst"

partial_function (option) append_async_loop :: "async_env \<Rightarrow> u8 list \<Rightarrow> hook \<Rightarrow> nat \<Rightarrow> pst \<Rightarrow> append_result option" where
  "append_async_loop env data hook i st =
     (case try_append_single_pass data hook st of
        (Ok (Some out), st) \<Rightarrow> Some (Ok (ao_segment_id out, ao_offset out, ao_length out, ao_sealed out), st)
      | (Err e, st) \<Rightarrow> Some (Err e, st)
      | (Panic, st) \<Rightarrow> Some (Panic, st)
      | (Ok None, st) \<Rightarrow>
          (case try_activate_slot (recover_full_slots_async (ae_handoff env i) st) of
             (installed, st) \<Rightarrow>
               if installed then append_async_loop env data hook (Suc i) (ae_race env i st)
               else if ae_expired env i then Some (Err WriteBackpressureTimeout, st)
               else append_async_loop env data hook (Suc i) (ae_sleep env i st)))"

definition append_with_hook_async :: "async_env \<Rightarrow> u8 list \<Rightarrow> hook \<Rightarrow> pst \<Rightarrow> append_result option" where
  "append_with_hook_async env data hook st = append_async_loop env data hook 0 st"

text \<open>The synchronous append: the budget of silence is refreshed whenever the wait is ended by a signal.\<close>

record sync_env =
  se_silent_since :: "nat \<Rightarrow> bool"
  se_wait :: "nat \<Rightarrow> pst \<Rightarrow> pst"

partial_function (option) append_sync_loop ::
  "sync_env \<Rightarrow> u8 list \<Rightarrow> hook \<Rightarrow> nat \<Rightarrow> pst \<Rightarrow> ((pool_error, SegmentId \<times> nat \<times> u32) outcome \<times> pst) option" where
  "append_sync_loop env data hook i st =
     (case try_append_single_pass data hook st of
        (Ok (Some out), st) \<Rightarrow> Some (Ok (ao_segment_id out, ao_offset out, ao_length out), finish_seal_handoff (ao_sealed out) st)
      | (Err e, st) \<Rightarrow> Some (Err e, st)
      | (Panic, st) \<Rightarrow> Some (Panic, st)
      | (Ok None, st) \<Rightarrow>
          (let st = snd (try_activate_slot (recover_full_slots_sync st))
           in if se_silent_since env i then Some (Err PoolInvalidConfig, st)
              else append_sync_loop env data hook (Suc i) (se_wait env i st)))"

definition append_with_hook :: "sync_env \<Rightarrow> u8 list \<Rightarrow> hook \<Rightarrow> pst \<Rightarrow> ((pool_error, SegmentId \<times> nat \<times> u32) outcome \<times> pst) option" where
  "append_with_hook env data hook st = append_sync_loop env data hook 0 st"

definition pool_append :: "sync_env \<Rightarrow> u8 list \<Rightarrow> pst \<Rightarrow> ((pool_error, SegmentId \<times> nat \<times> u32) outcome \<times> pst) option" where
  "pool_append env data st = append_with_hook env data (\<lambda>_ _ _ ix. ix) st"

section \<open>The drain of pending seals\<close>

definition pool_for_tier :: "SizeTier \<Rightarrow> SegmentPool list \<Rightarrow> nat option" where
  "pool_for_tier tier pools = find (\<lambda>j. sp_tier (pools ! j) = tier) [0..<length pools]"

text \<open>The pools of a node, the segments noted for sealing and the shared state.\<close>

record seal_state =
  st_pools :: "SegmentPool list"
  st_pending :: "SegmentId list"
  st_shared :: Shared

definition with_pool :: "nat \<Rightarrow> pst \<Rightarrow> seal_state \<Rightarrow> seal_state" where
  "with_pool j st s = s\<lparr>st_pools := (st_pools s)[j := fst st], st_shared := snd st\<rparr>"

definition registry_get :: "SegmentId \<Rightarrow> seal_state \<Rightarrow> LifecycleEntry option" where
  "registry_get sid s = get (sh_now (st_shared s)) sid (sh_registry (st_shared s))"

definition drain_noted :: "(SegmentId \<Rightarrow> wait) \<Rightarrow> SegmentId \<Rightarrow> seal_state \<Rightarrow> seal_state" where
  "drain_noted ws sid s =
     (case registry_get sid s of
        None \<Rightarrow> s
      | Some entry \<Rightarrow>
          if le_state entry \<noteq> Reserved then s
          else case pool_for_tier (sm_size_tier (le_metadata entry)) (st_pools s) of
              None \<Rightarrow> s
            | Some j \<Rightarrow>
                (case freeze_partial_for_seal sid (st_pools s ! j, st_shared s) of
                   (Ok (Some payload), st) \<Rightarrow> with_pool j (snd (enqueue_seal_handoff (ws sid) (Some payload) st)) s
                 | (Ok None, st) \<Rightarrow>
                     (let s = with_pool j st s
                      in case registry_get sid s of
                          None \<Rightarrow> s
                        | Some entry \<Rightarrow>
                            if le_state entry = Reserved \<and> le_in_flight entry = None
                            then s\<lparr>st_pending := st_pending s @ [sid]\<rparr> else s)
                 | (_, st) \<Rightarrow> (with_pool j st s)\<lparr>st_pending := st_pending s @ [sid]\<rparr>))"

definition unqueued_windows :: "seal_state \<Rightarrow> (SegmentId \<times> SizeTier \<times> u8 list) list" where
  "unqueued_windows s = List.map_filter (\<lambda>(sid, entry).
     if le_state entry = Reserved \<and> \<not> le_seal_queued entry
     then map_option (\<lambda>data. (sid, sm_size_tier (le_metadata entry), data)) (le_in_flight entry) else None)
     (live_entries (sh_now (st_shared s)) (sh_registry (st_shared s)))"

definition drain_window :: "(SegmentId \<Rightarrow> nat) \<Rightarrow> SegmentId \<times> SizeTier \<times> u8 list \<Rightarrow> seal_state \<Rightarrow> seal_state" where
  "drain_window ns w s =
     (case w of
        (sid, tier, data) \<Rightarrow>
          (case pool_for_tier tier (st_pools s) of
             None \<Rightarrow> s
           | Some j \<Rightarrow>
               (case enqueue_inflight_work (ns sid) sid tier data (st_pools s ! j) of
                  (accepted, p) \<Rightarrow> with_pool j
                    (p, if accepted then update_registry (mark_seal_queued sid) (st_shared s) else st_shared s) s)))"

definition drain_pending_seals :: "(SegmentId \<Rightarrow> wait) \<Rightarrow> (SegmentId \<Rightarrow> nat) \<Rightarrow> seal_state \<Rightarrow> seal_state" where
  "drain_pending_seals ws ns s =
     (let s = fold (drain_noted ws) (st_pending s) (s\<lparr>st_pending := []\<rparr>)
      in fold (drain_window ns) (unqueued_windows s) s)"

end
