(* ===== verification/PoolRuns.thy ===== *)
theory PoolRuns
  imports SegmentPools
begin

text \<open>
  The append loop of the segment pool: it returns once the deadline has passed and the pool is calm, and it need not return while
  other writers take the segments it installs.
\<close>

section \<open>The append loop returns\<close>

definition needing :: "pst \<Rightarrow> nat" where "needing st = length (filter needs_segment (sp_slots (fst st)))"

definition same_shape :: "SegmentPool \<Rightarrow> SegmentPool \<Rightarrow> bool" where
  "same_shape p q \<longleftrightarrow> sp_tier q = sp_tier p \<and> sp_size_config q = sp_size_config p \<and> length (sp_slots q) = length (sp_slots p) \<and>
     sp_ec_config q = sp_ec_config p \<and> sp_queue_capacity q = sp_queue_capacity p \<and> sp_rx_open q = sp_rx_open p"

lemma same_shape_refl [simp]: "same_shape p p"
  by (simp add: same_shape_def)

lemma same_shape_trans: "same_shape p q \<Longrightarrow> same_shape q r \<Longrightarrow> same_shape p r"
  by (simp add: same_shape_def)

lemma first_slot_Some:
  assumes "first_slot P slots = Some i"
  shows "i < length slots" "P (slots ! i)"
  using assms by (auto simp: first_slot_def find_Some_iff)

lemma first_slot_None: "first_slot P slots = None \<longleftrightarrow> (\<forall>slot \<in> set slots. \<not> P slot)"
  by (auto simp: first_slot_def find_None_iff all_set_conv_all_nth)

lemma count_update:
  assumes "i < length xs"
  shows "length (filter P (xs[i := y])) + (if P (xs ! i) then 1 else 0) = length (filter P xs) + (if P y then 1 else 0)"
  using assms
proof (induction xs arbitrary: i)
  case Nil
  then show ?case by simp
next
  case (Cons x xs)
  then show ?case by (cases i) auto
qed

lemma try_append_unavailable:
  "try_append_with_hook data hook tier k m slot ix sh = (Ok None, slot', ix', sh') \<Longrightarrow> slot' = slot \<and> ix' = ix \<and> sh' = sh"
  by (auto simp: try_append_with_hook_def Let_def split: SlotState.splits prod.splits outcome.splits pool_error.splits if_splits)

lemma append_scan_unavailable: "append_scan data hook is st = (Ok None, st') \<Longrightarrow> st' = st"
proof (induction "is")
  case Nil
  then show ?case by simp
next
  case (Cons i "is")
  obtain p sh where st: "st = (p, sh)" by (cases st)
  obtain k m strip where ec: "ec_params p = (k, m, strip)" by (metis prod_cases3)
  obtain res slot ix sh' where t: "try_append_with_hook data hook (sp_tier p) k m (sp_slots p ! i) (sp_index p) sh = (res, slot, ix, sh')"
    by (metis prod_cases4)
  have res: "res = Ok None"
    using Cons.prems by (auto simp: st ec t Let_def split: outcome.splits option.splits)
  have "slot = sp_slots p ! i" "ix = sp_index p" "sh' = sh"
    using try_append_unavailable t res by blast+
  then show ?case
    using Cons by (simp add: st ec t Let_def res)
qed

lemma single_pass_unavailable:
  assumes "try_append_single_pass data hook st = (Ok None, st')"
  shows "st' = ((fst st)\<lparr>sp_current_index := (sp_current_index (fst st) + 1) mod length (sp_slots (fst st))\<rparr>, snd st)"
  using assms by (auto simp: try_append_single_pass_def Let_def split: prod.splits if_splits dest: append_scan_unavailable)

lemma try_activate_shape: "same_shape (fst st) (fst (snd (try_activate_slot st)))"
  by (auto simp: try_activate_slot_def same_shape_def split: prod.splits option.splits outcome.splits)

lemma activate_installs:
  assumes "try_activate_slot st = (True, st')"
  shows "Suc (needing st') = needing st" "target_size_of (sp_tier (fst st)) (sp_size_config (fst st)) \<noteq> None"
proof -
  obtain p sh where st: "st = (p, sh)" by (cases st)
  obtain i where i: "first_slot needs_segment (sp_slots p) = Some i"
    using assms by (auto simp: st try_activate_slot_def split: option.splits)
  obtain t where t: "target_size_of (sp_tier p) (sp_size_config p) = Some t"
    using assms i by (auto simp: st try_activate_slot_def ActiveSegment_new_def split: option.splits)
  then show "target_size_of (sp_tier (fst st)) (sp_size_config (fst st)) \<noteq> None" by (simp add: st)
  obtain s sh' where s: "ActiveSegment_new (sp_tier p) (sp_size_config p) sh = (Ok s, sh')"
    by (simp add: ActiveSegment_new_def t)
  have "install_replacement s (sp_slots p ! i) = (True, Appending s)"
    using first_slot_Some(2)[OF i] by (cases "sp_slots p ! i") auto
  then have "st' = (p\<lparr>sp_slots := (sp_slots p)[i := Appending s]\<rparr>, sh')"
    using assms by (simp add: st try_activate_slot_def i s)
  then show "Suc (needing st') = needing st"
    using count_update[of i "sp_slots p" needs_segment "Appending s"] first_slot_Some[OF i] by (simp add: st needing_def)
qed

lemma activate_progress:
  assumes "target_size_of (sp_tier (fst st)) (sp_size_config (fst st)) \<noteq> None"
  shows "needing (snd (try_activate_slot st)) = needing st - 1"
proof (cases "first_slot needs_segment (sp_slots (fst st))")
  case None
  then have "try_activate_slot st = (False, st)" by (cases st) (simp add: try_activate_slot_def)
  moreover have "needing st = 0"
    using None by (simp add: needing_def first_slot_None)
  ultimately show ?thesis by simp
next
  case (Some i)
  have "needs_segment (sp_slots (fst st) ! i)" by (rule first_slot_Some(2)[OF Some])
  then have "fst (try_activate_slot st)"
    using assms Some by (cases st; cases "sp_slots (fst st) ! i") (auto simp: try_activate_slot_def ActiveSegment_new_def split: option.splits)
  then show ?thesis
    using activate_installs(1)[of st "snd (try_activate_slot st)"] by (cases "try_activate_slot st") auto
qed

lemma send_work_shape: "same_shape p (snd (send_work n w p))" "sp_slots (snd (send_work n w p)) = sp_slots p"
  by (auto simp: send_work_def same_shape_def receive_works_def Let_def)

lemma clear_entries_shape: "same_shape p (clear_entries sid p)" "sp_slots (clear_entries sid p) = sp_slots p"
  by (auto simp: clear_entries_def same_shape_def)

lemma handoff_async_slots:
  "sp_slots (fst (snd (finish_seal_handoff_async w (Some payload) st))) = sp_slots (fst (snd (try_activate_slot st)))"
  "same_shape (fst st) (fst (snd (finish_seal_handoff_async w (Some payload) st)))"
proof -
  obtain p sh where act: "snd (try_activate_slot st) = (p, sh)" by (cases "snd (try_activate_slot st)")
  obtain n where "w = NoTime \<or> w = Receives n" by (cases w) auto
  moreover obtain res q where send: "send_work n (seal_work p (ss_segment_id payload) (ss_data payload) (ss_tier payload)) p = (res, q)"
    by (meson surj_pair)
  moreover have "sp_slots q = sp_slots p" "same_shape p q"
    using send_work_shape[where p = p and n = n and w = "seal_work p (ss_segment_id payload) (ss_data payload) (ss_tier payload)"]
    by (auto simp: send)
  ultimately have *: "sp_slots (fst (snd (finish_seal_handoff_async w (Some payload) st))) = sp_slots p \<and>
      same_shape p (fst (snd (finish_seal_handoff_async w (Some payload) st)))"
    using clear_entries_shape
    by (auto simp: finish_seal_handoff_async_def Let_def act send clear_entries_shape intro: same_shape_trans
      split: wait.splits option.splits outcome.splits)
  then show "sp_slots (fst (snd (finish_seal_handoff_async w (Some payload) st))) = sp_slots (fst (snd (try_activate_slot st)))"
    by (simp add: act)
  show "same_shape (fst st) (fst (snd (finish_seal_handoff_async w (Some payload) st)))"
    using * try_activate_shape[of st] by (auto simp: act intro: same_shape_trans)
qed

abbreviation handoffs :: "(SegmentId \<Rightarrow> wait) \<Rightarrow> SealedSegment list \<Rightarrow> pst \<Rightarrow> pst" where
  "handoffs ws \<equiv> fold (\<lambda>payload st. snd (finish_seal_handoff_async (ws (ss_segment_id payload)) (Some payload) st))"

lemma handoffs_shape: "same_shape (fst st) (fst (handoffs ws payloads st))"
proof (induction payloads arbitrary: st)
  case Nil
  then show ?case by simp
next
  case (Cons x xs)
  show ?case
    using same_shape_trans[OF handoff_async_slots(2) Cons.IH[of "snd (finish_seal_handoff_async (ws (ss_segment_id x)) (Some x) st)"]]
    by simp
qed

lemma handoffs_needing:
  assumes "target_size_of (sp_tier (fst st)) (sp_size_config (fst st)) \<noteq> None"
  shows "needing (handoffs ws payloads st) = needing st - length payloads"
  using assms
proof (induction payloads arbitrary: st)
  case Nil
  then show ?case by simp
next
  case (Cons x xs)
  let ?st = "snd (finish_seal_handoff_async (ws (ss_segment_id x)) (Some x) st)"
  have "needing ?st = needing st - 1"
    using activate_progress[OF Cons.prems] handoff_async_slots(1)[of "ws (ss_segment_id x)" x st] by (simp add: needing_def)
  moreover have "target_size_of (sp_tier (fst ?st)) (sp_size_config (fst ?st)) \<noteq> None"
    using handoff_async_slots(2)[of st "ws (ss_segment_id x)" x] Cons.prems by (simp add: same_shape_def)
  ultimately show ?case
    using Cons.IH[of ?st] by simp
qed

lemma freeze_slot_needing:
  assumes "freeze_slot True i st = (payload, st')" "holds_full (sp_slots (fst st) ! i)" "i < length (sp_slots (fst st))"
  shows "\<exists>s. payload = Some s" "needing st' = Suc (needing st)" "same_shape (fst st) (fst st')"
proof -
  obtain p sh where st: "st = (p, sh)" by (cases st)
  obtain s where s: "sp_slots p ! i = Appending s" using assms(2) by (cases "sp_slots p ! i") (auto simp: st)
  have "payload = Some (as_seal s) \<and> sp_slots (fst st') = (sp_slots p)[i := Sealing (as_id s) (as_buffer s)] \<and> same_shape p (fst st')"
    using assms(1) by (auto simp: st s freeze_slot_def transition_to_sealing_def as_seal_def same_shape_def Let_def split: prod.splits)
  then show "\<exists>s. payload = Some s" "needing st' = Suc (needing st)" "same_shape (fst st) (fst st')"
    using count_update[of i "sp_slots p" needs_segment "Sealing (as_id s) (as_buffer s)"] assms(3)
    by (auto simp: st s needing_def)
qed

lemma freeze_full_needing:
  assumes "freeze_full is st = (payloads, st')" "\<forall>i \<in> set is. i < length (sp_slots (fst st))"
  shows "needing st' = needing st + length payloads \<and> same_shape (fst st) (fst st')"
  using assms
proof (induction "is" arbitrary: st payloads st')
  case Nil
  then show ?case by simp
next
  case (Cons i "is")
  show ?case
  proof (cases "holds_full (sp_slots (fst st) ! i)")
    case True
    obtain payload sta where f: "freeze_slot True i st = (payload, sta)" by (meson surj_pair)
    obtain ps stb where g: "freeze_full is sta = (ps, stb)" by (meson surj_pair)
    note n = freeze_slot_needing[OF f True]
    have i: "i < length (sp_slots (fst st))" using Cons.prems by simp
    have "\<forall>j \<in> set is. j < length (sp_slots (fst sta))"
      using Cons.prems(2) n(3)[OF i] by (simp add: same_shape_def)
    then have "needing stb = needing sta + length ps \<and> same_shape (fst sta) (fst stb)"
      using Cons.IH g by blast
    then show ?thesis
      using Cons.prems(1) True f g n[OF i] by (auto intro: same_shape_trans)
  next
    case False
    then show ?thesis using Cons by simp
  qed
qed

lemma recover_frozen:
  assumes "seal_capacity (fst st) \<noteq> 0"
  obtains payloads sta where "recover_full_slots_async ws st = handoffs ws payloads sta" "needing sta = needing st + length payloads"
    "same_shape (fst st) (fst sta)"
proof -
  obtain ps sta where f: "freeze_full (slot_indices st) st = (ps, sta)" by (meson surj_pair)
  show thesis
    using freeze_full_needing[OF f] assms f by (intro that[of ps sta]) (simp_all add: slot_indices_def recover_full_slots_async_def)
qed

lemma recover_shape: "same_shape (fst st) (fst (recover_full_slots_async ws st))"
proof (cases "seal_capacity (fst st) = 0")
  case True
  then show ?thesis by (simp add: recover_full_slots_async_def)
next
  case False
  then obtain payloads sta where "recover_full_slots_async ws st = handoffs ws payloads sta" "same_shape (fst st) (fst sta)"
    by (rule recover_frozen)
  then show ?thesis using handoffs_shape[of sta ws payloads] by (auto intro: same_shape_trans)
qed

lemma recover_needing:
  assumes "target_size_of (sp_tier (fst st)) (sp_size_config (fst st)) \<noteq> None"
  shows "needing (recover_full_slots_async ws st) = needing st"
proof (cases "seal_capacity (fst st) = 0")
  case True
  then show ?thesis by (simp add: recover_full_slots_async_def)
next
  case False
  then obtain payloads sta where r: "recover_full_slots_async ws st = handoffs ws payloads sta"
      "needing sta = needing st + length payloads" "same_shape (fst st) (fst sta)"
    by (rule recover_frozen)
  then show ?thesis using handoffs_needing[of sta ws payloads] assms by (simp add: same_shape_def)
qed

text \<open>One iteration that installs a segment leaves one slot less without a segment.\<close>

lemma iteration_progress:
  assumes "try_append_single_pass data hook st = (Ok None, sta)" "try_activate_slot (recover_full_slots_async ws sta) = (True, stb)"
  shows "needing stb < needing st"
proof -
  have "needing sta = needing st" using single_pass_unavailable[OF assms(1)] by (simp add: needing_def)
  moreover have "needing (recover_full_slots_async ws sta) = needing sta"
    using recover_needing[of sta ws] recover_shape[of sta ws] activate_installs(2)[OF assms(2)] by (simp add: same_shape_def)
  ultimately show ?thesis using activate_installs(1)[OF assms(2)] by simp
qed

definition calm_from :: "nat \<Rightarrow> async_env \<Rightarrow> bool" where
  "calm_from n env \<longleftrightarrow> (\<forall>i \<ge> n. ae_expired env i \<and> (\<forall>st. needing (ae_race env i st) \<le> needing st))"

lemma loop_returns_after_deadline:
  assumes "calm_from n env" "n \<le> i"
  shows "\<exists>res. append_async_loop env data hook i st = Some res"
  using assms(2)
proof (induction "needing st" arbitrary: i st rule: less_induct)
  case less
  obtain res sta where pass: "try_append_single_pass data hook st = (res, sta)" by (meson surj_pair)
  show ?case
  proof (cases "res = Ok None")
    case False
    then show ?thesis using pass by (subst append_async_loop.simps) (auto split: outcome.splits option.splits)
  next
    case True
    obtain installed stb where act: "try_activate_slot (recover_full_slots_async (ae_handoff env i) sta) = (installed, stb)"
      by (meson surj_pair)
    show ?thesis
    proof (cases installed)
      case True
      have "needing stb < needing st"
        using iteration_progress[of data hook st sta] pass act \<open>res = Ok None\<close> True by simp
      moreover have "needing (ae_race env i stb) \<le> needing stb"
        using assms(1) less.prems unfolding calm_from_def by blast
      ultimately have "needing (ae_race env i stb) < needing st" by simp
      then have "\<exists>res. append_async_loop env data hook (Suc i) (ae_race env i stb) = Some res"
        using less.hyps less.prems by simp
      then show ?thesis using pass act True \<open>res = Ok None\<close> by (subst append_async_loop.simps) simp
    next
      case False
      then show ?thesis using pass act \<open>res = Ok None\<close> assms(1) less.prems
        by (subst append_async_loop.simps) (simp add: calm_from_def)
    qed
  qed
qed

lemma loop_returns:
  assumes "calm_from n env"
  shows "\<exists>res. append_async_loop env data hook i st = Some res"
proof (induction "n - i" arbitrary: i st)
  case 0
  then show ?case using loop_returns_after_deadline[OF assms] by simp
next
  case (Suc k)
  have step: "\<exists>res. append_async_loop env data hook (Suc i) st' = Some res" for st'
    using Suc.hyps by simp
  obtain res sta where pass: "try_append_single_pass data hook st = (res, sta)" by (meson surj_pair)
  obtain installed stb where act: "try_activate_slot (recover_full_slots_async (ae_handoff env i) sta) = (installed, stb)"
    by (meson surj_pair)
  show ?case
    using step[of "ae_race env i stb"] step[of "ae_sleep env i stb"] pass act
    by (subst append_async_loop.simps) (auto split: outcome.splits option.splits)
qed

text \<open>
  C7. The asynchronous append returns, whatever the pool holds and whatever the other tasks do while it sleeps, once the deadline has
  passed and the other tasks no longer take the segments it installs.
\<close>

theorem append_returns:
  assumes "calm_from n env"
  shows "\<exists>res. append_with_hook_async env data hook st = Some res"
  unfolding append_with_hook_async_def by (rule loop_returns[OF assms])

section \<open>The wait is not bounded by the deadline alone\<close>

definition one_byte_sizes :: SegmentSizeConfig where
  "one_byte_sizes = \<lparr>inline_threshold_bytes = 0, small_threshold_bytes = 0, small_target_size = 1, default_target_size = 1\<rparr>"

definition sample_pool :: "SlotState list \<Rightarrow> SegmentPool" where
  "sample_pool slots = \<lparr>sp_slots = slots, sp_tier = Standard, sp_size_config = one_byte_sizes, sp_ec_config = None, sp_current_index = 0,
     sp_queue = [], sp_queue_capacity = 1, sp_rx_open = True, sp_received = [], sp_index = \<lparr>blob_entries = [], object_keys = []\<rparr>\<rparr>"

definition sample_shared :: Shared where
  "sample_shared = \<lparr>sh_registry = Registry_new (\<lambda>_. 0) 1 0, sh_buffers = BufferPool_new 1 0, sh_ids = (\<lambda>n. replicate n 0), sh_drawn = 1,
     sh_now = 0\<rparr>"

definition no_hook :: hook where "no_hook sid off len ix = ix"

text \<open>
  Another writer fills the fresh segment; the segment is sealed and deleted before the first writer scans again.
\<close>

definition rival :: "pst \<Rightarrow> pst" where
  "rival st =
     (case try_append_single_pass [0] no_hook st of
        (Ok (Some out), (p, sh)) \<Rightarrow>
          (let sid = ao_segment_id out; now = sh_now sh;
               r = snd (seal_with now sid (reserved_metadata sid Standard 0 0) None None (sh_registry sh))
           in (p, sh\<lparr>sh_registry := snd (delete now sid r)\<rparr>))
      | (_, st) \<Rightarrow> st)"

definition rivalry :: async_env where
  "rivalry = \<lparr>ae_handoff = (\<lambda>_ _. Receives 1), ae_race = (\<lambda>_. rival), ae_expired = (\<lambda>_. True), ae_sleep = (\<lambda>_ st. st)\<rparr>"

definition contended :: "pst \<Rightarrow> bool" where
  "contended st \<longleftrightarrow> (\<exists>sid data. sp_slots (fst st) = [Sealing sid data]) \<and> sp_tier (fst st) = Standard \<and>
     sp_size_config (fst st) = one_byte_sizes \<and> sp_ec_config (fst st) = None \<and> sp_current_index (fst st) = 0 \<and>
     seal_capacity (fst st) \<noteq> 0 \<and> lr_shards (sh_registry (snd st)) = [[]] \<and> lr_delete_grace (sh_registry (snd st)) = 0"

lemma contended_pass:
  assumes "contended st"
  shows "try_append_single_pass data hook st = (Ok None, st)"
  using assms
  by (cases st) (auto simp: contended_def try_append_single_pass_def ec_params_def try_append_with_hook_def)

lemma contended_recover:
  assumes "contended st"
  shows "recover_full_slots_async ws st = st"
  using assms by (cases st) (auto simp: contended_def recover_full_slots_async_def slot_indices_def)

text \<open>With the fresh segment installed, the rival's write fills it and leaves the slot frozen.\<close>

lemma rival_fills:
  assumes slots: "sp_slots p = [Appending \<lparr>as_id = sid, as_tier = Standard, as_buffer = [], as_cursor = 0, as_target_size = 1\<rparr>]"
    and p: "sp_tier p = Standard" "sp_ec_config p = None" "sp_current_index p = 0" and reg: "lr_shards (sh_registry sh) = [[]]"
  shows "\<exists>out r. try_append_single_pass [0] no_hook (p, sh) = (Ok (Some out), (p\<lparr>sp_slots := [Sealing sid [0]]\<rparr>, sh\<lparr>sh_registry := r\<rparr>)) \<and>
    ao_segment_id out = sid \<and> (\<exists>e. lr_shards r = [[(sid, e)]] \<and> le_state e = Reserved) \<and> lr_delete_grace r = lr_delete_grace (sh_registry sh)"
  using assms
  apply (simp add: try_append_single_pass_def ec_params_def try_append_with_hook_def as_append_def as_is_full_def transition_to_sealing_def
      IN_FLIGHT_CAP_def in_flight_count_def attach_in_flight_def lookup_def shard_for_def hm_get_def put_def in_shard_def hm_insert_def
      as_seal_def LifecycleEntry_new_def Let_def no_hook_def)
  apply (rule exI, rule conjI[OF refl], simp)
  done

lemma sealed_and_deleted:
  assumes "lr_shards r = [[(sid, e)]]" "le_state e = Reserved" "lr_delete_grace r = 0"
  shows "lr_shards (snd (delete now sid (snd (seal_with now sid m None None r)))) = [[]]"
    "lr_delete_grace (snd (delete now sid (snd (seal_with now sid m None None r)))) = 0"
  using assms
  by (simp_all add: seal_with_def evict_expired_def delete_def remove_def hm_remove_def deleted_expired_def lookup_def shard_for_def
      hm_get_def put_def in_shard_def hm_insert_def Let_def)

lemma contended_activate:
  assumes "contended st"
  shows "\<exists>stb. try_activate_slot st = (True, stb) \<and> contended (rival stb)"
proof -
  obtain p sh where st: "st = (p, sh)" by (cases st)
  obtain old data where p: "sp_slots p = [Sealing old data]" "sp_tier p = Standard" "sp_size_config p = one_byte_sizes"
      "sp_ec_config p = None" "sp_current_index p = 0" "seal_capacity p \<noteq> 0"
    and reg: "lr_shards (sh_registry sh) = [[]]" "lr_delete_grace (sh_registry sh) = 0"
    using assms by (auto simp: contended_def st)
  define sid where "sid = sh_ids sh (sh_drawn sh)"
  define q where "q = p\<lparr>sp_slots := [Appending \<lparr>as_id = sid, as_tier = Standard, as_buffer = [], as_cursor = 0, as_target_size = 1\<rparr>]\<rparr>"
  define shb where "shb = sh\<lparr>sh_buffers := snd (acquire_sized 1 (sh_buffers sh)), sh_drawn := Suc (sh_drawn sh)\<rparr>"
  have act: "try_activate_slot st = (True, (q, shb))"
    by (simp add: st try_activate_slot_def first_slot_def p ActiveSegment_new_def one_byte_sizes_def q_def shb_def sid_def)
  obtain out r e where fill: "try_append_single_pass [0] no_hook (q, shb) = (Ok (Some out), (q\<lparr>sp_slots := [Sealing sid [0]]\<rparr>, shb\<lparr>sh_registry := r\<rparr>))"
      and r: "ao_segment_id out = sid" "lr_shards r = [[(sid, e)]]" "le_state e = Reserved" "lr_delete_grace r = 0"
    using rival_fills[of q sid shb] p reg by (auto simp: q_def shb_def)
  have "contended (rival (q, shb))"
    unfolding rival_def fill using p sealed_and_deleted[OF r(2-4)] by (simp add: contended_def r(1) Let_def q_def seal_capacity_def)
  then show ?thesis using act by blast
qed

lemma contended_never_returns:
  assumes "append_async_loop rivalry data hook i st = Some res"
  shows "\<not> contended st"
proof -
  have "rivalry = rivalry \<longrightarrow> \<not> contended st"
  proof (rule append_async_loop.raw_induct[where P = "\<lambda>env data hook i st res. env = rivalry \<longrightarrow> \<not> contended st", OF _ assms])
    fix f env data hook i st res
    assume IH: "\<And>env data hook i st res. f env data hook i st = Some res \<Longrightarrow> env = rivalry \<longrightarrow> \<not> contended st"
      and eq: "(case try_append_single_pass data hook st of
        (Ok (Some out), st) \<Rightarrow> Some (Ok (ao_segment_id out, ao_offset out, ao_length out, ao_sealed out), st)
      | (Err e, st) \<Rightarrow> Some (Err e, st)
      | (Panic, st) \<Rightarrow> Some (Panic, st)
      | (Ok None, st) \<Rightarrow>
          (case try_activate_slot (recover_full_slots_async (ae_handoff env i) st) of
             (installed, st) \<Rightarrow>
               if installed then f env data hook (Suc i) (ae_race env i st)
               else if ae_expired env i then Some (Err WriteBackpressureTimeout, st)
               else f env data hook (Suc i) (ae_sleep env i st))) = Some res"
    show "env = rivalry \<longrightarrow> \<not> contended st"
    proof (intro impI notI)
      assume env: "env = rivalry" and st: "contended st"
      obtain stb where act: "try_activate_slot st = (True, stb)" "contended (rival stb)"
        using contended_activate[OF st] by blast
      have "f env data hook (Suc i) (rival stb) = Some res"
        using eq by (simp add: contended_pass[OF st] contended_recover[OF st] act env rivalry_def)
      then show False using IH env act(2) by blast
    qed
  qed
  then show ?thesis by simp
qed

text \<open>
  A writer whose deadline has long passed may still not return: after it has installed a segment it scans again without looking at
  the clock, and other writers can fill each segment it installs.
\<close>

theorem append_can_starve:
  "append_with_hook_async rivalry data hook (sample_pool [Sealing [0] []], sample_shared) = None"
proof -
  have "contended (sample_pool [Sealing [0] []], sample_shared)"
    by (simp add: contended_def sample_pool_def sample_shared_def Registry_new_def shard_count_def seal_capacity_def)
  then show ?thesis
    using contended_never_returns[of data hook 0] by (cases "append_with_hook_async rivalry data hook (sample_pool [Sealing [0] []], sample_shared)")
      (auto simp: append_with_hook_async_def)
qed

theorem append_returns_witness:
  "\<exists>res. append_with_hook_async (rivalry\<lparr>ae_race := (\<lambda>_ st. st)\<rparr>) [0] no_hook (sample_pool [Sealing [0] []], sample_shared) = Some res"
  by (rule append_returns[of 0]) (simp add: calm_from_def rivalry_def)

end
