(* ===== verification/PoolReads.thy ===== *)
theory PoolReads
  imports PoolRuns
begin

text \<open>
  Read your writes: the invariant of the segment pool, the relation of steps that tasks and components take beside a reader, and the
  proof that appended bytes stay readable while they move from a slot to the in-flight window of the registry.
\<close>

section \<open>What was appended stays readable\<close>

definition clean_entry :: "LifecycleEntry option \<Rightarrow> bool" where
  "clean_entry e \<longleftrightarrow> (\<forall>x. e = Some x \<longrightarrow> le_state x = Reserved \<and> le_in_flight x = None)"

definition slot_ok :: "Shared \<Rightarrow> ActiveSegment \<Rightarrow> bool" where
  "slot_ok sh s \<longleftrightarrow> as_cursor s = length (as_buffer s) \<and> as_id s \<in> sh_ids sh ` {..<sh_drawn sh} \<and>
     clean_entry (lookup (sh_registry sh) (as_id s))"

definition one_holder :: "SlotState list \<Rightarrow> bool" where
  "one_holder slots \<longleftrightarrow> (\<forall>i j s t. i < length slots \<and> j < length slots \<and> slots ! i = Appending s \<and> slots ! j = Appending t \<and>
     as_id s = as_id t \<longrightarrow> i = j)"

definition undrawn_absent :: "Shared \<Rightarrow> bool" where
  "undrawn_absent sh \<longleftrightarrow> (\<forall>n \<ge> sh_drawn sh. lookup (sh_registry sh) (sh_ids sh n) = None)"

definition pool_inv :: "pst \<Rightarrow> bool" where
  "pool_inv st \<longleftrightarrow> reg_wf (sh_registry (snd st)) \<and> inj (sh_ids (snd st)) \<and> undrawn_absent (snd st) \<and>
     (\<forall>s. Appending s \<in> set (sp_slots (fst st)) \<longrightarrow> slot_ok (snd st) s) \<and> one_holder (sp_slots (fst st))"

definition has_at :: "nat \<Rightarrow> u8 list \<Rightarrow> u8 list \<Rightarrow> bool" where
  "has_at off data d \<longleftrightarrow> off + length data \<le> length d \<and> take (length data) (drop off d) = data"

text \<open>A window that an entry has holds the bytes, and a reserved entry has one; a sealed or deleted segment is read elsewhere.\<close>

definition in_window :: "SegmentId \<Rightarrow> nat \<Rightarrow> u8 list \<Rightarrow> Registry \<Rightarrow> bool" where
  "in_window sid off data r \<longleftrightarrow> (\<forall>e. lookup r sid = Some e \<and> le_state e \<noteq> Deleted \<longrightarrow>
     (case le_in_flight e of None \<Rightarrow> le_state e = Sealed | Some d \<Rightarrow> has_at off data d))"

definition in_slot :: "SegmentId \<Rightarrow> nat \<Rightarrow> u8 list \<Rightarrow> SlotState list \<Rightarrow> bool" where
  "in_slot sid off data slots \<longleftrightarrow> (\<exists>s. Appending s \<in> set slots \<and> as_id s = sid \<and> has_at off data (as_buffer s))"

definition held :: "SegmentId \<Rightarrow> SlotState list \<Rightarrow> bool" where "held sid slots \<longleftrightarrow> (\<exists>s. Appending s \<in> set slots \<and> as_id s = sid)"

text \<open>Where the bytes are: in the slot that accepts writes for the segment, or, once no slot does, in the in-flight window.\<close>

definition placed :: "SegmentId \<Rightarrow> nat \<Rightarrow> u8 list \<Rightarrow> pst \<Rightarrow> bool" where
  "placed sid off data st \<longleftrightarrow> sid \<in> sh_ids (snd st) ` {..<sh_drawn (snd st)} \<and>
     (in_slot sid off data (sp_slots (fst st)) \<or> \<not> held sid (sp_slots (fst st)) \<and> in_window sid off data (sh_registry (snd st)))"

text \<open>What is followed along a run: the invariant alone, some bytes as well, or bytes whose segment is frozen already.\<close>

datatype focus = Nothing | Bytes | Frozen

definition kept :: "SegmentId \<Rightarrow> nat \<Rightarrow> u8 list \<Rightarrow> focus \<Rightarrow> pst \<Rightarrow> bool" where
  "kept sid off data f st \<longleftrightarrow> pool_inv st \<and> (f \<noteq> Nothing \<longrightarrow> placed sid off data st) \<and> (f = Frozen \<longrightarrow> \<not> held sid (sp_slots (fst st)))"

text \<open>
  What the other components may do to the shared state.  They neither seal nor delete a segment while a slot accepts writes for it, and
  they do not register ids not drawn yet.  Of the segment that is read, once no slot accepts writes for it, they may change anything but
  the in-flight window; they may also seal it, which releases the window, or delete it, but not reserve it anew.
\<close>

definition rely :: "SegmentId \<Rightarrow> pst \<Rightarrow> Shared \<Rightarrow> bool" where
  "rely sid st sh' \<longleftrightarrow> reg_wf (sh_registry sh') \<and> sh_ids sh' = sh_ids (snd st) \<and> sh_drawn (snd st) \<le> sh_drawn sh' \<and> undrawn_absent sh' \<and>
     (\<forall>s. Appending s \<in> set (sp_slots (fst st)) \<longrightarrow> clean_entry (lookup (sh_registry sh') (as_id s))) \<and>
     (\<forall>e'. \<not> held sid (sp_slots (fst st)) \<and> lookup (sh_registry sh') sid = Some e' \<longrightarrow>
        le_state e' = Deleted \<or> le_state e' = Sealed \<and> le_in_flight e' = None \<or>
        (\<exists>e. lookup (sh_registry (snd st)) sid = Some e \<and> le_state e' = le_state e \<and> le_in_flight e' = le_in_flight e))"

lemma kept_cong: "kept sid off data f st \<Longrightarrow> sp_slots (fst st') = sp_slots (fst st) \<Longrightarrow> snd st' = snd st \<Longrightarrow> kept sid off data f st'"
  by (simp add: kept_def pool_inv_def placed_def)

lemma Appending_update:
  "Appending s \<in> set (slots[i := slot]) \<Longrightarrow> Appending s \<in> set slots \<or> slot = Appending s"
  using set_update_subset_insert[of slots i slot] by blast

lemma kept_rely:
  assumes k: "kept sid off data f st" and r: "rely sid st sh'"
  shows "kept sid off data f (fst st, sh')"
proof -
  have drawn: "x \<in> sh_ids (snd st) ` {..<sh_drawn (snd st)} \<Longrightarrow> x \<in> sh_ids sh' ` {..<sh_drawn sh'}" for x
    using r by (auto simp: rely_def)
  have "slot_ok sh' s" if "Appending s \<in> set (sp_slots (fst st))" for s
    using that k r drawn[of "as_id s"] unfolding slot_ok_def kept_def pool_inv_def rely_def by blast
  then have inv: "pool_inv (fst st, sh')"
    using k r unfolding kept_def pool_inv_def rely_def by simp
  have "in_window sid off data (sh_registry sh')" if "in_window sid off data (sh_registry (snd st))" "\<not> held sid (sp_slots (fst st))"
    unfolding in_window_def
  proof (intro allI impI)
    fix e' assume e': "lookup (sh_registry sh') sid = Some e' \<and> le_state e' \<noteq> Deleted"
    have "le_state e' = Deleted \<or> le_state e' = Sealed \<and> le_in_flight e' = None \<or>
        (\<exists>e. lookup (sh_registry (snd st)) sid = Some e \<and> le_state e' = le_state e \<and> le_in_flight e' = le_in_flight e)"
      using r that(2) e' unfolding rely_def by blast
    then show "case le_in_flight e' of None \<Rightarrow> le_state e' = Sealed | Some d \<Rightarrow> has_at off data d"
      using that(1) e' unfolding in_window_def by (auto split: option.splits)
  qed
  then show ?thesis
    using k inv drawn unfolding kept_def placed_def by auto
qed

lemma kept_update_slot:
  assumes k: "kept sid off data f (p, sh)" and i: "i < length (sp_slots p)" "sp_slots p ! i = Appending s"
    and t: "as_id t = as_id s" "as_cursor t = length (as_buffer t)" "\<exists>more. as_buffer t = as_buffer s @ more"
  shows "kept sid off data f (set_slot i (Appending t) p, sh)"
proof -
  let ?slots = "(sp_slots p)[i := Appending t]"
  have mem: "Appending s \<in> set (sp_slots p)" using i by (metis nth_mem)
  have new: "Appending t \<in> set ?slots" using i by (meson set_update_memI)
  have "slot_ok sh u" if "Appending u \<in> set ?slots" for u
    using Appending_update[OF that] k mem t by (auto simp: kept_def pool_inv_def slot_ok_def)
  moreover have "one_holder ?slots"
    using k i t unfolding kept_def pool_inv_def one_holder_def by (simp add: nth_list_update) metis
  ultimately have inv: "pool_inv (p\<lparr>sp_slots := ?slots\<rparr>, sh)"
    using k by (simp add: kept_def pool_inv_def)
  have held: "held x ?slots \<longleftrightarrow> held x (sp_slots p)" for x
  proof
    assume "held x ?slots"
    then obtain u where u: "Appending u \<in> set ?slots" "as_id u = x" by (auto simp: held_def)
    show "held x (sp_slots p)" using Appending_update[OF u(1)] u(2) mem t(1) by (auto simp: held_def)
  next
    assume "held x (sp_slots p)"
    then obtain j u where u: "j < length (sp_slots p)" "sp_slots p ! j = Appending u" "as_id u = x"
      by (auto simp: held_def in_set_conv_nth)
    show "held x ?slots"
    proof (cases "j = i")
      case True
      then show ?thesis using u i t(1) new by (auto simp: held_def)
    next
      case False
      then have "Appending u \<in> set ?slots" using u by (metis length_list_update nth_list_update_neq nth_mem)
      then show ?thesis using u(3) by (auto simp: held_def)
    qed
  qed
  have "in_slot sid off data ?slots" if slot: "in_slot sid off data (sp_slots p)"
  proof -
    obtain j u where u: "j < length (sp_slots p)" "sp_slots p ! j = Appending u" "as_id u = sid" "has_at off data (as_buffer u)"
      using slot by (auto simp: in_slot_def in_set_conv_nth)
    show ?thesis
    proof (cases "j = i")
      case True
      then have "has_at off data (as_buffer t)" using u i t(3) by (auto simp: has_at_def)
      then show ?thesis using new u i t(1) True unfolding in_slot_def by auto
    next
      case False
      then have "Appending u \<in> set ?slots" using u by (metis length_list_update nth_list_update_neq nth_mem)
      then show ?thesis using u unfolding in_slot_def by auto
    qed
  qed
  then show ?thesis
    using k inv held by (auto simp: kept_def placed_def set_slot_def)
qed

lemma other_slot:
  assumes "Appending u \<in> set slots" "i < length slots" "slots ! i \<noteq> Appending u"
  shows "Appending u \<in> set (slots[i := slot])"
proof -
  obtain j where "j < length slots" "slots ! j = Appending u" "j \<noteq> i" using assms by (auto simp: in_set_conv_nth)
  then show ?thesis by (metis length_list_update nth_list_update_neq nth_mem)
qed

lemma one_holder_update:
  assumes "one_holder slots" "\<forall>u. slot = Appending u \<longrightarrow> \<not> held (as_id u) slots"
  shows "one_holder (slots[i := slot])"
proof -
  have "j = l" if "j < length slots" "l < length slots" "slots[i := slot] ! j = Appending s" "slots[i := slot] ! l = Appending t"
    "as_id s = as_id t" for j l s t
  proof -
    have mem: "\<And>u l. l < length slots \<Longrightarrow> slots ! l = Appending u \<Longrightarrow> held (as_id u) slots"
      unfolding held_def by (metis nth_mem)
    have "slots ! j = Appending s \<Longrightarrow> slots ! l = Appending t \<Longrightarrow> j = l"
      using assms(1) that(1,2,5) unfolding one_holder_def by blast
    moreover have "slots ! j = Appending s \<Longrightarrow> slot \<noteq> Appending t" "slots ! l = Appending t \<Longrightarrow> slot \<noteq> Appending s"
      using mem[of j s] mem[of l t] assms(2) that(1,2,5) by auto
    ultimately show ?thesis
      using that(1-4) by (cases "j = i"; cases "l = i") simp_all
  qed
  then show ?thesis unfolding one_holder_def by simp
qed

lemma lookup_attach:
  assumes "reg_wf r" "clean_entry (lookup r x)"
  shows "reg_wf (snd (attach_in_flight now x tier k m d r))"
    "y \<noteq> x \<Longrightarrow> lookup (snd (attach_in_flight now x tier k m d r)) y = lookup r y"
    "\<exists>e. lookup (snd (attach_in_flight now x tier k m d r)) x = Some e \<and> le_state e = Reserved \<and> le_in_flight e = Some d \<and>
      le_seal_queued e"
  using assms by (cases "lookup r x"; simp add: attach_in_flight_def clean_entry_def LifecycleEntry_new_def)+

lemma drawn_before: "inj ids \<Longrightarrow> x \<in> ids ` {..<d} \<Longrightarrow> d \<le> (n :: nat) \<Longrightarrow> ids n \<noteq> x"
  by (auto simp: inj_eq)

lemma kept_freeze:
  assumes k: "kept sid off data f (p, sh)" and i: "i < length (sp_slots p)" "sp_slots p ! i = Appending s"
    and r: "r = snd (attach_in_flight now (as_id s) tier ec_k ec_m (as_buffer s) (sh_registry sh))"
  shows "kept sid off data f (set_slot i (Sealing (as_id s) (as_buffer s)) p, sh\<lparr>sh_registry := r\<rparr>)"
proof -
  let ?slots = "(sp_slots p)[i := Sealing (as_id s) (as_buffer s)]"
  have mem: "Appending s \<in> set (sp_slots p)" using i by (metis nth_mem)
  have ok: "slot_ok sh s" "reg_wf (sh_registry sh)" "one_holder (sp_slots p)" using k mem by (auto simp: kept_def pool_inv_def)
  then have clean: "clean_entry (lookup (sh_registry sh) (as_id s))" by (simp add: slot_ok_def)
  note att = lookup_attach[OF ok(2) clean, where now = now and tier = tier and k = ec_k and m = ec_m and d = "as_buffer s", folded r]
  have old: "Appending u \<in> set (sp_slots p) \<and> as_id u \<noteq> as_id s" if u: "Appending u \<in> set ?slots" for u
  proof -
    obtain j where "j < length ?slots" "?slots ! j = Appending u" using u unfolding in_set_conv_nth by blast
    then have j: "j < length (sp_slots p)" "j \<noteq> i" "sp_slots p ! j = Appending u" by (cases "j = i"; simp)+
    then have "Appending u \<in> set (sp_slots p)" by (metis nth_mem)
    moreover have "as_id u \<noteq> as_id s" using ok(3) i j unfolding one_holder_def by blast
    ultimately show ?thesis by simp
  qed
  have gone: "\<not> held (as_id s) ?slots" using old by (auto simp: held_def)
  have "slot_ok (sh\<lparr>sh_registry := r\<rparr>) u" if "Appending u \<in> set ?slots" for u
    using old[OF that] k att(2) by (auto simp: kept_def pool_inv_def slot_ok_def)
  moreover have "undrawn_absent (sh\<lparr>sh_registry := r\<rparr>)"
    unfolding undrawn_absent_def
  proof (intro allI impI)
    fix n assume n: "sh_drawn (sh\<lparr>sh_registry := r\<rparr>) \<le> n"
    have "sh_ids sh n \<noteq> as_id s"
      using drawn_before[of "sh_ids sh" "as_id s" "sh_drawn sh" n] ok(1) n k by (simp add: slot_ok_def kept_def pool_inv_def)
    then show "lookup (sh_registry (sh\<lparr>sh_registry := r\<rparr>)) (sh_ids (sh\<lparr>sh_registry := r\<rparr>) n) = None"
      using att(2) k n by (simp add: kept_def pool_inv_def undrawn_absent_def)
  qed
  ultimately have inv: "pool_inv (p\<lparr>sp_slots := ?slots\<rparr>, sh\<lparr>sh_registry := r\<rparr>)"
    using k att(1) one_holder_update[OF ok(3), of "Sealing (as_id s) (as_buffer s)" i] by (simp add: kept_def pool_inv_def)
  have "in_slot sid off data ?slots \<or> \<not> held sid ?slots \<and> in_window sid off data r" if f: "f \<noteq> Nothing"
  proof (cases "sid = as_id s")
    case True
    then have "in_slot sid off data (sp_slots p)" using k mem f by (auto simp: kept_def placed_def held_def)
    then obtain j u where u: "j < length (sp_slots p)" "sp_slots p ! j = Appending u" "as_id u = as_id s" "has_at off data (as_buffer u)"
      using True by (auto simp: in_slot_def in_set_conv_nth)
    then have "j = i" using ok(3) i unfolding one_holder_def by blast
    then have "has_at off data (as_buffer s)" using u i by simp
    then show ?thesis using att(3) gone True by (auto simp: in_window_def)
  next
    case False
    have "in_slot sid off data ?slots" if "in_slot sid off data (sp_slots p)"
      using that i False other_slot[of _ "sp_slots p" i] unfolding in_slot_def by fastforce
    moreover have "\<not> held sid ?slots" if "\<not> held sid (sp_slots p)"
      using that old by (auto simp: held_def)
    ultimately show ?thesis using k att(2)[OF False] f by (auto simp: kept_def placed_def in_window_def)
  qed
  moreover have "\<not> held sid ?slots" if "\<not> held sid (sp_slots p)"
    using that old by (auto simp: held_def)
  ultimately show ?thesis using k inv by (auto simp: kept_def placed_def set_slot_def)
qed

lemma kept_transition:
  assumes k: "kept sid off data f (p, sh)" and i: "i < length (sp_slots p)"
    and t: "transition_to_sealing tier ec_k ec_m ignore_cap (sp_slots p ! i) sh = (payload, slot, sh')"
  shows "kept sid off data f (set_slot i slot p, sh')"
proof (cases "slot = sp_slots p ! i \<and> sh' = sh")
  case True
  then show ?thesis using k i by (auto simp: set_slot_def intro: kept_cong)
next
  case False
  then obtain s where s: "sp_slots p ! i = Appending s"
    using t by (cases "sp_slots p ! i") (auto simp: transition_to_sealing_def split: if_splits)
  obtain ok r where a: "attach_in_flight (sh_now sh) (as_id s) tier ec_k ec_m (as_buffer s) (sh_registry sh) = (ok, r)"
    by (meson surj_pair)
  have "slot = Sealing (as_id s) (as_buffer s)" "sh' = sh\<lparr>sh_registry := r\<rparr>"
    using t False by (auto simp: s transition_to_sealing_def as_seal_def a split: if_splits)
  then show ?thesis using kept_freeze[OF k i s, of r "sh_now sh" tier ec_k ec_m] a by simp
qed

lemma kept_install:
  assumes k: "kept sid off data f (p, sh)" and i: "i < length (sp_slots p)" "\<not> is_appending (sp_slots p ! i)"
    and t: "as_id t = sh_ids sh (sh_drawn sh)" "as_cursor t = 0" "as_buffer t = []"
  shows "kept sid off data f (set_slot i (Appending t) p, sh\<lparr>sh_buffers := b, sh_drawn := Suc (sh_drawn sh)\<rparr>)"
proof -
  let ?slots = "(sp_slots p)[i := Appending t]" and ?sh = "sh\<lparr>sh_buffers := b, sh_drawn := Suc (sh_drawn sh)\<rparr>"
  have inv: "pool_inv (p, sh)" using k by (simp add: kept_def)
  have fresh: "x \<noteq> as_id t" if "x \<in> sh_ids sh ` {..<sh_drawn sh}" for x
    using drawn_before[OF _ that, of "sh_drawn sh"] inv t(1) by (auto simp: pool_inv_def)
  have notheld: "\<not> held (as_id t) (sp_slots p)" using inv fresh by (auto simp: held_def pool_inv_def slot_ok_def)
  have new: "Appending t \<in> set ?slots" using i(1) by (meson set_update_memI)
  have keep: "Appending u \<in> set ?slots \<longleftrightarrow> Appending u \<in> set (sp_slots p) \<or> u = t" for u
    using Appending_update[of u "sp_slots p" i "Appending t"] other_slot[of u "sp_slots p" i "Appending t"] new i
    by (cases "sp_slots p ! i") auto
  have absent: "clean_entry (lookup (sh_registry sh) (as_id t))"
    using inv t(1) by (simp add: pool_inv_def undrawn_absent_def clean_entry_def)
  have "slot_ok ?sh u" if "Appending u \<in> set ?slots" for u
    using that inv absent t unfolding keep pool_inv_def slot_ok_def by (auto simp: less_Suc_eq)
  then have "pool_inv (p\<lparr>sp_slots := ?slots\<rparr>, ?sh)"
    using inv one_holder_update[of "sp_slots p" "Appending t" i] notheld by (simp add: pool_inv_def undrawn_absent_def)
  moreover have "sid \<noteq> as_id t" if "f \<noteq> Nothing" using k fresh that by (simp add: kept_def placed_def)
  moreover have "held sid ?slots \<longleftrightarrow> held sid (sp_slots p)" "in_slot sid off data (sp_slots p) \<Longrightarrow> in_slot sid off data ?slots"
    if "sid \<noteq> as_id t"
    using that unfolding held_def in_slot_def keep by blast+
  ultimately show ?thesis using k by (auto simp: kept_def placed_def set_slot_def)
qed

lemma kept_activate:
  assumes k: "kept sid off data f st"
  shows "kept sid off data f (snd (try_activate_slot st))"
proof -
  obtain p sh where st: "st = (p, sh)" by (cases st)
  show ?thesis
  proof (cases "first_slot needs_segment (sp_slots p)")
    case None
    then show ?thesis using k by (simp add: st try_activate_slot_def)
  next
    case (Some i)
    note slot = first_slot_Some[OF Some]
    have "install_replacement s (sp_slots p ! i) = (True, Appending s)" for s using slot(2) by (cases "sp_slots p ! i") auto
    moreover have "\<not> is_appending (sp_slots p ! i)" using slot(2) by (cases "sp_slots p ! i") auto
    ultimately show ?thesis
      using kept_install[OF k[unfolded st] slot(1)] k
      by (cases "target_size_of (sp_tier p) (sp_size_config p)")
        (simp_all add: st try_activate_slot_def Some ActiveSegment_new_def set_slot_def)
  qed
qed

text \<open>A change of a registry entry that keeps its state and its window.\<close>

lemma kept_modify:
  assumes k: "kept sid off data f (p, sh)" and g: "\<forall>e. le_state (g e) = le_state e \<and> le_in_flight (g e) = le_in_flight e"
  shows "kept sid off data f (p, update_registry (modify x g) sh)"
proof -
  have wf: "reg_wf (sh_registry sh)" using k by (simp add: kept_def pool_inv_def)
  have clean: "clean_entry (lookup (modify x g (sh_registry sh)) y)" if "clean_entry (lookup (sh_registry sh) y)" for y
    using that g wf by (auto simp: clean_entry_def)
  have "undrawn_absent (update_registry (modify x g) sh)"
    using k wf by (auto simp: kept_def pool_inv_def undrawn_absent_def update_registry_def)
  moreover have "clean_entry (lookup (modify x g (sh_registry sh)) (as_id s))" if "Appending s \<in> set (sp_slots p)" for s
    using that k clean by (simp add: kept_def pool_inv_def slot_ok_def)
  ultimately have "rely sid (p, sh) (update_registry (modify x g) sh)"
    using wf g by (auto simp: rely_def update_registry_def)
  then show ?thesis using kept_rely[OF k] by simp
qed

lemma kept_mark:
  assumes "kept sid off data f (p, sh)"
  shows "kept sid off data f (p, update_registry (mark_seal_queued x) sh)"
    "kept sid off data f (p, update_registry (mark_seal_unqueued x) sh)"
  unfolding mark_seal_queued_def mark_seal_unqueued_def by (rule kept_modify[OF assms], simp)+

section \<open>Every operation of the pool keeps it\<close>

lemma kept_try_append:
  assumes k: "kept sid off data f (p, sh)" and i: "i < length (sp_slots p)"
    and t: "try_append_with_hook d hook tier ec_k ec_m (sp_slots p ! i) ix sh = (res, slot, ix', sh')"
  shows "kept sid off data f (set_slot i slot p, sh')"
proof (cases "slot = sp_slots p ! i \<and> sh' = sh")
  case True
  then show ?thesis using k i by (auto simp: set_slot_def intro: kept_cong)
next
  case False
  then obtain s where s: "sp_slots p ! i = Appending s" "\<not> as_is_full s"
    using t by (cases "sp_slots p ! i") (auto simp: try_append_with_hook_def as_append_def split: if_splits)
  define s' where "s' = s\<lparr>as_buffer := as_buffer s @ d, as_cursor := as_cursor s + length d\<rparr>"
  have mem: "slot_ok sh s" using k i s(1) unfolding kept_def pool_inv_def by (metis fst_conv nth_mem snd_conv)
  have upd: "kept sid off data f (set_slot i (Appending s') p, sh)"
    using kept_update_slot[OF k i s(1), of s'] mem by (simp add: s'_def slot_ok_def)
  show ?thesis
  proof (cases "as_is_full s'")
    case True
    obtain sealed slot2 sh2 where tr: "transition_to_sealing tier ec_k ec_m False (Appending s') sh = (sealed, slot2, sh2)"
      by (metis prod_cases3)
    have "slot = slot2" "sh' = sh2"
      using t True by (auto simp: try_append_with_hook_def as_append_def s s'_def[symmetric] tr Let_def)
    then show ?thesis
      using kept_transition[OF upd, of i tier ec_k ec_m False sealed slot2 sh2] tr i by (simp add: set_slot_def)
  next
    case False
    then have "slot = Appending s'" "sh' = sh"
      using t by (auto simp: try_append_with_hook_def as_append_def s s'_def[symmetric] Let_def)
    then show ?thesis using upd by simp
  qed
qed

lemma kept_append_scan:
  assumes "kept sid off data f st" "\<forall>i \<in> set is. i < length (sp_slots (fst st))"
  shows "kept sid off data f (snd (append_scan d hook is st))"
  using assms
proof (induction "is" arbitrary: st)
  case Nil
  then show ?case by simp
next
  case (Cons i "is")
  obtain p sh where st: "st = (p, sh)" by (cases st)
  obtain k m strip where ec: "ec_params p = (k, m, strip)" by (metis prod_cases3)
  obtain res slot ix sh' where t: "try_append_with_hook d hook (sp_tier p) k m (sp_slots p ! i) (sp_index p) sh = (res, slot, ix, sh')"
    by (metis prod_cases4)
  let ?st = "(p\<lparr>sp_slots := (sp_slots p)[i := slot], sp_index := ix\<rparr>, sh')"
  have "kept sid off data f (set_slot i slot p, sh')"
    using kept_try_append[OF Cons.prems(1)[unfolded st] _ t] Cons.prems(2) st by simp
  then have k: "kept sid off data f ?st" by (rule kept_cong) (simp_all add: set_slot_def)
  have "kept sid off data f (snd (append_scan d hook is ?st))"
    using Cons.IH[OF k] Cons.prems(2) st by simp
  then show ?case using k by (auto simp: st ec t Let_def split: outcome.splits option.splits)
qed

lemma kept_single_pass:
  assumes "kept sid off data f st"
  shows "kept sid off data f (snd (try_append_single_pass d hook st))"
proof -
  obtain p sh where st: "st = (p, sh)" by (cases st)
  show ?thesis
    using assms kept_append_scan[OF kept_cong[OF assms[unfolded st], of "(p\<lparr>sp_current_index := (sp_current_index p + 1) mod length (sp_slots p)\<rparr>, sh)"]]
    by (auto simp: st try_append_single_pass_def Let_def)
qed

lemma send_work_slots: "sp_slots (snd (send_work n w p)) = sp_slots p"
  by (rule send_work_shape(2))

lemma kept_pool_fields:
  assumes "kept sid off data f (p, sh)" "sp_slots q = sp_slots p"
  shows "kept sid off data f (q, sh)"
  by (rule kept_cong[OF assms(1)]) (simp_all add: assms(2))

lemma kept_handoff_async:
  assumes "kept sid off data f st"
  shows "kept sid off data f (snd (finish_seal_handoff_async w sealed st))"
proof (cases sealed)
  case None
  then show ?thesis using assms by (simp add: finish_seal_handoff_async_def)
next
  case (Some payload)
  obtain p sh where act: "snd (try_activate_slot st) = (p, sh)" by (cases "snd (try_activate_slot st)")
  have k: "kept sid off data f (p, sh)" using kept_activate[OF assms] act by simp
  obtain n where "w = NoTime \<or> w = Receives n" by (cases w) auto
  moreover obtain res q where send: "send_work n (seal_work p (ss_segment_id payload) (ss_data payload) (ss_tier payload)) p = (res, q)"
    by (meson surj_pair)
  moreover have "sp_slots q = sp_slots p" using send_work_slots by (metis send snd_conv)
  ultimately show ?thesis
    using k kept_mark kept_pool_fields[OF k] clear_entries_shape(2)
    by (auto simp: finish_seal_handoff_async_def Let_def act Some split: wait.splits option.splits outcome.splits)
qed

lemma kept_handoff:
  assumes "kept sid off data f st"
  shows "kept sid off data f (finish_seal_handoff sealed st)"
proof (cases sealed)
  case None
  then show ?thesis using assms by (simp add: finish_seal_handoff_def)
next
  case (Some payload)
  obtain p sh where act: "snd (try_activate_slot st) = (p, sh)" by (cases "snd (try_activate_slot st)")
  have k: "kept sid off data f (p, sh)" using kept_activate[OF assms] act by simp
  obtain acc q where enq: "enqueue_seal payload p = (acc, q)" by (meson surj_pair)
  have "sp_slots (snd (enqueue_seal payload p)) = sp_slots p"
    using send_work_slots clear_entries_shape(2)
    by (auto simp: enqueue_seal_def Let_def split: prod.splits option.splits outcome.splits) (metis snd_conv)+
  then show ?thesis
    using k kept_mark(1) kept_pool_fields[OF k] by (simp add: finish_seal_handoff_def act Some enq)
qed

lemma kept_freeze_slot:
  assumes "kept sid off data f st" "i < length (sp_slots (fst st))"
  shows "kept sid off data f (snd (freeze_slot ignore_cap i st))" "length (sp_slots (fst (snd (freeze_slot ignore_cap i st)))) = length (sp_slots (fst st))"
proof -
  obtain p sh where st: "st = (p, sh)" by (cases st)
  obtain k m strip where ec: "ec_params p = (k, m, strip)" by (metis prod_cases3)
  obtain payload slot sh' where t: "transition_to_sealing (sp_tier p) k m ignore_cap (sp_slots p ! i) sh = (payload, slot, sh')"
    by (metis prod_cases3)
  show "kept sid off data f (snd (freeze_slot ignore_cap i st))"
    using kept_transition[OF assms(1)[unfolded st] _ t] assms(2) by (simp add: st freeze_slot_def ec t set_slot_def)
  show "length (sp_slots (fst (snd (freeze_slot ignore_cap i st)))) = length (sp_slots (fst st))"
    by (simp add: st freeze_slot_def ec t)
qed

lemma kept_freeze_full:
  assumes "kept sid off data f st" "\<forall>i \<in> set is. i < length (sp_slots (fst st))"
  shows "kept sid off data f (snd (freeze_full is st))"
  using assms
proof (induction "is" arbitrary: st)
  case Nil
  then show ?case by simp
next
  case (Cons i "is")
  obtain payload sta where f: "freeze_slot True i st = (payload, sta)" by (meson surj_pair)
  have "kept sid off data f sta" "\<forall>j \<in> set is. j < length (sp_slots (fst sta))"
    using kept_freeze_slot[OF Cons.prems(1), of i True] Cons.prems(2) by (simp_all add: f)
  then have "kept sid off data f (snd (freeze_full is sta))" by (rule Cons.IH)
  then show ?case using Cons by (simp add: f case_prod_unfold)
qed

lemma kept_freeze_first:
  assumes "kept sid off data f st" "\<forall>i \<in> set is. i < length (sp_slots (fst st))"
  shows "kept sid off data f (snd (freeze_first x is st))"
  using assms
proof (induction "is" arbitrary: st)
  case Nil
  then show ?case by simp
next
  case (Cons i "is")
  obtain payload sta where f: "freeze_slot False i st = (payload, sta)" by (meson surj_pair)
  have "kept sid off data f sta" "\<forall>j \<in> set is. j < length (sp_slots (fst sta))"
    using kept_freeze_slot[OF Cons.prems(1), of i False] Cons.prems(2) by (simp_all add: f)
  then show ?case using Cons by (auto simp: f split: option.splits)
qed

lemma kept_fold:
  assumes "kept sid off data f st" "\<And>x st. kept sid off data f st \<Longrightarrow> kept sid off data f (h x st)"
  shows "kept sid off data f (fold h xs st)"
  using assms(1) by (induction xs arbitrary: st) (simp_all add: assms(2))

lemma kept_recover:
  assumes "kept sid off data f st"
  shows "kept sid off data f (recover_full_slots_async ws st)" "kept sid off data f (recover_full_slots_sync st)"
proof -
  have frozen: "kept sid off data f (snd (freeze_full (slot_indices st) st))"
    using kept_freeze_full[OF assms] by (simp add: slot_indices_def)
  show "kept sid off data f (recover_full_slots_async ws st)"
    using assms kept_fold[OF frozen, of "\<lambda>x st. snd (finish_seal_handoff_async (ws (ss_segment_id x)) (Some x) st)"]
    by (simp add: recover_full_slots_async_def case_prod_unfold kept_handoff_async)
  show "kept sid off data f (recover_full_slots_sync st)"
    using assms kept_fold[OF frozen, of "\<lambda>x. finish_seal_handoff (Some x)"]
    by (simp add: recover_full_slots_sync_def case_prod_unfold kept_handoff)
qed

text \<open>The steps that tasks of the node take beside the one that reads.\<close>

inductive pool_step :: "SegmentId \<Rightarrow> pst \<Rightarrow> pst \<Rightarrow> bool" for sid where
  append: "pool_step sid st (snd (try_append_single_pass data hook st))"
| activate: "pool_step sid st (snd (try_activate_slot st))"
| recover: "pool_step sid st (recover_full_slots_async ws st)"
| recover_sync: "pool_step sid st (recover_full_slots_sync st)"
| handoff: "pool_step sid st (snd (enqueue_seal_handoff w sealed st))"
| handoff_sync: "pool_step sid st (finish_seal_handoff sealed st)"
| freeze: "pool_step sid st (snd (freeze_partial_for_seal x st))"
| retry: "pool_step sid (p, sh) (snd (enqueue_inflight_work n x tier data p), sh)"
| receive: "pool_step sid (p, sh) (receive_works n p, sh)"
| others: "rely sid (p, sh) sh' \<Longrightarrow> pool_step sid (p, sh) (p, sh')"

lemma kept_step: "pool_step sid st st' \<Longrightarrow> kept sid off data f st \<Longrightarrow> kept sid off data f st'"
proof (induction rule: pool_step.induct)
  case (freeze st x)
  then show ?case
    using kept_freeze_first[OF freeze, of "slot_indices st" x] by (simp add: freeze_partial_for_seal_def slot_indices_def case_prod_unfold)
next
  case (retry p sh n x tier d)
  have "sp_slots (snd (enqueue_inflight_work n x tier d p)) = sp_slots p"
    using send_work_slots[of n "seal_work p x d tier" p] clear_entries_shape(2)
    by (auto simp: enqueue_inflight_work_def split: prod.splits option.splits)
  then show ?case using kept_pool_fields[OF retry] by simp
next
  case (receive p sh n)
  then show ?case using kept_pool_fields[OF receive] by (simp add: receive_works_def)
next
  case (others p sh sh')
  then show ?case using kept_rely[of sid off data f "(p, sh)" sh'] by simp
qed (simp_all add: kept_single_pass kept_activate kept_recover kept_handoff kept_handoff_async enqueue_seal_handoff_def)

lemma kept_steps: "(pool_step sid)\<^sup>*\<^sup>* st st' \<Longrightarrow> kept sid off data f st \<Longrightarrow> kept sid off data f st'"
  by (induction rule: rtranclp_induct) (auto intro: kept_step)

lemma slice_has:
  assumes "has_at off data d" "data \<noteq> []" "length data < 2 ^ 32"
  shows "slice_range d off (length_u32 (length data)) = Some data" "slice_bytes d off (length_u32 (length data)) = Some data"
proof -
  have len: "unat (length_u32 (length data)) = length data"
    using assms(3) by (simp add: length_u32_def unat_of_nat)
  have "off < length d" using assms(1,2) by (auto simp: has_at_def neq_Nil_conv)
  moreover have "min (off + length data) (length d) = off + length data" using assms(1) by (simp add: has_at_def)
  ultimately show "slice_range d off (length_u32 (length data)) = Some data" "slice_bytes d off (length_u32 (length data)) = Some data"
    using assms(1) by (simp_all add: slice_range_def slice_bytes_def len ByteCodec.slice_def has_at_def)
qed

definition reserved :: "SegmentId \<Rightarrow> pst \<Rightarrow> bool" where
  "reserved sid st \<longleftrightarrow> (\<exists>e. lookup (sh_registry (snd st)) sid = Some e \<and> le_state e = Reserved)"

lemma read_source_window:
  assumes "in_window sid off data (sh_registry (snd st))"
  shows "(\<exists>d. read_source now sid (sh_registry (snd st)) = ReadInFlight d \<and> has_at off data d) \<or>
    \<not> reserved sid st \<and> read_source now sid (sh_registry (snd st)) \<in> {ReadSealed, ReadMissing}"
proof (cases "lookup (sh_registry (snd st)) sid")
  case (Some e)
  then show ?thesis
    using assms by (cases "le_state e"; cases "le_in_flight e") (auto simp: in_window_def read_source_def deleted_expired_def reserved_def)
qed (simp add: read_source_def reserved_def)

lemma find_holder:
  assumes "one_holder slots" "in_slot sid off data slots"
  obtains s where "find (holds sid) slots = Some (Appending s)" "has_at off data (as_buffer s)"
proof -
  obtain j u where u: "j < length slots" "slots ! j = Appending u" "as_id u = sid" "has_at off data (as_buffer u)"
    using assms(2) by (auto simp: in_slot_def in_set_conv_nth)
  have "find (holds sid) slots \<noteq> None" using u by (auto simp: find_None_iff in_set_conv_nth)
  then obtain x where x: "find (holds sid) slots = Some x" by auto
  then obtain i where i: "i < length slots" "slots ! i = x" "holds sid x" by (auto simp: find_Some_iff)
  then obtain t where t: "x = Appending t" "as_id t = sid" by (cases x) auto
  have "i = j" using assms(1) i u t unfolding one_holder_def by blast
  then show thesis using that x t u i by auto
qed

lemma not_held_find: "\<not> held sid slots \<Longrightarrow> find (holds sid) slots = None"
proof -
  have "\<not> holds sid x" if "\<not> held sid slots" "x \<in> set slots" for x
    using that by (cases x) (auto simp: held_def)
  then show "\<not> held sid slots \<Longrightarrow> find (holds sid) slots = None" by (auto simp: find_None_iff)
qed

text \<open>
  A read whose three looks see three later and later states finds the bytes, or nothing when the segment is not reserved any more, or
  not yet.
\<close>

lemma kept_read:
  assumes k: "kept sid off data Bytes st"
    and later: "(pool_step sid)\<^sup>*\<^sup>* st st2" "(pool_step sid)\<^sup>*\<^sup>* st2 st3" and data: "data \<noteq> []" "length data < 2 ^ 32"
  shows "try_read sid off (length_u32 (length data)) st st2 st3 = Some data \<or>
    try_read sid off (length_u32 (length data)) st st2 st3 = None \<and> (\<not> reserved sid st \<or> \<not> reserved sid st3)"
proof (cases "held sid (sp_slots (fst st))")
  case False
  then have "in_window sid off data (sh_registry (snd st))" using k by (auto simp: kept_def placed_def in_slot_def held_def)
  from read_source_window[OF this, of "sh_now (snd st)"] show ?thesis using slice_has data by (auto simp: try_read_def)
next
  case True
  then obtain s where "slot_ok (snd st) s" "as_id s = sid" using k by (auto simp: held_def kept_def pool_inv_def)
  then have "read_source (sh_now (snd st)) sid (sh_registry (snd st)) = ReadActiveSlot \<or>
      \<not> reserved sid st \<and> read_source (sh_now (snd st)) sid (sh_registry (snd st)) = ReadMissing"
    by (cases "lookup (sh_registry (snd st)) sid") (auto simp: slot_ok_def clean_entry_def read_source_def deleted_expired_def reserved_def)
  moreover have k2: "kept sid off data Bytes st2" by (rule kept_steps[OF later(1) k])
  have "?thesis" if first: "read_source (sh_now (snd st)) sid (sh_registry (snd st)) = ReadActiveSlot"
  proof (cases "in_slot sid off data (sp_slots (fst st2))")
    case True
    then obtain u where "find (holds sid) (sp_slots (fst st2)) = Some (Appending u)" "has_at off data (as_buffer u)"
      using k2 find_holder by (metis kept_def pool_inv_def)
    then show ?thesis using slice_has data by (simp add: try_read_def first)
  next
    case False
    then have gone: "\<not> held sid (sp_slots (fst st2))" using k2 by (auto simp: kept_def placed_def)
    then have "kept sid off data Frozen st3" using kept_steps[OF later(2), of off data Frozen] k2 by (simp add: kept_def)
    then have "in_window sid off data (sh_registry (snd st3))" by (auto simp: kept_def placed_def in_slot_def held_def)
    from read_source_window[OF this, of "sh_now (snd st3)"] show ?thesis
      using slice_has data by (auto simp: try_read_def first not_held_find[OF gone])
  qed
  ultimately show ?thesis by (auto simp: try_read_def)
qed

lemma focus_nothing: "kept sid off data Nothing st \<longleftrightarrow> pool_inv st"
  by (simp add: kept_def)

text \<open>The segments whose work items the seal worker has or will receive.\<close>

definition works_of :: "SegmentPool \<Rightarrow> SegmentId set" where
  "works_of p = sw_segment_id ` set (sp_queue p @ sp_received p)"

lemma append_scan_places:
  assumes "append_scan data hook is (p, sh) = (Ok (Some out), st')"
  obtains i k m slot ix sh' where "i \<in> set is" "try_append_with_hook data hook (sp_tier p) k m (sp_slots p ! i) (sp_index p) sh = (Ok (Some out), slot, ix, sh')"
    "sp_slots (fst st') = (sp_slots p)[i := slot]" "snd st' = sh'" "works_of (fst st') = works_of p"
  using assms
proof (induction "is")
  case Nil
  then show ?case by simp
next
  case (Cons i "is")
  obtain k m strip where ec: "ec_params p = (k, m, strip)" by (metis prod_cases3)
  obtain res slot ix sh' where t: "try_append_with_hook data hook (sp_tier p) k m (sp_slots p ! i) (sp_index p) sh = (res, slot, ix, sh')"
    by (metis prod_cases4)
  show ?case
  proof (cases "res = Ok None")
    case True
    then have "slot = sp_slots p ! i \<and> ix = sp_index p \<and> sh' = sh" using try_append_unavailable t by blast
    then have "append_scan data hook is (p, sh) = (Ok (Some out), st')" using Cons.prems(2) True by (simp add: ec t Let_def)
    then show ?thesis using Cons by (meson list.set_intros(2))
  next
    case False
    then have "res = Ok (Some out)" "st' = (p\<lparr>sp_slots := (sp_slots p)[i := slot], sp_index := ix\<rparr>, sh')"
      using Cons.prems(2) by (auto simp: ec t Let_def split: outcome.splits option.splits)
    then show ?thesis using Cons.prems(1)[of i k m slot ix sh'] t by (simp add: works_of_def)
  qed
qed

lemma try_append_places:
  assumes inv: "pool_inv (p, sh)" and i: "i < length (sp_slots p)"
    and t: "try_append_with_hook data hook tier k m (sp_slots p ! i) ix sh = (Ok (Some out), slot, ix', sh')"
  shows "kept (ao_segment_id out) (ao_offset out) data Bytes (set_slot i slot p, sh') \<and> ao_length out = length_u32 (length data)"
proof -
  obtain s where s: "sp_slots p ! i = Appending s" "\<not> as_is_full s"
    using t by (cases "sp_slots p ! i") (auto simp: try_append_with_hook_def as_append_def split: if_splits)
  define s' where "s' = s\<lparr>as_buffer := as_buffer s @ data, as_cursor := as_cursor s + length data\<rparr>"
  have ok: "slot_ok sh s" using inv i s(1) unfolding pool_inv_def by (metis fst_conv nth_mem snd_conv)
  have out: "ao_segment_id out = as_id s" "ao_offset out = as_cursor s" "ao_length out = length_u32 (length data)"
    using t by (auto simp: try_append_with_hook_def as_append_def s Let_def split: prod.splits if_splits)
  have "kept x off d Nothing (set_slot i (Appending s') p, sh)" for x off d
    using kept_update_slot[of x off d Nothing p sh i s s'] inv i s(1) ok by (simp add: focus_nothing s'_def slot_ok_def)
  moreover have "in_slot (as_id s) (as_cursor s) data ((sp_slots p)[i := Appending s'])"
    unfolding in_slot_def
  proof (intro exI conjI)
    show "Appending s' \<in> set ((sp_slots p)[i := Appending s'])" using i by (meson set_update_memI)
  qed (use ok in \<open>simp_all add: s'_def has_at_def slot_ok_def\<close>)
  ultimately have upd: "kept (as_id s) (as_cursor s) data Bytes (set_slot i (Appending s') p, sh)"
    using ok by (simp add: kept_def placed_def set_slot_def slot_ok_def)
  show ?thesis
  proof (cases "as_is_full s'")
    case True
    obtain sealed slot2 sh2 where tr: "transition_to_sealing tier k m False (Appending s') sh = (sealed, slot2, sh2)"
      by (metis prod_cases3)
    have "slot = slot2" "sh' = sh2"
      using t True by (auto simp: try_append_with_hook_def as_append_def s s'_def[symmetric] tr Let_def)
    then show ?thesis
      using kept_transition[OF upd, of i tier k m False sealed slot2 sh2] tr i out by (simp add: set_slot_def)
  next
    case False
    then have "slot = Appending s'" "sh' = sh"
      using t by (auto simp: try_append_with_hook_def as_append_def s s'_def[symmetric] Let_def)
    then show ?thesis using upd out by simp
  qed
qed

lemma append_places:
  assumes inv: "pool_inv st" and a: "try_append_single_pass data hook st = (Ok (Some out), st')"
  shows "kept (ao_segment_id out) (ao_offset out) data Bytes st' \<and> ao_length out = length_u32 (length data)"
proof -
  obtain p sh where st: "st = (p, sh)" by (cases st)
  let ?n = "length (sp_slots p)" and ?p = "p\<lparr>sp_current_index := (sp_current_index p + 1) mod length (sp_slots p)\<rparr>"
  let ?is = "map (\<lambda>off. (sp_current_index p + off) mod ?n) [0..<?n]"
  have "append_scan data hook ?is (?p, sh) = (Ok (Some out), st')"
    using a by (auto simp: st try_append_single_pass_def Let_def split: if_splits)
  then obtain i k m slot ix sh' where i: "i \<in> set ?is"
      and t: "try_append_with_hook data hook (sp_tier ?p) k m (sp_slots ?p ! i) (sp_index ?p) sh = (Ok (Some out), slot, ix, sh')"
      and st': "sp_slots (fst st') = (sp_slots ?p)[i := slot]" "snd st' = sh'"
    by (rule append_scan_places)
  have "i < length (sp_slots p)" using i by (cases "sp_slots p = []") auto
  then have "kept (ao_segment_id out) (ao_offset out) data Bytes (set_slot i slot p, sh') \<and> ao_length out = length_u32 (length data)"
    using try_append_places[of p sh i] t inv st by simp
  then show ?thesis
    using kept_cong[of "ao_segment_id out" "ao_offset out" data Bytes "(set_slot i slot p, sh')" st'] st' by (simp add: set_slot_def)
qed

text \<open>
  C6. Read your writes: once an append of some bytes, fewer than 2^32, has returned, a read of its range returns exactly these bytes as
  long as the segment is reserved, and never other bytes: it returns nothing only when the segment was not registered yet at the first
  look, or was sealed or deleted by the time of the look that failed, and the caller then reads the segment file.  This holds however
  appends, hand-offs, freezes, recoveries and the other components interleave with the read and between its three looks, where the others
  do not seal or delete a segment that still accepts writes and do not reserve a segment anew.
\<close>

theorem appended_data_readable:
  assumes "pool_inv st" "try_append_single_pass data hook st = (Ok (Some out), sta)"
    and "(pool_step (ao_segment_id out))\<^sup>*\<^sup>* sta st1"
    and "(pool_step (ao_segment_id out))\<^sup>*\<^sup>* st1 st2" "(pool_step (ao_segment_id out))\<^sup>*\<^sup>* st2 st3"
    and "data \<noteq> []" "length data < 2 ^ 32"
  shows "try_read (ao_segment_id out) (ao_offset out) (ao_length out) st1 st2 st3 = Some data \<or>
    try_read (ao_segment_id out) (ao_offset out) (ao_length out) st1 st2 st3 = None \<and>
    (\<not> reserved (ao_segment_id out) st1 \<or> \<not> reserved (ao_segment_id out) st3)"
proof -
  have p: "kept (ao_segment_id out) (ao_offset out) data Bytes sta" "ao_length out = length_u32 (length data)"
    using append_places[OF assms(1,2)] by auto
  have "kept (ao_segment_id out) (ao_offset out) data Bytes st1" by (rule kept_steps[OF assms(3) p(1)])
  then show ?thesis unfolding p(2) by (rule kept_read[OF _ assms(4-7)])
qed

lemma pool_step_inv: "pool_step sid st st' \<Longrightarrow> pool_inv st \<Longrightarrow> pool_inv st'"
  using kept_step[of sid st st' 0 "[]" Nothing] by (simp add: focus_nothing)

lemma new_slots_ok:
  assumes "new_slots n tier cfg sh = (Ok slots, sh')" "inj (sh_ids sh)" "undrawn_absent sh"
  shows "sh_registry sh' = sh_registry sh \<and> sh_ids sh' = sh_ids sh \<and> sh_drawn sh' = sh_drawn sh + n \<and> length slots = n \<and>
    (\<forall>i < n. \<exists>t. slots ! i = Appending t \<and> as_id t = sh_ids sh (sh_drawn sh + i) \<and> as_cursor t = 0 \<and> as_buffer t = [])"
  using assms
proof (induction n arbitrary: slots sh)
  case 0
  then show ?case by simp
next
  case (Suc n)
  obtain t where t: "target_size_of tier cfg = Some t"
    using Suc.prems(1) by (cases "target_size_of tier cfg") (simp_all add: PoolSlot_new_def ActiveSegment_new_def)
  define s where "s = \<lparr>as_id = sh_ids sh (sh_drawn sh), as_tier = tier, as_buffer = [], as_cursor = 0, as_target_size = t\<rparr>"
  define sha where "sha = sh\<lparr>sh_buffers := snd (acquire_sized t (sh_buffers sh)), sh_drawn := Suc (sh_drawn sh)\<rparr>"
  have new: "PoolSlot_new tier cfg sh = (Ok (Appending s), sha)"
    by (simp add: PoolSlot_new_def ActiveSegment_new_def t s_def sha_def)
  obtain rest where rest: "new_slots n tier cfg sha = (Ok rest, sh')" "slots = Appending s # rest"
    using Suc.prems(1) by (auto simp: new split: prod.splits)
  have "undrawn_absent sha" using Suc.prems(3) by (simp add: undrawn_absent_def sha_def)
  then have IH: "sh_registry sh' = sh_registry sh \<and> sh_ids sh' = sh_ids sh \<and> sh_drawn sh' = Suc (sh_drawn sh) + n \<and> length rest = n \<and>
      (\<forall>i < n. \<exists>t. rest ! i = Appending t \<and> as_id t = sh_ids sh (Suc (sh_drawn sh) + i) \<and> as_cursor t = 0 \<and> as_buffer t = [])"
    using Suc.IH[OF rest(1)] Suc.prems(2) by (simp add: sha_def)
  have "\<exists>t. slots ! i = Appending t \<and> as_id t = sh_ids sh (sh_drawn sh + i) \<and> as_cursor t = 0 \<and> as_buffer t = []" if "i < Suc n" for i
    using that IH by (cases i) (simp_all add: rest(2) s_def)
  then show ?case using IH rest(2) by simp
qed

text \<open>A new pool satisfies the invariant.\<close>

lemma pool_inv_new:
  assumes "SegmentPool_new cfg tier sizes ec sh = (Ok p, sh')" and "reg_wf (sh_registry sh)" "inj (sh_ids sh)" "undrawn_absent sh"
  shows "pool_inv (p, sh')"
proof -
  obtain slots where n: "new_slots (active_pool_size cfg) tier sizes sh = (Ok slots, sh')" "sp_slots p = slots"
    using assms(1) by (auto simp: SegmentPool_new_def split: if_splits prod.splits)
  note ok = new_slots_ok[OF n(1) assms(3,4)]
  have nth: "\<exists>t. slots ! i = Appending t \<and> as_id t = sh_ids sh (sh_drawn sh + i) \<and> as_cursor t = 0 \<and> as_buffer t = []"
    if "i < length slots" for i
    using ok that by simp
  have "slot_ok sh' s" if s: "Appending s \<in> set slots" for s
  proof -
    obtain i where i: "i < length slots" "slots ! i = Appending s" using s by (auto simp: in_set_conv_nth)
    then have "as_id s = sh_ids sh (sh_drawn sh + i)" "as_cursor s = 0" "as_buffer s = []" using nth[OF i(1)] by auto
    then show ?thesis using ok assms(4) i by (simp add: slot_ok_def clean_entry_def undrawn_absent_def)
  qed
  moreover have "one_holder slots"
    unfolding one_holder_def
  proof (intro allI impI)
    fix i j s t
    assume a: "i < length slots \<and> j < length slots \<and> slots ! i = Appending s \<and> slots ! j = Appending t \<and> as_id s = as_id t"
    then have "sh_ids sh (sh_drawn sh + i) = sh_ids sh (sh_drawn sh + j)" using nth[of i] nth[of j] by auto
    then show "i = j" using assms(3) by (simp add: inj_eq)
  qed
  ultimately show ?thesis using ok assms(2-4) n(2) by (simp add: pool_inv_def undrawn_absent_def)
qed

text \<open>The write path reserves the segment it appended to, which is a step of the other components.\<close>

lemma rely_reserve:
  assumes inv: "pool_inv (p, sh)" and x: "held x (sp_slots p)"
  shows "rely sid (p, sh) (update_registry (\<lambda>r. snd (reserve now x meta r)) sh)"
proof -
  let ?r = "sh_registry sh" and ?r' = "snd (reserve now x meta (sh_registry sh))"
  have wf: "reg_wf ?r" using inv by (simp add: pool_inv_def)
  have drawn: "x \<in> sh_ids sh ` {..<sh_drawn sh}" using inv x by (auto simp: pool_inv_def held_def slot_ok_def)
  have kept: "lookup ?r' y = lookup ?r y" if "\<exists>e. lookup ?r y = Some e \<and> le_state e = Reserved" for y
    using that wf lookup_evict_live[of ?r y _ now x]
    by (auto simp: reserve_def Let_def lookup_evict deleted_expired_def split: option.splits SegmentState.splits if_splits)
  have none: "lookup ?r' y = None \<or> y = x \<and> (\<exists>e. lookup ?r' y = Some e \<and> le_state e = Reserved \<and> le_in_flight e = None)" if "lookup ?r y = None" for y
    using that wf by (auto simp: reserve_def Let_def lookup_evict LifecycleEntry_new_def split: option.splits SegmentState.splits if_splits)
  have other: "lookup ?r y = Some e" if "lookup ?r' y = Some e" "y \<noteq> x" for y e
    using that wf by (auto simp: reserve_def Let_def lookup_evict split: option.splits SegmentState.splits if_splits)
  have clean: "clean_entry (lookup ?r' y)" if c: "clean_entry (lookup ?r y)" for y
  proof (cases "lookup ?r y")
    case None
    then show ?thesis using none[OF None] by (auto simp: clean_entry_def)
  next
    case (Some e)
    then show ?thesis using c kept[of y] by (simp add: clean_entry_def)
  qed
  have "reg_wf ?r'" using wf registry_apply_wf[of ?r now "OpReserve x meta"] by simp
  moreover have "undrawn_absent (sh\<lparr>sh_registry := ?r'\<rparr>)"
    unfolding undrawn_absent_def
  proof (intro allI impI)
    fix n assume "sh_drawn (sh\<lparr>sh_registry := ?r'\<rparr>) \<le> n"
    then have "lookup ?r (sh_ids sh n) = None" "sh_ids sh n \<noteq> x"
      using inv drawn_before[OF _ drawn] by (auto simp: pool_inv_def undrawn_absent_def)
    then show "lookup (sh_registry (sh\<lparr>sh_registry := ?r'\<rparr>)) (sh_ids (sh\<lparr>sh_registry := ?r'\<rparr>) n) = None" using none by auto
  qed
  moreover have "lookup ?r sid = Some e" if "\<not> held sid (sp_slots p)" "lookup ?r' sid = Some e" for e
  proof (rule other[OF that(2)])
    show "sid \<noteq> x" using that(1) x by blast
  qed
  moreover have "clean_entry (lookup ?r' (as_id s))" if "Appending s \<in> set (sp_slots p)" for s
    using clean[of "as_id s"] inv that by (simp add: pool_inv_def slot_ok_def)
  ultimately show ?thesis unfolding rely_def update_registry_def by simp
qed

text \<open>The seal worker and the deletion of a segment are such steps too, once no slot accepts writes for the segment.\<close>

lemma rely_close:
  assumes inv: "pool_inv (p, sh)" and x: "\<not> held x (sp_slots p)" and wf': "reg_wf r'"
    and same: "\<And>y e. lookup r' y = Some e \<Longrightarrow> y \<noteq> x \<Longrightarrow> lookup (sh_registry sh) y = Some e"
    and closed: "\<And>e. lookup r' x = Some e \<Longrightarrow> le_state e = Deleted \<or> le_state e = Sealed \<and> le_in_flight e = None \<or> lookup (sh_registry sh) x = Some e"
    and present: "\<And>e. lookup r' x = Some e \<Longrightarrow> lookup (sh_registry sh) x \<noteq> None"
  shows "rely sid (p, sh) (sh\<lparr>sh_registry := r'\<rparr>)"
proof -
  have absent: "lookup r' y = None" if none: "lookup (sh_registry sh) y = None" for y
  proof (rule ccontr)
    assume "lookup r' y \<noteq> None"
    then obtain e where e: "lookup r' y = Some e" by blast
    show False using same[OF e] present[of e] e none by (cases "y = x") simp_all
  qed
  have "clean_entry (lookup r' (as_id s))" if s: "Appending s \<in> set (sp_slots p)" for s
  proof (cases "lookup r' (as_id s)")
    case (Some e)
    have "as_id s \<noteq> x" using x s by (auto simp: held_def)
    from same[OF Some this] have "lookup r' (as_id s) = lookup (sh_registry sh) (as_id s)" using Some by simp
    moreover have "clean_entry (lookup (sh_registry sh) (as_id s))" using inv s by (simp add: pool_inv_def slot_ok_def)
    ultimately show ?thesis by simp
  qed (simp add: clean_entry_def)
  moreover have "le_state e = Deleted \<or> le_state e = Sealed \<and> le_in_flight e = None \<or> lookup (sh_registry sh) sid = Some e"
    if "lookup r' sid = Some e" for e
    using that same[of sid e] closed[of e] by (cases "sid = x") auto
  moreover have "undrawn_absent (sh\<lparr>sh_registry := r'\<rparr>)" using inv absent by (simp add: pool_inv_def undrawn_absent_def)
  ultimately show ?thesis using wf' unfolding rely_def by (simp, blast)
qed

lemma rely_seal:
  assumes "pool_inv (p, sh)" "\<not> held x (sp_slots p)"
  shows "rely sid (p, sh) (update_registry (\<lambda>r. snd (seal_with now x meta repacked_from objects r)) sh)"
proof -
  have wf: "reg_wf (sh_registry sh)" using assms(1) by (simp add: pool_inv_def)
  show ?thesis
    unfolding update_registry_def
  proof (rule rely_close[OF assms])
    show "reg_wf (snd (seal_with now x meta repacked_from objects (sh_registry sh)))"
      using wf registry_apply_wf[of "sh_registry sh" now "OpSeal x meta repacked_from objects"] by simp
  qed (use wf in \<open>auto simp: seal_with_def Let_def lookup_evict split: option.splits SegmentState.splits if_splits\<close>)
qed

lemma rely_delete:
  assumes "pool_inv (p, sh)" "\<not> held x (sp_slots p)"
  shows "rely sid (p, sh) (update_registry (\<lambda>r. snd (delete now x r)) sh)"
proof -
  have wf: "reg_wf (sh_registry sh)" using assms(1) by (simp add: pool_inv_def)
  show ?thesis
    unfolding update_registry_def
  proof (rule rely_close[OF assms])
    show "reg_wf (snd (delete now x (sh_registry sh)))"
      using wf registry_apply_wf[of "sh_registry sh" now "OpDelete x"] by simp
  qed (use wf in \<open>auto simp: delete_def Let_def lookup_evict split: option.splits SegmentState.splits if_splits\<close>)
qed

definition sample_slot :: "nat \<Rightarrow> SlotState" where
  "sample_slot target = Appending \<lparr>as_id = [], as_tier = Standard, as_buffer = [], as_cursor = 0, as_target_size = target\<rparr>"

definition sample_start :: pst where "sample_start = (sample_pool [sample_slot 2], sample_shared)"

definition sample_reserved :: pst where
  "sample_reserved = (case try_append_single_pass [7] no_hook sample_start of
     (_, (p, sh)) \<Rightarrow> (p, update_registry (\<lambda>r. snd (reserve 0 [] (reserved_metadata [] Standard 0 0) r)) sh))"

definition sample_frozen :: pst where "sample_frozen = snd (try_append_single_pass [8] no_hook sample_reserved)"

lemmas sample_defs = sample_start_def sample_pool_def sample_shared_def sample_slot_def sample_reserved_def sample_frozen_def
  try_append_single_pass_def ec_params_def try_append_with_hook_def as_append_def as_is_full_def no_hook_def
  update_registry_def Registry_new_def shard_count_def reserve_def evict_expired_def in_shard_def lookup_def shard_for_def put_def
  hm_get_def hm_insert_def LifecycleEntry_new_def

lemma sample_inv: "pool_inv (sample_pool [sample_slot target], sample_shared)"
proof -
  have "inj (\<lambda>n. replicate n (0 :: u8))" by (rule injI) (metis length_replicate)
  moreover have "lookup (Registry_new h 1 0) y = None" for h y by (rule reg_wf_new)
  ultimately show ?thesis
    by (auto simp: pool_inv_def sample_pool_def sample_shared_def sample_slot_def slot_ok_def clean_entry_def
        one_holder_def undrawn_absent_def reg_wf_new)
qed

lemma sample_start_inv: "pool_inv sample_start"
  unfolding sample_start_def by (rule sample_inv)

theorem appended_data_readable_witness:
  "\<exists>out. fst (try_append_single_pass [7] no_hook sample_start) = Ok (Some out) \<and>
     try_read (ao_segment_id out) (ao_offset out) (ao_length out) sample_reserved sample_frozen sample_frozen = Some [7] \<and>
     \<not> held (ao_segment_id out) (sp_slots (fst sample_frozen))"
proof -
  obtain out p sh where a: "try_append_single_pass [7] no_hook sample_start = (Ok (Some out), (p, sh))" and id: "ao_segment_id out = []"
    by (simp add: sample_defs)
  have inv: "pool_inv (p, sh)"
    using append_places[OF sample_start_inv a] by (simp add: kept_def)
  have "held [] (sp_slots p)" using a by (auto simp: sample_defs held_def)
  then have "pool_step [] (p, sh) sample_reserved"
    using pool_step.others[OF rely_reserve[OF inv]] by (simp add: sample_reserved_def a)
  moreover have "pool_step [] sample_reserved sample_frozen" unfolding sample_frozen_def by (rule pool_step.append)
  moreover have "reserved [] sample_reserved" "reserved [] sample_frozen" "\<not> held [] (sp_slots (fst sample_frozen))"
    by (simp_all add: sample_defs held_def transition_to_sealing_def attach_in_flight_def IN_FLIGHT_CAP_def in_flight_count_def reserved_def Let_def case_prod_unfold)
  ultimately show ?thesis
    using appended_data_readable[OF sample_start_inv a, of sample_reserved sample_frozen sample_frozen] a id by auto
qed

end
