(* ===== verification/PoolSeals.thy ===== *)
theory PoolSeals
  imports PoolReads
begin

text \<open>
  The drain of pending seals and the replay into the pool: which segments they hand to the seal worker, and which they do not.
\<close>

section \<open>A frozen segment whose hand-off was dropped\<close>

definition lost_shared :: "SegmentId \<Rightarrow> Shared \<Rightarrow> bool" where
  "lost_shared sid sh \<longleftrightarrow> reg_wf (sh_registry sh) \<and> inj (sh_ids sh) \<and> sid \<in> sh_ids sh ` {..<sh_drawn sh} \<and>
     (\<exists>e. lookup (sh_registry sh) sid = Some e \<and> le_state e = Reserved \<and> le_in_flight e \<noteq> None \<and> le_seal_queued e)"

definition lost_pool :: "SegmentId \<Rightarrow> SegmentPool \<Rightarrow> bool" where
  "lost_pool sid p \<longleftrightarrow> \<not> held sid (sp_slots p) \<and> sid \<notin> works_of p"

definition lost :: "SegmentId \<Rightarrow> seal_state \<Rightarrow> bool" where
  "lost sid s \<longleftrightarrow> lost_shared sid (st_shared s) \<and> (\<forall>p \<in> set (st_pools s). lost_pool sid p)"

abbreviation lost_pst :: "SegmentId \<Rightarrow> pst \<Rightarrow> bool" where
  "lost_pst sid st \<equiv> lost_pool sid (fst st) \<and> lost_shared sid (snd st)"

lemma not_held_update:
  assumes "\<not> held sid slots" "\<forall>t. slot = Appending t \<longrightarrow> as_id t \<noteq> sid"
  shows "\<not> held sid (slots[i := slot])"
  using assms Appending_update[of _ slots i slot] unfolding held_def by blast

lemma lost_activate:
  assumes "lost_pst sid st"
  shows "lost_pst sid (snd (try_activate_slot st))"
proof -
  obtain p sh where st: "st = (p, sh)" by (cases st)
  show ?thesis
  proof (cases "first_slot needs_segment (sp_slots p)")
    case None
    then show ?thesis using assms by (simp add: st try_activate_slot_def)
  next
    case (Some i)
    have inst: "install_replacement t (sp_slots p ! i) = (True, Appending t)" for t
      using first_slot_Some(2)[OF Some] by (cases "sp_slots p ! i") auto
    have "\<not> held sid ((sp_slots p)[i := Appending t])" if "as_id t = sh_ids sh (sh_drawn sh)" for t
    proof (rule not_held_update)
      show "\<not> held sid (sp_slots p)" using assms by (simp add: st lost_pool_def)
      show "\<forall>u. Appending t = Appending u \<longrightarrow> as_id u \<noteq> sid"
        using that assms drawn_before[of "sh_ids sh" sid "sh_drawn sh" "sh_drawn sh"] by (auto simp: st lost_shared_def)
    qed
    moreover have "lost_shared sid (sh\<lparr>sh_buffers := b, sh_drawn := Suc (sh_drawn sh)\<rparr>)" for b
      using assms by (auto simp: st lost_shared_def less_Suc_eq)
    ultimately show ?thesis
      using assms by (cases "target_size_of (sp_tier p) (sp_size_config p)")
        (simp_all add: st try_activate_slot_def Some ActiveSegment_new_def inst lost_pool_def works_of_def)
  qed
qed

lemma lost_modify:
  assumes "lost_shared sid sh" "x \<noteq> sid"
  shows "lost_shared sid (update_registry (mark_seal_queued x) sh)" "lost_shared sid (update_registry (mark_seal_unqueued x) sh)"
  using assms by (simp_all add: lost_shared_def update_registry_def mark_seal_queued_def mark_seal_unqueued_def)

lemma lost_send:
  assumes "lost_pool sid p" "sw_segment_id w \<noteq> sid"
  shows "lost_pool sid (snd (send_work n w p))" "lost_pool sid (clear_entries x (snd (send_work n w p)))"
proof -
  have "set (take n xs) \<subseteq> set xs" "set (drop n xs) \<subseteq> set xs" for xs :: "SealingWork list"
    by (simp_all add: set_take_subset set_drop_subset)
  then show "lost_pool sid (snd (send_work n w p))"
    using assms by (auto simp: lost_pool_def send_work_def receive_works_def works_of_def Let_def; blast)
  then show "lost_pool sid (clear_entries x (snd (send_work n w p)))"
    by (simp add: lost_pool_def clear_entries_def works_of_def)
qed

lemma lost_handoff:
  assumes "lost_pst sid st" "ss_segment_id payload \<noteq> sid"
  shows "lost_pst sid (snd (enqueue_seal_handoff w (Some payload) st))"
proof -
  obtain p sh where act: "snd (try_activate_slot st) = (p, sh)" by (cases "snd (try_activate_slot st)")
  have l: "lost_pool sid p" "lost_shared sid sh" using lost_activate[OF assms(1)] act by auto
  define work where "work = seal_work p (ss_segment_id payload) (ss_data payload) (ss_tier payload)"
  have "sw_segment_id work \<noteq> sid" using assms(2) by (simp add: work_def seal_work_def case_prod_unfold)
  note s = lost_send[OF l(1) this]
  obtain n where "w = NoTime \<or> w = Receives n" by (cases w) auto
  moreover obtain res q where send: "send_work n work p = (res, q)" by (meson surj_pair)
  moreover have "lost_pool sid q" "lost_pool sid (clear_entries (ss_segment_id payload) q)" using s[where n = n] by (simp_all add: send)
  ultimately show ?thesis
    using l lost_modify[OF l(2) assms(2)]
    by (auto simp: enqueue_seal_handoff_def finish_seal_handoff_async_def Let_def act work_def[symmetric] split: wait.splits option.splits outcome.splits)
qed

lemma lost_freeze_slot:
  assumes "lost_pst sid st" "holds x (sp_slots (fst st) ! i)" "i < length (sp_slots (fst st))"
  shows "lost_pst sid (snd (freeze_slot False i st))" "fst (freeze_slot False i st) = Some payload \<Longrightarrow> ss_segment_id payload \<noteq> sid"
    "length (sp_slots (fst (snd (freeze_slot False i st)))) = length (sp_slots (fst st))"
proof -
  obtain p sh where st: "st = (p, sh)" by (cases st)
  obtain s where s: "sp_slots p ! i = Appending s" using assms(2) by (cases "sp_slots p ! i") (auto simp: st)
  have sid: "as_id s \<noteq> sid" using assms(1,3) s unfolding st lost_pool_def held_def by (metis fst_conv nth_mem)
  have att: "lost_shared sid (sh\<lparr>sh_registry := snd (attach_in_flight now (as_id s) tier k m d (sh_registry sh))\<rparr>)" for now tier k m d
    using assms(1) sid by (auto simp: st lost_shared_def attach_in_flight_def split: option.splits)
  have gone: "\<not> held sid ((sp_slots p)[i := slot])" if "\<forall>t. slot = Appending t \<longrightarrow> as_id t \<noteq> sid" for slot
    using assms(1) not_held_update[OF _ that] by (simp add: st lost_pool_def)
  obtain k m strip where ec: "ec_params p = (k, m, strip)" by (metis prod_cases3)
  obtain ok r where a: "attach_in_flight (sh_now sh) (as_id s) (sp_tier p) k m (as_buffer s) (sh_registry sh) = (ok, r)"
    by (meson surj_pair)
  consider "freeze_slot False i st = (None, (p\<lparr>sp_slots := (sp_slots p)[i := Appending s]\<rparr>, sh))"
    | "freeze_slot False i st = (Some (as_seal s), (p\<lparr>sp_slots := (sp_slots p)[i := Sealing (as_id s) (as_buffer s)]\<rparr>, sh\<lparr>sh_registry := r\<rparr>))"
    by (cases "IN_FLIGHT_CAP \<le> in_flight_count (sh_registry sh)")
      (auto simp: st freeze_slot_def transition_to_sealing_def s ec as_seal_def a)
  then show "lost_pst sid (snd (freeze_slot False i st))" "fst (freeze_slot False i st) = Some payload \<Longrightarrow> ss_segment_id payload \<noteq> sid"
    "length (sp_slots (fst (snd (freeze_slot False i st)))) = length (sp_slots (fst st))"
    using assms(1) att[of "sh_now sh" "sp_tier p" k m "as_buffer s", unfolded a snd_conv] gone[of "Appending s"] gone[of "Sealing (as_id s) (as_buffer s)"] sid
    by (cases; auto simp: st lost_pool_def works_of_def as_seal_def)+
qed

lemma lost_freeze_first:
  assumes "lost_pst sid st" "\<forall>i \<in> set is. i < length (sp_slots (fst st))"
  shows "lost_pst sid (snd (freeze_first x is st)) \<and> (\<forall>payload. fst (freeze_first x is st) = Some payload \<longrightarrow> ss_segment_id payload \<noteq> sid)"
  using assms
proof (induction "is" arbitrary: st)
  case Nil
  then show ?case by simp
next
  case (Cons i "is")
  obtain payload sta where f: "freeze_slot False i st = (payload, sta)" by (meson surj_pair)
  show ?case
  proof (cases "holds x (sp_slots (fst st) ! i)")
    case True
    have "i < length (sp_slots (fst st))" using Cons.prems(2) by simp
    note l = lost_freeze_slot[OF Cons.prems(1) True this]
    have "lost_pst sid sta" "\<forall>j \<in> set is. j < length (sp_slots (fst sta))"
      using l(1) l(3) Cons.prems(2) by (simp_all add: f)
    then show ?thesis using Cons.IH l(2) True by (cases payload) (simp_all add: f)
  next
    case False
    then show ?thesis using Cons by simp
  qed
qed

lemma lost_with_pool:
  assumes "lost sid s" "lost_pst sid st"
  shows "lost sid (with_pool j st s)"
  using assms set_update_subset_insert[of "st_pools s" j "fst st"] by (auto simp: lost_def with_pool_def)

lemma pool_for_tier_less: "pool_for_tier tier pools = Some j \<Longrightarrow> j < length pools"
  by (auto simp: pool_for_tier_def find_Some_iff)

lemma lost_pending [simp]: "lost sid (s\<lparr>st_pending := ids\<rparr>) = lost sid s"
  by (simp add: lost_def)

lemma lost_drain_noted:
  assumes "lost sid s"
  shows "lost sid (drain_noted ws x s)"
proof (cases "registry_get x s")
  case None
  then show ?thesis using assms by (simp add: drain_noted_def)
next
  case (Some entry)
  show ?thesis
  proof (cases "pool_for_tier (sm_size_tier (le_metadata entry)) (st_pools s)")
    case None
    then show ?thesis using assms Some by (simp add: drain_noted_def)
  next
    case (Some j)
    let ?st = "(st_pools s ! j, st_shared s)"
    have "lost_pst sid ?st" using assms pool_for_tier_less[OF Some] by (simp add: lost_def)
    then have l: "lost_pst sid (snd (freeze_first x (slot_indices ?st) ?st)) \<and>
        (\<forall>payload. fst (freeze_first x (slot_indices ?st) ?st) = Some payload \<longrightarrow> ss_segment_id payload \<noteq> sid)"
      by (rule lost_freeze_first) (simp add: slot_indices_def)
    obtain payload st where f: "freeze_first x (slot_indices ?st) ?st = (payload, st)" by (meson surj_pair)
    have st: "lost sid (with_pool j st s)" using lost_with_pool[OF assms] l by (simp add: f)
    show ?thesis
    proof (cases payload)
      case None
      then show ?thesis
        using st assms \<open>registry_get x s = Some entry\<close> Some
        by (auto simp: drain_noted_def freeze_partial_for_seal_def f Let_def split: option.splits)
    next
      case (Some pl)
      then have "lost_pst sid (snd (enqueue_seal_handoff (ws x) (Some pl) st))" using lost_handoff l by (simp add: f)
      then show ?thesis
        using Some lost_with_pool[OF assms] assms \<open>registry_get x s = Some entry\<close> \<open>pool_for_tier _ _ = Some j\<close>
        by (auto simp: drain_noted_def freeze_partial_for_seal_def f)
    qed
  qed
qed

lemma lost_drain_window:
  assumes "lost sid s" "fst w \<noteq> sid"
  shows "lost sid (drain_window ns w s)"
proof -
  obtain x tier data where w: "w = (x, tier, data)" by (metis prod_cases3)
  show ?thesis
  proof (cases "pool_for_tier tier (st_pools s)")
    case None
    then show ?thesis using assms by (simp add: drain_window_def w)
  next
    case (Some j)
    have l: "lost_pool sid (st_pools s ! j)" "lost_shared sid (st_shared s)"
      using assms pool_for_tier_less[OF Some] by (simp_all add: lost_def)
    have "sw_segment_id (seal_work (st_pools s ! j) x data tier) \<noteq> sid" using assms(2) by (simp add: w seal_work_def case_prod_unfold)
    note send = lost_send[OF l(1) this]
    have "lost_pool sid (snd (enqueue_inflight_work (ns x) x tier data (st_pools s ! j)))"
      using send by (simp add: enqueue_inflight_work_def case_prod_unfold split: option.splits)
    then show ?thesis
      using lost_with_pool[OF assms(1)] l(2) lost_modify(1)[OF l(2), of x] assms(2) by (simp add: drain_window_def w Some case_prod_unfold)
  qed
qed

lemma lost_not_unqueued:
  assumes "lost sid s" "w \<in> set (unqueued_windows s)"
  shows "fst w \<noteq> sid"
proof -
  obtain x e where e: "(x, e) \<in> set (live_entries (sh_now (st_shared s)) (sh_registry (st_shared s)))" "\<not> le_seal_queued e" "fst w = x"
    using assms(2) by (auto simp: unqueued_windows_def List.map_filter_def split: if_splits)
  have "lookup (sh_registry (st_shared s)) x = Some e"
    using e(1) assms(1) mem_all_entries[of "sh_registry (st_shared s)" x e] by (auto simp: lost_def lost_shared_def live_entries_def)
  then show ?thesis using e assms(1) by (auto simp: lost_def lost_shared_def)
qed

lemma lost_drain:
  assumes "lost sid s"
  shows "lost sid (drain_pending_seals ws ns s)"
proof -
  have "lost sid (fold (drain_noted ws) xs t)" if "lost sid t" for xs t
    using that by (induction xs arbitrary: t) (simp_all add: lost_drain_noted)
  then have a: "lost sid (fold (drain_noted ws) (st_pending s) (s\<lparr>st_pending := []\<rparr>))" using assms by simp
  have "lost sid (fold (drain_window ns) xs t)" if "lost sid t" "\<forall>w \<in> set xs. fst w \<noteq> sid" for xs t
    using that by (induction xs arbitrary: t) (simp_all add: lost_drain_window)
  then show ?thesis unfolding drain_pending_seals_def Let_def using a lost_not_unqueued by blast
qed

text \<open>
  C36. A write that fills a segment and fails before it hands the frozen payload over leaves the segment unsealed for good: no drain of
  the pending seals ever gives it to the seal worker, because the freeze has already marked it as queued.
\<close>

theorem dropped_handoff_never_sealed:
  assumes "pool_inv (p, sh)" "try_append_single_pass data hook (p, sh) = (Ok (Some out), (p', sh'))" "ao_sealed out = Some payload"
    and "ao_segment_id out \<notin> works_of p"
  shows "let s = fold (\<lambda>(ws, ns). drain_pending_seals ws ns) drains \<lparr>st_pools = [p'], st_pending = pending, st_shared = sh'\<rparr>
    in (\<forall>q \<in> set (st_pools s). ao_segment_id out \<notin> works_of q) \<and>
       registry_get (ao_segment_id out) s \<noteq> None \<and> le_state (the (registry_get (ao_segment_id out) s)) = Reserved"
proof -
  let ?sid = "ao_segment_id out"
  let ?n = "length (sp_slots p)" and ?q = "p\<lparr>sp_current_index := (sp_current_index p + 1) mod length (sp_slots p)\<rparr>"
  have "append_scan data hook (map (\<lambda>off. (sp_current_index p + off) mod ?n) [0..<?n]) (?q, sh) = (Ok (Some out), (p', sh'))"
    using assms(2) by (auto simp: try_append_single_pass_def Let_def split: if_splits)
  then obtain i k m slot ix where t: "try_append_with_hook data hook (sp_tier p) k m (sp_slots p ! i) (sp_index p) sh = (Ok (Some out), slot, ix, sh')"
      and works: "works_of p' = works_of p" and slots: "sp_slots p' = (sp_slots p)[i := slot]" and i: "i < length (sp_slots p)"
    by (rule append_scan_places) (cases "sp_slots p = []"; auto simp: works_of_def)
  obtain s where s: "sp_slots p ! i = Appending s" "as_id s = ?sid"
      and att: "sh_registry sh' = snd (attach_in_flight (sh_now sh) (as_id s) (sp_tier p) k m (as_buffer s @ data) (sh_registry sh))"
      and slot: "slot = Sealing (as_id s) (as_buffer s @ data)"
    using t assms(3)
    by (auto simp: try_append_with_hook_def as_append_def transition_to_sealing_def as_seal_def Let_def split: SlotState.splits if_splits prod.splits)
  have mem: "Appending s \<in> set (sp_slots p)" using s i by (metis nth_mem)
  then have ok: "slot_ok sh s" "reg_wf (sh_registry sh)" using assms(1) by (auto simp: pool_inv_def)
  have k: "kept ?sid (ao_offset out) data Bytes (p', sh')" using append_places[OF assms(1,2)] by simp
  obtain e where "lookup (sh_registry sh') ?sid = Some e" "le_state e = Reserved" "le_in_flight e \<noteq> None" "le_seal_queued e"
    using lookup_attach(3)[OF ok(2), where x = "as_id s" and now = "sh_now sh" and tier = "sp_tier p" and k = k and m = m
      and d = "as_buffer s @ data"] ok(1) unfolding att s(2)[symmetric] slot_ok_def by blast
  then have "lost_shared ?sid sh'" using k by (auto simp: lost_shared_def kept_def pool_inv_def placed_def)
  moreover have "\<not> held ?sid (sp_slots p')"
  proof
    assume "held ?sid (sp_slots p')"
    then obtain j u where u: "j < length (sp_slots p')" "sp_slots p' ! j = Appending u" "as_id u = ?sid" by (auto simp: held_def in_set_conv_nth)
    then have "j \<noteq> i" "sp_slots p ! j = Appending u" using slots slot i by (auto simp: nth_list_update split: if_splits)
    moreover have "one_holder (sp_slots p)" using assms(1) by (simp add: pool_inv_def)
    ultimately show False using s i u slots unfolding one_holder_def by (metis length_list_update)
  qed
  ultimately have "lost ?sid \<lparr>st_pools = [p'], st_pending = pending, st_shared = sh'\<rparr>"
    using assms(4) works by (simp add: lost_def lost_pool_def)
  moreover have "lost ?sid (fold (\<lambda>(ws, ns). drain_pending_seals ws ns) ds t)" if "lost ?sid t" for ds t
    using that by (induction ds arbitrary: t) (auto simp: lost_drain)
  ultimately have "lost ?sid (fold (\<lambda>(ws, ns). drain_pending_seals ws ns) drains \<lparr>st_pools = [p'], st_pending = pending, st_shared = sh'\<rparr>)"
    by blast
  then show ?thesis
    by (auto simp: lost_def lost_pool_def lost_shared_def registry_get_def get_def deleted_expired_def Let_def)
qed

theorem dropped_handoff_never_sealed_witness:
  "\<exists>out p sh. try_append_single_pass [7] no_hook (sample_pool [sample_slot 1], sample_shared) = (Ok (Some out), (p, sh)) \<and>
     ao_sealed out \<noteq> None \<and>
     (let s = fold (\<lambda>(ws, ns). drain_pending_seals ws ns) [(\<lambda>_. Receives 1, \<lambda>_. 1)] \<lparr>st_pools = [p], st_pending = [[]], st_shared = sh\<rparr>
      in (\<forall>q \<in> set (st_pools s). ao_segment_id out \<notin> works_of q) \<and>
         registry_get (ao_segment_id out) s \<noteq> None \<and> le_state (the (registry_get (ao_segment_id out) s)) = Reserved)"
proof -
  obtain out p sh payload where a: "try_append_single_pass [7] no_hook (sample_pool [sample_slot 1], sample_shared) = (Ok (Some out), (p, sh))"
      and pl: "ao_sealed out = Some payload"
    by (simp add: sample_defs transition_to_sealing_def IN_FLIGHT_CAP_def in_flight_count_def Let_def case_prod_unfold)
  have "ao_segment_id out \<notin> works_of (sample_pool [sample_slot 1])" by (simp add: works_of_def sample_pool_def)
  note l = dropped_handoff_never_sealed[OF sample_inv a pl this, of "[(\<lambda>_. Receives 1, \<lambda>_. 1)]" "[[]]"]
  show ?thesis by (intro exI conjI, rule a, simp add: pl, rule l)
qed

section \<open>Replaying into a full set of in-flight windows\<close>

lemma freeze_first_capped:
  assumes "IN_FLIGHT_CAP \<le> in_flight_count (sh_registry (snd st))"
  shows "fst (freeze_first sid is st) = None \<and> sh_registry (snd (snd (freeze_first sid is st))) = sh_registry (snd st) \<and>
    sp_slots (fst (snd (freeze_first sid is st))) = sp_slots (fst st) \<and> works_of (fst (snd (freeze_first sid is st))) = works_of (fst st)"
  using assms
proof (induction "is" arbitrary: st)
  case Nil
  then show ?case by simp
next
  case (Cons i "is")
  obtain p sh where st: "st = (p, sh)" by (cases st)
  obtain k m strip where ec: "ec_params p = (k, m, strip)" by (metis prod_cases3)
  have "freeze_slot False i st = (None, (p\<lparr>sp_slots := sp_slots p\<rparr>, sh))"
    using Cons.prems by (simp add: st freeze_slot_def ec transition_to_sealing_def)
  then show ?case using Cons by (simp add: st)
qed

text \<open>
  With the in-flight set at its cap, sealing a partial segment rebuilt from the log reports success and does nothing: no work item
  is queued and the segment stays in its slot.
\<close>

lemma replayed_partial_not_sealed:
  assumes "IN_FLIGHT_CAP \<le> in_flight_count (sh_registry (snd st))"
  shows "fst (seal_replayed_partial w sid st) = Ok ()"
    "works_of (fst (snd (seal_replayed_partial w sid st))) = works_of (fst st)"
    "sp_slots (fst (snd (seal_replayed_partial w sid st))) = sp_slots (fst st)"
  using freeze_first_capped[OF assms, of sid "slot_indices st"] by (simp_all add: seal_replayed_partial_def case_prod_unfold)

end
