(* ===== verification/HlcClock.thy ===== *)
theory HlcClock
  imports Prelude
begin

text \<open>
  Hybrid logical clocks, \<^verbatim>\<open>oceanfs-core/src/hlc.rs\<close>: timestamps and their order, the packed 128-bit
  state, and the compare-exchange loops of \<^verbatim>\<open>now\<close> and \<^verbatim>\<open>update\<close> as a step relation between any number of
  threads.  The physical time each call reads is part of the call.
\<close>

section \<open>Timestamps\<close>

datatype Hlc = Hlc (wall_time: u64) (logical: u32)

definition Hlc_zero :: Hlc where "Hlc_zero = Hlc 0 0"

text \<open>\<^verbatim>\<open>Ord for Hlc\<close>: by wall time, then by the logical counter.\<close>

instantiation Hlc :: linorder
begin

definition less_eq_Hlc :: "Hlc \<Rightarrow> Hlc \<Rightarrow> bool" where
  "less_eq_Hlc a b \<longleftrightarrow>
     wall_time a < wall_time b \<or> wall_time a = wall_time b \<and> logical a \<le> logical b"

definition less_Hlc :: "Hlc \<Rightarrow> Hlc \<Rightarrow> bool" where
  "less_Hlc a b \<longleftrightarrow>
     wall_time a < wall_time b \<or> wall_time a = wall_time b \<and> logical a < logical b"

instance
  by standard (auto simp: less_eq_Hlc_def less_Hlc_def Hlc.expand)

end

section \<open>The clock\<close>

text \<open>The packed state: wall time above the low 32 bits, logical counter in the low 32 bits.\<close>

definition pack :: "u64 \<Rightarrow> u32 \<Rightarrow> u128" where
  "pack w l = push_bit 32 (ucast w) OR ucast l"

definition state_wall :: "u128 \<Rightarrow> u64" where "state_wall cur = ucast (drop_bit 32 cur)"
definition state_logical :: "u128 \<Rightarrow> u32" where "state_logical cur = ucast cur"

definition HlcClock_new :: "u64 \<Rightarrow> u128" where
  "HlcClock_new wall = push_bit 32 (ucast wall)"

definition saturating_add1 :: "u64 \<Rightarrow> u64" where
  "saturating_add1 w = (if w = - 1 then - 1 else w + 1)"

text \<open>The pair computed from the loaded state in one pass of the loop of \<^verbatim>\<open>now\<close> and of \<^verbatim>\<open>update\<close>.\<close>

definition now_next :: "u64 \<Rightarrow> u128 \<Rightarrow> Hlc" where
  "now_next physical cur =
     (let wall = state_wall cur; logic = state_logical cur;
          new_wall = max wall physical;
          new_logical = logic + 1
      in if new_logical < logic then Hlc (saturating_add1 new_wall) 0 else Hlc new_wall new_logical)"

definition update_next :: "u64 \<Rightarrow> Hlc \<Rightarrow> u128 \<Rightarrow> Hlc" where
  "update_next physical received cur =
     (let wall = state_wall cur; logic = state_logical cur;
          new_wall = max (max wall (wall_time received)) physical;
          new_logical = (if wall_time received > wall then (ucast (logical received) :: u64) + 1
                         else max (ucast logic) (ucast (logical received)) + 1)
      in if new_logical > ucast (- 1 :: u32) then Hlc (saturating_add1 new_wall) 0
         else Hlc new_wall (ucast new_logical))"

definition pack_hlc :: "Hlc \<Rightarrow> u128" where "pack_hlc h = pack (wall_time h) (logical h)"
definition unpack :: "u128 \<Rightarrow> Hlc" where "unpack cur = Hlc (state_wall cur) (state_logical cur)"

section \<open>Concurrent calls\<close>

datatype hlc_op = Now u64 | Update u64 Hlc

fun op_next :: "hlc_op \<Rightarrow> u128 \<Rightarrow> Hlc" where
  "op_next (Now physical) cur = now_next physical cur"
| "op_next (Update physical received) cur = update_next physical received cur"

datatype hlc_pc = Idle | Running hlc_op | Loaded hlc_op u128

text \<open>
  The clock word, where each thread is in its call, and the results of the calls that returned, in
  the order of their successful exchanges, each with its operation.
\<close>

record hlc_sys =
  clock :: u128
  pcs :: "nat \<Rightarrow> hlc_pc"
  returned :: "(hlc_op \<times> Hlc) list"

text \<open>A weak compare-exchange may fail although the value is the expected one.\<close>

inductive hlc_step :: "hlc_sys \<Rightarrow> hlc_sys \<Rightarrow> bool" where
  call: "pcs s t = Idle \<Longrightarrow> hlc_step s (s\<lparr>pcs := (pcs s)(t := Running op)\<rparr>)"
| load: "pcs s t = Running op \<Longrightarrow> hlc_step s (s\<lparr>pcs := (pcs s)(t := Loaded op (clock s))\<rparr>)"
| cas_ok: "pcs s t = Loaded op cur \<Longrightarrow> clock s = cur \<Longrightarrow>
    hlc_step s (s\<lparr>clock := pack_hlc (op_next op cur), pcs := (pcs s)(t := Idle),
      returned := returned s @ [(op, op_next op cur)]\<rparr>)"
| cas_fail: "pcs s t = Loaded op cur \<Longrightarrow> hlc_step s (s\<lparr>pcs := (pcs s)(t := Running op)\<rparr>)"

inductive hlc_reachable :: "hlc_sys \<Rightarrow> bool" where
  init: "hlc_reachable \<lparr>clock = HlcClock_new wall, pcs = (\<lambda>_. Idle), returned = []\<rparr>"
| step: "hlc_reachable s \<Longrightarrow> hlc_step s s' \<Longrightarrow> hlc_reachable s'"

section \<open>Packing\<close>

lemma state_pack [simp]: "state_wall (pack w l) = w" "state_logical (pack w l) = l"
  unfolding state_wall_def state_logical_def pack_def
  by (rule bit_word_eqI;
      auto simp: bit_ucast_iff bit_or_iff bit_push_bit_iff bit_drop_bit_eq dest: bit_imp_le_length)+

lemma unpack_pack [simp]: "unpack (pack_hlc h) = h"
  by (simp add: unpack_def pack_hlc_def)

lemma HlcClock_new_pack: "HlcClock_new w = pack w 0"
  by (simp add: HlcClock_new_def pack_def)

section \<open>One step advances\<close>

lemma unat_minus_1_word: "unat (- 1 :: 'a::len word) = 2 ^ LENGTH('a) - 1"
  by (simp add: unsigned_minus_1_eq_mask mask_eq_exp_minus_1)

lemma unat_add_1: "w \<noteq> - 1 \<Longrightarrow> unat (w + 1) = unat (w :: 'a::len word) + 1"
proof -
  assume "w \<noteq> - 1"
  then have "unat w \<noteq> 2 ^ LENGTH('a) - 1" by (metis unat_minus_1_word word_unat_eq_iff)
  moreover have "unat w < 2 ^ LENGTH('a)" by (rule unsigned_less)
  ultimately have "unat w + 1 < 2 ^ LENGTH('a)" by linarith
  then show ?thesis by (simp add: unat_word_ariths)
qed

lemma less_add_1: "w \<noteq> - 1 \<Longrightarrow> w < w + (1 :: 'a::len word)"
  by (simp add: word_less_nat_alt unat_add_1)

lemma wraps_iff: "w + 1 < w \<longleftrightarrow> w = (- 1 :: u32)"
  using less_add_1 [of w] by (cases "w = - 1") (auto simp: word_gt_0)

lemma unat_ucast_u32_u64 [simp]: "unat (ucast (l :: u32) :: u64) = unat l"
proof -
  have "unat l < 2 ^ 32" using unsigned_less [of l] by simp
  then have "unat l < 2 ^ 64" by simp
  then show ?thesis by (simp add: unsigned_ucast_eq take_bit_nat_eq_self)
qed

lemma ucast_max_u32: "(ucast (- 1 :: u32) :: u64) = 0xFFFFFFFF"
  by (simp add: word_unat_eq_iff unat_minus_1_word)

lemma saturating_less: "saturating_add1 w \<noteq> - 1 \<Longrightarrow> w < saturating_add1 w"
  using less_add_1 by (auto simp: saturating_add1_def split: if_splits)

lemma now_next_greater:
  assumes "wall_time (now_next p cur) \<noteq> - 1"
  shows "unpack cur < now_next p cur"
proof (cases "state_logical cur = - 1")
  case True
  have w: "state_wall cur \<le> max (state_wall cur) p" by simp
  have "saturating_add1 (max (state_wall cur) p) \<noteq> - 1"
    using assms True by (simp add: now_next_def word_gt_0 Let_def)
  from le_less_trans [OF w saturating_less [OF this]] True
  show ?thesis by (simp add: now_next_def unpack_def less_Hlc_def word_gt_0 Let_def)
next
  case False
  then show ?thesis using less_add_1 [OF False]
    by (auto simp: now_next_def unpack_def less_Hlc_def wraps_iff Let_def max_def)
qed

lemma update_counter:
  defines "c r l \<equiv> max (ucast (l :: u32)) (ucast (r :: u32)) + (1 :: u64)"
  shows "unat (c r l) = max (unat l) (unat r) + 1"
proof -
  have "unat l < 2 ^ 32" "unat r < 2 ^ 32" using unsigned_less [of l] unsigned_less [of r] by simp_all
  moreover have "unat (max (ucast l) (ucast r) :: u64) = max (unat l) (unat r)"
    by (simp add: max_def word_le_nat_alt)
  ultimately show ?thesis by (simp add: c_def unat_word_ariths)
qed

lemma update_next_cases:
  fixes received cur p
  defines "c \<equiv> (if wall_time received > state_wall cur then unat (logical received)
                  else max (unat (state_logical cur)) (unat (logical received)))"
    and "w \<equiv> max (max (state_wall cur) (wall_time received)) p"
  shows "(c = 2 ^ 32 - 1 \<and> update_next p received cur = Hlc (saturating_add1 w) 0) \<or>
    (\<exists>l. c < 2 ^ 32 - 1 \<and> update_next p received cur = Hlc w l \<and> unat l = c + 1)"
proof -
  define n :: u64 where "n = (if wall_time received > state_wall cur then ucast (logical received) + 1
      else max (ucast (state_logical cur)) (ucast (logical received)) + 1)"
  have lt: "unat (logical received) < 2 ^ 32" "unat (state_logical cur) < 2 ^ 32"
    using unsigned_less [of "logical received"] unsigned_less [of "state_logical cur"] by simp_all
  have n: "unat n = c + 1"
    using lt update_counter [of "state_logical cur" "logical received"]
    by (simp add: n_def c_def unat_word_ariths)
  have c: "c < 2 ^ 32" using lt by (simp add: c_def)
  have cap: "unat (ucast (- 1 :: u32) :: u64) = 2 ^ 32 - 1" by (simp add: unat_minus_1_word)
  have eq: "update_next p received cur =
      (if n > ucast (- 1 :: u32) then Hlc (saturating_add1 w) 0 else Hlc w (ucast n))"
    unfolding update_next_def Let_def n_def w_def ..
  show ?thesis
  proof (cases "c = 2 ^ 32 - 1")
    case True
    then have "n > ucast (- 1 :: u32)" using n cap by (simp add: word_less_nat_alt)
    with True eq show ?thesis by simp
  next
    case False
    with c have "c < 2 ^ 32 - 1" by linarith
    moreover from this have "\<not> n > ucast (- 1 :: u32)" using n cap by (simp add: word_less_nat_alt)
    moreover have "unat (ucast n :: u32) = c + 1"
      using n \<open>c < 2 ^ 32 - 1\<close> by (simp add: unsigned_ucast_eq take_bit_nat_eq_self)
    ultimately show ?thesis using eq by auto
  qed
qed

lemma update_next_greater:
  assumes "wall_time (update_next p received cur) \<noteq> - 1"
  shows "unpack cur < update_next p received cur" and "received < update_next p received cur"
proof -
  define w where "w = max (max (state_wall cur) (wall_time received)) p"
  have w: "state_wall cur \<le> w" "wall_time received \<le> w" by (simp_all add: w_def le_max_iff_disj)
  from update_next_cases [where received = received and cur = cur and p = p, folded w_def] consider
    (bump) "update_next p received cur = Hlc (saturating_add1 w) 0"
    | (inc) l where "update_next p received cur = Hlc w l"
        "unat l = (if wall_time received > state_wall cur then unat (logical received)
            else max (unat (state_logical cur)) (unat (logical received))) + 1"
    by metis
  then have "unpack cur < update_next p received cur \<and> received < update_next p received cur"
  proof cases
    case bump
    with assms have "w < saturating_add1 w" by (intro saturating_less) simp
    with w bump show ?thesis by (auto simp: less_Hlc_def unpack_def)
  next
    case inc
    with w show ?thesis
      by (auto simp: less_Hlc_def unpack_def word_less_nat_alt word_le_nat_alt word_unat_eq_iff
          split: if_splits)
  qed
  then show "unpack cur < update_next p received cur" "received < update_next p received cur" by auto
qed

section \<open>Reachable states\<close>

lemma op_next_greater:
  assumes "wall_time (op_next op cur) \<noteq> - 1"
  shows "unpack cur < op_next op cur"
    and "op = Update p r \<Longrightarrow> r < op_next op cur"
  using assms now_next_greater update_next_greater by (cases op; simp)+

lemma word_max_le: "(- 1 :: 'a::len word) \<le> w \<longleftrightarrow> w = - 1"
  by (metis word_order.extremum_unique)

lemma saturating_max: "saturating_add1 (- 1) = - 1"
  by (simp add: saturating_add1_def)

lemma op_next_wall_max: "state_wall cur = - 1 \<Longrightarrow> wall_time (op_next op cur) = - 1"
proof (cases op)
  case (Now p)
  assume "state_wall cur = - 1"
  then have "max (state_wall cur) p = - 1" by (simp add: max_def word_max_le)
  with Now show ?thesis by (simp add: now_next_def Let_def saturating_max)
next
  case (Update p r)
  assume "state_wall cur = - 1"
  then have "max (max (state_wall cur) (wall_time r)) p = - 1" by (simp add: max_def word_max_le)
  with Update show ?thesis by (simp add: update_next_def Let_def saturating_max)
qed

definition hlc_inv :: "hlc_sys \<Rightarrow> bool" where
  "hlc_inv s \<longleftrightarrow> sorted_wrt (<) (map snd (returned s)) \<and>
     (\<forall>(op, h) \<in> set (returned s). h \<le> unpack (clock s) \<and> (\<forall>p r. op = Update p r \<longrightarrow> r < h))"

lemma hlc_step_inv:
  assumes "hlc_step s s'" and "state_wall (clock s) \<noteq> - 1 \<Longrightarrow> hlc_inv s"
    and "state_wall (clock s') \<noteq> - 1"
  shows "hlc_inv s'"
  using assms
proof cases
  case (cas_ok t op cur)
  let ?h = "op_next op cur"
  have h: "wall_time ?h \<noteq> - 1" using assms(3) cas_ok by (simp add: pack_hlc_def)
  then have "state_wall (clock s) \<noteq> - 1" using op_next_wall_max cas_ok by metis
  with assms(2) have inv: "hlc_inv s" .
  have gt: "unpack (clock s) < ?h" using op_next_greater(1) [OF h] cas_ok by simp
  then have "x < ?h" if "(op', x) \<in> set (returned s)" for op' x
    using inv that by (fastforce simp: hlc_inv_def)
  moreover have "r < ?h" if "op = Update p r" for p r using op_next_greater(2) [OF h that] .
  ultimately show ?thesis
    using inv cas_ok by (auto simp: hlc_inv_def sorted_wrt_append less_imp_le)
qed (auto simp: hlc_inv_def)

lemma hlc_reachable_inv: "hlc_reachable s \<Longrightarrow> state_wall (clock s) \<noteq> - 1 \<Longrightarrow> hlc_inv s"
proof (induction rule: hlc_reachable.induct)
  case (init wall)
  then show ?case by (simp add: hlc_inv_def)
next
  case (step s s')
  then show ?case using hlc_step_inv by blast
qed

section \<open>Properties\<close>

text \<open>
  C3: in every interleaving of concurrent \<^verbatim>\<open>now\<close> and \<^verbatim>\<open>update\<close> calls, spurious failures of the weak
  exchange included, and as long as the wall component has not reached \<^verbatim>\<open>u64::MAX\<close>: the timestamps
  returned are strictly increasing in the order of the successful exchanges (so no two calls return
  the same one), none is above the clock, and every \<^verbatim>\<open>update\<close> returns more than it received.
\<close>

theorem hlc_strictly_increasing:
  assumes "hlc_reachable s" and "state_wall (clock s) \<noteq> - 1"
  shows "sorted_wrt (<) (map snd (returned s)) \<and>
    (\<forall>(op, h) \<in> set (returned s). h \<le> unpack (clock s) \<and> (\<forall>p r. op = Update p r \<longrightarrow> r < h))"
  using hlc_reachable_inv [OF assms] by (simp add: hlc_inv_def)

theorem hlc_strictly_increasing_witness:
  "\<exists>s. hlc_reachable s \<and> returned s = [(Update 5 (Hlc 9 7), Hlc 1000 8), (Now 5, Hlc 1000 9)] \<and>
     sorted_wrt (<) (map snd (returned s))"
proof -
  let ?u = "Update 5 (Hlc 9 7)"
  define s0 where "s0 = \<lparr>clock = HlcClock_new 1000, pcs = (\<lambda>_. Idle), returned = []\<rparr>"
  define s1 where "s1 = s0\<lparr>pcs := (pcs s0)(0 := Running (Now 5))\<rparr>"
  define s2 where "s2 = s1\<lparr>pcs := (pcs s1)(0 := Loaded (Now 5) (clock s1))\<rparr>"
  define s3 where "s3 = s2\<lparr>pcs := (pcs s2)(1 := Running ?u)\<rparr>"
  define s4 where "s4 = s3\<lparr>pcs := (pcs s3)(1 := Loaded ?u (clock s3))\<rparr>"
  define s5 where "s5 = s4\<lparr>clock := pack_hlc (op_next ?u (clock s4)), pcs := (pcs s4)(1 := Idle),
      returned := returned s4 @ [(?u, op_next ?u (clock s4))]\<rparr>"
  define s6 where "s6 = s5\<lparr>pcs := (pcs s5)(0 := Running (Now 5))\<rparr>"
  define s7 where "s7 = s6\<lparr>pcs := (pcs s6)(0 := Loaded (Now 5) (clock s6))\<rparr>"
  define s8 where "s8 = s7\<lparr>clock := pack_hlc (op_next (Now 5) (clock s7)), pcs := (pcs s7)(0 := Idle),
      returned := returned s7 @ [(Now 5, op_next (Now 5) (clock s7))]\<rparr>"
  note defs = s0_def s1_def s2_def s3_def s4_def s5_def s6_def s7_def s8_def
  have "hlc_reachable s0" unfolding s0_def by (rule hlc_reachable.init)
  moreover have "hlc_step s0 s1" unfolding s1_def by (rule hlc_step.call) (simp add: s0_def)
  moreover have "hlc_step s1 s2" unfolding s2_def by (rule hlc_step.load) (simp add: s1_def)
  moreover have "hlc_step s2 s3" unfolding s3_def by (rule hlc_step.call) (simp add: defs)
  moreover have "hlc_step s3 s4" unfolding s4_def by (rule hlc_step.load) (simp add: s3_def)
  moreover have "hlc_step s4 s5" unfolding s5_def by (rule hlc_step.cas_ok) (simp_all add: s4_def)
  moreover have "hlc_step s5 s6" unfolding s6_def by (rule hlc_step.cas_fail) (simp add: defs)
  moreover have "hlc_step s6 s7" unfolding s7_def by (rule hlc_step.load) (simp add: s6_def)
  moreover have "hlc_step s7 s8" unfolding s8_def by (rule hlc_step.cas_ok) (simp_all add: s7_def)
  ultimately have r: "hlc_reachable s8" by (meson hlc_reachable.step)
  have c: "op_next ?u (clock s4) = Hlc 1000 8"
    by (simp add: defs HlcClock_new_pack update_next_def max_def ucast_max_u32)
  then have d: "op_next (Now 5) (clock s7) = Hlc 1000 9"
    by (simp add: s5_def s6_def s7_def pack_hlc_def now_next_def max_def)
  have "returned s8 = [(?u, Hlc 1000 8), (Now 5, Hlc 1000 9)]"
    using c d by (simp add: s5_def s6_def s7_def s8_def) (simp add: defs)
  moreover have "state_wall (clock s8) \<noteq> - 1"
    using d by (simp add: s8_def pack_hlc_def)
  ultimately show ?thesis using r hlc_strictly_increasing [OF r] by blast
qed

text \<open>
  At the top of the range the guarantee fails: whatever the clock and the physical time, \<^verbatim>\<open>update\<close>
  with the greatest timestamp a peer can send returns a timestamp below the one it received.
\<close>

theorem hlc_update_saturates:
  "update_next p (Hlc (- 1) (- 1)) cur = Hlc (- 1) 0 \<and>
   update_next p (Hlc (- 1) (- 1)) cur < Hlc (- 1) (- 1)"
proof -
  have "max (max (state_wall cur) (- 1)) p = - 1" by (simp add: max_def word_max_le)
  moreover have "max (unat (state_logical cur)) (2 ^ 32 - 1) = 2 ^ 32 - 1"
  proof -
    have "unat (state_logical cur) < 2 ^ LENGTH(32)" by (rule unsigned_less)
    then show ?thesis by (simp add: max_def)
  qed
  ultimately have "update_next p (Hlc (- 1) (- 1)) cur = Hlc (- 1) 0"
    using update_next_cases [where received = "Hlc (- 1) (- 1)" and cur = cur and p = p]
    by (auto simp: unat_minus_1_word saturating_max split: if_splits)
  then show ?thesis by (simp add: less_Hlc_def word_gt_0)
qed

end
