(* ===== verification/HintLog.thy ===== *)
theory HintLog
  imports EventRecords HlcClock HashMaps
begin

text \<open>
  The write-ahead log of hinted handoff (\<^verbatim>\<open>oceanfs-durability/src/hinted_handoff/hint_wal.rs\<close>): hint records, their framing with a
  length and a checksum, appending, replay with the repair of a torn tail, truncation and the pruning of old records.  The
  protobuf codec and CRC-32 are arguments.  A file is the list of its bytes; it is opened for appending, so every write goes to its
  end.
\<close>

section \<open>Records\<close>

datatype HintBody =
    HintInline "NodeId option" "string option" string "u8 list" "Hlc option"
  | HintSegmentRef "NodeId option" "string option" string "SegmentId option" u64 u32 "Hlc option"
  | HintDelete "NodeId option" "string option" string "Hlc option"

record HintRecord =
  hr_record :: "HintBody option"
  hr_stored_at_secs :: u64
  hr_attempts :: u32

definition hint_of :: "HintBody \<Rightarrow> HintRecord" where
  "hint_of body = \<lparr>hr_record = Some body, hr_stored_at_secs = 0, hr_attempts = 0\<rparr>"

definition new_inline :: "NodeId \<Rightarrow> string \<Rightarrow> string \<Rightarrow> u8 list \<Rightarrow> Hlc \<Rightarrow> HintRecord" where
  "new_inline target bucket key data hlc = hint_of (HintInline (Some target) (Some bucket) key data (Some hlc))"

definition new_segment_ref :: "NodeId \<Rightarrow> string \<Rightarrow> string \<Rightarrow> SegmentId \<Rightarrow> u64 \<Rightarrow> u32 \<Rightarrow> Hlc \<Rightarrow> HintRecord" where
  "new_segment_ref target bucket key sid off len hlc = hint_of (HintSegmentRef (Some target) (Some bucket) key (Some sid) off len (Some hlc))"

definition new_delete :: "NodeId \<Rightarrow> string \<Rightarrow> string \<Rightarrow> Hlc \<Rightarrow> HintRecord" where
  "new_delete target bucket key hlc = hint_of (HintDelete (Some target) (Some bucket) key (Some hlc))"

definition intended_for :: "HintRecord \<Rightarrow> NodeId option" where
  "intended_for record =
     (case hr_record record of
        Some (HintInline target _ _ _ _) \<Rightarrow> target
      | Some (HintSegmentRef target _ _ _ _ _ _) \<Rightarrow> target
      | Some (HintDelete target _ _ _) \<Rightarrow> target
      | None \<Rightarrow> None)"

section \<open>The log\<close>

text \<open>The codec of the generated protobuf code and the checksum.\<close>

record hint_codec =
  hc_encode :: "HintRecord \<Rightarrow> u8 list"
  hc_decode :: "u8 list \<Rightarrow> HintRecord option"
  hc_crc :: "u8 list \<Rightarrow> u32"

record HintWal =
  hw_file :: "u8 list"
  hw_position :: nat

datatype hint_error = HintIo | HintInternal | HintForwardFailed | HintTimeout

definition HintWal_open :: "u8 list \<Rightarrow> HintWal" where
  "HintWal_open file = \<lparr>hw_file = file, hw_position = length file\<rparr>"

definition build_frame :: "hint_codec \<Rightarrow> u8 list \<Rightarrow> u8 list" where
  "build_frame c payload = u32_to_le (of_nat (length payload)) @ payload @ u32_to_le (hc_crc c payload)"

text \<open>How a write to the file ends: it is written and synced, or it fails after some bytes have reached the file.\<close>

datatype write_io = WriteDone | WriteFails nat

definition write_payload :: "hint_codec \<Rightarrow> write_io \<Rightarrow> u8 list \<Rightarrow> HintWal \<Rightarrow> (hint_error, nat \<times> nat) outcome \<times> HintWal" where
  "write_payload c io payload w =
     (let frame = build_frame c payload; start = hw_position w
      in case io of
           WriteDone \<Rightarrow> (Ok (start, start + length frame), w\<lparr>hw_file := hw_file w @ frame, hw_position := start + length frame\<rparr>)
         | WriteFails n \<Rightarrow> (Err HintIo, w\<lparr>hw_file := hw_file w @ take n frame\<rparr>))"

definition write_hint :: "hint_codec \<Rightarrow> write_io \<Rightarrow> HintRecord \<Rightarrow> HintWal \<Rightarrow> (hint_error, nat \<times> nat) outcome \<times> HintWal" where
  "write_hint c io record w = write_payload c io (hc_encode c record) w"

text \<open>The interface of a write-ahead log: raw entries, truncation, and the position.\<close>

definition hw_append :: "hint_codec \<Rightarrow> write_io \<Rightarrow> u8 list \<Rightarrow> HintWal \<Rightarrow> (hint_error, nat) outcome \<times> HintWal" where
  "hw_append c io entry_data w =
     (case write_payload c io entry_data w of
        (Ok (start, _), w) \<Rightarrow> (Ok start, w)
      | (Err e, w) \<Rightarrow> (Err e, w)
      | (Panic, w) \<Rightarrow> (Panic, w))"

text \<open>\<^verbatim>\<open>set_len\<close> cuts a longer file and extends a shorter one with zeros; when it fails nothing changes.\<close>

definition set_len :: "nat \<Rightarrow> u8 list \<Rightarrow> u8 list" where
  "set_len n file = take n file @ replicate (n - length file) 0"

definition truncate_after :: "bool \<Rightarrow> nat \<Rightarrow> HintWal \<Rightarrow> (hint_error, unit) outcome \<times> HintWal" where
  "truncate_after ok position w =
     (if ok then (Ok (), w\<lparr>hw_file := set_len position (hw_file w), hw_position := position\<rparr>) else (Err HintIo, w))"

definition truncate_to :: "bool \<Rightarrow> nat \<Rightarrow> HintWal \<Rightarrow> (hint_error, unit) outcome \<times> HintWal" where
  "truncate_to ok position w =
     (if ok then (Ok (), w\<lparr>hw_file := set_len position (hw_file w), hw_position := position\<rparr>) else (Err HintIo, w))"

text \<open>What the bytes from a cursor on hold: nothing more to read, a damaged frame, or a frame.\<close>

datatype frame_read = NoFrame | BadFrame | Frame "u8 list" nat

definition read_frame :: "hint_codec \<Rightarrow> u8 list \<Rightarrow> frame_read" where
  "read_frame c remaining =
     (if length remaining < 8 then NoFrame
      else let payload_len = unat (u32_from_le (slice remaining 0 4)); frame_total = 4 + payload_len + 4
           in if length remaining < frame_total then BadFrame
              else let payload = slice remaining 4 (4 + payload_len)
                   in if hc_crc c payload \<noteq> u32_from_le (slice remaining (4 + payload_len) (4 + payload_len + 4)) then BadFrame
                      else Frame payload frame_total)"

lemma read_frame_total: "read_frame c bs = Frame payload n \<Longrightarrow> 0 < n \<and> n \<le> length bs"
  by (auto simp: read_frame_def Let_def split: if_splits)

text \<open>
  The replay loop over the bytes read; the result is the records with their positions, and the position to trim the file at when a
  damaged frame was found.
\<close>

type_synonym hint_item = "nat \<times> nat \<times> HintRecord"

function replay_loop :: "hint_codec \<Rightarrow> nat \<Rightarrow> u8 list \<Rightarrow> (hint_error, hint_item list \<times> nat option) outcome" where
  "replay_loop c cursor remaining =
     (case read_frame c remaining of
        NoFrame \<Rightarrow> Ok ([], None)
      | BadFrame \<Rightarrow> Ok ([], Some cursor)
      | Frame payload n \<Rightarrow>
          (case hc_decode c payload of
             None \<Rightarrow> Err HintInternal
           | Some record \<Rightarrow> bind_outcome (replay_loop c (cursor + n) (drop n remaining))
               (\<lambda>(records, trim). Ok ((cursor, cursor + n, record) # records, trim))))"
  by pat_completeness auto
termination
  by (relation "measure (\<lambda>(_, _, remaining). length remaining)") (auto dest!: read_frame_total)

declare replay_loop.simps [simp del]

text \<open>How the file operations of a replay end.\<close>

datatype replay_io = ReplayDone | ReadFails | TrimFails

definition hw_replay :: "hint_codec \<Rightarrow> replay_io \<Rightarrow> HintWal \<Rightarrow> (hint_error, hint_item list) outcome \<times> HintWal" where
  "hw_replay c io w =
     (if hw_file w = [] then (Ok [], w)
      else if io = ReadFails then (Err HintIo, w)
      else case replay_loop c 0 (hw_file w) of
             Ok (records, None) \<Rightarrow> (Ok records, w)
           | Ok (records, Some position) \<Rightarrow>
               (case truncate_to (io \<noteq> TrimFails) position w of
                  (Ok _, w) \<Rightarrow> (Ok records, w)
                | (Err e, w) \<Rightarrow> (Err e, w)
                | (Panic, w) \<Rightarrow> (Panic, w))
           | Err e \<Rightarrow> (Err e, w)
           | Panic \<Rightarrow> (Panic, w))"

definition hint_expired :: "nat \<Rightarrow> nat \<Rightarrow> HintRecord \<Rightarrow> bool" where
  "hint_expired now ttl record \<longleftrightarrow> 0 < hr_stored_at_secs record \<and> ttl \<le> now - unat (hr_stored_at_secs record)"

text \<open>Writing records one after the other; the first failure ends it.  The list says how each write ends.\<close>

fun write_hints :: "hint_codec \<Rightarrow> write_io list \<Rightarrow> HintRecord list \<Rightarrow> HintWal \<Rightarrow> (hint_error, unit) outcome \<times> HintWal" where
  "write_hints c ios [] w = (Ok (), w)"
| "write_hints c ios (r # rs) w =
     (case write_hint c (case ios of [] \<Rightarrow> WriteDone | io # _ \<Rightarrow> io) r w of
        (Ok _, w) \<Rightarrow> write_hints c (tl ios) rs w
      | (Err e, w) \<Rightarrow> (Err e, w)
      | (Panic, w) \<Rightarrow> (Panic, w))"

text \<open>How the operations of a prune end: the replay, the clearing of the log, and the writes.\<close>

record prune_io =
  pi_replay :: replay_io
  pi_clear :: bool
  pi_writes :: "write_io list"

text \<open>The prune in its two halves, between which the locks are free: what survives and what has expired, and the rewriting.\<close>

definition prune_read :: "hint_codec \<Rightarrow> prune_io \<Rightarrow> nat \<Rightarrow> nat \<Rightarrow> HintWal \<Rightarrow> (hint_error, HintRecord list \<times> HintRecord list) outcome \<times> HintWal" where
  "prune_read c io now ttl w =
     (case hw_replay c (pi_replay io) w of
        (Ok records, w) \<Rightarrow>
          (let (expired, survivors) = partition (hint_expired now ttl) (map (\<lambda>(_, _, r). r) records) in (Ok (survivors, expired), w))
      | (Err e, w) \<Rightarrow> (Err e, w)
      | (Panic, w) \<Rightarrow> (Panic, w))"

definition prune_rewrite ::
  "hint_codec \<Rightarrow> prune_io \<Rightarrow> HintRecord list \<times> HintRecord list \<Rightarrow> HintWal \<Rightarrow> (hint_error, nat \<times> HintRecord list) outcome \<times> HintWal" where
  "prune_rewrite c io split w =
     (let (survivors, expired) = split
      in if expired = [] then (Ok (0, []), w)
         else case truncate_after (pi_clear io) 0 w of
                (Ok _, w) \<Rightarrow>
                  (case write_hints c (pi_writes io) survivors w of
                     (Ok _, w) \<Rightarrow> (Ok (length expired, expired), w)
                   | (Err e, w) \<Rightarrow> (Err e, w)
                   | (Panic, w) \<Rightarrow> (Panic, w))
              | (Err e, w) \<Rightarrow> (Err e, w)
              | (Panic, w) \<Rightarrow> (Panic, w))"

definition prune_expired ::
  "hint_codec \<Rightarrow> prune_io \<Rightarrow> nat \<Rightarrow> nat \<Rightarrow> HintWal \<Rightarrow> (hint_error, nat \<times> HintRecord list) outcome \<times> HintWal" where
  "prune_expired c io now ttl w =
     (case prune_read c io now ttl w of
        (Ok split, w) \<Rightarrow> prune_rewrite c io split w
      | (Err e, w) \<Rightarrow> (Err e, w)
      | (Panic, w) \<Rightarrow> (Panic, w))"

section \<open>Replaying what was written\<close>

definition hint_frame :: "hint_codec \<Rightarrow> HintRecord \<Rightarrow> u8 list" where "hint_frame c r = build_frame c (hc_encode c r)"

definition hint_log :: "hint_codec \<Rightarrow> HintRecord list \<Rightarrow> u8 list" where "hint_log c rs = concat (map (hint_frame c) rs)"

fun positions_from :: "hint_codec \<Rightarrow> nat \<Rightarrow> HintRecord list \<Rightarrow> hint_item list" where
  "positions_from c n [] = []"
| "positions_from c n (r # rs) = (n, n + length (hint_frame c r), r) # positions_from c (n + length (hint_frame c r)) rs"

definition codec_ok :: "hint_codec \<Rightarrow> HintRecord \<Rightarrow> bool" where
  "codec_ok c r \<longleftrightarrow> hc_decode c (hc_encode c r) = Some r \<and> length (hc_encode c r) < 2 ^ 32"

lemma length_build_frame [simp]: "length (build_frame c payload) = length payload + 8"
  by (simp add: build_frame_def)

lemma unat_len: "n < 2 ^ 32 \<Longrightarrow> unat (of_nat n :: u32) = n"
  by (simp add: unat_of_nat)

lemma read_frame_built:
  assumes "length payload < 2 ^ 32"
  shows "read_frame c (build_frame c payload @ rest) = Frame payload (length payload + 8)"
proof -
  let ?len = "u32_to_le (of_nat (length payload))" and ?crc = "u32_to_le (hc_crc c payload)"
  have bs: "build_frame c payload @ rest = ?len @ payload @ ?crc @ rest" by (simp add: build_frame_def)
  have "slice (?len @ payload @ ?crc @ rest) 0 4 = ?len" by (simp add: slice_exact)
  moreover have "slice (?len @ payload @ ?crc @ rest) 4 (4 + length payload) = payload"
    by (simp add: slice_skip slice_exact)
  moreover have "slice (?len @ payload @ ?crc @ rest) (4 + length payload) (4 + length payload + 4) = ?crc"
    by (simp add: slice_skip slice_exact)
  ultimately show ?thesis
    unfolding bs by (simp add: read_frame_def Let_def unat_len[OF assms])
qed

lemma replay_loop_frames:
  assumes "\<forall>r \<in> set rs. codec_ok c r"
  shows "replay_loop c n (hint_log c rs @ rest) =
    bind_outcome (replay_loop c (n + length (hint_log c rs)) rest) (\<lambda>(records, trim). Ok (positions_from c n rs @ records, trim))"
  using assms
proof (induction rs arbitrary: n)
  case Nil
  have "bind_outcome x (\<lambda>(records, trim). Ok (records, trim)) = x" for x :: "(hint_error, hint_item list \<times> nat option) outcome"
    by (cases x) auto
  then show ?case by (simp add: hint_log_def)
next
  case (Cons r rs)
  have ok: "hc_decode c (hc_encode c r) = Some r" "length (hc_encode c r) < 2 ^ 32" using Cons.prems by (simp_all add: codec_ok_def)
  have log: "hint_log c (r # rs) @ rest = build_frame c (hc_encode c r) @ (hint_log c rs @ rest)"
    by (simp add: hint_log_def hint_frame_def)
  have "replay_loop c n (hint_log c (r # rs) @ rest) =
      bind_outcome (replay_loop c (n + (length (hc_encode c r) + 8)) (hint_log c rs @ rest))
        (\<lambda>(records, trim). Ok ((n, n + (length (hc_encode c r) + 8), r) # records, trim))"
    unfolding log by (subst replay_loop.simps) (simp add: read_frame_built[OF ok(2)] ok(1))
  also have "\<dots> = bind_outcome (replay_loop c (n + length (hint_log c (r # rs))) rest)
      (\<lambda>(records, trim). Ok (positions_from c n (r # rs) @ records, trim))"
    using Cons.IH[of "n + (length (hc_encode c r) + 8)"] Cons.prems
    by (cases "replay_loop c (n + length (hint_log c (r # rs))) rest") (auto simp: hint_frame_def hint_log_def add.assoc split: prod.splits)
  finally show ?case .
qed

lemma replay_loop_Nil [simp]: "replay_loop c n [] = Ok ([], None)"
  by (subst replay_loop.simps) (simp add: read_frame_def)

lemma replay_loop_log: "\<forall>r \<in> set rs. codec_ok c r \<Longrightarrow> replay_loop c n (hint_log c rs) = Ok (positions_from c n rs, None)"
  using replay_loop_frames[of rs c n "[]"] by simp

lemma replay_hints:
  assumes "\<forall>r \<in> set rs. codec_ok c r" "hw_file w = hint_log c rs" "io \<noteq> ReadFails"
  shows "hw_replay c io w = (Ok (positions_from c 0 rs), w)"
proof (cases "rs = []")
  case False
  then have "hint_log c rs \<noteq> []" by (cases rs) (auto simp: hint_log_def hint_frame_def simp flip: length_greater_0_conv)
  then show ?thesis using assms by (simp add: hw_replay_def replay_loop_log)
qed (use assms in \<open>simp add: hw_replay_def hint_log_def\<close>)

lemma hint_log_Nil [simp]: "hint_log c [] = []"
  by (simp add: hint_log_def)

lemma hint_log_append [simp]: "hint_log c (xs @ ys) = hint_log c xs @ hint_log c ys"
  by (simp add: hint_log_def)

lemma positions_from_append: "positions_from c n (xs @ ys) = positions_from c n xs @ positions_from c (n + length (hint_log c xs)) ys"
  by (induction xs arbitrary: n) (simp_all add: hint_log_def add.assoc)

lemma records_positions_from [simp]: "map (snd \<circ> snd) (positions_from c n rs) = rs"
  by (induction rs arbitrary: n) simp_all

lemma records_positions_from' [simp]: "map (\<lambda>(_, _, r). r) (positions_from c n rs) = rs"
  by (induction rs arbitrary: n) simp_all

lemma length_positions_from [simp]: "length (positions_from c n rs) = length rs"
  by (induction rs arbitrary: n) simp_all

section \<open>Torn tails\<close>

text \<open>A frame of which only a part reached the file is not read; from eight bytes on it is taken for a damaged frame.\<close>

lemma read_frame_torn:
  assumes "length payload < 2 ^ 32" "k < length payload + 8"
  shows "read_frame c (take k (build_frame c payload)) = (if k < 8 then NoFrame else BadFrame)"
proof (cases "k < 8")
  case False
  have "slice (take k (build_frame c payload)) 0 4 = u32_to_le (of_nat (length payload))"
    using False by (simp add: slice_take build_frame_def slice_exact)
  then show ?thesis using False assms by (simp add: read_frame_def Let_def unat_len min_def)
qed (simp add: read_frame_def)

lemma replay_torn:
  assumes "\<forall>r \<in> set rs. codec_ok c r" "codec_ok c r" "k < length (hint_frame c r)" "io = ReplayDone"
    and "hw_file w = hint_log c rs @ take k (hint_frame c r)"
  shows "hw_replay c io w =
    (Ok (positions_from c 0 rs), if k < 8 then w else w\<lparr>hw_file := hint_log c rs, hw_position := length (hint_log c rs)\<rparr>)"
proof -
  have "read_frame c (take k (hint_frame c r)) = (if k < 8 then NoFrame else BadFrame)"
    using read_frame_torn[of "hc_encode c r" k c] assms(2,3) by (simp add: hint_frame_def codec_ok_def)
  then have "replay_loop c n (take k (hint_frame c r)) = Ok ([], if k < 8 then None else Some n)" for n
    by (subst replay_loop.simps) simp
  then have "replay_loop c 0 (hw_file w) = Ok (positions_from c 0 rs, if k < 8 then None else Some (length (hint_log c rs)))"
    unfolding assms(5) replay_loop_frames[OF assms(1)] by simp
  then show ?thesis using assms(4,5) by (auto simp: hw_replay_def truncate_to_def set_len_def)
qed

text \<open>A leftover byte before a frame shifts its length by a byte, and the frame is taken for one that is much longer.\<close>

lemma from_le_u32: "from_le (u32_to_le v) = unat v"
proof -
  have "unat v < 256 ^ 4" using unsigned_less[of v] by simp
  then show ?thesis by (simp add: u32_to_le_def from_le_le_bytes)
qed

lemma take_le_bytes: "take k (le_bytes (k + j) n) = le_bytes k n"
  by (induction k arbitrary: n) simp_all

lemma shifted_length:
  fixes n :: nat
  assumes "n < 2 ^ 24"
  shows "unat (u32_from_le (b # take 3 (u32_to_le (of_nat n)))) = unat b + 256 * n"
proof -
  have t: "take 3 (le_bytes 4 n) = le_bytes 3 n" using take_le_bytes[of 3 1 n] by simp
  have "unat (of_nat n :: u32) = n" using assms by (simp add: unat_of_nat)
  then have "from_le (b # take 3 (u32_to_le (of_nat n))) = unat b + 256 * n"
    using t assms by (simp add: u32_to_le_def from_le_le_bytes)
  moreover have "unat b < 256" using unsigned_less[of b, where ?'a = nat] by simp
  then have "unat b + 256 * n < 2 ^ 32" using assms by simp
  ultimately show ?thesis by (simp only: u32_from_le_def unat_len)
qed

lemma read_frame_shifted:
  assumes "0 < length payload" "length payload < 2 ^ 24"
  shows "read_frame c (b # build_frame c payload) = BadFrame"
proof -
  have "slice (b # build_frame c payload) 0 4 = b # take 3 (u32_to_le (of_nat (length payload)))"
    by (simp add: slice_def build_frame_def)
  moreover have "length (b # build_frame c payload) < 4 + (unat b + 256 * length payload) + 4" "\<not> length (b # build_frame c payload) < 8"
    using assms(1) unfolding length_Cons length_build_frame by linarith+
  ultimately show ?thesis
    unfolding read_frame_def Let_def by (simp only: shifted_length[OF assms(2)] if_True if_False)
qed

text \<open>
  C38. A crash can leave a single byte of a torn frame behind.  Replay leaves it in place, because it is shorter than the smallest
  frame, and the next hint, although written, synced and acknowledged, is lost: the replay after the next restart takes it for a
  damaged frame and cuts it off.
\<close>

theorem torn_tail_loses_next_hint:
  assumes "\<forall>r \<in> set rs. codec_ok c r" "0 < length (hc_encode c r)" "length (hc_encode c r) < 2 ^ 24"
  shows "let (res, w) = hw_replay c ReplayDone (HintWal_open (hint_log c rs @ [b]));
             (ack, w) = write_hint c WriteDone r w;
             (res', w) = hw_replay c ReplayDone (HintWal_open (hw_file w))
         in res = Ok (positions_from c 0 rs) \<and> (\<exists>p. ack = Ok p) \<and> res' = Ok (positions_from c 0 rs) \<and> hw_file w = hint_log c rs"
proof -
  have b: "read_frame c [b] = NoFrame" by (simp add: read_frame_def)
  have one: "hw_replay c ReplayDone (HintWal_open (hint_log c rs @ [b])) = (Ok (positions_from c 0 rs), HintWal_open (hint_log c rs @ [b]))"
    unfolding hw_replay_def by (simp add: HintWal_open_def replay_loop_frames[OF assms(1)] replay_loop.simps[of c _ "[b]"] b)
  have bad: "replay_loop c n (b # hint_frame c r) = Ok ([], Some n)" for n
    by (subst replay_loop.simps) (simp add: read_frame_shifted[OF assms(2,3)] hint_frame_def)
  have two: "hw_replay c ReplayDone (HintWal_open (hint_log c rs @ b # hint_frame c r)) =
      (Ok (positions_from c 0 rs), \<lparr>hw_file = hint_log c rs, hw_position = length (hint_log c rs)\<rparr>)"
    unfolding hw_replay_def by (simp add: HintWal_open_def replay_loop_frames[OF assms(1)] bad truncate_to_def set_len_def)
  have "\<exists>p. write_hint c WriteDone r (HintWal_open (hint_log c rs @ [b])) = (Ok p, HintWal_open (hint_log c rs @ b # hint_frame c r))"
    by (simp add: write_hint_def write_payload_def Let_def HintWal_open_def hint_frame_def)
  then show ?thesis unfolding one using two by (auto simp: HintWal_open_def)
qed

text \<open>A codec for tombstones of one object, to evaluate the model with.\<close>

definition sample_hint :: HintRecord where
  "sample_hint = new_delete ''b'' ''bucket'' ''key'' Hlc_zero"

definition sample_codec :: hint_codec where
  "sample_codec = \<lparr>hc_encode = (\<lambda>r. u32_to_le (hr_attempts r) @ u64_to_le (hr_stored_at_secs r)),
     hc_decode = (\<lambda>bs. Some \<lparr>hr_record = hr_record sample_hint, hr_stored_at_secs = u64_from_le (drop 4 bs), hr_attempts = u32_from_le (take 4 bs)\<rparr>),
     hc_crc = (\<lambda>_. 0)\<rparr>"

lemma sample_codec_ok: "hr_record r = hr_record sample_hint \<Longrightarrow> codec_ok sample_codec r"
  by (simp add: codec_ok_def sample_codec_def)

lemma length_sample_encoding: "length (hc_encode sample_codec r) = 12"
  by (simp add: sample_codec_def)

theorem torn_tail_loses_next_hint_witness:
  "let (res, w) = hw_replay sample_codec ReplayDone (HintWal_open (hint_log sample_codec [sample_hint] @ [7]));
       (ack, w) = write_hint sample_codec WriteDone sample_hint w;
       (res', w) = hw_replay sample_codec ReplayDone (HintWal_open (hw_file w))
   in res = Ok (positions_from sample_codec 0 [sample_hint]) \<and> (\<exists>p. ack = Ok p) \<and> res' = Ok (positions_from sample_codec 0 [sample_hint]) \<and>
      hw_file w = hint_log sample_codec [sample_hint]"
  by (rule torn_tail_loses_next_hint) (simp_all add: sample_codec_ok length_sample_encoding del: length_greater_0_conv)

end
