(* ===== verification/Handoff.thy ===== *)
theory Handoff
  imports HintLog
begin

text \<open>
  The manager of hinted handoff (\<^verbatim>\<open>oceanfs-durability/src/hinted_handoff/hint_delivery.rs\<close>): a queue and a log of hints for each
  unreachable node, their delivery in batches, retries, giving up, pruning, and the restart.  The directory of log files is a map
  from nodes to bytes; a log that is open has a handle with its position.  What the disk, the clock, the membership view and the
  delivery client answer are arguments; gauges and the I/O recorder are not modelled.
\<close>

section \<open>State\<close>

text \<open>The configuration; the directory and the inline threshold, which the manager does not look at, are left out.\<close>

record HintedHandoffConfig =
  max_batch_size :: nat
  max_batch_bytes :: nat
  max_delivery_attempts :: u32

definition HintedHandoffConfig_default :: HintedHandoffConfig where
  "HintedHandoffConfig_default = \<lparr>max_batch_size = 256, max_batch_bytes = 32 * 1024 * 1024, max_delivery_attempts = 10\<rparr>"

record HintDropRecord =
  dr_segment_id :: SegmentId
  dr_intended_for :: NodeId

record HintedHandoffManager =
  mg_files :: "(NodeId \<times> u8 list) list"
  mg_wals :: "(NodeId \<times> nat) list"
  mg_last_access :: "(NodeId \<times> nat) list"
  mg_queues :: "(NodeId \<times> hint_item list) list"
  mg_pending_bytes :: "(NodeId \<times> nat) list"
  mg_config :: HintedHandoffConfig
  mg_has_sink :: bool
  mg_sunk :: "HintDropRecord list"
  mg_stored :: u64
  mg_delivered :: u64
  mg_expired :: u64
  mg_enqueue_failed :: u64
  mg_dropped :: u64

definition HintedHandoffManager_new :: "(NodeId \<times> u8 list) list \<Rightarrow> HintedHandoffConfig \<Rightarrow> bool \<Rightarrow> HintedHandoffManager" where
  "HintedHandoffManager_new files cfg has_sink =
     \<lparr>mg_files = files, mg_wals = [], mg_last_access = [], mg_queues = [], mg_pending_bytes = [], mg_config = cfg, mg_has_sink = has_sink,
      mg_sunk = [], mg_stored = 0, mg_delivered = 0, mg_expired = 0, mg_enqueue_failed = 0, mg_dropped = 0\<rparr>"

abbreviation item_record :: "hint_item \<Rightarrow> HintRecord" where "item_record x \<equiv> snd (snd x)"

definition queue_of :: "NodeId \<Rightarrow> HintedHandoffManager \<Rightarrow> hint_item list" where
  "queue_of target m = (case hm_get (mg_queues m) target of None \<Rightarrow> [] | Some q \<Rightarrow> q)"

definition set_queue :: "NodeId \<Rightarrow> hint_item list \<Rightarrow> HintedHandoffManager \<Rightarrow> HintedHandoffManager" where
  "set_queue target q m = m\<lparr>mg_queues := hm_insert target q (mg_queues m)\<rparr>"

definition file_of :: "NodeId \<Rightarrow> HintedHandoffManager \<Rightarrow> u8 list" where
  "file_of target m = (case hm_get (mg_files m) target of None \<Rightarrow> [] | Some f \<Rightarrow> f)"

text \<open>An open log, and the effect of an operation on it.\<close>

definition wal_of :: "NodeId \<Rightarrow> HintedHandoffManager \<Rightarrow> HintWal" where
  "wal_of target m = \<lparr>hw_file = file_of target m, hw_position = (case hm_get (mg_wals m) target of None \<Rightarrow> length (file_of target m) | Some p \<Rightarrow> p)\<rparr>"

definition put_wal :: "NodeId \<Rightarrow> HintWal \<Rightarrow> HintedHandoffManager \<Rightarrow> HintedHandoffManager" where
  "put_wal target w m =
     m\<lparr>mg_files := hm_insert target (hw_file w) (mg_files m),
       mg_wals := (case hm_get (mg_wals m) target of None \<Rightarrow> mg_wals m | Some _ \<Rightarrow> hm_insert target (hw_position w) (mg_wals m))\<rparr>"

section \<open>Debt accounting\<close>

definition record_payload_bytes :: "HintRecord \<Rightarrow> nat" where
  "record_payload_bytes record =
     (case hr_record record of
        Some (HintInline _ _ _ data _) \<Rightarrow> length data + 128
      | Some (HintSegmentRef _ _ _ _ _ _ _) \<Rightarrow> 256
      | Some (HintDelete _ _ _ _) \<Rightarrow> 128
      | None \<Rightarrow> 128)"

definition refresh_target_debt :: "NodeId \<Rightarrow> HintedHandoffManager \<Rightarrow> HintedHandoffManager" where
  "refresh_target_debt target m =
     m\<lparr>mg_pending_bytes := hm_insert target (sum_list (map (record_payload_bytes \<circ> item_record) (queue_of target m))) (mg_pending_bytes m)\<rparr>"

definition segment_id_of :: "u8 list \<Rightarrow> SegmentId option" where
  "segment_id_of bytes = (if length bytes \<noteq> 16 then None else Some bytes)"

definition hint_drop_record :: "HintRecord \<Rightarrow> HintDropRecord option" where
  "hint_drop_record record =
     (case hr_record record of
        Some (HintSegmentRef target _ _ sid _ _ _) \<Rightarrow>
          Option.bind sid (\<lambda>bytes. Option.bind (segment_id_of bytes) (\<lambda>sid. Option.bind target (\<lambda>node.
            Some \<lparr>dr_segment_id = sid, dr_intended_for = node\<rparr>)))
      | _ \<Rightarrow> None)"

definition collect_drop_record :: "HintRecord \<Rightarrow> HintDropRecord list \<times> SegmentId list \<Rightarrow> HintDropRecord list \<times> SegmentId list" where
  "collect_drop_record record acc =
     (case acc of (out, seen) \<Rightarrow>
        case hint_drop_record record of
          None \<Rightarrow> acc
        | Some d \<Rightarrow> if dr_segment_id d \<in> set seen then acc else (out @ [d], dr_segment_id d # seen))"

definition sink :: "HintDropRecord list \<Rightarrow> HintedHandoffManager \<Rightarrow> HintedHandoffManager" where
  "sink ds m = (if mg_has_sink m then m\<lparr>mg_sunk := mg_sunk m @ ds\<rparr> else m)"

section \<open>Open logs\<close>

text \<open>The oldest handle idle for a minute, in the order in which the map is visited; times are in milliseconds.\<close>

definition older :: "nat \<Rightarrow> NodeId \<times> nat \<Rightarrow> (NodeId \<times> nat) option \<Rightarrow> (NodeId \<times> nat) option" where
  "older now entry oldest =
     (if 60 \<le> (now - snd entry) div 1000 \<and> (case oldest of None \<Rightarrow> True | Some (_, t) \<Rightarrow> snd entry < t) then Some entry else oldest)"

definition evict_least_recently_used :: "nat \<Rightarrow> HintedHandoffManager \<Rightarrow> HintedHandoffManager" where
  "evict_least_recently_used now m =
     (case fold (older now) (mg_last_access m) None of
        None \<Rightarrow> m
      | Some (node, _) \<Rightarrow> m\<lparr>mg_wals := hm_remove node (mg_wals m), mg_last_access := hm_remove node (mg_last_access m)\<rparr>)"

definition get_or_open_node_wal :: "nat \<Rightarrow> bool \<Rightarrow> NodeId \<Rightarrow> HintedHandoffManager \<Rightarrow> bool \<times> HintedHandoffManager" where
  "get_or_open_node_wal now open_ok node m =
     (case hm_get (mg_wals m) node of
        Some _ \<Rightarrow> (True, m\<lparr>mg_last_access := hm_insert node now (mg_last_access m)\<rparr>)
      | None \<Rightarrow>
          (let m = (if 16 \<le> length (mg_wals m) then evict_least_recently_used now m else m)
           in if \<not> open_ok then (False, m)
              else (True, m\<lparr>mg_files := hm_insert node (file_of node m) (mg_files m),
                            mg_wals := hm_insert node (hw_position (HintWal_open (file_of node m))) (mg_wals m),
                            mg_last_access := hm_insert node now (mg_last_access m)\<rparr>)))"

section \<open>Enqueueing\<close>

definition stamp :: "u64 \<Rightarrow> HintRecord \<Rightarrow> HintRecord" where
  "stamp secs record = (if hr_stored_at_secs record = 0 then record\<lparr>hr_stored_at_secs := secs\<rparr> else record)"

definition hint_enqueue ::
  "hint_codec \<Rightarrow> nat \<Rightarrow> u64 \<Rightarrow> bool \<Rightarrow> write_io \<Rightarrow> HintRecord \<Rightarrow> HintedHandoffManager \<Rightarrow> (hint_error, unit) outcome \<times> HintedHandoffManager" where
  "hint_enqueue c now secs open_ok io record m =
     (case intended_for record of
        None \<Rightarrow> (Err HintInternal, m)
      | Some target \<Rightarrow>
          (case get_or_open_node_wal now open_ok target (set_queue target (queue_of target m) m) of
             (False, m) \<Rightarrow> (Err HintIo, m\<lparr>mg_enqueue_failed := mg_enqueue_failed m + 1\<rparr>)
           | (True, m) \<Rightarrow>
               (let record = stamp secs record
                in case write_hint c io record (wal_of target m) of
                     (Ok (start, stop), w) \<Rightarrow>
                       (let m = set_queue target (queue_of target m @ [(start, stop, record)]) (put_wal target w m)
                        in (Ok (), m\<lparr>mg_stored := mg_stored m + 1,
                             mg_pending_bytes := hm_insert target ((case hm_get (mg_pending_bytes m) target of None \<Rightarrow> 0 | Some v \<Rightarrow> v)
                               + record_payload_bytes record) (mg_pending_bytes m)\<rparr>))
                   | (Err e, w) \<Rightarrow> (Err e, (put_wal target w m)\<lparr>mg_enqueue_failed := mg_enqueue_failed m + 1\<rparr>)
                   | (Panic, w) \<Rightarrow> (Panic, put_wal target w m))))"

section \<open>Delivery\<close>

text \<open>How many hints of the queue go into a batch.\<close>

fun batch_size :: "HintedHandoffConfig \<Rightarrow> nat \<Rightarrow> nat \<Rightarrow> hint_item list \<Rightarrow> nat" where
  "batch_size cfg n bytes [] = n"
| "batch_size cfg n bytes (item # items) =
     (if max_batch_size cfg \<le> n then n
      else let payload = record_payload_bytes (item_record item)
           in if max_batch_bytes cfg < bytes + payload then n else batch_size cfg (n + 1) (bytes + payload) items)"

definition drain_batch :: "NodeId \<Rightarrow> HintedHandoffManager \<Rightarrow> hint_item list \<times> HintedHandoffManager" where
  "drain_batch target m =
     (let queue = queue_of target m; n = batch_size (mg_config m) 0 0 queue in (take n queue, set_queue target (drop n queue) m))"

definition reenqueue_front :: "NodeId \<Rightarrow> hint_item list \<Rightarrow> HintedHandoffManager \<Rightarrow> HintedHandoffManager" where
  "reenqueue_front target records m = set_queue target (fold (#) (rev records) (queue_of target m)) m"

definition saturating_inc :: "u32 \<Rightarrow> u32" where
  "saturating_inc n = (if n = - 1 then n else n + 1)"

text \<open>The split of an answered batch: hints to retry, how many are given up, and what is repaired instead.\<close>

record split_state =
  sp_requeue :: "hint_item list"
  sp_dropped :: nat
  sp_drops :: "HintDropRecord list \<times> SegmentId list"

definition split_item :: "u32 \<Rightarrow> u32 list \<Rightarrow> nat \<times> hint_item \<Rightarrow> split_state \<Rightarrow> split_state" where
  "split_item max_attempts retry entry s =
     (case entry of (i, (start, stop, record)) \<Rightarrow>
        if of_nat i \<in> set retry then
          (let attempts = saturating_inc (hr_attempts record)
           in if max_attempts < attempts then s\<lparr>sp_dropped := sp_dropped s + 1, sp_drops := collect_drop_record record (sp_drops s)\<rparr>
              else s\<lparr>sp_requeue := sp_requeue s @ [(start, stop, record\<lparr>hr_attempts := attempts\<rparr>)]\<rparr>)
        else s)"

definition split_batch :: "u32 \<Rightarrow> u32 list \<Rightarrow> hint_item list \<Rightarrow> split_state" where
  "split_batch max_attempts retry drained =
     fold (split_item max_attempts retry) (List.enumerate 0 drained) \<lparr>sp_requeue = [], sp_dropped = 0, sp_drops = ([], [])\<rparr>"

text \<open>How the operations of a rewriting end.\<close>

record rewrite_io =
  ri_open :: bool
  ri_replay :: replay_io
  ri_clear :: bool
  ri_writes :: "write_io list"

text \<open>The rewriting of the log: a record whose write fails is left out.\<close>

fun rewrite_loop :: "hint_codec \<Rightarrow> write_io list \<Rightarrow> HintRecord list \<Rightarrow> HintWal \<Rightarrow> hint_item list \<times> HintWal" where
  "rewrite_loop c ios [] w = ([], w)"
| "rewrite_loop c ios (r # rs) w =
     (case write_hint c (case ios of [] \<Rightarrow> WriteDone | io # _ \<Rightarrow> io) r w of
        (Ok (start, stop), w) \<Rightarrow> (let (rebuilt, w) = rewrite_loop c (tl ios) rs w in ((start, stop, r) # rebuilt, w))
      | (_, w) \<Rightarrow> rewrite_loop c (tl ios) rs w)"

definition reclaim_file :: "NodeId \<Rightarrow> HintedHandoffManager \<Rightarrow> HintedHandoffManager" where
  "reclaim_file target m =
     m\<lparr>mg_wals := hm_remove target (mg_wals m), mg_last_access := hm_remove target (mg_last_access m),
       mg_pending_bytes := hm_remove target (mg_pending_bytes m), mg_files := hm_remove target (mg_files m)\<rparr>"

text \<open>The part under the lock of the queue; the flag says that nothing is left and the file is reclaimed after the lock is released.\<close>

definition rewrite_locked ::
  "hint_codec \<Rightarrow> nat \<Rightarrow> rewrite_io \<Rightarrow> NodeId \<Rightarrow> nat \<Rightarrow> hint_item list \<Rightarrow> HintedHandoffManager \<Rightarrow> bool \<times> HintedHandoffManager" where
  "rewrite_locked c now io target drained_end requeue m =
     (case get_or_open_node_wal now (ri_open io) target (set_queue target (queue_of target m) m) of
        (False, m) \<Rightarrow> (False, refresh_target_debt target (reenqueue_front target requeue m))
      | (True, m) \<Rightarrow>
          (let (res, w) = hw_replay c (ri_replay io) (wal_of target m);
               survivors = (case res of Ok records \<Rightarrow> map item_record (filter (\<lambda>(_, stop, _). drained_end < stop) records) | _ \<Rightarrow> []);
               w = snd (truncate_after (ri_clear io) 0 w);
               (rebuilt, w) = rewrite_loop c (ri_writes io) (survivors @ map item_record requeue) w;
               m = set_queue target rebuilt (put_wal target w m)
           in if rebuilt = [] then (True, m)
              else (False, (refresh_target_debt target m)\<lparr>mg_last_access := hm_insert target now (mg_last_access m)\<rparr>)))"

definition rewrite_after_partial ::
  "hint_codec \<Rightarrow> nat \<Rightarrow> rewrite_io \<Rightarrow> NodeId \<Rightarrow> nat \<Rightarrow> hint_item list \<Rightarrow> HintedHandoffManager \<Rightarrow> HintedHandoffManager" where
  "rewrite_after_partial c now io target drained_end requeue m =
     (let (reclaim, m) = rewrite_locked c now io target drained_end requeue m in if reclaim then reclaim_file target m else m)"

text \<open>
  The receiver's answer is the list of indices it asks to retry.  The number delivered is a difference of machine integers, which
  wraps around in a release build.
\<close>

definition delivery_done ::
  "hint_codec \<Rightarrow> nat \<Rightarrow> rewrite_io \<Rightarrow> NodeId \<Rightarrow> hint_item list \<Rightarrow> u32 list \<Rightarrow> HintedHandoffManager \<Rightarrow> u64 \<times> HintedHandoffManager" where
  "delivery_done c now io target drained retry m =
     (let drained_end = (case rev drained of [] \<Rightarrow> 0 | (_, stop, _) # _ \<Rightarrow> stop);
          s = split_batch (max_delivery_attempts (mg_config m)) retry drained;
          delivered = of_nat (length drained) - of_nat (length (remdups retry));
          m = rewrite_after_partial c now io target drained_end (sp_requeue s) m;
          m = m\<lparr>mg_delivered := mg_delivered m + delivered\<rparr>
      in (delivered,
          if 0 < sp_dropped s
          then (let m = m\<lparr>mg_dropped := mg_dropped m + of_nat (sp_dropped s)\<rparr>
                in if fst (sp_drops s) = [] then m else sink (fst (sp_drops s)) m)
          else m))"

text \<open>The membership view: whether a node is known, and its address.\<close>

record member_view =
  mv_known :: "NodeId \<Rightarrow> bool"
  mv_address :: "NodeId \<Rightarrow> string option"

definition delivery_address :: "member_view option \<Rightarrow> NodeId \<Rightarrow> string option" where
  "delivery_address membership target = (case membership of None \<Rightarrow> Some ''127.0.0.1:0'' | Some v \<Rightarrow> mv_address v target)"

definition drain_and_deliver ::
  "hint_codec \<Rightarrow> nat \<Rightarrow> rewrite_io \<Rightarrow> member_view option \<Rightarrow> (string \<Rightarrow> HintRecord list \<Rightarrow> (hint_error, u32 list) outcome) \<Rightarrow> NodeId \<Rightarrow>
   HintedHandoffManager \<Rightarrow> (hint_error, u64) outcome \<times> HintedHandoffManager" where
  "drain_and_deliver c now io membership client target m =
     (let (drained, m) = drain_batch target m
      in if drained = [] then (Ok 0, m)
         else case delivery_address membership target of
                None \<Rightarrow> (Err HintForwardFailed, reenqueue_front target drained m)
              | Some addr \<Rightarrow>
                  (case client addr (map item_record drained) of
                     Ok retry \<Rightarrow> (let (delivered, m) = delivery_done c now io target drained retry m in (Ok delivered, m))
                   | Err e \<Rightarrow> (Err e, reenqueue_front target drained m)
                   | Panic \<Rightarrow> (Panic, m)))"

definition pending_count :: "NodeId \<Rightarrow> HintedHandoffManager \<Rightarrow> nat" where
  "pending_count target m = length (queue_of target m)"

definition nodes_with_pending :: "HintedHandoffManager \<Rightarrow> NodeId list" where
  "nodes_with_pending m = sort (map fst (filter (\<lambda>(_, q). q \<noteq> []) (mg_queues m)))"

definition total_pending_count :: "HintedHandoffManager \<Rightarrow> nat" where
  "total_pending_count m = sum_list (map (length \<circ> snd) (mg_queues m))"

text \<open>The delivery watcher empties a queue in at most 64 batches; \<open>deliver n\<close> is the delivery of its n-th batch.\<close>

function drain_hints ::
  "(nat \<Rightarrow> HintedHandoffManager \<Rightarrow> (hint_error, u64) outcome \<times> HintedHandoffManager) \<Rightarrow> NodeId \<Rightarrow> nat \<Rightarrow> HintedHandoffManager \<Rightarrow> HintedHandoffManager" where
  "drain_hints deliver node batches m =
     (if 0 < pending_count node m \<and> batches < 64 then
        (case deliver (batches + 1) m of
           (Ok delivered, m) \<Rightarrow> if delivered = 0 then m else drain_hints deliver node (batches + 1) m
         | (Err _, m) \<Rightarrow> if batches + 1 < 5 then drain_hints deliver node (batches + 1) m else m
         | (Panic, m) \<Rightarrow> m)
      else m)"
  by pat_completeness auto
termination
  by (relation "measure (\<lambda>(_, _, batches, _). 64 - batches)") auto

declare drain_hints.simps [simp del]

section \<open>Pruning\<close>

definition target_is_retained :: "member_view option \<Rightarrow> NodeId \<Rightarrow> bool" where
  "target_is_retained membership target = (case membership of None \<Rightarrow> True | Some v \<Rightarrow> mv_known v target)"

type_synonym drops = "HintDropRecord list \<times> SegmentId list"

text \<open>
  What a prune does with its result: the drop records, and the queue read back from the log.  A log that is not open is pruned through a
  handle of its own, which is dropped afterwards; the manager has no handle of it whose position would change.
\<close>

definition prune_finish ::
  "hint_codec \<Rightarrow> replay_io \<Rightarrow> NodeId \<Rightarrow> (hint_error, nat \<times> HintRecord list) outcome \<times> HintWal \<Rightarrow> drops \<Rightarrow> HintedHandoffManager \<Rightarrow>
   nat \<times> drops \<times> HintedHandoffManager" where
  "prune_finish c io target result ds m =
     (case result of
        (Ok (n, expired), w) \<Rightarrow>
          if n = 0 then (0, ds, put_wal target w m)
          else (case hw_replay c io w of
                  (Ok records, w) \<Rightarrow>
                    (n, fold collect_drop_record expired ds, refresh_target_debt target (set_queue target records (put_wal target w m)))
                | (_, w) \<Rightarrow> (n, fold collect_drop_record expired ds, put_wal target w m))
      | (_, w) \<Rightarrow> (0, ds, put_wal target w m))"

definition prune_target_wal ::
  "hint_codec \<Rightarrow> prune_io \<Rightarrow> member_view option \<Rightarrow> nat \<Rightarrow> nat \<Rightarrow> NodeId \<Rightarrow> HintWal \<Rightarrow> drops \<Rightarrow> HintedHandoffManager \<Rightarrow>
   (nat \<times> bool) \<times> drops \<times> HintedHandoffManager" where
  "prune_target_wal c io membership secs ttl target w ds m =
     (if \<not> target_is_retained membership target then
        (case hw_replay c (pi_replay io) w of
           (Ok records, w) \<Rightarrow>
             (let m = (if 0 < length records then m\<lparr>mg_dropped := mg_dropped m + of_nat (length records)\<rparr> else m);
                  m = reclaim_file target m
              in ((0, True), fold (collect_drop_record \<circ> item_record) records ds, m\<lparr>mg_queues := hm_remove target (mg_queues m)\<rparr>))
         | (_, w) \<Rightarrow> ((0, False), ds, put_wal target w m))
      else (let (n, ds, m) = prune_finish c (pi_replay io) target (prune_expired c io secs ttl w) ds m in ((n, False), ds, m)))"

text \<open>One target of a prune: an open log is used through its handle, another one is opened for it.\<close>

definition prune_one ::
  "hint_codec \<Rightarrow> (NodeId \<Rightarrow> prune_io) \<Rightarrow> member_view option \<Rightarrow> nat \<Rightarrow> nat \<Rightarrow> NodeId \<Rightarrow> nat \<times> drops \<times> HintedHandoffManager \<Rightarrow> nat \<times> drops \<times> HintedHandoffManager" where
  "prune_one c io membership secs ttl target acc =
     (case acc of (pruned, ds, m) \<Rightarrow>
        case prune_target_wal c (io target) membership secs ttl target (wal_of target m) ds m of
          ((n, _), ds, m) \<Rightarrow> (pruned + n, ds, m))"

definition prune_all_expired ::
  "hint_codec \<Rightarrow> (NodeId \<Rightarrow> prune_io) \<Rightarrow> (NodeId \<Rightarrow> bool) \<Rightarrow> member_view option \<Rightarrow> nat \<Rightarrow> nat \<Rightarrow> HintedHandoffManager \<Rightarrow> nat \<times> HintedHandoffManager" where
  "prune_all_expired c io open_ok membership secs ttl m =
     (let (pruned, ds, m) = fold (prune_one c io membership secs ttl) (map fst (mg_wals m)) (0, ([], []), m);
          (pruned, ds, m) = fold (\<lambda>target acc. if hm_get (mg_wals (snd (snd acc))) target \<noteq> None \<or> \<not> open_ok target then acc
                                              else prune_one c io membership secs ttl target acc)
                             (map fst (mg_files m)) (pruned, ds, m);
          m = (if 0 < pruned then m\<lparr>mg_expired := mg_expired m + of_nat pruned\<rparr> else m)
      in (pruned, if fst ds = [] then m else sink (fst ds) m))"

section \<open>Restart\<close>

text \<open>The files of the directory are replayed one after the other; an error ends the start-up.\<close>

fun replay_files ::
  "hint_codec \<Rightarrow> (NodeId \<Rightarrow> bool) \<Rightarrow> (NodeId \<Rightarrow> replay_io) \<Rightarrow> (NodeId \<times> u8 list) list \<Rightarrow> nat \<Rightarrow> HintedHandoffManager \<Rightarrow>
   (hint_error, nat) outcome \<times> HintedHandoffManager" where
  "replay_files c open_ok io [] n m = (Ok n, m)"
| "replay_files c open_ok io ((node, bytes) # files) n m =
     (if \<not> open_ok node then (Err HintIo, m)
      else case hw_replay c (io node) (HintWal_open bytes) of
             (Ok records, w) \<Rightarrow>
               (let m = refresh_target_debt node (set_queue node (queue_of node m @ records) m)
                in replay_files c open_ok io files (n + length records)
                     (m\<lparr>mg_files := hm_insert node (hw_file w) (mg_files m), mg_wals := hm_insert node (hw_position w) (mg_wals m)\<rparr>))
           | (Err e, w) \<Rightarrow> (Err e, m\<lparr>mg_files := hm_insert node (hw_file w) (mg_files m)\<rparr>)
           | (Panic, w) \<Rightarrow> (Panic, m\<lparr>mg_files := hm_insert node (hw_file w) (mg_files m)\<rparr>))"

definition replay_and_enqueue ::
  "hint_codec \<Rightarrow> bool \<Rightarrow> (NodeId \<Rightarrow> bool) \<Rightarrow> (NodeId \<Rightarrow> replay_io) \<Rightarrow> HintedHandoffManager \<Rightarrow> (hint_error, nat) outcome \<times> HintedHandoffManager" where
  "replay_and_enqueue c dir_ok open_ok io m = (if \<not> dir_ok then (Ok 0, m) else replay_files c open_ok io (mg_files m) 0 m)"

text \<open>A restart keeps the files and nothing else.\<close>

definition restart :: "hint_codec \<Rightarrow> HintedHandoffManager \<Rightarrow> (hint_error, nat) outcome \<times> HintedHandoffManager" where
  "restart c m =
     replay_and_enqueue c True (\<lambda>_. True) (\<lambda>_. ReplayDone) (HintedHandoffManager_new (mg_files m) (mg_config m) (mg_has_sink m))"

end
