(* ===== verification/HandoffRuns.thy ===== *)
theory HandoffRuns
  imports Handoff
begin

text \<open>
  Runs of the handoff manager: hints are enqueued, drained, delivered, retried, given up and pruned, and the node restarts.  Without
  disk faults the log of a node holds exactly the hints that are still owed to it, so a restart loses none and revives none.
\<close>

section \<open>What an operation keeps\<close>

definition hint_fits :: "hint_codec \<Rightarrow> HintRecord \<Rightarrow> bool" where
  "hint_fits c r \<longleftrightarrow> (\<forall>a s. codec_ok c (r\<lparr>hr_attempts := a, hr_stored_at_secs := s\<rparr>))"

lemma hint_fits_ok: "hint_fits c r \<Longrightarrow> codec_ok c r"
  unfolding hint_fits_def by (metis HintRecord.surjective HintRecord.update_convs(2,3))

lemma hint_fits_attempts [simp]: "hint_fits c (r\<lparr>hr_attempts := a\<rparr>) = hint_fits c r"
  by (simp add: hint_fits_def)

lemma hint_fits_stamp [simp]: "hint_fits c (stamp secs r) = hint_fits c r"
  by (simp add: hint_fits_def stamp_def)

definition handles_ok :: "HintedHandoffManager \<Rightarrow> bool" where
  "handles_ok m \<longleftrightarrow> (\<forall>t p. hm_get (mg_wals m) t = Some p \<longrightarrow> p = length (file_of t m)) \<and> hm_wf (mg_files m)"

text \<open>An operation that leaves the queues, the configuration and the bytes of the files alone.\<close>

definition keeps_data :: "HintedHandoffManager \<Rightarrow> HintedHandoffManager \<Rightarrow> bool" where
  "keeps_data m m' \<longleftrightarrow> (\<forall>t. queue_of t m' = queue_of t m \<and> file_of t m' = file_of t m) \<and> mg_config m' = mg_config m \<and>
     (handles_ok m \<longrightarrow> handles_ok m')"

lemma keeps_data_refl [simp]: "keeps_data m m"
  by (simp add: keeps_data_def)

lemma keeps_data_trans: "keeps_data m m' \<Longrightarrow> keeps_data m' m'' \<Longrightarrow> keeps_data m m''"
  by (simp add: keeps_data_def)

lemma queue_of_set_queue [simp]: "queue_of t (set_queue t' q m) = (if t = t' then q else queue_of t m)"
  by (simp add: queue_of_def set_queue_def)

lemma file_of_set_queue [simp]: "file_of t (set_queue t' q m) = file_of t m"
  by (simp add: file_of_def set_queue_def)

lemma handles_ok_set_queue [simp]: "handles_ok (set_queue t q m) = handles_ok m"
  by (simp add: handles_ok_def file_of_def set_queue_def)

lemma config_set_queue [simp]: "mg_config (set_queue t q m) = mg_config m"
  by (simp add: set_queue_def)

lemma keeps_set_same_queue: "keeps_data m (set_queue t (queue_of t m) m)"
  by (simp add: keeps_data_def)

lemma keeps_debt: "keeps_data m (refresh_target_debt t m)"
  by (simp add: keeps_data_def refresh_target_debt_def queue_of_def file_of_def handles_ok_def)

lemma keeps_evict: "keeps_data m (evict_least_recently_used now m)"
  by (auto simp: keeps_data_def evict_least_recently_used_def queue_of_def file_of_def handles_ok_def split: option.splits)

lemma keeps_fields [simp]:
  "queue_of t (m\<lparr>mg_last_access := a\<rparr>) = queue_of t m" "file_of t (m\<lparr>mg_last_access := a\<rparr>) = file_of t m"
  "handles_ok (m\<lparr>mg_last_access := a\<rparr>) = handles_ok m"
  "queue_of t (m\<lparr>mg_delivered := n\<rparr>) = queue_of t m" "file_of t (m\<lparr>mg_delivered := n\<rparr>) = file_of t m"
  "handles_ok (m\<lparr>mg_delivered := n\<rparr>) = handles_ok m"
  "queue_of t (m\<lparr>mg_dropped := n\<rparr>) = queue_of t m" "file_of t (m\<lparr>mg_dropped := n\<rparr>) = file_of t m"
  "handles_ok (m\<lparr>mg_dropped := n\<rparr>) = handles_ok m"
  "queue_of t (m\<lparr>mg_enqueue_failed := n\<rparr>) = queue_of t m" "file_of t (m\<lparr>mg_enqueue_failed := n\<rparr>) = file_of t m"
  "handles_ok (m\<lparr>mg_enqueue_failed := n\<rparr>) = handles_ok m"
  "queue_of t (m\<lparr>mg_stored := s, mg_pending_bytes := b\<rparr>) = queue_of t m" "file_of t (m\<lparr>mg_stored := s, mg_pending_bytes := b\<rparr>) = file_of t m"
  "handles_ok (m\<lparr>mg_stored := s, mg_pending_bytes := b\<rparr>) = handles_ok m"
  "queue_of t (m\<lparr>mg_sunk := d\<rparr>) = queue_of t m" "file_of t (m\<lparr>mg_sunk := d\<rparr>) = file_of t m"
  "handles_ok (m\<lparr>mg_sunk := d\<rparr>) = handles_ok m"
  by (simp_all add: queue_of_def file_of_def handles_ok_def)

lemma keeps_sink: "keeps_data m (sink ds m)"
  by (simp add: keeps_data_def sink_def)

lemma opened:
  assumes "get_or_open_node_wal now ok t m = (b, m')"
  shows "keeps_data m m'" "b \<longleftrightarrow> ok \<or> hm_get (mg_wals m) t \<noteq> None"
proof -
  let ?m = "if 16 \<le> length (mg_wals m) then evict_least_recently_used now m else m"
  have e: "keeps_data m ?m" by (simp add: keeps_evict)
  show "keeps_data m m'"
  proof (cases "hm_get (mg_wals m) t")
    case None
    have "keeps_data ?m (?m\<lparr>mg_files := hm_insert t (file_of t ?m) (mg_files ?m), mg_wals := hm_insert t (hw_position (HintWal_open (file_of t ?m))) (mg_wals ?m),
       mg_last_access := hm_insert t now (mg_last_access ?m)\<rparr>)"
      by (auto simp: keeps_data_def queue_of_def file_of_def handles_ok_def HintWal_open_def)
    then show ?thesis using assms None e by (auto simp: get_or_open_node_wal_def Let_def intro: keeps_data_trans split: if_splits)
  qed (use assms in \<open>auto simp: get_or_open_node_wal_def keeps_data_def\<close>)
  show "b \<longleftrightarrow> ok \<or> hm_get (mg_wals m) t \<noteq> None"
    using assms by (auto simp: get_or_open_node_wal_def Let_def split: option.splits if_splits)
qed

lemma wal_of_open: "handles_ok m \<Longrightarrow> wal_of t m = HintWal_open (file_of t m)"
  by (auto simp: wal_of_def HintWal_open_def handles_ok_def split: option.splits)

lemma put_wal_open:
  "queue_of t (put_wal t' (HintWal_open f) m) = queue_of t m" "mg_config (put_wal t' w m) = mg_config m"
  "file_of t (put_wal t' (HintWal_open f) m) = (if t = t' then f else file_of t m)"
  "handles_ok m \<Longrightarrow> handles_ok (put_wal t' (HintWal_open f) m)"
  by (auto simp: put_wal_def queue_of_def file_of_def handles_ok_def HintWal_open_def split: option.splits)

lemma write_open: "write_hint c WriteDone r (HintWal_open f) =
    (Ok (length f, length f + length (hint_frame c r)), HintWal_open (f @ hint_frame c r))"
  by (simp add: write_hint_def write_payload_def HintWal_open_def hint_frame_def Let_def)

lemma hint_log_Cons: "hint_log c (r # rs) = hint_frame c r @ hint_log c rs"
  by (simp add: hint_log_def)

lemma rewrite_loop_open: "rewrite_loop c [] rs (HintWal_open f) = (positions_from c (length f) rs, HintWal_open (f @ hint_log c rs))"
proof (induction rs arbitrary: f)
  case (Cons r rs)
  then show ?case using Cons.IH[of "f @ hint_frame c r"] by (simp add: write_open hint_log_Cons)
qed simp

lemma write_hints_open: "write_hints c [] rs (HintWal_open f) = (Ok (), HintWal_open (f @ hint_log c rs))"
proof (induction rs arbitrary: f)
  case (Cons r rs)
  then show ?case using Cons.IH[of "f @ hint_frame c r"] by (simp add: write_open hint_log_Cons)
qed simp

lemma clear_open: "truncate_after True 0 (HintWal_open f) = (Ok (), HintWal_open [])"
  by (simp add: truncate_after_def HintWal_open_def set_len_def)

lemma replay_open: "\<forall>r \<in> set rs. hint_fits c r \<Longrightarrow> hw_replay c ReplayDone (HintWal_open (hint_log c rs)) = (Ok (positions_from c 0 rs), HintWal_open (hint_log c rs))"
  by (rule replay_hints) (auto simp: hint_fits_ok HintWal_open_def)

section \<open>The log holds what is owed\<close>

text \<open>The hints owed to a node: those of the batch in flight, then those of the queue.\<close>

definition holds_owed :: "hint_codec \<Rightarrow> hint_item list \<Rightarrow> HintRecord list \<Rightarrow> NodeId \<Rightarrow> HintedHandoffManager \<Rightarrow> bool" where
  "holds_owed c batch rs t m \<longleftrightarrow> file_of t m = hint_log c rs \<and> batch @ queue_of t m = positions_from c 0 rs \<and> (\<forall>r \<in> set rs. hint_fits c r)"

lemma holds_owed_keeps: "keeps_data m m' \<Longrightarrow> holds_owed c b rs t m \<Longrightarrow> holds_owed c b rs t m'"
  by (simp add: keeps_data_def holds_owed_def)

lemma holds_owed_records: "holds_owed c b rs t m \<Longrightarrow> map item_record (b @ queue_of t m) = rs"
  using records_positions_from[of c 0 rs] by (simp add: holds_owed_def comp_def)

definition leaves_others :: "NodeId \<Rightarrow> HintedHandoffManager \<Rightarrow> HintedHandoffManager \<Rightarrow> bool" where
  "leaves_others t m m' \<longleftrightarrow> (\<forall>t'. t' \<noteq> t \<longrightarrow> queue_of t' m' = queue_of t' m \<and> file_of t' m' = file_of t' m) \<and>
     mg_config m' = mg_config m \<and> handles_ok m'"

lemma keeps_leaves: "keeps_data m m' \<Longrightarrow> handles_ok m \<Longrightarrow> leaves_others t m m'"
  by (simp add: keeps_data_def leaves_others_def)

lemma leaves_keeps: "keeps_data m m' \<Longrightarrow> leaves_others t m' m'' \<Longrightarrow> leaves_others t m m''"
  by (simp add: keeps_data_def leaves_others_def)

lemma enqueue_holds:
  assumes "intended_for r = Some t" "hint_fits c r" "handles_ok m" "holds_owed c b rs t m"
  shows "\<exists>m'. hint_enqueue c now secs True WriteDone r m = (Ok (), m') \<and> holds_owed c b (rs @ [stamp secs r]) t m' \<and> leaves_others t m m'"
proof -
  obtain ok m1 where o: "get_or_open_node_wal now True t (set_queue t (queue_of t m) m) = (ok, m1)" by (meson surj_pair)
  have k: "keeps_data m m1" and ok: "ok"
    using keeps_data_trans[OF keeps_set_same_queue opened(1)[OF o]] opened(2)[OF o] by simp_all
  have m1: "handles_ok m1" "holds_owed c b rs t m1" "mg_config m1 = mg_config m"
    using k assms(3) holds_owed_keeps[OF k assms(4)] by (auto simp: keeps_data_def)
  have "positions_from c 0 (rs @ [stamp secs r]) = b @ queue_of t m1 @ [(length (hint_log c rs), length (hint_log c rs) + length (hint_frame c (stamp secs r)), stamp secs r)]"
    using m1(2) by (simp add: positions_from_append holds_owed_def)
  then show ?thesis
    using assms(1,2) o ok m1 k
    by (auto simp: hint_enqueue_def Let_def wal_of_open write_open put_wal_open holds_owed_def keeps_data_def leaves_others_def hint_log_def)
qed

lemma enqueue_refused:
  assumes "intended_for r = Some t" "hm_get (mg_wals m) t = None"
  shows "\<exists>e. fst (hint_enqueue c now secs False io r m) = Err e" "keeps_data m (snd (hint_enqueue c now secs False io r m))"
proof -
  obtain ok m1 where o: "get_or_open_node_wal now False t (set_queue t (queue_of t m) m) = (ok, m1)" by (meson surj_pair)
  have k: "keeps_data m m1" and ok: "\<not> ok"
    using keeps_data_trans[OF keeps_set_same_queue opened(1)[OF o]] opened(2)[OF o] assms(2) by (simp_all add: set_queue_def)
  show "\<exists>e. fst (hint_enqueue c now secs False io r m) = Err e" "keeps_data m (snd (hint_enqueue c now secs False io r m))"
    using o ok assms(1) k by (simp_all add: hint_enqueue_def keeps_data_def)
qed

lemma drain_holds:
  assumes "drain_batch t m = (b, m')" "handles_ok m" "holds_owed c [] rs t m"
  shows "holds_owed c b rs t m' \<and> leaves_others t m m'"
  using assms by (auto simp: drain_batch_def Let_def holds_owed_def leaves_others_def)

lemma fold_Cons_rev: "fold (#) (rev xs) ys = xs @ ys"
  by (induction xs arbitrary: ys rule: rev_induct) simp_all

lemma reenqueue_holds:
  assumes "handles_ok m" "holds_owed c b rs t m"
  shows "holds_owed c [] rs t (reenqueue_front t b m) \<and> leaves_others t m (reenqueue_front t b m)"
  using assms by (simp add: reenqueue_front_def fold_Cons_rev holds_owed_def leaves_others_def)

section \<open>An answered batch\<close>

text \<open>The hints of an answered batch that are still owed.\<close>

definition retried :: "u32 \<Rightarrow> u32 list \<Rightarrow> HintRecord list \<Rightarrow> HintRecord list" where
  "retried max_attempts retry rs =
     map (\<lambda>(i, r). r\<lparr>hr_attempts := saturating_inc (hr_attempts r)\<rparr>)
       (filter (\<lambda>(i, r). of_nat i \<in> set retry \<and> \<not> max_attempts < saturating_inc (hr_attempts r)) (List.enumerate 0 rs))"

lemma split_requeue:
  "map item_record (sp_requeue (fold (split_item mx retry) (List.enumerate n xs) s)) =
     map item_record (sp_requeue s) @
     map (\<lambda>(i, r). r\<lparr>hr_attempts := saturating_inc (hr_attempts r)\<rparr>)
       (filter (\<lambda>(i, r). of_nat i \<in> set retry \<and> \<not> mx < saturating_inc (hr_attempts r)) (List.enumerate n (map item_record xs)))"
  by (induction xs arbitrary: n s) (auto simp: split_item_def Let_def)

lemma split_batch_requeue: "map item_record (sp_requeue (split_batch mx retry b)) = retried mx retry (map item_record b)"
  by (simp add: split_batch_def split_requeue retried_def)

lemma retried_fits: "\<forall>r \<in> set rs. hint_fits c r \<Longrightarrow> \<forall>r \<in> set (retried mx retry rs). hint_fits c r"
  by (auto simp: retried_def in_set_enumerate_eq)

lemma positions_from_bounds: "(a, e, r) \<in> set (positions_from c n rs) \<Longrightarrow> n < e \<and> e \<le> n + length (hint_log c rs)"
  by (induction rs arbitrary: n) (fastforce simp: hint_log_Cons hint_frame_def)+

lemma survivors_of_log:
  "map item_record (filter (\<lambda>(_, stop, _). length (hint_log c xs) < stop) (positions_from c 0 (xs @ ys))) = ys"
proof -
  have "filter (\<lambda>(_, stop, _). length (hint_log c xs) < stop) (positions_from c 0 xs) = []"
    by (fastforce simp: filter_empty_conv dest: positions_from_bounds)
  moreover have "filter (\<lambda>(_, stop, _). length (hint_log c xs) < stop) (positions_from c (length (hint_log c xs)) ys) =
      positions_from c (length (hint_log c xs)) ys"
    by (fastforce simp: filter_id_conv dest: positions_from_bounds)
  ultimately show ?thesis using records_positions_from[of c "length (hint_log c xs)" ys] by (simp add: positions_from_append comp_def)
qed

lemma positions_from_empty [simp]: "positions_from c n rs = [] \<longleftrightarrow> rs = []"
  by (cases rs) simp_all

lemma last_position: "xs \<noteq> [] \<Longrightarrow> \<exists>a r. last (positions_from c n xs) = (a, n + length (hint_log c xs), r)"
proof (induction xs arbitrary: n)
  case (Cons x xs)
  then show ?case using Cons.IH[of "n + length (hint_frame c x)"] by (cases "xs = []") (auto simp: hint_log_Cons add.assoc)
qed simp

lemma reclaimed:
  "queue_of t' (reclaim_file t m) = queue_of t' m" "file_of t' (reclaim_file t m) = (if t' = t then [] else file_of t' m)"
  "mg_config (reclaim_file t m) = mg_config m" "handles_ok m \<Longrightarrow> handles_ok (reclaim_file t m)"
  by (simp_all add: reclaim_file_def queue_of_def file_of_def handles_ok_def)

definition calm_rewrite :: rewrite_io where
  "calm_rewrite = \<lparr>ri_open = True, ri_replay = ReplayDone, ri_clear = True, ri_writes = []\<rparr>"

lemma rewrite_holds:
  assumes "handles_ok m" "file_of t m = hint_log c (xs @ ys)" "\<forall>r \<in> set (xs @ ys @ map item_record requeue). hint_fits c r"
  shows "let m' = rewrite_after_partial c now calm_rewrite t (length (hint_log c xs)) requeue m
    in holds_owed c [] (ys @ map item_record requeue) t m' \<and> leaves_others t m m'"
proof -
  obtain ok m1 where o: "get_or_open_node_wal now True t (set_queue t (queue_of t m) m) = (ok, m1)" by (meson surj_pair)
  have k: "keeps_data m m1" and ok: "ok"
    using keeps_data_trans[OF keeps_set_same_queue opened(1)[OF o]] opened(2)[OF o] by simp_all
  have m1: "handles_ok m1" "file_of t m1 = hint_log c (xs @ ys)" using k assms by (auto simp: keeps_data_def)
  define rs where "rs = ys @ map item_record requeue"
  define m2 where "m2 = set_queue t (positions_from c 0 rs) (put_wal t (HintWal_open (hint_log c rs)) m1)"
  have w: "wal_of t m1 = HintWal_open (hint_log c (xs @ ys))" using wal_of_open[OF m1(1)] m1(2) by simp
  have r: "hw_replay c ReplayDone (HintWal_open (hint_log c (xs @ ys))) = (Ok (positions_from c 0 (xs @ ys)), HintWal_open (hint_log c (xs @ ys)))"
    by (rule replay_open) (use assms(3) in auto)
  have lo: "rewrite_locked c now calm_rewrite t (length (hint_log c xs)) requeue m =
      (if rs = [] then (True, m2) else (False, (refresh_target_debt t m2)\<lparr>mg_last_access := hm_insert t now (mg_last_access m2)\<rparr>))"
    using o ok r rewrite_loop_open[of c rs "[]"] clear_open[of "hint_log c (xs @ ys)"] 
    unfolding rewrite_locked_def calm_rewrite_def
    by (auto simp: w survivors_of_log rs_def m2_def Let_def simp del: hint_log_append)
  have fits: "\<forall>r \<in> set rs. hint_fits c r" using assms(3) by (auto simp: rs_def)
  have m2: "holds_owed c [] rs t m2" "leaves_others t m m2"
    using k m1(1) fits by (auto simp: m2_def holds_owed_def leaves_others_def put_wal_open keeps_data_def)
  have "holds_owed c [] rs t (reclaim_file t m2)" "leaves_others t m (reclaim_file t m2)" if "rs = []"
    using m2 that by (simp_all add: holds_owed_def leaves_others_def reclaimed)
  moreover have "holds_owed c [] rs t (refresh_target_debt t m2)" "leaves_others t m (refresh_target_debt t m2)"
    using m2 keeps_debt[of m2 t] by (auto simp: keeps_data_def holds_owed_def leaves_others_def)
  ultimately show ?thesis
    using lo unfolding rewrite_after_partial_def Let_def rs_def[symmetric] by (auto simp: holds_owed_def leaves_others_def)
qed

lemma delivery_holds:
  assumes "handles_ok m" "holds_owed c b rs t m" "b \<noteq> []"
  shows "let m' = snd (delivery_done c now calm_rewrite t b retry m)
    in holds_owed c [] (drop (length b) rs @ retried (max_delivery_attempts (mg_config m)) retry (map item_record b)) t m' \<and> leaves_others t m m'"
proof -
  let ?s = "split_batch (max_delivery_attempts (mg_config m)) retry b"
  define xs where "xs = take (length b) rs"
  define ys where "ys = drop (length b) rs"
  have rs: "rs = xs @ ys" by (simp add: xs_def ys_def)
  have log: "file_of t m = hint_log c (xs @ ys)" and pos: "b @ queue_of t m = positions_from c 0 (xs @ ys)" and fits: "\<forall>r \<in> set (xs @ ys). hint_fits c r"
    using assms(2) by (simp_all add: holds_owed_def rs del: hint_log_append set_append)
  have len: "length b \<le> length rs" using arg_cong[OF pos, of length] by (simp add: rs)
  have b: "b = positions_from c 0 xs"
    using arg_cong[OF pos, of "take (length b)"] len by (simp add: positions_from_append xs_def)
  then obtain a r where "last b = (a, length (hint_log c xs), r)" using last_position[of xs c 0] assms(3) by auto
  then have stop: "(case rev b of [] \<Rightarrow> 0 | (_, stop, _) # _ \<Rightarrow> stop) = length (hint_log c xs)"
    using assms(3) by (cases b rule: rev_cases) auto
  have recs: "map item_record b = xs" using records_positions_from[of c 0 xs] by (simp add: b comp_def)
  define m1 where "m1 = rewrite_after_partial c now calm_rewrite t (length (hint_log c xs)) (sp_requeue ?s) m"
  have m1: "holds_owed c [] (ys @ retried (max_delivery_attempts (mg_config m)) retry xs) t m1" "leaves_others t m m1"
    using rewrite_holds[OF assms(1) log, of "sp_requeue ?s" now] fits retried_fits[of xs c "max_delivery_attempts (mg_config m)" retry]
    by (auto simp: split_batch_requeue recs m1_def Let_def)
  define m2 where "m2 = m1\<lparr>mg_delivered := mg_delivered m1 + (of_nat (length b) - of_nat (length (remdups retry)))\<rparr>"
  have k: "keeps_data m1 m2" by (simp add: m2_def keeps_data_def)
  have d: "keeps_data m1 (m2\<lparr>mg_dropped := n\<rparr>)" for n by (rule keeps_data_trans[OF k]) (simp add: keeps_data_def)
  have "keeps_data m1 (snd (delivery_done c now calm_rewrite t b retry m))"
    unfolding delivery_done_def Let_def stop m1_def[symmetric] m2_def[symmetric] by (simp add: k d keeps_data_trans[OF d keeps_sink])
  then show ?thesis
    using m1 unfolding Let_def recs ys_def[symmetric] by (auto simp: keeps_data_def holds_owed_def leaves_others_def)
qed

section \<open>Pruning and restarting\<close>

definition calm_prune :: prune_io where
  "calm_prune = \<lparr>pi_replay = ReplayDone, pi_clear = True, pi_writes = []\<rparr>"

lemma prune_expired_open:
  assumes "\<forall>r \<in> set rs. hint_fits c r"
  shows "prune_expired c calm_prune secs ttl (HintWal_open (hint_log c rs)) =
    (Ok (length (filter (hint_expired secs ttl) rs), filter (hint_expired secs ttl) rs), HintWal_open (hint_log c (filter (\<lambda>r. \<not> hint_expired secs ttl r) rs)))"
proof (cases "filter (hint_expired secs ttl) rs = []")
  case True
  then have e: "filter (\<lambda>r. \<not> hint_expired secs ttl r) rs = rs" by (simp add: filter_id_conv filter_empty_conv)
  show ?thesis
    using assms True unfolding e by (simp add: prune_expired_def prune_read_def prune_rewrite_def calm_prune_def replay_open comp_def)
next
  case False
  then show ?thesis
    using assms by (simp add: prune_expired_def prune_read_def prune_rewrite_def calm_prune_def replay_open clear_open write_hints_open comp_def)
qed

lemma prune_holds:
  assumes "handles_ok m" "holds_owed c [] rs t m" "target_is_retained v t"
  shows "let m' = snd (snd (prune_target_wal c calm_prune v secs ttl t (wal_of t m) ds m))
    in holds_owed c [] (filter (\<lambda>r. \<not> hint_expired secs ttl r) rs) t m' \<and> leaves_others t m m'"
proof -
  let ?ys = "filter (\<lambda>r. \<not> hint_expired secs ttl r) rs"
  have f: "\<forall>r \<in> set rs. hint_fits c r" "file_of t m = hint_log c rs" using assms(2) by (simp_all add: holds_owed_def)
  have p: "prune_expired c calm_prune secs ttl (wal_of t m) =
      (Ok (length (filter (hint_expired secs ttl) rs), filter (hint_expired secs ttl) rs), HintWal_open (hint_log c ?ys))"
    unfolding wal_of_open[OF assms(1)] f(2) by (rule prune_expired_open[OF f(1)])
  have r: "hw_replay c ReplayDone (HintWal_open (hint_log c ?ys)) = (Ok (positions_from c 0 ?ys), HintWal_open (hint_log c ?ys))"
    by (rule replay_open) (use f(1) in auto)
  define m1 where "m1 = put_wal t (HintWal_open (hint_log c ?ys)) m"
  have m1: "file_of t m1 = hint_log c ?ys" "leaves_others t m m1" "queue_of t m1 = queue_of t m"
    using assms(1) by (simp_all add: m1_def put_wal_open leaves_others_def)
  have m2: "holds_owed c [] ?ys t (refresh_target_debt t (set_queue t (positions_from c 0 ?ys) m1))"
      "leaves_others t m (refresh_target_debt t (set_queue t (positions_from c 0 ?ys) m1))"
    using m1 f keeps_debt[of "set_queue t (positions_from c 0 ?ys) m1" t] by (auto simp: keeps_data_def holds_owed_def leaves_others_def)
  show ?thesis
  proof (cases "filter (hint_expired secs ttl) rs = []")
    case True
    then have e: "?ys = rs" by (simp add: filter_id_conv filter_empty_conv)
    show ?thesis
      using m1[unfolded m1_def e] True assms(2,3) unfolding prune_target_wal_def prune_finish_def p e by (auto simp: holds_owed_def Let_def)
  next
    case False
    then show ?thesis
      using m2 assms(3) r unfolding prune_target_wal_def prune_finish_def p m1_def by (auto simp: calm_prune_def Let_def)
  qed
qed

lemma departed_holds:
  assumes "handles_ok m" "holds_owed c [] rs t m" "\<not> target_is_retained v t"
  shows "let m' = snd (snd (prune_target_wal c calm_prune v secs ttl t (wal_of t m) ds m)) in holds_owed c [] [] t m' \<and> leaves_others t m m'"
proof -
  have f: "\<forall>r \<in> set rs. hint_fits c r" "file_of t m = hint_log c rs" using assms(2) by (simp_all add: holds_owed_def)
  have r: "hw_replay c ReplayDone (wal_of t m) = (Ok (positions_from c 0 rs), wal_of t m)"
    unfolding wal_of_open[OF assms(1)] f(2) by (rule replay_open[OF f(1)])
  show ?thesis
    using assms(1,3) r unfolding prune_target_wal_def
    by (auto simp: calm_prune_def Let_def holds_owed_def leaves_others_def reclaim_file_def queue_of_def file_of_def handles_ok_def)
qed

lemma replay_files_restores:
  assumes "distinct (map fst files)" "\<forall>(t, f) \<in> set files. f = hint_log c (rs t) \<and> (\<forall>r \<in> set (rs t). hint_fits c r) \<and> queue_of t m = [] \<and> file_of t m = f"
    and "handles_ok m"
  shows "\<exists>k m'. replay_files c (\<lambda>_. True) (\<lambda>_. ReplayDone) files n m = (Ok k, m') \<and> handles_ok m' \<and> mg_config m' = mg_config m \<and>
    (\<forall>t. file_of t m' = file_of t m \<and> queue_of t m' = (if t \<in> fst ` set files then positions_from c 0 (rs t) else queue_of t m))"
  using assms
proof (induction files arbitrary: n m)
  case (Cons x files)
  obtain t f where x: "x = (t, f)" by (meson surj_pair)
  have f: "f = hint_log c (rs t)" "\<forall>r \<in> set (rs t). hint_fits c r" "queue_of t m = []" "file_of t m = f" using Cons.prems(2) by (simp_all add: x)
  define m0 where "m0 = refresh_target_debt t (set_queue t (positions_from c 0 (rs t)) m)"
  define m1 where "m1 = m0\<lparr>mg_files := hm_insert t f (mg_files m0), mg_wals := hm_insert t (length f) (mg_wals m0)\<rparr>"
  have m0: "queue_of t' m0 = (if t' = t then positions_from c 0 (rs t) else queue_of t' m)" "file_of t' m0 = file_of t' m" "handles_ok m0" "mg_config m0 = mg_config m" for t'
    using keeps_debt[of "set_queue t (positions_from c 0 (rs t)) m" t] Cons.prems(3) by (simp_all add: m0_def keeps_data_def)
  have m1: "queue_of t' m1 = (if t' = t then positions_from c 0 (rs t) else queue_of t' m)" "file_of t' m1 = file_of t' m" "mg_config m1 = mg_config m" for t'
    using m0(1,2)[of t'] m0(4) f(4) by (auto simp: m1_def queue_of_def file_of_def)
  have h: "handles_ok m1" using m0(2,3) f(4) by (auto simp: m1_def handles_ok_def file_of_def split: if_splits)
  have prems: "\<forall>(t, f) \<in> set files. f = hint_log c (rs t) \<and> (\<forall>r \<in> set (rs t). hint_fits c r) \<and> queue_of t m1 = [] \<and> file_of t m1 = f"
  proof (rule ballI, simp only: split_paired_all split_conv)
    fix t' f' assume "(t', f') \<in> set files"
    then have "t' \<noteq> t" using Cons.prems(1) by (force simp: x)
    then show "f' = hint_log c (rs t') \<and> (\<forall>r \<in> set (rs t'). hint_fits c r) \<and> queue_of t' m1 = [] \<and> file_of t' m1 = f'"
      using Cons.prems(2) \<open>(t', f') \<in> set files\<close> m1(1,2)[of t'] by auto
  qed
  have step: "replay_files c (\<lambda>_. True) (\<lambda>_. ReplayDone) (x # files) n m =
      replay_files c (\<lambda>_. True) (\<lambda>_. ReplayDone) files (n + length (rs t)) m1"
    using replay_open[OF f(2)] f(3) by (simp add: x f(1) m1_def m0_def Let_def HintWal_open_def)
  obtain k m' where "replay_files c (\<lambda>_. True) (\<lambda>_. ReplayDone) files (n + length (rs t)) m1 = (Ok k, m')" "handles_ok m'" "mg_config m' = mg_config m1"
      "\<forall>t. file_of t m' = file_of t m1 \<and> queue_of t m' = (if t \<in> fst ` set files then positions_from c 0 (rs t) else queue_of t m1)"
    using Cons.IH[OF _ prems h, of "n + length (rs t)"] Cons.prems(1) by (auto simp: x)
  then show ?case unfolding step using m1 by (auto simp: x)
qed simp

lemma restart_holds:
  assumes "handles_ok m" "\<forall>t. holds_owed c (fl t) (ow t) t m"
  shows "\<exists>k m'. restart c m = (Ok k, m') \<and> handles_ok m' \<and> mg_config m' = mg_config m \<and> (\<forall>t. holds_owed c [] (ow t) t m')"
proof -
  let ?m = "HintedHandoffManager_new (mg_files m) (mg_config m) (mg_has_sink m)"
  have m: "queue_of t ?m = []" "file_of t ?m = file_of t m" "mg_files ?m = mg_files m" "mg_config ?m = mg_config m" "handles_ok ?m" for t
    using assms(1) by (simp_all add: HintedHandoffManager_new_def queue_of_def file_of_def handles_ok_def)
  have wf: "hm_wf (mg_files m)" using assms(1) by (simp add: handles_ok_def)
  have files: "\<forall>(t, f) \<in> set (mg_files m). f = hint_log c (ow t) \<and> (\<forall>r \<in> set (ow t). hint_fits c r) \<and> queue_of t ?m = [] \<and> file_of t ?m = f"
  proof (rule ballI, simp only: split_paired_all split_conv)
    fix t f assume "(t, f) \<in> set (mg_files m)"
    then have "file_of t m = f" using hm_get_mem[OF wf] by (simp add: file_of_def)
    then show "f = hint_log c (ow t) \<and> (\<forall>r \<in> set (ow t). hint_fits c r) \<and> queue_of t ?m = [] \<and> file_of t ?m = f"
      using assms(2) m by (auto simp: holds_owed_def)
  qed
  obtain k m' where r: "restart c m = (Ok k, m')" "handles_ok m'" "mg_config m' = mg_config m"
      "\<forall>t. file_of t m' = file_of t m \<and> queue_of t m' = (if t \<in> fst ` set (mg_files m) then positions_from c 0 (ow t) else [])"
    using replay_files_restores[OF _ files m(5), of 0] wf m unfolding restart_def replay_and_enqueue_def hm_wf_def by auto
  have "holds_owed c [] (ow t) t m'" for t
  proof (cases "t \<in> fst ` set (mg_files m)")
    case True
    then show ?thesis using r(4) assms(2) by (auto simp: holds_owed_def)
  next
    case False
    then have "file_of t m = []" by (simp add: file_of_def hm_get_def map_of_eq_None_iff[THEN iffD2])
    then have "hint_log c (ow t) = []" using assms(2) by (simp add: holds_owed_def)
    then have "ow t = []" by (cases "ow t") (auto simp: hint_log_Cons hint_frame_def simp flip: length_0_conv)
    then show ?thesis using r(4) False \<open>file_of t m = []\<close> by (simp add: holds_owed_def)
  qed
  then show ?thesis using r by blast
qed

section \<open>Runs\<close>

text \<open>
  The steps of a node, without disk faults: the state is the manager, the batch in flight for each node (deliveries are made by one
  task, so there is at most one for a node), and the hints owed.  A prune is taken while no batch for that node is in flight, and a prune
  and the rewriting after an answer are single steps: no enqueue and no crash falls into them.  The code does not ensure this, and the
  last sections show what is lost without it.
\<close>

type_synonym handoff_state = "HintedHandoffManager \<times> (NodeId \<Rightarrow> hint_item list) \<times> (NodeId \<Rightarrow> HintRecord list)"

inductive handoff_step :: "hint_codec \<Rightarrow> handoff_state \<Rightarrow> handoff_state \<Rightarrow> bool" for c where
  Enqueue: "intended_for r = Some t \<Longrightarrow> hint_fits c r \<Longrightarrow>
    handoff_step c (m, fl, ow) (snd (hint_enqueue c now secs True WriteDone r m), fl, ow(t := ow t @ [stamp secs r]))"
| Refused: "intended_for r = Some t \<Longrightarrow> hm_get (mg_wals m) t = None \<Longrightarrow>
    handoff_step c (m, fl, ow) (snd (hint_enqueue c now secs False io r m), fl, ow)"
| Drain: "fl t = [] \<Longrightarrow> drain_batch t m = (b, m') \<Longrightarrow> handoff_step c (m, fl, ow) (m', fl(t := b), ow)"
| Failed: "handoff_step c (m, fl, ow) (reenqueue_front t (fl t) m, fl(t := []), ow)"
| Answered: "fl t \<noteq> [] \<Longrightarrow>
    handoff_step c (m, fl, ow) (snd (delivery_done c now calm_rewrite t (fl t) retry m), fl(t := []),
      ow(t := drop (length (fl t)) (ow t) @ retried (max_delivery_attempts (mg_config m)) retry (map item_record (fl t))))"
| Pruned: "fl t = [] \<Longrightarrow> target_is_retained v t \<Longrightarrow>
    handoff_step c (m, fl, ow) (snd (snd (prune_target_wal c calm_prune v secs ttl t (wal_of t m) ds m)), fl,
      ow(t := filter (\<lambda>r. \<not> hint_expired secs ttl r) (ow t)))"
| Departed: "fl t = [] \<Longrightarrow> \<not> target_is_retained v t \<Longrightarrow>
    handoff_step c (m, fl, ow) (snd (snd (prune_target_wal c calm_prune v secs ttl t (wal_of t m) ds m)), fl, ow(t := []))"
| Restart: "restart c m = (Ok k, m') \<Longrightarrow> handoff_step c (m, fl, ow) (m', \<lambda>_. [], ow)"

fun handoff_inv :: "hint_codec \<Rightarrow> handoff_state \<Rightarrow> bool" where
  "handoff_inv c (m, fl, ow) \<longleftrightarrow> handles_ok m \<and> (\<forall>t. holds_owed c (fl t) (ow t) t m)"

lemma handoff_inv_change:
  assumes "handoff_inv c (m, fl, ow)" "holds_owed c b rs t m'" "leaves_others t m m'"
  shows "handoff_inv c (m', fl(t := b), ow(t := rs))"
  using assms by (auto simp: leaves_others_def holds_owed_def)

lemma handoff_inv_keeps: "handoff_inv c (m, fl, ow) \<Longrightarrow> keeps_data m m' \<Longrightarrow> handoff_inv c (m', fl, ow)"
  by (simp add: keeps_data_def holds_owed_def)

lemma handoff_inv_step: "handoff_step c s s' \<Longrightarrow> handoff_inv c s \<Longrightarrow> handoff_inv c s'"
proof (induction rule: handoff_step.induct)
  case (Enqueue r t m fl ow now secs)
  have inv: "handles_ok m" "holds_owed c (fl t) (ow t) t m" using Enqueue(3) by auto
  obtain m' where m': "hint_enqueue c now secs True WriteDone r m = (Ok (), m')" "holds_owed c (fl t) (ow t @ [stamp secs r]) t m'" "leaves_others t m m'"
    using enqueue_holds[OF Enqueue(1,2) inv] by blast
  show ?case using handoff_inv_change[OF Enqueue(3) m'(2,3)] m'(1) unfolding fun_upd_triv by (simp only: snd_conv)
next
  case (Refused r t m fl ow now secs io)
  show ?case by (rule handoff_inv_keeps[OF Refused(3) enqueue_refused(2)[OF Refused(1,2)]])
next
  case (Drain fl t m b m' ow)
  have inv: "handles_ok m" "holds_owed c [] (ow t) t m" using Drain(1,3) by (auto dest: spec[of _ t])
  show ?case using handoff_inv_change[OF Drain(3) conjunct1 conjunct2, OF drain_holds drain_holds, OF Drain(2) inv Drain(2) inv] unfolding fun_upd_triv .
next
  case (Failed m fl ow t)
  have inv: "handles_ok m" "holds_owed c (fl t) (ow t) t m" using Failed by auto
  show ?case using handoff_inv_change[OF Failed conjunct1 conjunct2, OF reenqueue_holds reenqueue_holds, OF inv inv] unfolding fun_upd_triv .
next
  case (Answered fl t m ow now retry)
  have inv: "handles_ok m" "holds_owed c (fl t) (ow t) t m" using Answered(2) by auto
  show ?case
    by (rule handoff_inv_change[OF Answered(2) conjunct1 conjunct2, OF delivery_holds[unfolded Let_def] delivery_holds[unfolded Let_def], OF inv Answered(1) inv Answered(1)])
next
  case (Pruned fl t v m ow secs ttl ds)
  have inv: "handles_ok m" "holds_owed c [] (ow t) t m" using Pruned(1,3) by (auto dest: spec[of _ t])
  show ?case
    using handoff_inv_change[OF Pruned(3) conjunct1 conjunct2, OF prune_holds[unfolded Let_def] prune_holds[unfolded Let_def], OF inv Pruned(2) inv Pruned(2)]
    unfolding fun_upd_idem[of fl t, OF Pruned(1)] .
next
  case (Departed fl t v m ow secs ttl ds)
  have inv: "handles_ok m" "holds_owed c [] (ow t) t m" using Departed(1,3) by (auto dest: spec[of _ t])
  show ?case
    using handoff_inv_change[OF Departed(3) conjunct1 conjunct2, OF departed_holds[unfolded Let_def] departed_holds[unfolded Let_def], OF inv Departed(2) inv Departed(2)]
    unfolding fun_upd_idem[of fl t, OF Departed(1)] .
next
  case (Restart m k m' fl ow)
  then show ?case using restart_holds[of m c fl ow] by auto
qed

lemma handoff_inv_run: "(handoff_step c)\<^sup>*\<^sup>* s s' \<Longrightarrow> handoff_inv c s \<Longrightarrow> handoff_inv c s'"
  by (induction rule: rtranclp_induct) (auto intro: handoff_inv_step)

lemma handoff_inv_new: "handoff_inv c (HintedHandoffManager_new [] cfg has_sink, \<lambda>_. [], \<lambda>_. [])"
  by (simp add: HintedHandoffManager_new_def handles_ok_def holds_owed_def file_of_def queue_of_def)


definition sample_config :: HintedHandoffConfig where
  "sample_config = \<lparr>max_batch_size = 2, max_batch_bytes = 1000, max_delivery_attempts = 1\<rparr>"

definition sample_manager :: HintedHandoffManager where
  "sample_manager = HintedHandoffManager_new [] sample_config False"

lemma sample_fits: "hint_fits sample_codec sample_hint"
  by (simp add: hint_fits_def sample_codec_ok)


section \<open>A prune beside an enqueue\<close>

text \<open>
  C37. The prune of a log reads it, and clears and rewrites it later, without the lock of the queue in between.  A hint that is
  enqueued, written, synced and acknowledged between the two halves is wiped: it is neither in the queue afterwards nor queued by
  a restart.
\<close>

theorem prune_wipes_concurrent_hint:
  assumes "(handoff_step c)\<^sup>*\<^sup>* (HintedHandoffManager_new [] cfg has_sink, \<lambda>_. [], \<lambda>_. []) (m, \<lambda>_. [], ow)"
    and "intended_for r = Some t" "hint_fits c r" "\<exists>x \<in> set (ow t). hint_expired secs ttl x"
  shows "\<exists>split m1. prune_read c calm_prune secs ttl (wal_of t m) = (Ok split, wal_of t m) \<and>
    hint_enqueue c now at True WriteDone r m = (Ok (), m1) \<and>
    (let m2 = snd (snd (prune_finish c ReplayDone t (prune_rewrite c calm_prune split (wal_of t m1)) ds m1))
     in map item_record (queue_of t m2) = filter (\<lambda>x. \<not> hint_expired secs ttl x) (ow t) \<and>
        (\<exists>k m'. restart c m2 = (Ok k, m') \<and> map item_record (queue_of t m') = filter (\<lambda>x. \<not> hint_expired secs ttl x) (ow t)))"
proof -
  let ?ys = "filter (\<lambda>x. \<not> hint_expired secs ttl x) (ow t)" and ?es = "filter (hint_expired secs ttl) (ow t)"
  have "handoff_inv c (m, \<lambda>_. [], ow)" by (rule handoff_inv_run[OF assms(1) handoff_inv_new])
  then have inv: "handles_ok m" "\<forall>t. holds_owed c [] (ow t) t m" by auto
  have f: "\<forall>r \<in> set (ow t). hint_fits c r" "file_of t m = hint_log c (ow t)" using inv(2) by (auto simp: holds_owed_def)
  have rd: "prune_read c calm_prune secs ttl (wal_of t m) = (Ok (?ys, ?es), wal_of t m)"
    unfolding wal_of_open[OF inv(1)] f(2) by (simp add: prune_read_def calm_prune_def replay_open[OF f(1)] comp_def)
  obtain m1 where m1: "hint_enqueue c now at True WriteDone r m = (Ok (), m1)" "holds_owed c [] (ow t @ [stamp at r]) t m1" "leaves_others t m m1"
    using enqueue_holds[OF assms(2,3) inv(1)] inv(2) by blast
  have h: "handles_ok m1" using m1(3) by (simp add: leaves_others_def)
  have es: "?es \<noteq> []" using assms(4) by (auto simp: filter_empty_conv)
  have rw: "prune_rewrite c calm_prune (?ys, ?es) (wal_of t m1) = (Ok (length ?es, ?es), HintWal_open (hint_log c ?ys))"
    using es by (simp add: prune_rewrite_def calm_prune_def wal_of_open[OF h] clear_open write_hints_open)
  have rp: "hw_replay c ReplayDone (HintWal_open (hint_log c ?ys)) = (Ok (positions_from c 0 ?ys), HintWal_open (hint_log c ?ys))"
    by (rule replay_open) (use f(1) in auto)
  define m2 where "m2 = refresh_target_debt t (set_queue t (positions_from c 0 ?ys) (put_wal t (HintWal_open (hint_log c ?ys)) m1))"
  have fin: "snd (snd (prune_finish c ReplayDone t (prune_rewrite c calm_prune (?ys, ?es) (wal_of t m1)) ds m1)) = m2"
    using es rp by (simp add: prune_finish_def rw m2_def)
  have "holds_owed c [] ?ys t m2 \<and> leaves_others t m m2"
    using f m1(3) h keeps_debt[of "set_queue t (positions_from c 0 ?ys) (put_wal t (HintWal_open (hint_log c ?ys)) m1)" t]
    by (auto simp: m2_def keeps_data_def holds_owed_def leaves_others_def put_wal_open)
  then have m2: "handles_ok m2" "\<forall>t'. holds_owed c [] ((ow(t := ?ys)) t') t' m2"
    using handoff_inv_change[of c m "\<lambda>_. []" ow "[]" ?ys t m2] inv by simp_all
  obtain k m' where "restart c m2 = (Ok k, m')" "\<forall>t'. holds_owed c [] ((ow(t := ?ys)) t') t' m'"
    using restart_holds[of m2 c "\<lambda>_. []" "ow(t := ?ys)"] m2 by auto
  moreover have "map item_record (queue_of t m2) = ?ys" "map item_record (queue_of t m') = ?ys"
    using holds_owed_records[of c "[]" ?ys t] m2(2) calculation(2) by (auto dest: spec[of _ t])
  ultimately show ?thesis using rd m1(1) fin by (auto simp: Let_def)
qed

theorem prune_wipes_concurrent_hint_witness:
  "let m = snd (hint_enqueue sample_codec 0 9 True WriteDone sample_hint sample_manager)
   in \<exists>split m1. prune_read sample_codec calm_prune 100 10 (wal_of ''b'' m) = (Ok split, wal_of ''b'' m) \<and>
      hint_enqueue sample_codec 0 99 True WriteDone sample_hint m = (Ok (), m1) \<and>
      (let m2 = snd (snd (prune_finish sample_codec ReplayDone ''b'' (prune_rewrite sample_codec calm_prune split (wal_of ''b'' m1)) ([], []) m1))
       in map item_record (queue_of ''b'' m2) = [] \<and> (\<exists>k m'. restart sample_codec m2 = (Ok k, m') \<and> map item_record (queue_of ''b'' m') = []))"
proof -
  have t: "intended_for sample_hint = Some ''b''" by (simp add: intended_for_def sample_hint_def new_delete_def hint_of_def)
  have e: "hint_expired 100 10 (stamp 9 sample_hint)" by (simp add: hint_expired_def stamp_def sample_hint_def new_delete_def hint_of_def)
  from handoff_step.Enqueue[OF t sample_fits, of sample_manager "\<lambda>_. []" "\<lambda>_. []" 0 9]
  show ?thesis
    using prune_wipes_concurrent_hint[OF r_into_rtranclp[of "handoff_step sample_codec", OF _] t sample_fits, of sample_config False
        "snd (hint_enqueue sample_codec 0 9 True WriteDone sample_hint sample_manager)" "(\<lambda>_. [])(''b'' := [] @ [stamp 9 sample_hint])" 100 10 0 99 "([], [])"] e
    unfolding sample_manager_def[symmetric] Let_def by simp
qed

section \<open>Corner cases of delivery\<close>

text \<open>
  A prune while a batch is in flight rewrites the log at new positions, and the answer to the batch is then applied with the old
  ones: of three hints, of which the first has expired and two are being delivered, the third is lost.
\<close>

lemma prune_during_delivery_loses_hint:
  "let e = (\<lambda>at m. snd (hint_enqueue sample_codec 0 at True WriteDone sample_hint m));
       (b, m) = drain_batch ''b'' (e 99 (e 99 (e 9 sample_manager)));
       m = snd (snd (prune_target_wal sample_codec calm_prune None 100 10 ''b'' (wal_of ''b'' m) ([], []) m));
       m = snd (delivery_done sample_codec 0 calm_rewrite ''b'' b [] m)
   in length b = 2 \<and> queue_of ''b'' m = [] \<and> file_of ''b'' m = []"
proof -
  let ?h9 = "stamp 9 sample_hint" and ?h = "stamp 99 sample_hint" and ?e = "\<lambda>at m. snd (hint_enqueue sample_codec 0 at True WriteDone sample_hint m)"
  let ?c = sample_codec
  have t: "intended_for sample_hint = Some ''b''" by (simp add: intended_for_def sample_hint_def new_delete_def hint_of_def)
  have frame: "length (hint_frame ?c r) = 20" for r by (simp add: hint_frame_def length_sample_encoding)
  have enq: "handles_ok (?e at m) \<and> holds_owed ?c [] (rs @ [stamp at sample_hint]) ''b'' (?e at m) \<and> mg_config (?e at m) = mg_config m"
    if "handles_ok m" "holds_owed ?c [] rs ''b'' m" for at rs m
    using enqueue_holds[OF t sample_fits that, of 0 at] by (auto simp: leaves_others_def)
  have m0: "handles_ok sample_manager" "holds_owed ?c [] [] ''b'' sample_manager"
    using handoff_inv_new[of ?c sample_config False] by (simp_all add: sample_manager_def)
  define m1 where "m1 = ?e 99 (?e 99 (?e 9 sample_manager))"
  have m1: "handles_ok m1" "holds_owed ?c [] [?h9, ?h, ?h] ''b'' m1" "mg_config m1 = sample_config"
    using enq[OF m0, of 9] enq[of "?e 9 sample_manager" "[?h9]" 99] enq[of "?e 99 (?e 9 sample_manager)" "[?h9, ?h]" 99]
    by (simp_all add: m1_def) (simp add: sample_manager_def HintedHandoffManager_new_def)
  have pay: "record_payload_bytes ?h9 = 128" "record_payload_bytes ?h = 128"
    by (simp_all add: record_payload_bytes_def stamp_def sample_hint_def new_delete_def hint_of_def)
  have q: "queue_of ''b'' m1 = [(0, 20, ?h9), (20, 40, ?h), (40, 60, ?h)]" using m1(2) by (simp add: holds_owed_def frame)
  define m2 where "m2 = set_queue ''b'' [(40, 60, ?h)] m1"
  have dr: "drain_batch ''b'' m1 = ([(0, 20, ?h9), (20, 40, ?h)], m2)"
    by (simp add: drain_batch_def q m1(3) sample_config_def pay m2_def)
  have m2: "handles_ok m2" "file_of ''b'' m2 = hint_log ?c [?h9, ?h, ?h]" using m1 by (simp_all add: m2_def holds_owed_def)
  have fits: "hint_fits ?c ?h9" "hint_fits ?c ?h" by (simp_all add: sample_fits)
  have ex: "hint_expired 100 10 ?h9" "\<not> hint_expired 100 10 ?h"
    by (simp_all add: hint_expired_def stamp_def sample_hint_def new_delete_def hint_of_def)
  define m3 where "m3 = refresh_target_debt ''b'' (set_queue ''b'' (positions_from ?c 0 [?h, ?h]) (put_wal ''b'' (HintWal_open (hint_log ?c [?h, ?h])) m2))"
  have pr: "snd (snd (prune_target_wal ?c calm_prune None 100 10 ''b'' (wal_of ''b'' m2) ([], []) m2)) = m3"
    using prune_expired_open[of "[?h9, ?h, ?h]" ?c 100 10] replay_open[of "[?h, ?h]" ?c] fits ex
    by (simp add: prune_target_wal_def target_is_retained_def prune_finish_def wal_of_open[OF m2(1)] m2(2) m3_def calm_prune_def Let_def)
  have m3: "handles_ok m3" "file_of ''b'' m3 = hint_log ?c ([?h, ?h] @ [])"
    using keeps_debt[of "set_queue ''b'' (positions_from ?c 0 [?h, ?h]) (put_wal ''b'' (HintWal_open (hint_log ?c [?h, ?h])) m2)" "''b''"] m2(1)
    by (simp_all add: m3_def keeps_data_def put_wal_open)
  have "holds_owed ?c [] [] ''b'' (rewrite_after_partial ?c 0 calm_rewrite ''b'' 40 [] m3)"
    using rewrite_holds[OF m3, of "[]" 0] fits by (simp add: hint_log_Cons frame Let_def)
  then have "queue_of ''b'' (snd (delivery_done ?c 0 calm_rewrite ''b'' [(0, 20, ?h9), (20, 40, ?h)] [] m3)) = []"
      "file_of ''b'' (snd (delivery_done ?c 0 calm_rewrite ''b'' [(0, 20, ?h9), (20, 40, ?h)] [] m3)) = []"
    by (simp_all add: delivery_done_def split_batch_def split_item_def Let_def holds_owed_def)
  then show ?thesis by (simp add: m1_def[symmetric] dr pr Let_def)
qed

text \<open>A first hint above the byte limit of a batch blocks the queue: nothing is sent and nothing changes.\<close>

lemma oversized_hint_blocks:
  assumes "queue_of t m = x # xs" "max_batch_bytes (mg_config m) < record_payload_bytes (item_record x)"
  shows "drain_and_deliver c now io v client t m = (Ok 0, set_queue t (x # xs) m)"
  using assms by (simp add: drain_and_deliver_def drain_batch_def Let_def)

text \<open>The number of delivered hints wraps around when the receiver names more indices than the batch has.\<close>

lemma bogus_retry_wraps: "fst (delivery_done c now io t [x] [5, 6] m) = - 1"
  by (simp add: delivery_done_def Let_def)

text \<open>A failed write can leave a part of its frame in the log, and the next hint, although acknowledged, is cut off with it.\<close>

lemma failed_write_poisons_log:
  assumes "0 < length (hc_encode c r)" "length (hc_encode c r) < 2 ^ 24"
  shows "let (_, w) = write_hint c (WriteFails 1) x (HintWal_open []); (ack, w) = write_hint c WriteDone r w
    in (\<exists>p. ack = Ok p) \<and> fst (hw_replay c ReplayDone (HintWal_open (hw_file w))) = Ok []"
proof -
  have bad: "replay_loop c 0 (b # hint_frame c r) = Ok ([], Some 0)" for b
    by (subst replay_loop.simps) (simp add: read_frame_shifted[OF assms] hint_frame_def)
  obtain b bs where "hint_frame c x = b # bs" by (cases "hint_frame c x") (auto simp: hint_frame_def simp flip: length_0_conv)
  then show ?thesis
    using bad[of b] by (simp add: write_hint_def write_payload_def HintWal_open_def Let_def hw_replay_def truncate_to_def flip: hint_frame_def)
qed

end
