(* ===== verification/LegacyHandoff.thy ===== *)
theory LegacyHandoff
  imports Handoff
begin

text \<open>
  The in-memory hint buffer (\<^verbatim>\<open>HintedHandoff\<close> in \<^verbatim>\<open>oceanfs-durability/src/hinted_handoff/mod.rs\<close>): bounded storage, expiry and the
  delivery of hints one by one.  The answer of the remote node to a hint and the clock are arguments.
\<close>

record BufferedHint =
  bh_intended_for :: NodeId
  bh_segment_id :: SegmentId
  bh_offset :: u64
  bh_length :: u32
  bh_timestamp :: Hlc
  bh_data :: "u8 list"
  bh_stored_at_secs :: u64

record HintedHandoff =
  lh_hints :: "(NodeId \<times> BufferedHint list) list"
  lh_hint_ttl_secs :: nat
  lh_stored :: u64
  lh_delivered :: u64
  lh_expired :: u64

definition MAX_PENDING_HINTS :: nat where "MAX_PENDING_HINTS = 10000"
definition MAX_HINTS_PER_NODE :: nat where "MAX_HINTS_PER_NODE = 1000"

definition HintedHandoff_new :: HintedHandoff where
  "HintedHandoff_new = \<lparr>lh_hints = [], lh_hint_ttl_secs = 0, lh_stored = 0, lh_delivered = 0, lh_expired = 0\<rparr>"

definition lh_pending :: "NodeId \<Rightarrow> HintedHandoff \<Rightarrow> BufferedHint list" where
  "lh_pending node h = (case hm_get (lh_hints h) node of None \<Rightarrow> [] | Some hs \<Rightarrow> hs)"

definition lh_total_pending_count :: "HintedHandoff \<Rightarrow> nat" where
  "lh_total_pending_count h = sum_list (map (length \<circ> snd) (lh_hints h))"

definition expire_old_hints :: "nat \<Rightarrow> HintedHandoff \<Rightarrow> nat \<times> HintedHandoff" where
  "expire_old_hints now h =
     (if lh_hint_ttl_secs h = 0 then (0, h)
      else let retained = map (\<lambda>(n, hs). (n, filter (\<lambda>x. now - unat (bh_stored_at_secs x) < lh_hint_ttl_secs h) hs)) (lh_hints h);
               expired = lh_total_pending_count h - sum_list (map (length \<circ> snd) retained)
           in (expired, h\<lparr>lh_hints := filter (\<lambda>(_, hs). hs \<noteq> []) retained, lh_expired := lh_expired h + of_nat expired\<rparr>))"

definition handoff :: "nat \<Rightarrow> NodeId \<Rightarrow> BufferedHint \<Rightarrow> HintedHandoff \<Rightarrow> (hint_error, unit) outcome \<times> HintedHandoff" where
  "handoff now node entry h =
     (let h = snd (expire_old_hints now h)
      in if MAX_HINTS_PER_NODE \<le> length (lh_pending node h) then (Err HintInternal, h)
         else if MAX_PENDING_HINTS \<le> lh_total_pending_count h then (Err HintInternal, h)
         else (Ok (), h\<lparr>lh_hints := hm_insert node (lh_pending node h @ [entry]) (lh_hints h), lh_stored := lh_stored h + 1\<rparr>))"

text \<open>\<open>deliver\<close> says which hints the remote node accepts.\<close>

definition lh_deliver_pending :: "nat \<Rightarrow> (BufferedHint \<Rightarrow> bool) \<Rightarrow> NodeId \<Rightarrow> HintedHandoff \<Rightarrow> nat \<times> HintedHandoff" where
  "lh_deliver_pending now deliver node h =
     (let h = snd (expire_old_hints now h); hints_to_deliver = lh_pending node h
      in if hints_to_deliver = [] then (0, h)
         else let delivered = length (filter deliver hints_to_deliver);
                  h = (if 0 < delivered then
                         (let pending = drop (min delivered (length (lh_pending node h))) (lh_pending node h)
                          in h\<lparr>lh_hints := (if pending = [] then hm_remove node (lh_hints h) else hm_insert node pending (lh_hints h))\<rparr>)
                       else h)
              in (delivered, h\<lparr>lh_delivered := lh_delivered h + of_nat delivered\<rparr>))"

lemma lh_pending_after_delivery:
  assumes "lh_hint_ttl_secs h = 0"
  shows "lh_pending node (snd (lh_deliver_pending now deliver node h)) = drop (length (filter deliver (lh_pending node h))) (lh_pending node h)"
  using assms by (auto simp: lh_deliver_pending_def expire_old_hints_def Let_def lh_pending_def)

text \<open>
  As many hints leave the buffer as were accepted, but always from its front: a first hint that was refused is dropped in place of
  an accepted one behind it, which stays.
\<close>

lemma refused_hint_dropped:
  assumes "lh_hint_ttl_secs h = 0" "lh_pending node h = [x, y]" "\<not> deliver x" "deliver y"
  shows "lh_pending node (snd (lh_deliver_pending now deliver node h)) = [y]"
  using assms by (simp add: lh_pending_after_delivery)

text \<open>The buffer stays within its bounds.\<close>

definition lh_bounded :: "HintedHandoff \<Rightarrow> bool" where
  "lh_bounded h \<longleftrightarrow> hm_wf (lh_hints h) \<and> lh_total_pending_count h \<le> MAX_PENDING_HINTS \<and> (\<forall>node. length (lh_pending node h) \<le> MAX_HINTS_PER_NODE)"

lemma sum_list_update:
  "hm_wf m \<Longrightarrow> sum_list (map (length \<circ> snd) (hm_insert k v m)) + (case hm_get m k of None \<Rightarrow> 0 | Some u \<Rightarrow> length u) = sum_list (map (length \<circ> snd) m) + length v"
  by (induction m) (auto simp: hm_get_def hm_insert_def hm_wf_def map_of_eq_None_iff split: option.splits)

lemma handoff_bounded:
  assumes "lh_bounded h" "lh_hint_ttl_secs h = 0"
  shows "lh_bounded (snd (handoff now node entry h))"
  using assms sum_list_update[of "lh_hints h" node "lh_pending node h @ [entry]"]
  by (auto simp: handoff_def expire_old_hints_def lh_bounded_def Let_def lh_total_pending_count_def lh_pending_def split: option.splits)

end
