(* ===== verification/MetaKeys.thy ===== *)
theory MetaKeys
  imports HlcClock ByteCodec NodeTypes
begin

text \<open>
  The row keys of the metadata store (\<^verbatim>\<open>oceanfs-storage/src/metadata/cf.rs\<close> and \<^verbatim>\<open>codec.rs\<close>).  A Rust string is the list of its
  UTF-8 bytes, each written as a character, so \<^verbatim>\<open>as_bytes\<close> only changes the type.
\<close>

section \<open>Strings and bytes\<close>

definition as_bytes :: "string \<Rightarrow> u8 list" where "as_bytes s = map (\<lambda>c. of_nat (of_char c)) s"
definition of_bytes :: "u8 list \<Rightarrow> string" where "of_bytes bs = map (\<lambda>b. char_of (unat b)) bs"

definition cont :: "u8 \<Rightarrow> bool" where "cont b \<longleftrightarrow> 0x80 \<le> b \<and> b \<le> 0xBF"

text \<open>\<^verbatim>\<open>std::str::from_utf8\<close>: well-formed UTF-8 byte sequences.\<close>

fun utf8_valid :: "u8 list \<Rightarrow> bool" where
  "utf8_valid [] = True"
| "utf8_valid (b # bs) =
     (if b < 0x80 then utf8_valid bs
      else if 0xC2 \<le> b \<and> b \<le> 0xDF then (case bs of c # cs \<Rightarrow> cont c \<and> utf8_valid cs | _ \<Rightarrow> False)
      else if 0xE0 \<le> b \<and> b \<le> 0xEF then
        (case bs of c # d # ds \<Rightarrow> cont c \<and> (b = 0xE0 \<longrightarrow> 0xA0 \<le> c) \<and> (b = 0xED \<longrightarrow> c \<le> 0x9F) \<and> cont d \<and> utf8_valid ds | _ \<Rightarrow> False)
      else if 0xF0 \<le> b \<and> b \<le> 0xF4 then
        (case bs of c # d # e # es \<Rightarrow>
           cont c \<and> (b = 0xF0 \<longrightarrow> 0x90 \<le> c) \<and> (b = 0xF4 \<longrightarrow> c \<le> 0x8F) \<and> cont d \<and> cont e \<and> utf8_valid es | _ \<Rightarrow> False)
      else False)"

definition from_utf8 :: "u8 list \<Rightarrow> string option" where
  "from_utf8 bs = (if utf8_valid bs then Some (of_bytes bs) else None)"

text \<open>What every Rust string satisfies.\<close>

definition is_text :: "string \<Rightarrow> bool" where "is_text s \<longleftrightarrow> utf8_valid (as_bytes s)"

lemma length_as_bytes [simp]: "length (as_bytes s) = length s"
  by (simp add: as_bytes_def)

lemma of_bytes_as_bytes [simp]: "of_bytes (as_bytes s) = s"
proof -
  have "char_of (unat (of_nat (of_char c) :: u8)) = c" for c by (simp add: unat_of_nat)
  then show ?thesis by (simp add: as_bytes_def of_bytes_def comp_def)
qed

lemma as_bytes_eq_iff [simp]: "as_bytes s = as_bytes t \<longleftrightarrow> s = t"
  by (metis of_bytes_as_bytes)

lemma from_utf8_as_bytes [simp]: "is_text s \<Longrightarrow> from_utf8 (as_bytes s) = Some s"
  by (simp add: from_utf8_def is_text_def)

section \<open>Row keys\<close>

definition SUPERSEDE_KIND :: u8 where "SUPERSEDE_KIND = 2"
definition SUPERSEDE_TAIL_SIZE :: nat where "SUPERSEDE_TAIL_SIZE = 1 + 1 + 2 + 8 + 4"

datatype DeletionsKey = Plain string string | Supersede string string Hlc

definition encode_object_key :: "string \<Rightarrow> string \<Rightarrow> u8 list" where
  "encode_object_key bucket key = as_bytes bucket @ [0] @ as_bytes key"

text \<open>The position of the first zero byte.\<close>

definition null_pos :: "u8 list \<Rightarrow> nat option" where
  "null_pos data = (let n = length (takeWhile (\<lambda>b. b \<noteq> 0) data) in if n < length data then Some n else None)"

definition decode_object_key :: "u8 list \<Rightarrow> (string \<times> string) option" where
  "decode_object_key data =
     Option.bind (null_pos data) (\<lambda>n. Option.bind (from_utf8 (take n data)) (\<lambda>bucket.
       Option.bind (from_utf8 (drop (n + 1) data)) (\<lambda>key. Some (bucket, key))))"

definition u16_to_be :: "u16 \<Rightarrow> u8 list" where "u16_to_be w = [ucast (drop_bit 8 w), ucast w]"
definition u16_from_be :: "u8 list \<Rightarrow> nat" where "u16_from_be bs = unat (bs ! 0) * 256 + unat (bs ! 1)"

definition supersede_tail :: "nat \<Rightarrow> Hlc \<Rightarrow> u8 list" where
  "supersede_tail key_len version =
     [0, SUPERSEDE_KIND] @ u16_to_be (of_nat key_len) @ u64_to_le (wall_time version) @ u32_to_le (logical version)"

definition encode_supersede_key :: "string \<Rightarrow> string \<Rightarrow> Hlc \<Rightarrow> u8 list" where
  "encode_supersede_key bucket key version = as_bytes bucket @ [0] @ as_bytes key @ supersede_tail (length (as_bytes key)) version"

definition decode_plain :: "u8 list \<Rightarrow> DeletionsKey option" where
  "decode_plain data = map_option (\<lambda>(bucket, key). Plain bucket key) (decode_object_key data)"

definition decode_supersede :: "u8 list \<Rightarrow> u8 list \<Rightarrow> DeletionsKey option" where
  "decode_supersede head tail =
     Option.bind (null_pos head) (\<lambda>n.
       let key_bytes = drop (n + 1) head
       in if length key_bytes \<noteq> u16_from_be (slice tail 2 4) then None
          else Option.bind (from_utf8 (take n head)) (\<lambda>bucket. Option.bind (from_utf8 key_bytes) (\<lambda>key.
                 Some (Supersede bucket key (Hlc (u64_from_le (slice tail 4 12)) (u32_from_le (slice tail 12 16)))))))"

definition decode_deletions_key :: "u8 list \<Rightarrow> DeletionsKey option" where
  "decode_deletions_key data =
     (if SUPERSEDE_TAIL_SIZE \<le> length data then
        let n = length data - SUPERSEDE_TAIL_SIZE; head = take n data; tail = drop n data
        in if tail ! 0 = 0 \<and> tail ! 1 = SUPERSEDE_KIND then decode_supersede head tail else decode_plain data
      else decode_plain data)"

definition object_key_bytes :: "u8 list \<Rightarrow> u8 list option" where
  "object_key_bytes row_key =
     (case decode_deletions_key row_key of
        Some (Plain _ key) \<Rightarrow> Some (as_bytes key)
      | Some (Supersede _ key _) \<Rightarrow> Some (as_bytes key)
      | None \<Rightarrow> None)"

definition split_object_row_key :: "u8 list \<Rightarrow> (string \<times> string) option" where
  "split_object_row_key row_key =
     (case decode_deletions_key row_key of
        Some (Plain _ _) \<Rightarrow> decode_object_key row_key
      | _ \<Rightarrow> None)"

section \<open>Round trips\<close>

text \<open>Bucket names contain no zero byte.\<close>

definition bucket_ok :: "string \<Rightarrow> bool" where "bucket_ok b \<longleftrightarrow> is_text b \<and> 0 \<notin> set (as_bytes b)"

lemma null_pos_bucket:
  assumes "0 \<notin> set (as_bytes b)"
  shows "null_pos (as_bytes b @ 0 # rest) = Some (length b)"
proof -
  have "takeWhile (\<lambda>x. x \<noteq> 0) (as_bytes b @ 0 # rest) = as_bytes b"
    using assms by (subst takeWhile_append2) auto
  then show ?thesis by (simp add: null_pos_def)
qed

lemma object_key_round_trip: "bucket_ok b \<Longrightarrow> is_text k \<Longrightarrow> decode_object_key (encode_object_key b k) = Some (b, k)"
  by (simp add: decode_object_key_def encode_object_key_def null_pos_bucket bucket_ok_def)

lemma encode_object_key_inj:
  assumes "bucket_ok b" "bucket_ok b'" "encode_object_key b k = encode_object_key b' k'"
  shows "b = b' \<and> k = k'"
proof -
  have "length b = length b'"
    using null_pos_bucket[of b "as_bytes k"] null_pos_bucket[of b' "as_bytes k'"] assms by (simp add: bucket_ok_def encode_object_key_def)
  then show ?thesis using assms(3) by (simp add: encode_object_key_def)
qed

lemma u16_be_round_trip: "n < 2 ^ 16 \<Longrightarrow> u16_from_be (u16_to_be (of_nat n)) = n"
proof -
  assume n: "n < 2 ^ 16"
  have "unat (ucast (drop_bit 8 (of_nat n :: u16)) :: u8) = n div 256"
    using n by (simp add: unsigned_ucast_eq unsigned_drop_bit_eq unat_of_nat take_bit_nat_def drop_bit_nat_def)
  moreover have "unat (ucast (of_nat n :: u16) :: u8) = n mod 256"
    using n by (simp add: unsigned_ucast_eq unat_of_nat take_bit_nat_def)
  ultimately show ?thesis by (simp add: u16_from_be_def u16_to_be_def)
qed

lemma length_supersede_tail [simp]: "length (supersede_tail n v) = SUPERSEDE_TAIL_SIZE"
  by (simp add: supersede_tail_def SUPERSEDE_TAIL_SIZE_def u16_to_be_def)

lemma supersede_tail_parts:
  "supersede_tail n v ! 0 = 0" "supersede_tail n v ! 1 = SUPERSEDE_KIND"
  "slice (supersede_tail n v) 2 4 = u16_to_be (of_nat n)" "slice (supersede_tail n v) 4 12 = u64_to_le (wall_time v)"
  "slice (supersede_tail n v) 12 16 = u32_to_le (logical v)"
  by (simp_all add: supersede_tail_def u16_to_be_def slice_def)

lemma supersede_key_round_trip:
  assumes "bucket_ok b" "is_text k" "length k < 2 ^ 16"
  shows "decode_deletions_key (encode_supersede_key b k v) = Some (Supersede b k v)"
proof -
  let ?head = "as_bytes b @ 0 # as_bytes k" and ?tail = "supersede_tail (length k) v"
  have e: "encode_supersede_key b k v = ?head @ ?tail" by (simp add: encode_supersede_key_def)
  have "decode_supersede ?head ?tail = Some (Supersede b k v)"
    using assms null_pos_bucket[of b "as_bytes k"]
    by (simp add: decode_supersede_def bucket_ok_def supersede_tail_parts u16_be_round_trip)
  then show ?thesis unfolding e decode_deletions_key_def by (simp add: Let_def supersede_tail_parts supersede_tail_parts(2)[unfolded One_nat_def])
qed

text \<open>
  The name of an object may end in the bytes of a supersede tail.  The row of its tombstone is then the row of a superseded
  version of another object, and is decoded as such.
\<close>

lemma plain_key_taken_for_supersede:
  "decode_deletions_key (encode_object_key ''b'' (''k'' @ of_bytes ([0, 2, 0, 1] @ replicate 12 0))) = Some (Supersede ''b'' ''k'' (Hlc 0 0))"
  by code_simp

end
