(* ===== verification/Conflict.thy ===== *)
theory Conflict
  imports HlcClock NodeTypes
begin

text \<open>
  Conflict resolution between replicas: \<^verbatim>\<open>oceanfs-core/src/conflict.rs\<close> and the quorum comparison of
  \<^verbatim>\<open>oceanfs-server/src/read/coordinator.rs\<close>, which folds the resolver over the replies of the remote
  replicas in the order they arrive.  The locale \<^verbatim>\<open>conflict_resolver\<close> states what the comparison
  relies on; the default last-write-wins resolver satisfies it.
\<close>

section \<open>The resolver\<close>

datatype Resolution = AcceptLocal | AcceptRemote | Merge

definition is_local_accepted :: "Resolution \<Rightarrow> bool" where
  "is_local_accepted r \<longleftrightarrow> r = AcceptLocal"

definition is_remote_accepted :: "Resolution \<Rightarrow> bool" where
  "is_remote_accepted r \<longleftrightarrow> r = AcceptRemote"

definition lww_resolve :: "Hlc \<Rightarrow> Hlc \<Rightarrow> NodeId \<Rightarrow> NodeId \<Rightarrow> Resolution" where
  "lww_resolve local remote local_node remote_node =
     (if remote > local then AcceptRemote
      else if remote < local then AcceptLocal
      else if remote_node > local_node then AcceptRemote else AcceptLocal)"

section \<open>The quorum comparison\<close>

text \<open>The reply of a replica; segment ids, hashes and payloads are bytes on the wire.\<close>

record GetObjectMetadataResponse =
  found :: bool
  resp_hlc :: "Hlc option"
  resp_size :: u64
  resp_blake3 :: "u8 list"
  resp_inline :: "u8 list"
  chunk_segment_ids :: "u8 list list"
  chunk_offsets :: "u64 list"
  chunk_lengths :: "u32 list"
  chunk_compressed :: "bool list"
  chunk_logical_lengths :: "u32 list"

record 's ChunkRef =
  segment_id :: 's
  offset :: u64
  length_stored :: u32
  compressed :: bool
  logical_length :: u32

record 's ObjectMetadata =
  object_key :: string
  size_bytes :: u64
  blake3_hash :: "u8 list option"
  chunks :: "'s ChunkRef list"
  inline_data :: "u8 list option"
  created_at :: int
  meta_hlc :: Hlc

definition is_inline :: "'s ObjectMetadata \<Rightarrow> bool" where
  "is_inline m \<longleftrightarrow> inline_data m \<noteq> None"

text \<open>A fetch that completed: the target, the physical time when its reply is handled, and the
  reply, \<^verbatim>\<open>None\<close> for an RPC error or a timeout.\<close>

record fetched =
  target :: NodeId
  handled_at :: u64
  reply :: "GetObjectMetadataResponse option"

record quorum_state =
  winning_hlc :: Hlc
  winning_meta :: "GetObjectMetadataResponse option"
  hlc_clock :: "u128 option"

type_synonym resolver = "Hlc \<Rightarrow> Hlc \<Rightarrow> NodeId \<Rightarrow> NodeId \<Rightarrow> Resolution"

definition quorum_step :: "resolver \<Rightarrow> NodeId \<Rightarrow> fetched \<Rightarrow> quorum_state \<Rightarrow> quorum_state" where
  "quorum_step resolve node_id f st =
     (case reply f of
        None \<Rightarrow> st
      | Some resp \<Rightarrow>
          if \<not> found resp then st
          else case resp_hlc resp of
                 None \<Rightarrow> st
               | Some remote_hlc \<Rightarrow>
                   let st = st\<lparr>hlc_clock := map_option (\<lambda>c. pack_hlc (update_next (handled_at f) remote_hlc c)) (hlc_clock st)\<rparr>
                   in case resolve (winning_hlc st) remote_hlc node_id (target f) of
                        AcceptRemote \<Rightarrow> st\<lparr>winning_hlc := remote_hlc, winning_meta := Some resp\<rparr>
                      | _ \<Rightarrow> st)"

definition quorum_loop :: "resolver \<Rightarrow> NodeId \<Rightarrow> Hlc \<Rightarrow> u128 option \<Rightarrow> fetched list \<Rightarrow> quorum_state" where
  "quorum_loop resolve node_id local_hlc clk fs =
     fold (quorum_step resolve node_id) fs
       \<lparr>winning_hlc = local_hlc, winning_meta = None, hlc_clock = clk\<rparr>"

definition winning_chunks ::
  "(u8 list \<Rightarrow> 's option) \<Rightarrow> 's \<Rightarrow> GetObjectMetadataResponse \<Rightarrow> 's ChunkRef list" where
  "winning_chunks seg_try_from seg_default w =
     (let count = min (min (length (chunk_segment_ids w)) (length (chunk_offsets w))) (length (chunk_lengths w))
      in map (\<lambda>i. \<lparr>segment_id = (case seg_try_from (chunk_segment_ids w ! i) of None \<Rightarrow> seg_default | Some s \<Rightarrow> s),
            offset = chunk_offsets w ! i, length_stored = chunk_lengths w ! i,
            compressed = (if i < length (chunk_compressed w) then chunk_compressed w ! i else False),
            logical_length = (if i < length (chunk_logical_lengths w) then chunk_logical_lengths w ! i
                              else chunk_lengths w ! i)\<rparr>) [0..<count])"

definition winning_object ::
  "(u8 list \<Rightarrow> 's option) \<Rightarrow> 's \<Rightarrow> int \<Rightarrow> string \<Rightarrow> GetObjectMetadataResponse \<Rightarrow> 's ObjectMetadata" where
  "winning_object seg_try_from seg_default now_ms key w =
     \<lparr>object_key = key, size_bytes = resp_size w,
      blake3_hash = (if length (resp_blake3 w) = 32 then Some (resp_blake3 w) else None),
      chunks = winning_chunks seg_try_from seg_default w,
      inline_data = (if resp_inline w = [] then None else Some (resp_inline w)),
      created_at = now_ms,
      meta_hlc = (case resp_hlc w of None \<Rightarrow> Hlc_zero | Some h \<Rightarrow> h)\<rparr>"

text \<open>
  \<^verbatim>\<open>connected\<close> says that the connection pool and the membership are configured; \<^verbatim>\<open>fs\<close> are the completed
  fetches, one for each other replica that has an address and a channel.
\<close>

definition compare_with_quorum ::
  "resolver \<Rightarrow> (u8 list \<Rightarrow> 's option) \<Rightarrow> 's \<Rightarrow> int \<Rightarrow> bool \<Rightarrow> NodeId list \<Rightarrow> NodeId \<Rightarrow> string \<Rightarrow>
     Hlc \<Rightarrow> u128 option \<Rightarrow> fetched list \<Rightarrow> 's ObjectMetadata option" where
  "compare_with_quorum resolve seg_try_from seg_default now_ms connected replica_set node_id key local_hlc clk fs =
     (if \<not> connected then None
      else if length replica_set \<le> 1 then None
      else map_option (winning_object seg_try_from seg_default now_ms key)
             (winning_meta (quorum_loop resolve node_id local_hlc clk fs)))"

section \<open>The answers a comparison sees\<close>

definition answer :: "fetched \<Rightarrow> Hlc option" where
  "answer f = (case reply f of None \<Rightarrow> None | Some r \<Rightarrow> if found r then resp_hlc r else None)"

definition answers :: "fetched list \<Rightarrow> Hlc set" where
  "answers fs = {h. \<exists>f \<in> set fs. answer f = Some h}"

lemma answers_Cons:
  "answers (f # fs) = (case answer f of None \<Rightarrow> answers fs | Some h \<Rightarrow> insert h (answers fs))"
  by (auto simp: answers_def split: option.splits)

lemma finite_answers [simp]: "finite (answers fs)"
  by (induction fs) (auto simp: answers_Cons answers_def [of "[]"] split: option.splits)

lemma step_hlc:
  "winning_hlc (quorum_step resolve n f st) =
     (case answer f of None \<Rightarrow> winning_hlc st
      | Some h \<Rightarrow> if resolve (winning_hlc st) h n (target f) = AcceptRemote then h else winning_hlc st)"
  by (auto simp: quorum_step_def answer_def Let_def split: option.splits Resolution.splits)

section \<open>The contract of a resolver\<close>

locale conflict_resolver =
  fixes resolve :: resolver
  assumes newer_remote: "l < r \<Longrightarrow> resolve l r ln rn = AcceptRemote"
    and newer_local: "r < l \<Longrightarrow> resolve l r ln rn = AcceptLocal"
    and decides: "resolve l r ln rn \<noteq> Merge"
    and agrees: "(l, ln) \<noteq> (r, rn) \<Longrightarrow> resolve l r ln rn = AcceptRemote \<longleftrightarrow> resolve r l rn ln = AcceptLocal"
begin

lemma step_max:
  "winning_hlc (quorum_step resolve n f st) =
     (case answer f of None \<Rightarrow> winning_hlc st | Some h \<Rightarrow> max (winning_hlc st) h)"
proof (cases "answer f")
  case (Some h)
  then show ?thesis
    using newer_remote [of "winning_hlc st" h] newer_local [of h "winning_hlc st"]
    by (cases "winning_hlc st" h rule: linorder_cases) (simp_all add: step_hlc)
qed (simp add: step_hlc)

lemma step_meta:
  "(winning_meta (quorum_step resolve n f st) = winning_meta st \<and>
    winning_hlc (quorum_step resolve n f st) = winning_hlc st) \<or>
   (winning_meta (quorum_step resolve n f st) = reply f \<and>
    answer f = Some (winning_hlc (quorum_step resolve n f st)))"
  by (auto simp: quorum_step_def answer_def Let_def split: option.splits Resolution.splits)

lemma loop_winner:
  "winning_hlc (fold (quorum_step resolve n) fs st) = Max (insert (winning_hlc st) (answers fs))"
proof (induction fs arbitrary: st)
  case (Cons f fs)
  have "Max (insert (max w h) A) = Max (insert w (insert h A))" if "finite A" for w h :: Hlc and A
    using that by (metis Max_insert finite.insertI insert_not_empty max.assoc Max_singleton insertI1)
  with Cons show ?case
    by (cases "answer f") (auto simp: step_max answers_Cons finite_answers)
qed (simp add: answers_def)

lemma loop_meta:
  "case winning_meta (fold (quorum_step resolve n) fs st) of
     None \<Rightarrow> winning_meta st = None \<and> winning_hlc (fold (quorum_step resolve n) fs st) = winning_hlc st
   | Some r \<Rightarrow> (winning_meta st = Some r \<and> winning_hlc (fold (quorum_step resolve n) fs st) = winning_hlc st) \<or>
       (found r \<and> resp_hlc r = Some (winning_hlc (fold (quorum_step resolve n) fs st)))"
proof (induction fs arbitrary: st)
  case Nil
  then show ?case by (simp split: option.splits)
next
  case (Cons f fs)
  from Cons [of "quorum_step resolve n f st"] step_meta [of n f st] show ?case
    by (auto simp: answer_def split: option.splits if_splits)
qed

end

section \<open>Last write wins meets the contract\<close>

interpretation lww: conflict_resolver lww_resolve
  by unfold_locales (auto simp: lww_resolve_def)

section \<open>Properties\<close>

text \<open>
  The quorum comparison returns a version exactly when it is connected, the key has more than one
  replica and some reply is chosen over the local version, and then the timestamp of the version it
  returns is the greatest among the local one and all answers, in whatever order these arrive; when it
  returns none although it compared, the local timestamp is the greatest.
\<close>

theorem quorum_returns_newest:
  "case compare_with_quorum lww_resolve try_from dflt ms connected replica_set node key lh clk fs of
     Some m \<Rightarrow> connected \<and> 1 < length replica_set \<and> meta_hlc m = Max (insert lh (answers fs))
   | None \<Rightarrow> lh = (if connected \<and> 1 < length replica_set then Max (insert lh (answers fs)) else lh)"
proof -
  let ?st = "quorum_loop lww_resolve node lh clk fs"
  have w: "winning_hlc ?st = Max (insert lh (answers fs))"
    by (simp add: quorum_loop_def lww.loop_winner)
  have "case winning_meta ?st of None \<Rightarrow> winning_hlc ?st = lh
      | Some r \<Rightarrow> found r \<and> resp_hlc r = Some (winning_hlc ?st)"
    using lww.loop_meta [where n = node and fs = fs and
        st = "\<lparr>winning_hlc = lh, winning_meta = None, hlc_clock = clk\<rparr>"]
    by (auto simp: quorum_loop_def split: option.splits)
  with w show ?thesis
    by (auto simp: compare_with_quorum_def winning_object_def split: option.splits)
qed

text \<open>
  C30: the default resolver is deterministic across nodes: for two different versions, the node that
  holds one accepts the other's exactly when the node that holds the other keeps its own.
\<close>

theorem lww_agreement:
  assumes "(h1, n1) \<noteq> (h2, n2)"
  shows "lww_resolve h1 h2 n1 n2 = AcceptRemote \<longleftrightarrow> lww_resolve h2 h1 n2 n1 = AcceptLocal"
  using lww.agrees [OF assms] .

theorem lww_agreement_witness:
  "lww_resolve (Hlc 5 1) (Hlc 5 1) ''node-a'' ''node-b'' = AcceptRemote \<longleftrightarrow>
   lww_resolve (Hlc 5 1) (Hlc 5 1) ''node-b'' ''node-a'' = AcceptLocal"
  using lww_agreement [of "Hlc 5 1" "''node-a''" "Hlc 5 1" "''node-b''"] by simp

text \<open>
  The quorum comparison itself is not deterministic on ties: it breaks a tie against the id of the
  local node and not of the node whose version is winning, so with two remote versions of equal
  timestamp the version returned depends on the order of arrival.
\<close>

theorem quorum_tie_depends_on_order:
  "\<exists>a b. winning_meta (quorum_loop lww_resolve ''n1'' (Hlc 1 0) None [a, b]) \<noteq>
         winning_meta (quorum_loop lww_resolve ''n1'' (Hlc 1 0) None [b, a])"
proof -
  define r where "r i = \<lparr>found = True, resp_hlc = Some (Hlc 2 0), resp_size = i, resp_blake3 = [],
      resp_inline = [], chunk_segment_ids = [], chunk_offsets = [], chunk_lengths = [],
      chunk_compressed = [], chunk_logical_lengths = []\<rparr>" for i :: u64
  define a where "a = \<lparr>target = ''n2'', handled_at = 0, reply = Some (r 10)\<rparr>"
  define b where "b = \<lparr>target = ''n3'', handled_at = 0, reply = Some (r 20)\<rparr>"
  have lt: "''n1'' < ''n2''" "''n1'' < ''n3''" by (simp_all add: less_char_def)
  have "Hlc 1 0 < Hlc 2 0" by (simp add: less_Hlc_def)
  with lt have "winning_meta (quorum_loop lww_resolve ''n1'' (Hlc 1 0) None [a, b]) = Some (r 20)"
    "winning_meta (quorum_loop lww_resolve ''n1'' (Hlc 1 0) None [b, a]) = Some (r 10)"
    by (simp_all add: quorum_loop_def quorum_step_def a_def b_def r_def lww_resolve_def)
  then show ?thesis by (intro exI [of _ a] exI [of _ b]) (simp add: r_def)
qed

end
