(* ===== verification/MetaStore.thy ===== *)
theory MetaStore
  imports MetaKeys Conflict OrdMap WalEntries
begin

text \<open>
  The metadata store (\<^verbatim>\<open>oceanfs-storage/src/metadata/store.rs\<close>): live object rows and deletion records in two column families,
  overwrites that capture the chunks they supersede, deletes, the last-write-wins application of rows pulled from peers, batches,
  listings, and the rebuilding of a store from streamed rows.  A column family is a sorted map from row keys; a value that cannot be
  decoded is \<^verbatim>\<open>None\<close>.  RocksDB and the serialisation are not modelled further; BLAKE3 is an argument, and whether the change journal
  and the database accept a write is part of the call.  Metrics are not modelled.
\<close>

section \<open>State\<close>

type_synonym BucketId = string
type_synonym ObjectKey = string
type_synonym Chunk = "SegmentId ChunkRef"
type_synonym Meta = "SegmentId ObjectMetadata"

record Tombstone =
  ts_deletion_time :: int
  ts_hlc :: Hlc
  ts_chunks :: "Chunk list"

datatype DeadChunkKind = DeadTombstone | DeadSupersede

record DeadChunkRecord =
  dc_kind :: DeadChunkKind
  dc_captured_at :: int
  dc_hlc :: Hlc
  dc_chunks :: "Chunk list"

datatype JournalOp = JournalPut | JournalDelete

type_synonym journal_entry = "JournalOp \<times> u8 list \<times> Hlc"

record MetadataStore =
  ms_objects :: "(u8 list \<times> Meta option) list"
  ms_deletions :: "(u8 list \<times> Tombstone option) list"
  ms_journal :: "journal_entry list option"

datatype meta_error = MetaIo

record meta_io =
  mi_journal :: bool
  mi_write :: bool

definition is_segment_stored :: "Meta \<Rightarrow> bool" where "is_segment_stored m \<longleftrightarrow> chunks m \<noteq> []"

text \<open>A change is journaled first, and the batch is written only when the journal has accepted it.\<close>

definition journal_append_batch :: "meta_io \<Rightarrow> journal_entry list \<Rightarrow> MetadataStore \<Rightarrow> (meta_error, unit) outcome \<times> MetadataStore" where
  "journal_append_batch io items s =
     (case ms_journal s of
        None \<Rightarrow> (Ok (), s)
      | Some js \<Rightarrow> if mi_journal io then (Ok (), s\<lparr>ms_journal := Some (js @ items)\<rparr>) else (Err MetaIo, s))"

definition commit :: "meta_io \<Rightarrow> journal_entry list \<Rightarrow> (MetadataStore \<Rightarrow> MetadataStore) \<Rightarrow> MetadataStore \<Rightarrow> (meta_error, unit) outcome \<times> MetadataStore" where
  "commit io items batch s =
     (case (if items = [] then (Ok (), s) else journal_append_batch io items s) of
        (Ok _, s) \<Rightarrow> if mi_write io then (Ok (), batch s) else (Err MetaIo, s)
      | (Err e, s) \<Rightarrow> (Err e, s)
      | (Panic, s) \<Rightarrow> (Panic, s))"

definition put_row :: "u8 list \<Rightarrow> Meta \<Rightarrow> MetadataStore \<Rightarrow> MetadataStore" where
  "put_row k m s = s\<lparr>ms_objects := bt_insert k (Some m) (ms_objects s)\<rparr>"

definition delete_row :: "u8 list \<Rightarrow> MetadataStore \<Rightarrow> MetadataStore" where
  "delete_row k s = s\<lparr>ms_objects := bt_remove k (ms_objects s)\<rparr>"

definition put_deletion :: "u8 list \<Rightarrow> Tombstone \<Rightarrow> MetadataStore \<Rightarrow> MetadataStore" where
  "put_deletion k t s = s\<lparr>ms_deletions := bt_insert k (Some t) (ms_deletions s)\<rparr>"

definition delete_deletion :: "u8 list \<Rightarrow> MetadataStore \<Rightarrow> MetadataStore" where
  "delete_deletion k s = s\<lparr>ms_deletions := bt_remove k (ms_deletions s)\<rparr>"

section \<open>Reading\<close>

definition get_object :: "BucketId \<Rightarrow> ObjectKey \<Rightarrow> MetadataStore \<Rightarrow> (meta_error, Meta option) outcome" where
  "get_object bucket key s =
     (case map_of (ms_objects s) (encode_object_key bucket key) of
        None \<Rightarrow> Ok None
      | Some None \<Rightarrow> Err MetaIo
      | Some (Some m) \<Rightarrow> Ok (Some m))"

definition get_tombstone :: "BucketId \<Rightarrow> ObjectKey \<Rightarrow> MetadataStore \<Rightarrow> (meta_error, Tombstone option) outcome" where
  "get_tombstone bucket key s =
     (case map_of (ms_deletions s) (encode_object_key bucket key) of
        None \<Rightarrow> Ok None
      | Some None \<Rightarrow> Err MetaIo
      | Some (Some t) \<Rightarrow> Ok (Some t))"

definition has_tombstone :: "BucketId \<Rightarrow> ObjectKey \<Rightarrow> MetadataStore \<Rightarrow> bool" where
  "has_tombstone bucket key s \<longleftrightarrow> map_of (ms_deletions s) (encode_object_key bucket key) \<noteq> None"

text \<open>\<^verbatim>\<open>.ok().flatten()\<close>: what cannot be read counts as absent.\<close>

fun ok_flatten :: "('e, 'a option) outcome \<Rightarrow> 'a option" where
  "ok_flatten (Ok x) = x"
| "ok_flatten _ = None"

text \<open>The rows from a prefix on, as long as they start with it.\<close>

definition starts_with :: "u8 list \<Rightarrow> u8 list \<Rightarrow> bool" where
  "starts_with key p \<longleftrightarrow> take (length p) key = p"

definition scan_prefix :: "u8 list \<Rightarrow> (u8 list \<times> 'v) list \<Rightarrow> (u8 list \<times> 'v) list" where
  "scan_prefix p rows = takeWhile (\<lambda>(k, _). starts_with k p) (dropWhile (\<lambda>(k, _). k < p) rows)"

definition list_objects :: "BucketId \<Rightarrow> string \<Rightarrow> MetadataStore \<Rightarrow> Meta list" where
  "list_objects bucket p s = List.map_filter snd (scan_prefix (encode_object_key bucket p) (ms_objects s))"

definition list_objects_all :: "MetadataStore \<Rightarrow> Meta list" where
  "list_objects_all s = List.map_filter snd (ms_objects s)"

definition list_objects_all_with_bucket :: "MetadataStore \<Rightarrow> (BucketId \<times> Meta) list" where
  "list_objects_all_with_bucket s =
     List.map_filter (\<lambda>(k, v). Option.bind (decode_object_key k) (\<lambda>(bucket, _). map_option (Pair bucket) v)) (ms_objects s)"

definition list_tombstones :: "BucketId \<Rightarrow> MetadataStore \<Rightarrow> (ObjectKey \<times> Tombstone) list" where
  "list_tombstones bucket s =
     List.map_filter
       (\<lambda>(k, v). case decode_deletions_key k of
          Some (Plain b key) \<Rightarrow> if b \<noteq> bucket then None else map_option (Pair key) v
        | _ \<Rightarrow> None)
       (scan_prefix (encode_object_key bucket []) (ms_deletions s))"

definition list_tombstones_all :: "MetadataStore \<Rightarrow> (BucketId \<times> ObjectKey \<times> Tombstone) list" where
  "list_tombstones_all s =
     List.map_filter
       (\<lambda>(k, v). case decode_deletions_key k of
          Some (Plain b key) \<Rightarrow> map_option (\<lambda>t. (b, key, t)) v
        | _ \<Rightarrow> None)
       (ms_deletions s)"

definition dead_chunk_record :: "DeadChunkKind \<Rightarrow> Tombstone \<Rightarrow> DeadChunkRecord" where
  "dead_chunk_record kind t = \<lparr>dc_kind = kind, dc_captured_at = ts_deletion_time t, dc_hlc = ts_hlc t, dc_chunks = ts_chunks t\<rparr>"

definition list_dead_chunk_records_all :: "MetadataStore \<Rightarrow> (BucketId \<times> ObjectKey \<times> DeadChunkRecord) list" where
  "list_dead_chunk_records_all s =
     List.map_filter
       (\<lambda>(k, v). case decode_deletions_key k of
          Some (Plain b key) \<Rightarrow> map_option (\<lambda>t. (b, key, dead_chunk_record DeadTombstone t)) v
        | Some (Supersede b key _) \<Rightarrow> map_option (\<lambda>t. (b, key, dead_chunk_record DeadSupersede t)) v
        | None \<Rightarrow> None)
       (ms_deletions s)"

definition both_metadata_cfs_empty :: "MetadataStore \<Rightarrow> bool" where
  "both_metadata_cfs_empty s \<longleftrightarrow> ms_objects s = [] \<and> ms_deletions s = []"

section \<open>Writing\<close>

text \<open>What an overwrite captures: the chunks, the version they belonged to, and the time they died.\<close>

definition capture :: "int \<Rightarrow> Meta \<Rightarrow> Meta option \<Rightarrow> Tombstone option \<Rightarrow> Tombstone option" where
  "capture now meta existing plain_tombstone =
     (case (existing, plain_tombstone) of
        (Some prev, _) \<Rightarrow>
          if is_segment_stored prev \<and> meta_hlc prev < meta_hlc meta
          then Some \<lparr>ts_deletion_time = now, ts_hlc = meta_hlc prev, ts_chunks = chunks prev\<rparr> else None
      | (None, Some t) \<Rightarrow> if ts_chunks t \<noteq> [] then Some t else None
      | (None, None) \<Rightarrow> None)"

definition put_object_in_bucket :: "meta_io \<Rightarrow> int \<Rightarrow> BucketId \<Rightarrow> Meta \<Rightarrow> MetadataStore \<Rightarrow> (meta_error, unit) outcome \<times> MetadataStore" where
  "put_object_in_bucket io now bucket meta s =
     (let key = object_key meta; row_key = encode_object_key bucket key;
          existing = ok_flatten (get_object bucket key s); plain_tombstone = ok_flatten (get_tombstone bucket key s)
      in commit io [(JournalPut, row_key, meta_hlc meta)]
           (\<lambda>s. put_row row_key meta (delete_deletion row_key
              (case capture now meta existing plain_tombstone of
                 None \<Rightarrow> s
               | Some t \<Rightarrow> put_deletion (encode_supersede_key bucket key (ts_hlc t)) t s)))
           s)"

definition delete_object :: "meta_io \<Rightarrow> int \<Rightarrow> BucketId \<Rightarrow> ObjectKey \<Rightarrow> Hlc \<Rightarrow> MetadataStore \<Rightarrow> (meta_error, unit) outcome \<times> MetadataStore" where
  "delete_object io now bucket key hlc s =
     (let db_key = encode_object_key bucket key;
          cs = (case ok_flatten (get_object bucket key s) of None \<Rightarrow> [] | Some m \<Rightarrow> chunks m)
      in commit io [(JournalDelete, db_key, hlc)]
           (\<lambda>s. put_deletion db_key \<lparr>ts_deletion_time = now, ts_hlc = hlc, ts_chunks = cs\<rparr> (delete_row db_key s)) s)"

definition put_tombstone :: "meta_io \<Rightarrow> BucketId \<Rightarrow> ObjectKey \<Rightarrow> Tombstone \<Rightarrow> MetadataStore \<Rightarrow> (meta_error, unit) outcome \<times> MetadataStore" where
  "put_tombstone io bucket key t s = commit io [] (put_deletion (encode_object_key bucket key) t) s"

definition delete_tombstone :: "meta_io \<Rightarrow> BucketId \<Rightarrow> ObjectKey \<Rightarrow> MetadataStore \<Rightarrow> (meta_error, unit) outcome \<times> MetadataStore" where
  "delete_tombstone io bucket key s = commit io [] (delete_deletion (encode_object_key bucket key)) s"

definition delete_dead_chunk_record :: "meta_io \<Rightarrow> BucketId \<Rightarrow> ObjectKey \<Rightarrow> Hlc \<Rightarrow> MetadataStore \<Rightarrow> (meta_error, unit) outcome \<times> MetadataStore" where
  "delete_dead_chunk_record io bucket key version s = commit io [] (delete_deletion (encode_supersede_key bucket key version)) s"

section \<open>Rows pulled from peers\<close>

datatype LwwDecision = Apply | DecidedCurrent | DecidedLocal
datatype SyncApplyOutcome = Applied | AlreadyCurrent | LocalWins

definition object_identity_bytes :: "Meta \<Rightarrow> u8 list" where
  "object_identity_bytes meta =
     as_bytes ''oceanfs-meta-object-row-v1'' @ u64_to_le (size_bytes meta) @
     (case blake3_hash meta of Some h \<Rightarrow> [1] @ h | None \<Rightarrow> [0]) @
     (case inline_data meta of Some d \<Rightarrow> [1] @ u64_to_le (of_nat (length d)) @ d | None \<Rightarrow> [0]) @
     u64_to_le (wall_time (meta_hlc meta)) @ u32_to_le (logical (meta_hlc meta))"

definition object_identity_hash :: "(u8 list \<Rightarrow> u8 list) \<Rightarrow> Meta \<Rightarrow> u8 list" where
  "object_identity_hash blake3 meta = blake3 (object_identity_bytes meta)"

definition tombstone_identity_bytes :: "Tombstone \<Rightarrow> u8 list" where
  "tombstone_identity_bytes t = as_bytes ''oceanfs-meta-tombstone-v1'' @ u64_to_le (wall_time (ts_hlc t)) @ u32_to_le (logical (ts_hlc t))"

definition tombstone_identity_hash :: "(u8 list \<Rightarrow> u8 list) \<Rightarrow> Tombstone \<Rightarrow> u8 list" where
  "tombstone_identity_hash blake3 t = blake3 (tombstone_identity_bytes t)"

definition object_logically_equal :: "Meta \<Rightarrow> Meta \<Rightarrow> bool" where
  "object_logically_equal a b \<longleftrightarrow>
     size_bytes a = size_bytes b \<and> blake3_hash a = blake3_hash b \<and> inline_data a = inline_data b \<and> meta_hlc a = meta_hlc b"

definition decide_object :: "(u8 list \<Rightarrow> u8 list) \<Rightarrow> Meta \<Rightarrow> Meta option \<Rightarrow> Tombstone option \<Rightarrow> LwwDecision" where
  "decide_object blake3 pulled local_row local_tombstone =
     (let against_row =
            (case local_row of
               None \<Rightarrow> Apply
             | Some row \<Rightarrow>
                 if meta_hlc pulled < meta_hlc row then DecidedLocal
                 else if meta_hlc pulled = meta_hlc row then
                   if object_logically_equal pulled row then DecidedCurrent
                   else if object_identity_hash blake3 pulled \<le> object_identity_hash blake3 row then DecidedLocal
                   else Apply
                 else Apply)
      in case local_tombstone of
           None \<Rightarrow> against_row
         | Some t \<Rightarrow>
             if meta_hlc pulled < ts_hlc t then DecidedLocal
             else if meta_hlc pulled = ts_hlc t \<and> object_identity_hash blake3 pulled \<le> tombstone_identity_hash blake3 t then DecidedLocal
             else against_row)"

definition apply_after_row_check :: "(u8 list \<Rightarrow> u8 list) \<Rightarrow> Tombstone \<Rightarrow> Meta option \<Rightarrow> LwwDecision" where
  "apply_after_row_check blake3 pulled local_row =
     (case local_row of
        None \<Rightarrow> Apply
      | Some row \<Rightarrow>
          if ts_hlc pulled < meta_hlc row then DecidedLocal
          else if ts_hlc pulled = meta_hlc row \<and> tombstone_identity_hash blake3 pulled \<le> object_identity_hash blake3 row then DecidedLocal
          else Apply)"

definition decide_tombstone :: "(u8 list \<Rightarrow> u8 list) \<Rightarrow> Tombstone \<Rightarrow> Meta option \<Rightarrow> Tombstone option \<Rightarrow> LwwDecision" where
  "decide_tombstone blake3 pulled local_row local_tombstone =
     (case local_tombstone of
        Some t \<Rightarrow>
          if ts_hlc pulled < ts_hlc t then DecidedLocal
          else if ts_hlc pulled = ts_hlc t then DecidedCurrent
          else apply_after_row_check blake3 pulled local_row
      | None \<Rightarrow> apply_after_row_check blake3 pulled local_row)"

text \<open>The write that an apply makes, with its error.\<close>

definition decided ::
  "LwwDecision \<Rightarrow> (meta_error, unit) outcome \<times> MetadataStore \<Rightarrow> MetadataStore \<Rightarrow> (meta_error, SyncApplyOutcome) outcome \<times> MetadataStore" where
  "decided d written s =
     (case d of
        Apply \<Rightarrow> (bind_outcome (fst written) (\<lambda>_. Ok Applied), snd written)
      | DecidedCurrent \<Rightarrow> (Ok AlreadyCurrent, s)
      | DecidedLocal \<Rightarrow> (Ok LocalWins, s))"

definition sync_apply_object ::
  "(u8 list \<Rightarrow> u8 list) \<Rightarrow> meta_io \<Rightarrow> int \<Rightarrow> BucketId \<Rightarrow> Meta \<Rightarrow> MetadataStore \<Rightarrow> (meta_error, SyncApplyOutcome) outcome \<times> MetadataStore" where
  "sync_apply_object blake3 io now bucket meta s =
     (let local_row = ok_flatten (get_object bucket (object_key meta) s);
          local_tombstone = ok_flatten (get_tombstone bucket (object_key meta) s)
      in decided (decide_object blake3 meta local_row local_tombstone) (put_object_in_bucket io now bucket meta s) s)"

definition apply_tombstone_row ::
  "meta_io \<Rightarrow> int \<Rightarrow> BucketId \<Rightarrow> ObjectKey \<Rightarrow> Tombstone \<Rightarrow> Meta option \<Rightarrow> MetadataStore \<Rightarrow> (meta_error, unit) outcome \<times> MetadataStore" where
  "apply_tombstone_row io now bucket key t local_row s =
     (let row_key = encode_object_key bucket key
      in commit io [(JournalDelete, row_key, ts_hlc t)]
           (\<lambda>s. put_deletion row_key t (delete_row row_key
              (case local_row of
                 Some row \<Rightarrow>
                   if is_segment_stored row
                   then put_deletion (encode_supersede_key bucket key (meta_hlc row))
                          \<lparr>ts_deletion_time = now, ts_hlc = meta_hlc row, ts_chunks = chunks row\<rparr> s
                   else s
               | None \<Rightarrow> s)))
           s)"

definition sync_apply_tombstone ::
  "(u8 list \<Rightarrow> u8 list) \<Rightarrow> meta_io \<Rightarrow> int \<Rightarrow> BucketId \<Rightarrow> ObjectKey \<Rightarrow> Tombstone \<Rightarrow> MetadataStore \<Rightarrow>
   (meta_error, SyncApplyOutcome) outcome \<times> MetadataStore" where
  "sync_apply_tombstone blake3 io now bucket key t s =
     (let local_row = ok_flatten (get_object bucket key s); local_tombstone = ok_flatten (get_tombstone bucket key s)
      in decided (decide_tombstone blake3 t local_row local_tombstone) (apply_tombstone_row io now bucket key t local_row s) s)"

section \<open>Batches\<close>

datatype BatchOp =
    PutObject BucketId ObjectKey Meta
  | DeleteObject BucketId ObjectKey
  | PutTombstone BucketId ObjectKey Tombstone
  | DeleteTombstone BucketId ObjectKey

text \<open>The change record of an operation, decided on the rows before the batch, and its effect.\<close>

fun batch_entry :: "MetadataStore \<Rightarrow> BatchOp \<Rightarrow> journal_entry list" where
  "batch_entry s (PutObject bucket key value) =
     (if (case ok_flatten (get_object bucket key s) of None \<Rightarrow> True | Some previous \<Rightarrow> \<not> object_logically_equal previous value)
      then [(JournalPut, encode_object_key bucket key, meta_hlc value)] else [])"
| "batch_entry s (DeleteObject bucket key) =
     (case ok_flatten (get_object bucket key s) of
        None \<Rightarrow> [] | Some previous \<Rightarrow> [(JournalDelete, encode_object_key bucket key, meta_hlc previous)])"
| "batch_entry s (PutTombstone bucket key t) =
     (if (case ok_flatten (get_tombstone bucket key s) of None \<Rightarrow> True | Some previous \<Rightarrow> ts_hlc previous \<noteq> ts_hlc t)
      then [(JournalDelete, encode_object_key bucket key, ts_hlc t)] else [])"
| "batch_entry s (DeleteTombstone bucket key) = []"

fun batch_effect :: "BatchOp \<Rightarrow> MetadataStore \<Rightarrow> MetadataStore" where
  "batch_effect (PutObject bucket key value) = put_row (encode_object_key bucket key) value"
| "batch_effect (DeleteObject bucket key) = delete_row (encode_object_key bucket key)"
| "batch_effect (PutTombstone bucket key t) = put_deletion (encode_object_key bucket key) t"
| "batch_effect (DeleteTombstone bucket key) = delete_deletion (encode_object_key bucket key)"

definition batch_write :: "meta_io \<Rightarrow> BatchOp list \<Rightarrow> MetadataStore \<Rightarrow> (meta_error, unit) outcome \<times> MetadataStore" where
  "batch_write io ops s = commit io (concat (map (batch_entry s) ops)) (fold batch_effect ops) s"

section \<open>Rebuilding a store\<close>

text \<open>Rows streamed by peers: raw keys with values that may not decode.\<close>

definition rebuild_apply_object_row :: "meta_io \<Rightarrow> u8 list \<Rightarrow> Meta option \<Rightarrow> MetadataStore \<Rightarrow> (meta_error, bool) outcome \<times> MetadataStore" where
  "rebuild_apply_object_row io row_key decoded_value s =
     (case decoded_value of
        None \<Rightarrow> (Ok False, s)
      | Some meta \<Rightarrow>
          if (case map_of (ms_deletions s) row_key of
                None \<Rightarrow> False | Some None \<Rightarrow> True | Some (Some t) \<Rightarrow> meta_hlc meta \<le> ts_hlc t)
          then (Ok False, s)
          else if (case map_of (ms_objects s) row_key of Some (Some m) \<Rightarrow> meta_hlc meta \<le> meta_hlc m | _ \<Rightarrow> False)
          then (Ok False, s)
          else (case commit io [(JournalPut, row_key, meta_hlc meta)] (\<lambda>s. put_row row_key meta (delete_deletion row_key s)) s of
                  (r, s) \<Rightarrow> (bind_outcome r (\<lambda>_. Ok True), s)))"

definition rebuild_apply_deletion_row :: "meta_io \<Rightarrow> u8 list \<Rightarrow> Tombstone option \<Rightarrow> MetadataStore \<Rightarrow> (meta_error, bool) outcome \<times> MetadataStore" where
  "rebuild_apply_deletion_row io row_key decoded_value s =
     (case decoded_value of
        None \<Rightarrow> (Ok False, s)
      | Some t \<Rightarrow>
          (case decode_deletions_key row_key of
             Some (Supersede _ _ _) \<Rightarrow>
               (case commit io [] (put_deletion row_key t) s of (r, s) \<Rightarrow> (bind_outcome r (\<lambda>_. Ok True), s))
           | _ \<Rightarrow>
               if (case map_of (ms_objects s) row_key of Some (Some m) \<Rightarrow> ts_hlc t \<le> meta_hlc m | _ \<Rightarrow> False)
               then (Ok False, s)
               else (case commit io [(JournalDelete, row_key, ts_hlc t)] (\<lambda>s. put_deletion row_key t (delete_row row_key s)) s of
                       (r, s) \<Rightarrow> (bind_outcome r (\<lambda>_. Ok True), s))))"

end
