(* ===== verification/MetaSync.thy ===== *)
theory MetaSync
  imports MetaStore
begin

text \<open>
  Replicas that apply the same pulled rows converge: the last-write-wins decisions of the metadata store keep the greatest version by
  timestamp and identity hash, so neither the order in which rows and tombstones arrive nor repetitions matter.  Rebuilding a store
  from streamed rows does not have this property.
\<close>

section \<open>Versions of a key\<close>

datatype version = Row Meta | Gone Tombstone

fun v_hlc :: "version \<Rightarrow> Hlc" where
  "v_hlc (Row m) = meta_hlc m"
| "v_hlc (Gone t) = ts_hlc t"

fun v_bytes :: "version \<Rightarrow> u8 list" where
  "v_bytes (Row m) = object_identity_bytes m"
| "v_bytes (Gone t) = tombstone_identity_bytes t"

text \<open>What two replicas must agree on: content and version, not the places of the chunks.\<close>

fun logical_id :: "version \<Rightarrow> (u64 \<times> u8 list option \<times> u8 list option \<times> Hlc) + Hlc" where
  "logical_id (Row m) = Inl (size_bytes m, blake3_hash m, inline_data m, meta_hlc m)"
| "logical_id (Gone t) = Inr (ts_hlc t)"

fun version_ok :: "version \<Rightarrow> bool" where
  "version_ok (Row m) \<longleftrightarrow> (case blake3_hash m of None \<Rightarrow> True | Some h \<Rightarrow> length h = 32)"
| "version_ok (Gone t) \<longleftrightarrow> True"

text \<open>The order of the decisions.\<close>

definition beats :: "(u8 list \<Rightarrow> u8 list) \<Rightarrow> version \<Rightarrow> version \<Rightarrow> bool" where
  "beats blake3 v w \<longleftrightarrow> v_hlc w < v_hlc v \<or> v_hlc w = v_hlc v \<and> blake3 (v_bytes w) < blake3 (v_bytes v)"

definition current :: "BucketId \<Rightarrow> ObjectKey \<Rightarrow> MetadataStore \<Rightarrow> version option" where
  "current b k s =
     (case ok_flatten (get_object b k s) of
        Some m \<Rightarrow> Some (Row m)
      | None \<Rightarrow> map_option Gone (ok_flatten (get_tombstone b k s)))"

text \<open>At most one of the row and the tombstone of a key is there.\<close>

definition settled :: "BucketId \<Rightarrow> ObjectKey \<Rightarrow> MetadataStore \<Rightarrow> bool" where
  "settled b k s \<longleftrightarrow> bt_wf (ms_objects s) \<and> bt_wf (ms_deletions s) \<and>
     (ok_flatten (get_object b k s) = None \<or> ok_flatten (get_tombstone b k s) = None)"

definition good_io :: meta_io where "good_io = \<lparr>mi_journal = True, mi_write = True\<rparr>"

definition sync_apply :: "(u8 list \<Rightarrow> u8 list) \<Rightarrow> int \<Rightarrow> BucketId \<Rightarrow> ObjectKey \<Rightarrow> version \<Rightarrow> MetadataStore \<Rightarrow> MetadataStore" where
  "sync_apply blake3 now b k v s =
     (case v of
        Row m \<Rightarrow> snd (sync_apply_object blake3 good_io now b m s)
      | Gone t \<Rightarrow> snd (sync_apply_tombstone blake3 good_io now b k t s))"

section \<open>The identity of a version\<close>

lemma u64_to_le_inject [simp]: "u64_to_le a = u64_to_le b \<longleftrightarrow> a = b"
  by (metis u64_le_round_trip)

lemma u32_to_le_inject [simp]: "u32_to_le a = u32_to_le b \<longleftrightarrow> a = b"
  by (metis u32_le_round_trip)

lemma take_as_bytes: "take n (as_bytes s) = as_bytes (take n s)"
  by (simp add: as_bytes_def take_map)

lemma append_eq_same_suffix: "xs @ ys = xs' @ ys' \<Longrightarrow> length ys = length ys' \<Longrightarrow> xs = xs' \<and> ys = ys'"
  by (metis append_eq_append_conv)

lemma object_identity_inj:
  assumes "version_ok (Row m)" "version_ok (Row n)" "object_identity_bytes m = object_identity_bytes n"
  shows "object_logically_equal m n"
proof -
  let ?h = "\<lambda>m :: Meta. case blake3_hash m of Some h \<Rightarrow> [1 :: u8] @ h | None \<Rightarrow> [0]"
  let ?i = "\<lambda>m :: Meta. case inline_data m of Some d \<Rightarrow> [1 :: u8] @ u64_to_le (of_nat (length d)) @ d | None \<Rightarrow> [0]"
  let ?t = "\<lambda>m :: Meta. u64_to_le (wall_time (meta_hlc m)) @ u32_to_le (logical (meta_hlc m))"
  have "u64_to_le (size_bytes m) @ (?h m @ ?i m) @ ?t m = u64_to_le (size_bytes n) @ (?h n @ ?i n) @ ?t n"
    using assms(3) unfolding object_identity_bytes_def by simp
  then have size: "size_bytes m = size_bytes n" and rest: "(?h m @ ?i m) @ ?t m = (?h n @ ?i n) @ ?t n"
    by (simp_all only: append_eq_append_conv length_u64_to_le u64_to_le_inject simp_thms)
  have "?h m @ ?i m = ?h n @ ?i n" "?t m = ?t n" using append_eq_same_suffix[OF rest] by simp_all
  then have "blake3_hash m = blake3_hash n \<and> ?i m = ?i n" "meta_hlc m = meta_hlc n"
    using assms(1,2) by (auto split: option.splits simp: Hlc.expand)
  moreover from this(1) have "inline_data m = inline_data n" by (auto split: option.splits)
  ultimately show ?thesis using size by (simp add: object_logically_equal_def)
qed

lemma identity_tags: "object_identity_bytes m \<noteq> tombstone_identity_bytes t"
proof
  let ?o = "''oceanfs-meta-object-row-v1''" and ?g = "''oceanfs-meta-tombstone-v1''"
  assume "object_identity_bytes m = tombstone_identity_bytes t"
  then have "take 25 (object_identity_bytes m) = take 25 (tombstone_identity_bytes t)" by simp
  moreover have "take 25 (object_identity_bytes m) = as_bytes (take 25 ?o)" "take 25 (tombstone_identity_bytes t) = as_bytes ?g"
    unfolding object_identity_bytes_def tombstone_identity_bytes_def by (simp_all add: take_as_bytes)
  ultimately have "take 25 ?o = ?g" by (simp only: as_bytes_eq_iff)
  then show False by simp
qed

lemma tombstone_identity_inj: "tombstone_identity_bytes t = tombstone_identity_bytes u \<longleftrightarrow> ts_hlc t = ts_hlc u"
  by (auto simp: tombstone_identity_bytes_def Hlc.expand)

lemma v_bytes_logical: "version_ok v \<Longrightarrow> version_ok w \<Longrightarrow> v_bytes v = v_bytes w \<Longrightarrow> logical_id v = logical_id w"
proof (cases v; cases w)
  fix m n assume "version_ok v" "version_ok w" "v_bytes v = v_bytes w" "v = Row m" "w = Row n"
  then show ?thesis using object_identity_inj[of m n] by (simp add: object_logically_equal_def)
next
  fix m t assume "v_bytes v = v_bytes w" "v = Row m" "w = Gone t"
  then show ?thesis using identity_tags[of m t] by simp
next
  fix t m assume "v_bytes v = v_bytes w" "v = Gone t" "w = Row m"
  then show ?thesis using identity_tags[of m t] by simp
qed (simp add: tombstone_identity_inj)

lemma logical_id_hlc: "logical_id v = logical_id w \<Longrightarrow> v_hlc v = v_hlc w"
  by (cases v; cases w) auto

lemma logical_id_bytes: "logical_id v = logical_id w \<Longrightarrow> v_bytes v = v_bytes w"
  by (cases v; cases w) (auto simp: object_identity_bytes_def tombstone_identity_inj)

section \<open>Applying a version\<close>

definition journaled :: "journal_entry list \<Rightarrow> MetadataStore \<Rightarrow> MetadataStore" where
  "journaled items s = (case ms_journal s of None \<Rightarrow> s | Some js \<Rightarrow> if items = [] then s else s\<lparr>ms_journal := Some (js @ items)\<rparr>)"

lemma journaled_rows [simp]: "ms_objects (journaled items s) = ms_objects s" "ms_deletions (journaled items s) = ms_deletions s"
  by (simp_all add: journaled_def split: option.splits)

lemma commit_good: "commit good_io items batch s = (Ok (), batch (journaled items s))"
  by (simp add: commit_def journal_append_batch_def good_io_def journaled_def split: option.splits)

lemma supersede_not_plain: "encode_supersede_key b k v \<noteq> encode_object_key b k"
  by (simp add: encode_supersede_key_def encode_object_key_def) (metis length_supersede_tail SUPERSEDE_TAIL_SIZE_def append_self_conv add_is_0 list.size(3) zero_neq_one)

lemma put_current:
  assumes "settled b (object_key m) s"
  shows "current b (object_key m) (snd (put_object_in_bucket good_io now b m s)) = Some (Row m) \<and> settled b (object_key m) (snd (put_object_in_bucket good_io now b m s))"
  using assms supersede_not_plain
  by (auto simp: put_object_in_bucket_def commit_good current_def settled_def get_object_def get_tombstone_def put_row_def delete_deletion_def
      put_deletion_def Let_def bt.get_ins bt.get_del bt.wf_ins bt.wf_del map_of_bt_insert map_of_bt_remove split: option.splits)

lemma tombstone_current:
  assumes "settled b k s"
  shows "current b k (snd (apply_tombstone_row good_io now b k t row s)) = Some (Gone t) \<and> settled b k (snd (apply_tombstone_row good_io now b k t row s))"
  using assms supersede_not_plain
  by (auto simp: apply_tombstone_row_def commit_good current_def settled_def get_object_def get_tombstone_def put_deletion_def delete_row_def
      Let_def bt.wf_ins bt.wf_del map_of_bt_insert map_of_bt_remove split: option.splits)

fun version_key :: "ObjectKey \<Rightarrow> version \<Rightarrow> bool" where
  "version_key k (Row m) \<longleftrightarrow> object_key m = k"
| "version_key k (Gone t) \<longleftrightarrow> True"

lemma not_beats_same: "logical_id v = logical_id w \<Longrightarrow> \<not> beats h v w"
  using logical_id_hlc[of v w] logical_id_bytes[of v w] by (simp add: beats_def)

lemma decide_object_beats:
  assumes "w = None \<Longrightarrow> row = None \<and> tomb = None"
    and "\<And>r. w = Some (Row r) \<Longrightarrow> row = Some r \<and> tomb = None" and "\<And>t. w = Some (Gone t) \<Longrightarrow> row = None \<and> tomb = Some t"
  shows "decide_object h m row tomb = Apply \<longleftrightarrow> (case w of None \<Rightarrow> True | Some w \<Rightarrow> beats h (Row m) w)"
proof (cases w)
  case (Some v)
  show ?thesis
  proof (cases v)
    case (Row r)
    show ?thesis
    proof (cases "object_logically_equal m r")
      case True
      then show ?thesis using assms(2)[of r] Some Row not_beats_same[of "Row m" "Row r" h]
        by (simp add: decide_object_def object_logically_equal_def)
    next
      case False
      then show ?thesis using assms(2)[of r] Some Row
        by (auto simp: decide_object_def object_identity_hash_def beats_def not_less not_le)
    qed
  next
    case (Gone t)
    then show ?thesis using assms(3)[of t] Some
      by (auto simp: decide_object_def object_identity_hash_def tombstone_identity_hash_def beats_def not_less not_le)
  qed
qed (use assms(1) in \<open>simp add: decide_object_def\<close>)

lemma decide_tombstone_beats:
  assumes "w = None \<Longrightarrow> row = None \<and> tomb = None"
    and "\<And>r. w = Some (Row r) \<Longrightarrow> row = Some r \<and> tomb = None" and "\<And>t. w = Some (Gone t) \<Longrightarrow> row = None \<and> tomb = Some t"
  shows "decide_tombstone h t row tomb = Apply \<longleftrightarrow> (case w of None \<Rightarrow> True | Some w \<Rightarrow> beats h (Gone t) w)"
proof (cases w)
  case (Some v)
  show ?thesis
  proof (cases v)
    case (Row r)
    then show ?thesis using assms(2)[of r] Some
      by (auto simp: decide_tombstone_def apply_after_row_check_def object_identity_hash_def tombstone_identity_hash_def beats_def not_less not_le)
  next
    case (Gone u)
    have "tombstone_identity_bytes t = tombstone_identity_bytes u" if "ts_hlc t = ts_hlc u" using that by (simp add: tombstone_identity_inj)
    then show ?thesis using assms(3)[of u] Some Gone
      by (auto simp: decide_tombstone_def apply_after_row_check_def beats_def not_less not_le)
  qed
qed (use assms(1) in \<open>simp add: decide_tombstone_def apply_after_row_check_def\<close>)

lemma current_parts:
  assumes "settled b k s"
  shows "current b k s = None \<Longrightarrow> ok_flatten (get_object b k s) = None \<and> ok_flatten (get_tombstone b k s) = None"
    and "current b k s = Some (Row r) \<Longrightarrow> ok_flatten (get_object b k s) = Some r \<and> ok_flatten (get_tombstone b k s) = None"
    and "current b k s = Some (Gone t) \<Longrightarrow> ok_flatten (get_object b k s) = None \<and> ok_flatten (get_tombstone b k s) = Some t"
  using assms by (auto simp: current_def settled_def split: option.splits)

lemma sync_apply_current:
  assumes "settled b k s" "version_key k v"
  shows "settled b k (sync_apply h now b k v s) \<and>
    current b k (sync_apply h now b k v s) = (if (case current b k s of None \<Rightarrow> True | Some w \<Rightarrow> beats h v w) then Some v else current b k s)"
proof (cases v)
  case (Row m)
  have k: "object_key m = k" using assms(2) Row by simp
  let ?d = "decide_object h m (ok_flatten (get_object b k s)) (ok_flatten (get_tombstone b k s))"
  have d: "?d = Apply \<longleftrightarrow> (case current b k s of None \<Rightarrow> True | Some w \<Rightarrow> beats h v w)"
    unfolding Row by (rule decide_object_beats) (use current_parts[OF assms(1)] in auto)
  have e: "sync_apply h now b k v s = (if ?d = Apply then snd (put_object_in_bucket good_io now b m s) else s)"
    by (cases ?d) (simp_all add: sync_apply_def Row sync_apply_object_def decided_def k Let_def)
  have "current b k (snd (put_object_in_bucket good_io now b m s)) = Some (Row m) \<and> settled b k (snd (put_object_in_bucket good_io now b m s))"
    using put_current[of b m s now] assms(1) k by simp
  then show ?thesis unfolding e using d assms(1) Row by simp
next
  case (Gone t)
  let ?d = "decide_tombstone h t (ok_flatten (get_object b k s)) (ok_flatten (get_tombstone b k s))"
  have d: "?d = Apply \<longleftrightarrow> (case current b k s of None \<Rightarrow> True | Some w \<Rightarrow> beats h v w)"
    unfolding Gone by (rule decide_tombstone_beats) (use current_parts[OF assms(1)] in auto)
  have e: "sync_apply h now b k v s =
      (if ?d = Apply then snd (apply_tombstone_row good_io now b k t (ok_flatten (get_object b k s)) s) else s)"
    by (cases ?d) (simp_all add: sync_apply_def Gone sync_apply_tombstone_def decided_def Let_def)
  show ?thesis unfolding e using tombstone_current[OF assms(1)] assms(1) d Gone by simp
qed

section \<open>Convergence\<close>

lemma beats_chain: "beats h v w \<Longrightarrow> \<not> beats h u w \<Longrightarrow> \<not> beats h u v"
  by (auto simp: beats_def)

lemma beats_tie:
  assumes "\<not> beats h v w" "\<not> beats h w v"
  shows "h (v_bytes v) = h (v_bytes w)"
proof -
  have "v_hlc v = v_hlc w" using assms by (cases "v_hlc v" "v_hlc w" rule: linorder_cases) (simp_all add: beats_def)
  then show ?thesis using assms by (cases "h (v_bytes v)" "h (v_bytes w)" rule: linorder_cases) (simp_all add: beats_def)
qed

text \<open>The versions of a key that a replica knows: its own and those it pulls.\<close>

definition known_versions :: "BucketId \<Rightarrow> ObjectKey \<Rightarrow> MetadataStore \<Rightarrow> version list \<Rightarrow> version set" where
  "known_versions b k s vs = set_option (current b k s) \<union> set vs"

lemma fold_sync_apply:
  assumes "settled b k s" "\<forall>v \<in> set vs. version_key k v"
  shows "settled b k (fold (sync_apply h now b k) vs s) \<and>
    (case current b k (fold (sync_apply h now b k) vs s) of
       None \<Rightarrow> known_versions b k s vs = {}
     | Some w \<Rightarrow> w \<in> known_versions b k s vs \<and> (\<forall>v \<in> known_versions b k s vs. \<not> beats h v w))"
  using assms(2)
proof (induction vs rule: rev_induct)
  case Nil
  then show ?case using assms(1) by (cases "current b k s") (simp_all add: known_versions_def beats_def)
next
  case (snoc v vs)
  let ?s = "fold (sync_apply h now b k) vs s" and ?V = "known_versions b k s"
  have V: "?V (vs @ [v]) = insert v (?V vs)" by (simp add: known_versions_def)
  have IH: "settled b k ?s" "case current b k ?s of None \<Rightarrow> ?V vs = {} | Some w \<Rightarrow> w \<in> ?V vs \<and> (\<forall>v \<in> ?V vs. \<not> beats h v w)"
    using snoc by simp_all
  have a: "settled b k (sync_apply h now b k v ?s)"
      "current b k (sync_apply h now b k v ?s) = (if (case current b k ?s of None \<Rightarrow> True | Some w \<Rightarrow> beats h v w) then Some v else current b k ?s)"
    using sync_apply_current[OF IH(1), of v h now] snoc.prems by simp_all
  have irrefl: "\<not> beats h v v" by (simp add: beats_def)
  show ?case
  proof (cases "current b k ?s")
    case None
    then show ?thesis using IH(2) a irrefl unfolding V by simp
  next
    case (Some w)
    then show ?thesis using IH(2) a irrefl beats_chain[of h v w] unfolding V by auto
  qed
qed

lemma beats_logical: "logical_id v = logical_id v' \<Longrightarrow> beats h v w \<longleftrightarrow> beats h v' w"
  using logical_id_hlc[of v v'] logical_id_bytes[of v v'] by (simp add: beats_def)

text \<open>
  C9. Replicas that know the same versions of a key agree on it: if the version a replica holds and those it pulls are, up to the
  places of the chunks, the same for both replicas, then after each has applied what it pulled, whatever the order in which rows and
  tombstones arrived and however often, the content, the timestamp and whether the key is deleted are the same.  The hash has no
  collision among the versions, stored hashes have 32 bytes, each replica starts with a row or a tombstone of the key but not both,
  and its writes succeed.
\<close>

theorem sync_converges:
  assumes "logical_id ` known_versions b k s us = logical_id ` known_versions b k s' vs"
    and "\<forall>v \<in> known_versions b k s us \<union> known_versions b k s' vs. version_ok v" "\<forall>v \<in> set us \<union> set vs. version_key k v"
    and "inj_on blake3 (v_bytes ` (known_versions b k s us \<union> known_versions b k s' vs))"
    and "settled b k s" "settled b k s'"
  shows "map_option logical_id (current b k (fold (sync_apply blake3 now b k) us s)) =
    map_option logical_id (current b k (fold (sync_apply blake3 now' b k) vs s'))"
proof -
  let ?U = "known_versions b k s us" and ?V = "known_versions b k s' vs"
  have u: "case current b k (fold (sync_apply blake3 now b k) us s) of None \<Rightarrow> ?U = {} | Some w \<Rightarrow> w \<in> ?U \<and> (\<forall>v \<in> ?U. \<not> beats blake3 v w)"
    using fold_sync_apply[OF assms(5)] assms(3) by blast
  have v: "case current b k (fold (sync_apply blake3 now' b k) vs s') of None \<Rightarrow> ?V = {} | Some w \<Rightarrow> w \<in> ?V \<and> (\<forall>v \<in> ?V. \<not> beats blake3 v w)"
    using fold_sync_apply[OF assms(6)] assms(3) by blast
  have empty: "?U = {} \<longleftrightarrow> ?V = {}" using assms(1) by auto
  have agree: "logical_id w = logical_id w'"
    if w: "w \<in> ?U" "\<forall>v \<in> ?U. \<not> beats blake3 v w" and w': "w' \<in> ?V" "\<forall>v \<in> ?V. \<not> beats blake3 v w'" for w w'
  proof -
    have "logical_id w' \<in> logical_id ` ?U" "logical_id w \<in> logical_id ` ?V"
      using imageI[OF w'(1), of logical_id] imageI[OF w(1), of logical_id] unfolding assms(1) by simp_all
    then obtain x y where x: "x \<in> ?U" "logical_id x = logical_id w'" and y: "y \<in> ?V" "logical_id y = logical_id w" by (metis imageE)
    have "\<not> beats blake3 w' w" "\<not> beats blake3 w w'"
      using w(2) x w'(2) y beats_logical[OF x(2)] beats_logical[OF y(2)] by auto
    then have "blake3 (v_bytes w) = blake3 (v_bytes w')" by (intro beats_tie)
    then have "v_bytes w = v_bytes w'" using assms(4) w(1) w'(1) by (auto dest: inj_onD)
    then show ?thesis using v_bytes_logical assms(2) w(1) w'(1) by blast
  qed
  show ?thesis using u v empty agree by (auto split: option.splits)
qed

definition sample_row :: "u64 \<Rightarrow> u8 list \<Rightarrow> Meta" where
  "sample_row t data = \<lparr>object_key = ''k'', size_bytes = of_nat (length data), blake3_hash = None, chunks = [], inline_data = Some data, created_at = 0, meta_hlc = Hlc t 0\<rparr>"

definition sample_tombstone :: "u64 \<Rightarrow> Tombstone" where
  "sample_tombstone t = \<lparr>ts_deletion_time = 0, ts_hlc = Hlc t 0, ts_chunks = []\<rparr>"

definition empty_store :: MetadataStore where
  "empty_store = \<lparr>ms_objects = [], ms_deletions = [], ms_journal = None\<rparr>"

lemma empty_settled: "settled b k empty_store" "current b k empty_store = None"
  by (simp_all add: settled_def current_def empty_store_def bt_wf_def get_object_def get_tombstone_def)

theorem sync_converges_witness:
  "let r = Row (sample_row 1 [7]); r' = Row (sample_row 2 [8]); t = Gone (sample_tombstone 3);
       s = sync_apply (\<lambda>x. x) 0 ''b'' ''k'' r empty_store; s' = sync_apply (\<lambda>x. x) 0 ''b'' ''k'' t empty_store
   in map_option logical_id (current ''b'' ''k'' (fold (sync_apply (\<lambda>x. x) 1 ''b'' ''k'') [r', t] s)) =
      map_option logical_id (current ''b'' ''k'' (fold (sync_apply (\<lambda>x. x) 5 ''b'' ''k'') [r, r', r] s'))"
proof -
  let ?r = "Row (sample_row 1 [7])" and ?r' = "Row (sample_row 2 [8])" and ?t = "Gone (sample_tombstone 3)"
  let ?s = "sync_apply (\<lambda>x. x) 0 ''b'' ''k'' ?r empty_store" and ?s' = "sync_apply (\<lambda>x. x) 0 ''b'' ''k'' ?t empty_store"
  have k: "version_key ''k'' ?r" "version_key ''k'' ?r'" "version_key ''k'' ?t" by (simp_all add: sample_row_def)
  have s: "settled ''b'' ''k'' ?s" "current ''b'' ''k'' ?s = Some ?r" "settled ''b'' ''k'' ?s'" "current ''b'' ''k'' ?s' = Some ?t"
    using sync_apply_current[OF empty_settled(1) k(1), where b = "''b''" and h = "\<lambda>x. x" and now = 0]
      sync_apply_current[OF empty_settled(1) k(3), where b = "''b''" and h = "\<lambda>x. x" and now = 0]
    by (simp_all add: empty_settled(2))
  have V: "known_versions ''b'' ''k'' ?s [?r', ?t] = {?r, ?r', ?t}" "known_versions ''b'' ''k'' ?s' [?r, ?r', ?r] = {?r, ?r', ?t}"
    using s by (auto simp: known_versions_def)
  show ?thesis
    unfolding Let_def using k s
    by (intro sync_converges) (simp_all only: V, auto simp: sample_row_def)
qed

section \<open>Rebuilding from streamed rows\<close>

text \<open>
  C40. The rebuild does not compare a streamed tombstone with the one it has: an older tombstone replaces a newer one, and a row
  between the two, streamed afterwards, is applied, so a deleted object is back.
\<close>

theorem rebuild_revives_deleted_object:
  assumes "ts_hlc t < meta_hlc m" "meta_hlc m < ts_hlc t'" "decode_deletions_key rk = Some (Plain b k)"
  shows "let s = snd (rebuild_apply_deletion_row good_io rk (Some t') empty_store);
             s = snd (rebuild_apply_deletion_row good_io rk (Some t) s);
             (res, s) = rebuild_apply_object_row good_io rk (Some m) s
         in res = Ok True \<and> map_of (ms_objects s) rk = Some (Some m) \<and> map_of (ms_deletions s) rk = None"
  using assms by (simp add: rebuild_apply_deletion_row_def rebuild_apply_object_row_def commit_good put_deletion_def delete_row_def put_row_def
      delete_deletion_def empty_store_def Let_def)

theorem rebuild_revives_deleted_object_witness:
  "let rk = encode_object_key ''b'' ''k'';
       s = snd (rebuild_apply_deletion_row good_io rk (Some (sample_tombstone 10)) empty_store);
       s = snd (rebuild_apply_deletion_row good_io rk (Some (sample_tombstone 5)) s);
       (res, s) = rebuild_apply_object_row good_io rk (Some (sample_row 7 [1])) s
   in res = Ok True \<and> map_of (ms_objects s) rk = Some (Some (sample_row 7 [1])) \<and> map_of (ms_deletions s) rk = None"
proof -
  have "decode_deletions_key (encode_object_key ''b'' ''k'') = Some (Plain ''b'' ''k'')" by code_simp
  from rebuild_revives_deleted_object[OF _ _ this, of "sample_tombstone 5" "sample_row 7 [1]" "sample_tombstone 10"]
  show ?thesis by (simp add: sample_tombstone_def sample_row_def less_Hlc_def Let_def)
qed

end
