(* ===== verification/MetaCapture.thy ===== *)
theory MetaCapture
  imports MetaSync
begin

text \<open>
  The capture rule of the metadata store: a chunk that no live row references any more is recorded as dead in the same batch.  It holds
  as long as timestamps increase and a key that is already deleted is not deleted again; a second delete forgets the chunks.
\<close>

section \<open>Names and rows\<close>

text \<open>Names without zero bytes, for which the row keys of tombstones and superseded versions are all distinct.\<close>

definition name_ok :: "BucketId \<Rightarrow> ObjectKey \<Rightarrow> bool" where
  "name_ok b k \<longleftrightarrow> bucket_ok b \<and> is_text k \<and> 0 \<notin> set (as_bytes k) \<and> length k < 2 ^ 16"

lemma plain_key_iff: "name_ok b k \<Longrightarrow> name_ok b' k' \<Longrightarrow> encode_object_key b k = encode_object_key b' k' \<longleftrightarrow> b = b' \<and> k = k'"
  using encode_object_key_inj by (auto simp: name_ok_def)

lemma supersede_key_iff:
  assumes "name_ok b k" "name_ok b' k'"
  shows "encode_supersede_key b k v = encode_supersede_key b' k' v' \<longleftrightarrow> b = b' \<and> k = k' \<and> v = v'"
proof
  assume e: "encode_supersede_key b k v = encode_supersede_key b' k' v'"
  have "decode_deletions_key (encode_supersede_key b k v) = Some (Supersede b k v)"
      "decode_deletions_key (encode_supersede_key b' k' v') = Some (Supersede b' k' v')"
    using assms by (auto simp: name_ok_def intro!: supersede_key_round_trip)
  then show "b = b' \<and> k = k' \<and> v = v'" unfolding e by simp
qed simp

lemma plain_not_supersede:
  assumes "name_ok b k"
  shows "encode_object_key b k \<noteq> encode_supersede_key b' k' v"
proof
  assume e: "encode_object_key b k = encode_supersede_key b' k' v"
  have "filter ((=) 0) (as_bytes b) = []" "filter ((=) 0) (as_bytes k) = []"
    using assms by (auto simp: name_ok_def bucket_ok_def filter_empty_conv)
  then have "filter ((=) 0) (encode_object_key b k) = [0]" by (simp add: encode_object_key_def)
  moreover have "length (filter ((=) (0 :: u8)) (encode_supersede_key b' k' v)) \<ge> 2"
    by (simp add: encode_supersede_key_def supersede_tail_def)
  ultimately show False using e by simp
qed

definition row_of :: "BucketId \<Rightarrow> ObjectKey \<Rightarrow> MetadataStore \<Rightarrow> Meta option" where "row_of b k s = ok_flatten (get_object b k s)"
definition tomb_of :: "BucketId \<Rightarrow> ObjectKey \<Rightarrow> MetadataStore \<Rightarrow> Tombstone option" where "tomb_of b k s = ok_flatten (get_tombstone b k s)"
definition superseded :: "BucketId \<Rightarrow> ObjectKey \<Rightarrow> Hlc \<Rightarrow> MetadataStore \<Rightarrow> Tombstone option" where
  "superseded b k v s = Option.bind (map_of (ms_deletions s) (encode_supersede_key b k v)) (\<lambda>x. x)"

definition store_wf :: "MetadataStore \<Rightarrow> bool" where "store_wf s \<longleftrightarrow> bt_wf (ms_objects s) \<and> bt_wf (ms_deletions s)"

lemma put_rows:
  "ms_objects (snd (put_object_in_bucket good_io now b m s)) = bt_insert (encode_object_key b (object_key m)) (Some m) (ms_objects s)"
  "ms_deletions (snd (put_object_in_bucket good_io now b m s)) = bt_remove (encode_object_key b (object_key m))
     (case capture now m (row_of b (object_key m) s) (tomb_of b (object_key m) s) of
        None \<Rightarrow> ms_deletions s | Some t \<Rightarrow> bt_insert (encode_supersede_key b (object_key m) (ts_hlc t)) (Some t) (ms_deletions s))"
  by (simp_all add: put_object_in_bucket_def commit_good put_row_def delete_deletion_def put_deletion_def Let_def row_of_def tomb_of_def split: option.splits)

lemma delete_rows:
  "ms_objects (snd (delete_object good_io now b k h s)) = bt_remove (encode_object_key b k) (ms_objects s)"
  "ms_deletions (snd (delete_object good_io now b k h s)) = bt_insert (encode_object_key b k)
     (Some \<lparr>ts_deletion_time = now, ts_hlc = h, ts_chunks = (case row_of b k s of None \<Rightarrow> [] | Some m \<Rightarrow> chunks m)\<rparr>) (ms_deletions s)"
  by (simp_all add: delete_object_def commit_good put_deletion_def delete_row_def Let_def row_of_def)

lemma put_views:
  assumes "store_wf s" "name_ok b (object_key m)" "name_ok b' k'"
  shows "store_wf (snd (put_object_in_bucket good_io now b m s))"
    and "row_of b' k' (snd (put_object_in_bucket good_io now b m s)) = (if b' = b \<and> k' = object_key m then Some m else row_of b' k' s)"
    and "tomb_of b' k' (snd (put_object_in_bucket good_io now b m s)) = (if b' = b \<and> k' = object_key m then None else tomb_of b' k' s)"
    and "superseded b' k' v (snd (put_object_in_bucket good_io now b m s)) =
      (case capture now m (row_of b (object_key m) s) (tomb_of b (object_key m) s) of
         Some t \<Rightarrow> if b' = b \<and> k' = object_key m \<and> v = ts_hlc t then Some t else superseded b' k' v s
       | None \<Rightarrow> superseded b' k' v s)"
proof -
  let ?s = "snd (put_object_in_bucket good_io now b m s)" and ?c = "capture now m (row_of b (object_key m) s) (tomb_of b (object_key m) s)"
  have wf: "bt_wf (ms_objects s)" "bt_wf (ms_deletions s)" using assms(1) by (simp_all add: store_wf_def)
  have wfd: "bt_wf (case ?c of None \<Rightarrow> ms_deletions s | Some t \<Rightarrow> bt_insert (encode_supersede_key b (object_key m) (ts_hlc t)) (Some t) (ms_deletions s))"
    using wf(2) by (simp add: bt_wf_insert split: option.splits)
  show "store_wf ?s" using wf wfd by (simp add: store_wf_def put_rows bt_wf_insert bt_wf_remove)
  show "row_of b' k' ?s = (if b' = b \<and> k' = object_key m then Some m else row_of b' k' s)"
    using plain_key_iff[OF assms(3,2)] by (simp add: row_of_def get_object_def put_rows map_of_bt_insert)
  show "tomb_of b' k' ?s = (if b' = b \<and> k' = object_key m then None else tomb_of b' k' s)"
    using plain_key_iff[OF assms(3,2)] plain_not_supersede[OF assms(3)] map_of_bt_remove[OF wfd]
    by (simp add: tomb_of_def[of b' k'] get_tombstone_def put_rows map_of_bt_insert split: option.splits)
  show "superseded b' k' v ?s =
      (case ?c of Some t \<Rightarrow> if b' = b \<and> k' = object_key m \<and> v = ts_hlc t then Some t else superseded b' k' v s | None \<Rightarrow> superseded b' k' v s)"
    using supersede_key_iff[OF assms(3,2)] plain_not_supersede[OF assms(2), symmetric] map_of_bt_remove[OF wfd]
    by (simp add: superseded_def put_rows map_of_bt_insert split: option.splits)
qed

lemma delete_views:
  assumes "store_wf s" "name_ok b k" "name_ok b' k'"
  shows "store_wf (snd (delete_object good_io now b k h s))"
    and "row_of b' k' (snd (delete_object good_io now b k h s)) = (if b' = b \<and> k' = k then None else row_of b' k' s)"
    and "tomb_of b' k' (snd (delete_object good_io now b k h s)) =
      (if b' = b \<and> k' = k then Some \<lparr>ts_deletion_time = now, ts_hlc = h, ts_chunks = (case row_of b k s of None \<Rightarrow> [] | Some m \<Rightarrow> chunks m)\<rparr>
       else tomb_of b' k' s)"
    and "superseded b' k' v (snd (delete_object good_io now b k h s)) = superseded b' k' v s"
  using assms plain_not_supersede[OF assms(2), symmetric] plain_key_iff[OF assms(3,2)]
  by (auto simp: store_wf_def tomb_of_def superseded_def get_object_def get_tombstone_def delete_rows bt_wf_insert bt_wf_remove
      map_of_bt_insert map_of_bt_remove row_of_def[of b' k' "snd (delete_object good_io now b k h s)"] row_of_def[of b' k' s] split: option.splits)

section \<open>Accounting\<close>

definition live_chunks :: "BucketId \<Rightarrow> ObjectKey \<Rightarrow> MetadataStore \<Rightarrow> Chunk set" where
  "live_chunks b k s = (case row_of b k s of None \<Rightarrow> {} | Some m \<Rightarrow> set (chunks m))"

definition dead_chunks :: "BucketId \<Rightarrow> ObjectKey \<Rightarrow> MetadataStore \<Rightarrow> Chunk set" where
  "dead_chunks b k s = (case tomb_of b k s of None \<Rightarrow> {} | Some t \<Rightarrow> set (ts_chunks t)) \<union>
     (\<Union>v. case superseded b k v s of None \<Rightarrow> {} | Some t \<Rightarrow> set (ts_chunks t))"

text \<open>
  Client operations on a node: the timestamps of a key increase, as those of one clock do, and a key whose tombstone holds chunks is
  not deleted again.  The state carries the latest timestamp of each key and the chunks ever written to it.
\<close>

type_synonym capture_state = "MetadataStore \<times> (BucketId \<times> ObjectKey \<Rightarrow> Hlc option) \<times> (BucketId \<times> ObjectKey \<Rightarrow> Chunk set)"

definition later :: "Hlc option \<Rightarrow> Hlc \<Rightarrow> bool" where "later latest h \<longleftrightarrow> (case latest of None \<Rightarrow> True | Some h' \<Rightarrow> h' < h)"

inductive capture_step :: "capture_state \<Rightarrow> capture_state \<Rightarrow> bool" where
  Put: "name_ok b (object_key m) \<Longrightarrow> later (latest (b, object_key m)) (meta_hlc m) \<Longrightarrow>
    capture_step (s, latest, ever) (snd (put_object_in_bucket good_io now b m s), latest((b, object_key m) := Some (meta_hlc m)),
      ever((b, object_key m) := ever (b, object_key m) \<union> set (chunks m)))"
| Delete: "name_ok b k \<Longrightarrow> later (latest (b, k)) h \<Longrightarrow> (case tomb_of b k s of None \<Rightarrow> True | Some t \<Rightarrow> ts_chunks t = []) \<Longrightarrow>
    capture_step (s, latest, ever) (snd (delete_object good_io now b k h s), latest((b, k) := Some h), ever)"

definition key_inv :: "BucketId \<Rightarrow> ObjectKey \<Rightarrow> MetadataStore \<Rightarrow> Hlc option \<Rightarrow> Chunk set \<Rightarrow> bool" where
  "key_inv b k s latest ever \<longleftrightarrow>
     (row_of b k s = None \<or> tomb_of b k s = None) \<and>
     (\<forall>m. row_of b k s = Some m \<longrightarrow> latest = Some (meta_hlc m)) \<and>
     (\<forall>t. tomb_of b k s = Some t \<longrightarrow> latest = Some (ts_hlc t)) \<and>
     (\<forall>v t. superseded b k v s = Some t \<longrightarrow> (\<exists>h. latest = Some h \<and> v < h)) \<and>
     ever \<subseteq> live_chunks b k s \<union> dead_chunks b k s"

fun capture_inv :: "capture_state \<Rightarrow> bool" where
  "capture_inv (s, latest, ever) \<longleftrightarrow> store_wf s \<and> (\<forall>b k. name_ok b k \<longrightarrow> key_inv b k s (latest (b, k)) (ever (b, k)))"

lemma key_inv_cong:
  "row_of b k s' = row_of b k s \<Longrightarrow> tomb_of b k s' = tomb_of b k s \<Longrightarrow> (\<And>v. superseded b k v s' = superseded b k v s) \<Longrightarrow>
   key_inv b k s latest ever \<Longrightarrow> key_inv b k s' latest ever"
  by (simp add: key_inv_def live_chunks_def dead_chunks_def)

lemma put_keeps_key:
  assumes "store_wf s" "name_ok b (object_key m)" "later latest (meta_hlc m)" "key_inv b (object_key m) s latest ever"
  shows "key_inv b (object_key m) (snd (put_object_in_bucket good_io now b m s)) (Some (meta_hlc m)) (ever \<union> set (chunks m))"
proof -
  let ?k = "object_key m" and ?s = "snd (put_object_in_bucket good_io now b m s)"
  let ?c = "capture now m (row_of b ?k s) (tomb_of b ?k s)"
  note views = put_views[OF assms(1,2,2), where now = now]
  have sup: "superseded b ?k v ?s = (case ?c of Some t \<Rightarrow> if v = ts_hlc t then Some t else superseded b ?k v s | None \<Rightarrow> superseded b ?k v s)" for v
    unfolding views(4) by (simp split: option.splits)
  have old: "\<exists>h. latest = Some h \<and> v < h" if "superseded b ?k v s = Some t" for v t using assms(4) that by (auto simp: key_inv_def)
  have cap: "latest = Some (ts_hlc t) \<and> set (ts_chunks t) = live_chunks b ?k s \<union> (case tomb_of b ?k s of None \<Rightarrow> {} | Some t \<Rightarrow> set (ts_chunks t))"
    if "?c = Some t" for t
    using that assms(4) by (auto simp: capture_def key_inv_def live_chunks_def split: option.splits if_splits)
  have nocap: "live_chunks b ?k s \<union> (case tomb_of b ?k s of None \<Rightarrow> {} | Some t \<Rightarrow> set (ts_chunks t)) = {}" if "?c = None"
    using that assms(3,4) by (auto simp: capture_def key_inv_def live_chunks_def is_segment_stored_def later_def split: option.splits if_splits)
  have lt: "v < meta_hlc m" if "superseded b ?k v ?s = Some t" for v t
  proof (cases "\<exists>u. ?c = Some u \<and> v = ts_hlc u")
    case True
    then show ?thesis using cap assms(3) by (auto simp: later_def)
  next
    case False
    then have "superseded b ?k v s = Some t" using that unfolding sup by (auto split: option.splits)
    then show ?thesis using old[of v t] assms(3) by (auto simp: later_def)
  qed
  have keep: "(case superseded b ?k v s of None \<Rightarrow> {} | Some t \<Rightarrow> set (ts_chunks t)) \<subseteq> (case superseded b ?k v ?s of None \<Rightarrow> {} | Some t \<Rightarrow> set (ts_chunks t))" for v
  proof (cases "superseded b ?k v s")
    case (Some t)
    have "v \<noteq> ts_hlc u" if "?c = Some u" for u using old[OF Some] cap[OF that] by auto
    then show ?thesis unfolding sup using Some by (auto split: option.splits)
  qed simp
  have "live_chunks b ?k s \<union> (case tomb_of b ?k s of None \<Rightarrow> {} | Some t \<Rightarrow> set (ts_chunks t)) \<subseteq> dead_chunks b ?k ?s"
  proof (cases ?c)
    case (Some t)
    then have "superseded b ?k (ts_hlc t) ?s = Some t" unfolding sup by simp
    then have "set (ts_chunks t) \<subseteq> (\<Union>v. case superseded b ?k v ?s of None \<Rightarrow> {} | Some t \<Rightarrow> set (ts_chunks t))"
      by (intro UN_upper[of "ts_hlc t" UNIV, THEN subset_trans[rotated]]) simp_all
    then show ?thesis using cap[OF Some] unfolding dead_chunks_def by blast
  qed (use nocap in simp)
  moreover have "(\<Union>v. case superseded b ?k v s of None \<Rightarrow> {} | Some t \<Rightarrow> set (ts_chunks t)) \<subseteq> dead_chunks b ?k ?s"
    unfolding dead_chunks_def using keep by blast
  moreover have "ever \<subseteq> live_chunks b ?k s \<union> dead_chunks b ?k s" using assms(4) by (simp add: key_inv_def)
  ultimately have "ever \<subseteq> dead_chunks b ?k ?s" unfolding dead_chunks_def[of b ?k s] by blast
  then show ?thesis using lt views(2,3) by (auto simp: key_inv_def live_chunks_def)
qed

lemma delete_keeps_key:
  assumes "store_wf s" "name_ok b k" "later latest h" "case tomb_of b k s of None \<Rightarrow> True | Some t \<Rightarrow> ts_chunks t = []" "key_inv b k s latest ever"
  shows "key_inv b k (snd (delete_object good_io now b k h s)) (Some h) ever"
proof -
  let ?s = "snd (delete_object good_io now b k h s)"
  note views = delete_views[OF assms(1,2,2), where now = now and h = h]
  have "live_chunks b k s \<union> dead_chunks b k s \<subseteq> dead_chunks b k ?s"
    using assms(4) by (auto simp: live_chunks_def dead_chunks_def views split: option.splits)
  moreover have "v < h" if "superseded b k v ?s = Some t" for v t
    using that assms(3,5) by (fastforce simp: views key_inv_def later_def)
  ultimately show ?thesis using assms(5) by (auto simp: key_inv_def views live_chunks_def)
qed

lemma capture_inv_step: "capture_step st st' \<Longrightarrow> capture_inv st \<Longrightarrow> capture_inv st'"
proof (induction rule: capture_step.induct)
  case (Put b m latest s ever now)
  then have wf: "store_wf s" by simp
  have "key_inv b' k' (snd (put_object_in_bucket good_io now b m s)) ((latest((b, object_key m) := Some (meta_hlc m))) (b', k'))
      ((ever((b, object_key m) := ever (b, object_key m) \<union> set (chunks m))) (b', k'))" if n: "name_ok b' k'" for b' k'
  proof (cases "b' = b \<and> k' = object_key m")
    case True
    then show ?thesis using put_keeps_key[OF wf Put(1,2)] Put(1,3) by simp
  next
    case False
    have "superseded b' k' v (snd (put_object_in_bucket good_io now b m s)) = superseded b' k' v s" for v
      unfolding put_views(4)[OF wf Put(1) n] using False by (auto split: option.splits)
    then show ?thesis
      using False Put(3) n put_views(2,3)[OF wf Put(1) n, where now = now] by (auto intro!: key_inv_cong[of _ _ "snd (put_object_in_bucket good_io now b m s)" s])
  qed
  then show ?case using put_views(1)[OF wf Put(1,1)] by simp
next
  case (Delete b k latest h s ever now)
  then have wf: "store_wf s" by simp
  have "key_inv b' k' (snd (delete_object good_io now b k h s)) ((latest((b, k) := Some h)) (b', k')) (ever (b', k'))" if n: "name_ok b' k'" for b' k'
  proof (cases "b' = b \<and> k' = k")
    case True
    then show ?thesis using delete_keeps_key[OF wf Delete(1,2,3)] Delete(1,4) by simp
  next
    case False
    then show ?thesis
      using Delete(4) n delete_views(2,3,4)[OF wf Delete(1) n, where now = now and h = h] by (auto intro!: key_inv_cong[of _ _ "snd (delete_object good_io now b k h s)" s])
  qed
  then show ?case using delete_views(1)[OF wf Delete(1,1)] by simp
qed

lemma capture_inv_run: "capture_step\<^sup>*\<^sup>* st st' \<Longrightarrow> capture_inv st \<Longrightarrow> capture_inv st'"
  by (induction rule: rtranclp_induct) (blast intro: capture_inv_step)+

lemma capture_inv_init: "capture_inv (empty_store, \<lambda>_. None, \<lambda>_. {})"
  by (simp add: empty_store_def store_wf_def bt_wf_def key_inv_def row_of_def tomb_of_def superseded_def get_object_def get_tombstone_def)

text \<open>
  C10. No chunk is leaked by overwrites and deletes: after any sequence of puts and deletes that succeed, of any keys whose names have
  no zero byte and fewer than 2^16 bytes, with timestamps that increase per key and no delete of a key whose tombstone still holds
  chunks, every chunk ever written to a key is referenced by the live row of the key, by its tombstone, or by the record of a
  superseded version, where the garbage collector finds it.
\<close>

theorem chunks_accounted:
  assumes "capture_step\<^sup>*\<^sup>* (empty_store, \<lambda>_. None, \<lambda>_. {}) (s, latest, ever)" "name_ok b k"
  shows "ever (b, k) \<subseteq> live_chunks b k s \<union> dead_chunks b k s"
  using capture_inv_run[OF assms(1) capture_inv_init] assms(2) by (simp add: key_inv_def)

definition sample_chunk :: Chunk where
  "sample_chunk = \<lparr>segment_id = [1], offset = 0, length_stored = 4, compressed = False, logical_length = 4\<rparr>"

definition stored_row :: "u64 \<Rightarrow> Meta" where "stored_row t = (sample_row t [])\<lparr>chunks := [sample_chunk], inline_data := None\<rparr>"

lemma sample_name_ok: "name_ok ''b'' ''k''"
proof -
  have "is_text ''b''" "is_text ''k''" "0 \<notin> set (as_bytes ''b'')" "0 \<notin> set (as_bytes ''k'')" by code_simp+
  then show ?thesis by (simp add: name_ok_def bucket_ok_def)
qed

theorem chunks_accounted_witness:
  "let s = snd (put_object_in_bucket good_io 0 ''b'' (stored_row 1) empty_store); s = snd (delete_object good_io 1 ''b'' ''k'' (Hlc 2 0) s)
   in {sample_chunk} \<subseteq> live_chunks ''b'' ''k'' s \<union> dead_chunks ''b'' ''k'' s"
proof -
  let ?i = "(empty_store, \<lambda>_. None, \<lambda>_. {}) :: capture_state" and ?s = "snd (put_object_in_bucket good_io 0 ''b'' (stored_row 1) empty_store)"
  have k: "object_key (stored_row 1) = ''k''" "chunks (stored_row 1) = [sample_chunk]" by (simp_all add: stored_row_def sample_row_def)
  have n: "name_ok ''b'' (object_key (stored_row 1))" using sample_name_ok by (simp add: k)
  have wf: "store_wf empty_store" using capture_inv_init by simp
  have "capture_step ?i (?s, (\<lambda>_. None)((''b'', ''k'') := Some (meta_hlc (stored_row 1))), (\<lambda>_. {})((''b'', ''k'') := {sample_chunk}))"
    using capture_step.Put[OF n, of "\<lambda>_. None" empty_store "\<lambda>_. {}" 0] by (simp add: k later_def)
  moreover have "tomb_of ''b'' ''k'' ?s = None" using put_views(3)[OF wf n n, where now = 0] by (simp add: k)
  then have "capture_step (?s, (\<lambda>_. None)((''b'', ''k'') := Some (meta_hlc (stored_row 1))), (\<lambda>_. {})((''b'', ''k'') := {sample_chunk}))
      (snd (delete_object good_io 1 ''b'' ''k'' (Hlc 2 0) ?s), (\<lambda>_. None)((''b'', ''k'') := Some (meta_hlc (stored_row 1)), (''b'', ''k'') := Some (Hlc 2 0)), (\<lambda>_. {})((''b'', ''k'') := {sample_chunk}))"
    by (intro capture_step.Delete sample_name_ok) (simp_all add: later_def stored_row_def sample_row_def less_Hlc_def)
  ultimately have "capture_step\<^sup>*\<^sup>* ?i
      (snd (delete_object good_io 1 ''b'' ''k'' (Hlc 2 0) ?s), (\<lambda>_. None)((''b'', ''k'') := Some (meta_hlc (stored_row 1)), (''b'', ''k'') := Some (Hlc 2 0)), (\<lambda>_. {})((''b'', ''k'') := {sample_chunk}))"
    by (meson rtranclp.rtrancl_into_rtrancl rtranclp.rtrancl_refl)
  from chunks_accounted[OF this sample_name_ok] show ?thesis by (simp add: Let_def)
qed

section \<open>The second delete\<close>

text \<open>
  C39. A delete of a key that is already deleted takes the chunks of its new tombstone from the live row, of which there is none, and
  overwrites the tombstone that held the chunks: after a put and two deletes nothing in the store refers to the chunks of the object, so
  they are never collected.
\<close>

theorem second_delete_forgets_chunks:
  assumes "store_wf s" "name_ok b k" "\<And>v. superseded b k v s = None"
  shows "let s1 = snd (delete_object good_io now b k h s); s2 = snd (delete_object good_io now' b k h' s1)
         in live_chunks b k s \<subseteq> dead_chunks b k s1 \<and> live_chunks b k s2 = {} \<and> dead_chunks b k s2 = {}"
proof -
  note v1 = delete_views[OF assms(1,2,2), where now = now and h = h]
  note v2 = delete_views[OF v1(1) assms(2,2), where now = now' and h = h']
  show ?thesis using assms(3) by (simp add: Let_def live_chunks_def dead_chunks_def v1 v2 split: option.splits)
qed

theorem second_delete_forgets_chunks_witness:
  "let s = snd (put_object_in_bucket good_io 0 ''b'' (stored_row 1) empty_store);
       s1 = snd (delete_object good_io 1 ''b'' ''k'' (Hlc 2 0) s); s2 = snd (delete_object good_io 2 ''b'' ''k'' (Hlc 3 0) s1)
   in sample_chunk \<in> dead_chunks ''b'' ''k'' s1 \<and> sample_chunk \<notin> live_chunks ''b'' ''k'' s2 \<union> dead_chunks ''b'' ''k'' s2"
proof -
  let ?s = "snd (put_object_in_bucket good_io 0 ''b'' (stored_row 1) empty_store)"
  have k: "object_key (stored_row 1) = ''k''" "chunks (stored_row 1) = [sample_chunk]" by (simp_all add: stored_row_def sample_row_def)
  have n: "name_ok ''b'' (object_key (stored_row 1))" using sample_name_ok by (simp add: k)
  have wf: "store_wf empty_store" using capture_inv_init by simp
  note v = put_views[OF wf n n, where now = 0]
  have "superseded ''b'' ''k'' w ?s = None" for w
    using v(4)[of w] by (simp add: k row_of_def tomb_of_def superseded_def empty_store_def get_object_def get_tombstone_def capture_def)
  moreover have "sample_chunk \<in> live_chunks ''b'' ''k'' ?s" using v(2) by (simp add: k live_chunks_def)
  ultimately show ?thesis
    using second_delete_forgets_chunks[OF v(1) sample_name_ok, of 1 "Hlc 2 0" 2 "Hlc 3 0"] by (auto simp: Let_def)
qed
end
