(* ===== verification/Spec2Isabelle.thy ===== *)
theory Spec2Isabelle
  imports Stripe Gossip Detector CheckpointRace AntiEntropy PoolSeals HandoffRuns LegacyHandoff MetaCapture
begin

text \<open>
  Verification library for OceanFS, a distributed object store written in Rust (\<^verbatim>\<open>src/crates\<close>).  Objects are appended to
  segments, segments are sealed, erasure coded and placed on the nodes of a consistent-hashing ring; membership of the ring is gossiped
  and watched by a failure detector; write-ahead logs make each node recover from a crash; a metadata store maps the keys of objects to
  their chunks and is synchronised between replicas; Merkle trees find replicas that differ, and hints are kept for nodes that are away.

  \<^bold>\<open>Conventions.\<close>  Machine integers are words (\<^typ>\<open>8 word\<close>, \<^typ>\<open>32 word\<close>, \<^typ>\<open>64 word\<close>), so that wrap-around is kept where the
  sources compute at a width; lengths and indices (\<^verbatim>\<open>usize\<close>) are natural numbers.  A Rust function that returns, fails or panics is a
  function into the \<^verbatim>\<open>outcome\<close> type of \<^verbatim>\<open>Prelude\<close> (\<^verbatim>\<open>Ok\<close>, \<^verbatim>\<open>Err\<close>, \<^verbatim>\<open>Panic\<close>).  A struct is a record, an enum a datatype, and a
  \<^verbatim>\<open>&mut self\<close> method a function that returns the new state.  Concurrent tasks are step relations whose steps are the critical
  sections of the code.  Clocks, random choices, hash functions (BLAKE3, SHA-256, CRC32), the network and what other tasks do while
  one waits are arguments; what a theorem needs of them is a hypothesis of that theorem.  The names of the definitions are those of
  the sources, with a prefix where two modules use one name.

  \<^bold>\<open>Foundations.\<close>
  \<^item> \<^verbatim>\<open>Prelude\<close>: the outcome type, machine integers, lemmas on lists, words and folds.
  \<^item> \<^verbatim>\<open>OrdMap\<close> and \<^verbatim>\<open>HashMaps\<close>: \<^verbatim>\<open>BTreeMap\<close> as a sorted association list and \<^verbatim>\<open>HashMap\<close> as a distinct one.  Both are instances of
    the locale \<^verbatim>\<open>map_contract\<close>, and clients use its lemmas through the interpretations.  \<^verbatim>\<open>HashMaps\<close> also holds the locale
    \<^verbatim>\<open>absorbing_merge\<close>, the contract of a merge that ignores what it has already seen, interpreted for the membership table and for
    gossip.
  \<^item> \<^verbatim>\<open>ByteCodec\<close>: slices and little-endian integers, shared by all on-disk formats.

  \<^bold>\<open>Erasure coding (\<^verbatim>\<open>oceanfs-ec\<close>).\<close>  \<^verbatim>\<open>GF256\<close> models the compile-time tables of \<^verbatim>\<open>gf/mod.rs\<close> and shows that the product is
  multiplication of polynomials modulo 0x11D, and that bytes form a field.  \<^verbatim>\<open>GFSimd\<close> models \<^verbatim>\<open>gf/simd_x86.rs\<close> over the vector
  instructions: detection, the split-table kernels, GFNI, remainders, the assertions on lengths; all but GFNI agree with the scalar
  product.  \<^verbatim>\<open>GFMatrix\<close> is the
  Gauss-Jordan inversion of \<^verbatim>\<open>cauchy.rs\<close>, \<^verbatim>\<open>Cauchy\<close> the encoder and decoder with the maximum-distance-separable property, \<^verbatim>\<open>Stripe\<close>
  the layout, interleaving, and the parallel codec of \<^verbatim>\<open>stripe/\<close>.  The locale \<^verbatim>\<open>stripe_codec\<close> is what the parallel codec needs of
  an encoder; the Cauchy codec provides it.

  \<^bold>\<open>Time, placement and reads.\<close>  \<^verbatim>\<open>HlcClock\<close> (\<^verbatim>\<open>oceanfs-core/src/hlc.rs\<close>) is the packed clock with its compare-exchange loops under
  interleaving.  \<^verbatim>\<open>NodeTypes\<close> holds the shared types.  \<^verbatim>\<open>Ring\<close> (\<^verbatim>\<open>oceanfs-routing\<close>) is the ring, its replica sets, owned ranges and
  cache.  \<^verbatim>\<open>Conflict\<close> is last-write-wins resolution and the quorum comparison of a read, through the locale \<^verbatim>\<open>conflict_resolver\<close>.

  \<^bold>\<open>Membership (\<^verbatim>\<open>oceanfs-membership\<close>).\<close>  \<^verbatim>\<open>MemberTypes\<close> and \<^verbatim>\<open>Members\<close> are the coordinator with the gates of an attributed upsert,
  join, leave and manifests; \<^verbatim>\<open>MemberRuns\<close> its runs: facts only improve, stale messages do not revive a node, redelivery of events
  with an address is absorbed.  Runs use \<^verbatim>\<open>set_peer_manifest\<close> on nodes of the table only; a lemma shows what it does to a removed one.
  \<^verbatim>\<open>Gossip\<close> is dissemination on both sides; \<^verbatim>\<open>Detector\<close> the SWIM failure detector with suspicion timers.

  \<^bold>\<open>Storage (\<^verbatim>\<open>oceanfs-storage\<close>).\<close>
  \<^item> \<^verbatim>\<open>WalEntries\<close> and \<^verbatim>\<open>DataWal\<close>: the data log, its entry format, replay, rotation, retention and group commit, with durability of
    acknowledged entries when every round syncs, and its failure after a rotation.
  \<^item> \<^verbatim>\<open>EventRecords\<close> and \<^verbatim>\<open>EventLog\<close>: the event log; across crashes it reads back a prefix of what was written, with every
    acknowledged event when the syncs succeed.
  \<^item> \<^verbatim>\<open>Lifecycle\<close>, \<^verbatim>\<open>Coordinator\<close>, \<^verbatim>\<open>Checkpoints\<close>, \<^verbatim>\<open>CheckpointRace\<close>: the registry of segment states, the requests that write
    events before they change it, snapshots and start-up.  For requests handled one after the other, without a checkpoint and with
    the default delete grace, recovery is shown to restore the registry; a checkpoint round trip is shown on its own, and
    \<^verbatim>\<open>CheckpointRace\<close> shows the loss that a checkpoint with two requests in flight can cause.
  \<^item> \<^verbatim>\<open>BufferPools\<close>, \<^verbatim>\<open>SegmentPools\<close>, \<^verbatim>\<open>PoolRuns\<close>, \<^verbatim>\<open>PoolReads\<close>, \<^verbatim>\<open>PoolSeals\<close>: the pools of active segments, their append loops
    and hand-offs; appended data stays readable until its segment is sealed or deleted, the append loop returns in a calm environment,
    and what the drain of pending seals leaves behind.
  \<^item> \<^verbatim>\<open>MetaKeys\<close>, \<^verbatim>\<open>MetaStore\<close>, \<^verbatim>\<open>MetaSync\<close>, \<^verbatim>\<open>MetaCapture\<close>: the keys and rows of the metadata store (\<^verbatim>\<open>metadata/store.rs\<close>), its
    writes, deletes, listings, sync and rebuild operations; replicas that know the same versions agree; no chunk is forgotten by
    overwrites and deletes, except by deleting a deleted key; a rebuild can revive a deleted object.

  \<^bold>\<open>Durability (\<^verbatim>\<open>oceanfs-durability\<close>).\<close>  \<^verbatim>\<open>MerkleTrees\<close> (construction, both ways to find differing leaves, proofs), \<^verbatim>\<open>AntiEntropy\<close>
  (the incremental tree, the cycles and the exchange with a peer), \<^verbatim>\<open>HealQueues\<close> (the bounded repair queue).  Hinted handoff is
  \<^verbatim>\<open>HintLog\<close> (the log of one target, \<^verbatim>\<open>hint_wal.rs\<close>), \<^verbatim>\<open>Handoff\<close> (the manager and its delivery loop, \<^verbatim>\<open>hint_delivery.rs\<close>),
  \<^verbatim>\<open>HandoffRuns\<close> (what is owed to a node is queued and survives a restart, in runs without disk faults, without two batches in flight
  and without an enqueue, crash or batch during a prune; and what goes wrong when an enqueue meets a prune) and \<^verbatim>\<open>LegacyHandoff\<close> (the
  older in-memory buffer).

  \<^bold>\<open>Loops and bounds.\<close>  Loops over a buffer recurse on what is left of it, so they are total functions; the compare-exchange loops are
  steps of a relation; the append loops of the pools, which need not return, are option-valued partial functions, and their return is a
  theorem.  No definition has a fuel argument.

  \<^bold>\<open>Not modelled.\<close>  RocksDB, gRPC, HTTP, TLS and the generated protocol code, which the sources only call; metrics and log messages;
  the accelerator back ends, which call foreign code; segment files, the sealer and disk I/O, storage pools and their health; the
  metadata journal and the sync worker around the store; the caches, garbage collection, compaction, scrubbing and repair workers;
  the replay of the data log into the pools; the write path and the read path beyond the quorum comparison; configuration and the
  composition root.  A locked section of the code is one step; failures of single system calls are modelled where the code reacts to
  them (the logs, hinted handoff, the metadata store).
\<close>

end
